(* ===== verification/Prelude.thy ===== *)
theory Prelude
  imports Main "HOL-Library.Word" "HOL-Library.AList" "HOL-Library.Char_ord"
    "HOL-Library.List_Lexorder" "HOL-Library.Sublist"
begin

text \<open>
  What every component shares: bytes and strings (a Rust \<open>String\<close> is the list of its
  UTF-8 bytes, so \<open>as_bytes\<close> is the identity), the string functions of the standard
  library the sources call, the state-and-error computation that a function returning
  \<open>Result\<close> becomes, and the Hoare triples with which the components are verified.
\<close>

section \<open>Theorem collections\<close>

named_theorems triple_intros \<open>rules that push a Hoare triple through a computation\<close>
named_theorems keeps_intros \<open>computations that keep an invariant\<close>
named_theorems fs_simps \<open>lookups after a file system update\<close>

section \<open>Bytes and strings\<close>

type_synonym byte = char
type_synonym bytes = "char list"

abbreviation newline :: char where "newline \<equiv> CHR 0x0A"
abbreviation carriage :: char where "carriage \<equiv> CHR 0x0D"
abbreviation slash :: char where "slash \<equiv> CHR ''/''"
abbreviation backslash :: char where "backslash \<equiv> CHR 0x5C"

text \<open>The UTF-8 encoding of the em dash that several messages contain.\<close>

abbreviation emdash :: string where "emdash \<equiv> [CHR 0xE2, CHR 0x80, CHR 0x94]"

definition code :: "char \<Rightarrow> nat" where
  "code c = of_char c"

lemma code_less [simp]: "code c < 256"
proof -
  have "(of_char c :: nat) mod 256 = of_char c" by simp
  then show ?thesis unfolding code_def by (metis mod_less_divisor zero_less_numeral)
qed

lemma code_inject [simp]: "code c = code d \<longleftrightarrow> c = d"
  by (simp add: code_def)

subsection \<open>UTF-8 validity (\<open>core::str::from_utf8\<close>)\<close>

definition utf8_cont :: "char \<Rightarrow> bool" where
  "utf8_cont c \<longleftrightarrow> 0x80 \<le> code c \<and> code c \<le> 0xBF"

definition utf8_lead2 :: "char \<Rightarrow> bool" where
  "utf8_lead2 a \<longleftrightarrow> 0xC2 \<le> code a \<and> code a \<le> 0xDF"

definition utf8_lead3 :: "char \<Rightarrow> char \<Rightarrow> bool" where
  "utf8_lead3 a b \<longleftrightarrow>
     code a = 0xE0 \<and> 0xA0 \<le> code b \<and> code b \<le> 0xBF
     \<or> code a = 0xED \<and> 0x80 \<le> code b \<and> code b \<le> 0x9F
     \<or> code a \<noteq> 0xED \<and> 0xE1 \<le> code a \<and> code a \<le> 0xEF \<and> utf8_cont b"

definition utf8_lead4 :: "char \<Rightarrow> char \<Rightarrow> bool" where
  "utf8_lead4 a b \<longleftrightarrow>
     code a = 0xF0 \<and> 0x90 \<le> code b \<and> code b \<le> 0xBF
     \<or> 0xF1 \<le> code a \<and> code a \<le> 0xF3 \<and> utf8_cont b
     \<or> code a = 0xF4 \<and> 0x80 \<le> code b \<and> code b \<le> 0x8F"

fun utf8_valid :: "bytes \<Rightarrow> bool" where
  "utf8_valid [] = True"
| "utf8_valid (a # s) =
     (if code a < 0x80 then utf8_valid s
      else case s of
        [] \<Rightarrow> False
      | b # s2 \<Rightarrow>
          if utf8_lead2 a then utf8_cont b \<and> utf8_valid s2
          else case s2 of
            [] \<Rightarrow> False
          | c # s3 \<Rightarrow>
              if utf8_lead3 a b then utf8_cont c \<and> utf8_valid s3
              else case s3 of
                [] \<Rightarrow> False
              | d # s4 \<Rightarrow> utf8_lead4 a b \<and> utf8_cont c \<and> utf8_cont d \<and> utf8_valid s4)"

lemma utf8_valid_append: "utf8_valid s \<Longrightarrow> utf8_valid t \<Longrightarrow> utf8_valid (s @ t)"
proof (induction s rule: utf8_valid.induct)
  case (2 a s)
  note IH = 2(1-4)
  show ?case
  proof (cases "code a < 0x80")
    case True
    with 2 show ?thesis by simp
  next
    case a: False
    with 2(5) obtain b s2 where s: "s = b # s2" by (cases s) auto
    show ?thesis
    proof (cases "utf8_lead2 a")
      case True
      with a IH(2) [OF a s True] 2(5,6) show ?thesis by (simp add: s)
    next
      case l2: False
      with a 2(5) obtain c s3 where s2: "s2 = c # s3" by (cases s2) (auto simp: s)
      show ?thesis
      proof (cases "utf8_lead3 a b")
        case True
        with a l2 IH(3) [OF a s l2 s2 True] 2(5,6) show ?thesis by (simp add: s s2)
      next
        case l3: False
        with a l2 2(5) obtain d s4 where s3: "s3 = d # s4" by (cases s3) (auto simp: s s2)
        with a l2 l3 IH(4) [OF a s l2 s2 l3 s3] 2(5,6) show ?thesis by (simp add: s s2)
      qed
    qed
  qed
qed simp

lemma utf8_lead_cont: "utf8_lead3 a b \<Longrightarrow> utf8_cont b" "utf8_lead4 a b \<Longrightarrow> utf8_cont b"
  by (auto simp: utf8_lead3_def utf8_lead4_def utf8_cont_def)

lemma utf8_char:
  assumes "utf8_valid (a # t)" "\<not> code a < 0x80"
  obtains b u where "t = b # u" "utf8_cont b" "utf8_lead2 a"
  | b c u where "t = b # c # u" "utf8_cont b" "utf8_cont c" "\<not> utf8_lead2 a" "utf8_lead3 a b"
  | b c d u where "t = b # c # d # u" "utf8_cont b" "utf8_cont c" "utf8_cont d"
      "\<not> utf8_lead2 a" "\<not> utf8_lead3 a b"
proof (cases t)
  case Nil
  with assms show ?thesis by simp
next
  case t: (Cons b u)
  show ?thesis
  proof (cases "utf8_lead2 a")
    case True
    with assms t that(1) [of b u] show ?thesis by simp
  next
    case l2: False
    with assms t obtain c v where u: "u = c # v" by (cases u) simp_all
    show ?thesis
    proof (cases "utf8_lead3 a b")
      case True
      with assms t u l2 that(2) [of b c v] show ?thesis by (simp add: utf8_lead_cont)
    next
      case l3: False
      with assms t u l2 obtain d x where "v = d # x" by (cases v) simp_all
      with assms t u l2 l3 that(3) [of b c d x] utf8_lead_cont(2) [of a b] show ?thesis by simp
    qed
  qed
qed

text \<open>A string cut before a byte that is no continuation.\<close>

lemma utf8_valid_cut:
  "utf8_valid (s @ t) \<Longrightarrow> t = [] \<or> \<not> utf8_cont (hd t) \<Longrightarrow> utf8_valid s"
proof (induction "length s" arbitrary: s rule: less_induct)
  case less
  show ?case
  proof (cases s)
    case Nil
    then show ?thesis by simp
  next
    case s: (Cons a r)
    show ?thesis
    proof (cases "code a < 0x80")
      case True
      with less(1) [of r] less(2,3) s show ?thesis by simp
    next
      case False
      have v: "utf8_valid (a # r @ t)" using less(2) s by simp
      have rest: "utf8_valid u" if "length u < length s" "utf8_valid (u @ t)" for u
        using less(1) [OF that less(3)] .
      from v False show ?thesis
      proof (cases rule: utf8_char)
        case (1 b u)
        then obtain r' where r: "r = b # r'" "u = r' @ t" using less(3) by (cases r) auto
        with 1 v False rest [of r'] s show ?thesis by simp
      next
        case (2 b c u)
        then obtain r' where r: "r = b # c # r'" "u = r' @ t" using less(3) by (cases r; cases "tl r") auto
        with 2 v False rest [of r'] s show ?thesis by simp
      next
        case (3 b c d u)
        then obtain r' where r: "r = b # c # d # r'" "u = r' @ t"
          using less(3) by (cases r; cases "tl r"; cases "tl (tl r)") auto
        with 3 v False rest [of r'] s show ?thesis by simp
      qed
    qed
  qed
qed

definition ascii :: "bytes \<Rightarrow> bool" where
  "ascii s \<longleftrightarrow> (\<forall>c \<in> set s. code c < 0x80)"

lemma ascii_simps [simp]:
  "ascii []" "ascii (c # s) \<longleftrightarrow> code c < 0x80 \<and> ascii s" "ascii (s @ t) \<longleftrightarrow> ascii s \<and> ascii t"
  by (auto simp: ascii_def)

lemma ascii_utf8_valid: "ascii s \<Longrightarrow> utf8_valid s"
  by (induction s) auto

subsection \<open>Trimming (\<open>str::trim\<close>)\<close>

text \<open>The UTF-8 encodings of the code points with the Unicode property White\_Space.\<close>

definition whitespace :: "string list" where
  "whitespace =
     [[CHR 0x09], [CHR 0x0A], [CHR 0x0B], [CHR 0x0C], [CHR 0x0D], [CHR 0x20],
      [CHR 0xC2, CHR 0x85], [CHR 0xC2, CHR 0xA0], [CHR 0xE1, CHR 0x9A, CHR 0x80],
      [CHR 0xE2, CHR 0x80, CHR 0x80], [CHR 0xE2, CHR 0x80, CHR 0x81],
      [CHR 0xE2, CHR 0x80, CHR 0x82], [CHR 0xE2, CHR 0x80, CHR 0x83],
      [CHR 0xE2, CHR 0x80, CHR 0x84], [CHR 0xE2, CHR 0x80, CHR 0x85],
      [CHR 0xE2, CHR 0x80, CHR 0x86], [CHR 0xE2, CHR 0x80, CHR 0x87],
      [CHR 0xE2, CHR 0x80, CHR 0x88], [CHR 0xE2, CHR 0x80, CHR 0x89],
      [CHR 0xE2, CHR 0x80, CHR 0x8A], [CHR 0xE2, CHR 0x80, CHR 0xA8],
      [CHR 0xE2, CHR 0x80, CHR 0xA9], [CHR 0xE2, CHR 0x80, CHR 0xAF],
      [CHR 0xE2, CHR 0x81, CHR 0x9F], [CHR 0xE3, CHR 0x80, CHR 0x80]]"

text \<open>Length of the first pattern of the list that starts the string (0: none does).\<close>

fun lead_len :: "string list \<Rightarrow> string \<Rightarrow> nat" where
  "lead_len [] s = 0"
| "lead_len (p # ps) s = (if take (length p) s = p then length p else lead_len ps s)"

function strip_lead :: "string list \<Rightarrow> string \<Rightarrow> string" where
  "strip_lead ps s =
     (if s = [] \<or> lead_len ps s = 0 then s else strip_lead ps (drop (lead_len ps s) s))"
  by pat_completeness auto
termination
  by (relation "measure (\<lambda>(ps, s). length s)") auto

declare strip_lead.simps [simp del]

definition trim_start :: "string \<Rightarrow> string" where
  "trim_start s = strip_lead whitespace s"

definition trim_end :: "string \<Rightarrow> string" where
  "trim_end s = rev (strip_lead (map rev whitespace) (rev s))"

definition trim :: "string \<Rightarrow> string" where
  "trim s = trim_end (trim_start s)"

lemma lead_len_some:
  "lead_len ps s = n \<Longrightarrow> n \<noteq> 0 \<Longrightarrow> \<exists>p \<in> set ps. p \<noteq> [] \<and> s = p @ drop n s"
proof (induction ps)
  case (Cons p ps)
  show ?case
  proof (cases "take (length p) s = p")
    case True
    with Cons(2,3) have "n = length p" "p \<noteq> []" by auto
    with True show ?thesis by (metis append_take_drop_id list.set_intros(1))
  next
    case False
    with Cons show ?thesis by auto
  qed
qed simp

lemma strip_lead_inv:
  assumes "\<And>p s. p \<in> set ps \<Longrightarrow> p \<noteq> [] \<Longrightarrow> P (p @ s) \<Longrightarrow> P s"
  shows "P s \<Longrightarrow> P (strip_lead ps s)"
proof (induction "length s" arbitrary: s rule: less_induct)
  case less
  show ?case
  proof (cases "s = [] \<or> lead_len ps s = 0")
    case True
    with less(2) show ?thesis by (subst strip_lead.simps) simp
  next
    case False
    then obtain p where p: "p \<in> set ps" "p \<noteq> []" "s = p @ drop (lead_len ps s) s"
      using lead_len_some [of ps s] by blast
    with less(2) have "P (drop (lead_len ps s) s)" using assms by metis
    moreover have "length (drop (lead_len ps s) s) < length s" using False by simp
    ultimately show ?thesis using less(1) False by (subst strip_lead.simps) simp
  qed
qed

lemma utf8_valid_trim:
  assumes "utf8_valid s"
  shows "utf8_valid (trim s)"
proof -
  have 1: "utf8_valid t" if "p \<in> set whitespace" "utf8_valid (p @ t)" for p t
    using that by (auto simp: whitespace_def code_def utf8_lead2_def utf8_lead3_def utf8_cont_def split: if_splits)
  have s: "utf8_valid (trim_start s)"
    unfolding trim_start_def using strip_lead_inv [where P = utf8_valid, OF 1 assms] .
  have hd: "\<not> utf8_cont (hd p)" if "p \<in> set whitespace" for p
    using that by (auto simp: whitespace_def code_def utf8_cont_def)
  have "utf8_valid (rev (strip_lead (map rev whitespace) (rev (trim_start s))))"
  proof (rule strip_lead_inv [of _ "\<lambda>x. utf8_valid (rev x)"])
    fix p t
    assume "p \<in> set (map rev whitespace)" "utf8_valid (rev (p @ t))"
    then obtain q where "q \<in> set whitespace" "utf8_valid (rev t @ q)" by auto
    with utf8_valid_cut [of "rev t" q] hd show "utf8_valid (rev t)" by blast
  qed (simp add: s)
  then show ?thesis by (simp add: trim_def trim_end_def)
qed

lemma strip_lead_none: "lead_len ps s = 0 \<Longrightarrow> strip_lead ps s = s"
  by (subst strip_lead.simps) simp

text \<open>No white space character starts or ends with a byte between 0x21 and 0x7F.\<close>

definition graphic :: "char \<Rightarrow> bool" where
  "graphic c \<longleftrightarrow> 0x21 \<le> code c \<and> code c < 0x80"

lemma whitespace_not_graphic:
  "\<forall>p \<in> set whitespace. p \<noteq> [] \<and> \<not> graphic (hd p) \<and> \<not> graphic (last p)"
  by (simp add: whitespace_def graphic_def code_def)

lemma lead_len_hd:
  "\<forall>p \<in> set ps. p \<noteq> [] \<and> hd p \<noteq> c \<Longrightarrow> lead_len ps (c # s) = 0"
proof (induction ps)
  case Nil
  then show ?case by simp
next
  case (Cons p ps)
  then show ?case by (cases p) auto
qed

lemma lead_len_graphic:
  assumes "graphic c"
  shows "lead_len whitespace (c # s) = 0" "lead_len (map rev whitespace) (c # s) = 0"
  using assms whitespace_not_graphic by (auto intro!: lead_len_hd simp: hd_rev)

lemma trim_graphic:
  assumes "\<forall>c \<in> set s. graphic c"
  shows "trim s = s"
proof -
  have start: "trim_start s = s"
  proof (cases s)
    case Nil
    then show ?thesis by (simp add: trim_start_def strip_lead.simps)
  next
    case (Cons c cs)
    with assms show ?thesis
      by (simp add: trim_start_def strip_lead_none lead_len_graphic)
  qed
  have "trim_end s = s"
  proof (cases "rev s")
    case Nil
    then show ?thesis by (simp add: trim_end_def strip_lead.simps)
  next
    case (Cons c cs)
    then have s: "s = rev cs @ [c]" by (simp add: rev_eq_Cons_iff)
    then have "c \<in> set s" by simp
    with assms have "graphic c" by blast
    with s show ?thesis
      by (simp add: trim_end_def strip_lead_none lead_len_graphic)
  qed
  with start show ?thesis by (simp add: trim_def)
qed

subsection \<open>Lines (\<open>str::lines\<close>, \<open>BufRead::lines\<close>)\<close>

text \<open>A line of graphic characters is read back without its newline.\<close>

lemma trim_line:
  assumes "\<forall>c \<in> set s. graphic c" "s \<noteq> []"
  shows "trim (s @ [newline]) = s"
proof -
  obtain c cs where c: "s = c # cs" using assms(2) by (cases s) auto
  have 1: "trim_start (s @ [newline]) = s @ [newline]"
    using assms(1) c by (simp add: trim_start_def strip_lead_none lead_len_graphic)
  obtain d ds where d: "rev s = d # ds" using assms(2) by (cases "rev s") auto
  then have "d \<in> set s" by (metis list.set_intros(1) set_rev)
  then have n: "lead_len (map rev whitespace) (rev s) = 0"
    using assms(1) d by (simp add: lead_len_graphic)
  have "lead_len (map rev whitespace) (newline # rev s) = 1" by (simp add: whitespace_def)
  then have "strip_lead (map rev whitespace) (newline # rev s) = rev s"
    using n by (subst strip_lead.simps) (simp add: strip_lead_none)
  with 1 show ?thesis by (simp add: trim_def trim_end_def)
qed

definition strip_cr :: "bytes \<Rightarrow> bytes" where
  "strip_cr s = (if s \<noteq> [] \<and> last s = carriage then butlast s else s)"

fun lines_from :: "bytes \<Rightarrow> bytes \<Rightarrow> bytes list" where
  "lines_from cur [] = (if cur = [] then [] else [rev cur])"
| "lines_from cur (c # s) =
     (if c = newline then strip_cr (rev cur) # lines_from [] s else lines_from (c # cur) s)"

definition text_lines :: "bytes \<Rightarrow> bytes list" where
  "text_lines s = lines_from [] s"

lemma lines_from_line:
  "newline \<notin> set l \<Longrightarrow>
   lines_from cur (l @ newline # s) = strip_cr (rev cur @ l) # lines_from [] s"
  by (induction l arbitrary: cur) auto

lemma lines_from_append:
  "s = [] \<or> last s = newline \<Longrightarrow> s = [] \<longrightarrow> cur = [] \<Longrightarrow>
   lines_from cur (s @ t) = lines_from cur s @ lines_from [] t"
proof (induction s arbitrary: cur)
  case Nil
  then show ?case by simp
next
  case (Cons c s)
  show ?case
  proof (cases "s = []")
    case True
    with Cons.prems show ?thesis by simp
  next
    case False
    with Cons.prems have "last s = newline" by simp
    with False Cons.IH show ?thesis by simp
  qed
qed

lemma text_lines_Nil [simp]: "text_lines [] = []"
  by (simp add: text_lines_def)

lemma text_lines_append:
  "s = [] \<or> last s = newline \<Longrightarrow> text_lines (s @ t) = text_lines s @ text_lines t"
  by (simp add: text_lines_def lines_from_append)

lemma text_lines_line:
  "newline \<notin> set l \<Longrightarrow> carriage \<notin> set l \<Longrightarrow> text_lines (l @ [newline]) = [l]"
proof -
  assume l: "newline \<notin> set l" "carriage \<notin> set l"
  from l(2) have "strip_cr l = l"
    by (auto simp: strip_cr_def dest: last_in_set)
  with lines_from_line [OF l(1), of "[]" "[]"] show ?thesis
    by (simp add: text_lines_def)
qed

subsection \<open>Splitting, replacing, searching, printing\<close>

fun split_on :: "char \<Rightarrow> string \<Rightarrow> string list" where
  "split_on d [] = [[]]"
| "split_on d (c # s) =
     (if c = d then [] # split_on d s
      else case split_on d s of [] \<Rightarrow> [[c]] | w # ws \<Rightarrow> (c # w) # ws)"

lemma split_on_ne [simp]: "split_on d s \<noteq> []"
  by (induction s) (auto split: list.splits)

lemma split_on_free: "w \<in> set (split_on d s) \<Longrightarrow> d \<notin> set w"
  by (induction s arbitrary: w) (auto split: list.splits if_splits)

lemma split_on_subset: "w \<in> set (split_on d s) \<Longrightarrow> set w \<subseteq> set s"
proof (induction s arbitrary: w)
  case Nil
  then show ?case by simp
next
  case (Cons c s)
  show ?case
  proof (cases "c = d")
    case True
    with Cons show ?thesis by auto
  next
    case False
    obtain v vs where "split_on d s = v # vs"
      by (cases "split_on d s") auto
    with False have "w = c # v \<or> w \<in> set vs" using Cons.prems by auto
    moreover have "set v \<subseteq> set s" using Cons.IH [of v] \<open>split_on d s = v # vs\<close> by simp
    ultimately show ?thesis using Cons.IH [of w] \<open>split_on d s = v # vs\<close> by auto
  qed
qed

definition replace_char :: "char \<Rightarrow> string \<Rightarrow> string \<Rightarrow> string" where
  "replace_char c t s = concat (map (\<lambda>x. if x = c then t else [x]) s)"

lemma replace_char_simps [simp]:
  "replace_char c t [] = []"
  "replace_char c t (x # s) = (if x = c then t else [x]) @ replace_char c t s"
  "replace_char c t (s @ u) = replace_char c t s @ replace_char c t u"
  by (simp_all add: replace_char_def)

lemma replace_char_notin: "c \<notin> set s \<Longrightarrow> replace_char c t s = s"
  by (induction s) auto

fun contains_str :: "string \<Rightarrow> string \<Rightarrow> bool" where
  "contains_str p [] = (p = [])"
| "contains_str p (c # s) = (take (length p) (c # s) = p \<or> contains_str p s)"

fun join_with :: "string \<Rightarrow> string list \<Rightarrow> string" where
  "join_with d [] = []"
| "join_with d [w] = w"
| "join_with d (w # ws) = w @ d @ join_with d ws"

fun dec :: "nat \<Rightarrow> string" where
  "dec n = (if n < 10 then [char_of (48 + n)] else dec (n div 10) @ [char_of (48 + n mod 10)])"

declare dec.simps [simp del]

definition digit :: "char \<Rightarrow> bool" where
  "digit c \<longleftrightarrow> 48 \<le> code c \<and> code c \<le> 57"

lemma code_char_of: "n < 256 \<Longrightarrow> code (char_of n) = n"
  by (simp add: code_def)

lemma dec_digits: "c \<in> set (dec n) \<Longrightarrow> digit c"
proof (induction n rule: dec.induct)
  case (1 n)
  show ?case
  proof (cases "n < 10")
    case True
    with "1.prems" show ?thesis by (auto simp: dec.simps [of n] digit_def code_char_of)
  next
    case False
    have "48 + n mod 10 < 256" by presburger
    with False "1" show ?thesis
      by (auto simp: dec.simps [of n] digit_def code_char_of)
  qed
qed

lemma dec_nonempty [simp]: "dec n \<noteq> []"
  by (subst dec.simps) simp

definition lower_char :: "char \<Rightarrow> char" where
  "lower_char c = (if 65 \<le> code c \<and> code c \<le> 90 then char_of (code c + 32) else c)"

definition is_upper :: "char \<Rightarrow> bool" where
  "is_upper c \<longleftrightarrow> 65 \<le> code c \<and> code c \<le> 90"

definition is_hexdigit :: "char \<Rightarrow> bool" where
  "is_hexdigit c \<longleftrightarrow> digit c \<or> 97 \<le> code c \<and> code c \<le> 102 \<or> 65 \<le> code c \<and> code c \<le> 70"

definition is_alnum :: "char \<Rightarrow> bool" where
  "is_alnum c \<longleftrightarrow> digit c \<or> 97 \<le> code c \<and> code c \<le> 122 \<or> is_upper c"

definition lower_hex :: "string \<Rightarrow> bool" where
  "lower_hex s \<longleftrightarrow> (\<forall>c \<in> set s. is_hexdigit c \<and> \<not> is_upper c)"

lemma lower_hex_graphic: "lower_hex s \<Longrightarrow> \<forall>c \<in> set s. graphic c"
  by (auto simp: lower_hex_def is_hexdigit_def graphic_def digit_def)

lemma lower_hex_trim: "lower_hex s \<Longrightarrow> trim s = s"
  by (simp add: lower_hex_graphic trim_graphic)

lemma lower_hex_ascii: "lower_hex s \<Longrightarrow> ascii s"
  by (auto simp: lower_hex_def is_hexdigit_def ascii_def digit_def)

section \<open>Computations that read and write a state and may fail\<close>

text \<open>
  A Rust function that returns \<open>Result\<close> and acts on the file system becomes a function
  from the world to a result and the next world. \<open>andThen\<close> is the \<open>?\<close> operator
  followed by the rest of the block, \<open>attempt\<close> hands the \<open>Result\<close> itself to the
  caller (a \<open>match\<close> on it, \<open>.ok()\<close>, \<open>let _ =\<close>).
\<close>

type_synonym ('w, 'e, 'a) comp = "'w \<Rightarrow> ('e + 'a) \<times> 'w"

definition ok :: "'a \<Rightarrow> ('w, 'e, 'a) comp" where
  "ok x = (\<lambda>w. (Inr x, w))"

definition fail :: "'e \<Rightarrow> ('w, 'e, 'a) comp" where
  "fail e = (\<lambda>w. (Inl e, w))"

definition lift :: "'e + 'a \<Rightarrow> ('w, 'e, 'a) comp" where
  "lift r = (\<lambda>w. (r, w))"

definition andThen ::
    "('w, 'e, 'a) comp \<Rightarrow> ('a \<Rightarrow> ('w, 'e, 'b) comp) \<Rightarrow> ('w, 'e, 'b) comp" where
  "andThen m f = (\<lambda>w. case m w of (Inl e, w') \<Rightarrow> (Inl e, w') | (Inr x, w') \<Rightarrow> f x w')"

definition attempt :: "('w, 'e, 'a) comp \<Rightarrow> ('w, 'e, 'e + 'a) comp" where
  "attempt m = (\<lambda>w. case m w of (r, w') \<Rightarrow> (Inr r, w'))"

definition map_err :: "('e \<Rightarrow> 'e) \<Rightarrow> ('w, 'e, 'a) comp \<Rightarrow> ('w, 'e, 'a) comp" where
  "map_err g m = (\<lambda>w. case m w of (Inl e, w') \<Rightarrow> (Inl (g e), w') | (Inr x, w') \<Rightarrow> (Inr x, w'))"

definition gets :: "('w \<Rightarrow> 'a) \<Rightarrow> ('w, 'e, 'a) comp" where
  "gets f = (\<lambda>w. (Inr (f w), w))"

fun foldIO :: "('s \<Rightarrow> 'x \<Rightarrow> ('w, 'e, 's) comp) \<Rightarrow> 's \<Rightarrow> 'x list \<Rightarrow> ('w, 'e, 's) comp" where
  "foldIO f s [] = ok s"
| "foldIO f s (x # xs) = andThen (f s x) (\<lambda>s'. foldIO f s' xs)"

text \<open>Evaluation: how a concrete run of a computation is computed.\<close>

lemma comp_eval:
  "ok x w = (Inr x, w)"
  "fail e w = (Inl e, w)"
  "lift r w = (r, w)"
  "gets f w = (Inr (f w), w)"
  by (simp_all add: ok_def fail_def lift_def gets_def)

lemma andThen_eval [simp]:
  "m w = (Inr x, w') \<Longrightarrow> andThen m f w = f x w'"
  "m w = (Inl e, w') \<Longrightarrow> andThen m f w = (Inl e, w')"
  by (simp_all add: andThen_def)

text \<open>The same where the result is a truth value, on which the simplifier does not match \<open>?x\<close>.\<close>

lemma andThen_eval_bool:
  "m w = (Inr True, w') \<Longrightarrow> andThen m f w = f True w'"
  "m w = (Inr False, w') \<Longrightarrow> andThen m f w = f False w'"
  by (simp_all add: andThen_def)

lemma andThen_units [simp]:
  "andThen (ok x) f = f x"
  "andThen (fail e) f = fail e"
  "andThen (lift (Inr x)) f = f x"
  "andThen (lift (Inl e)) f = fail e"
  by (simp_all add: andThen_def ok_def fail_def lift_def)

lemma andThen_Inr:
  "andThen m f w = (Inr y, w2) \<longleftrightarrow> (\<exists>x w1. m w = (Inr x, w1) \<and> f x w1 = (Inr y, w2))"
  by (auto simp: andThen_def split: prod.splits sum.splits)

lemma andThen_InrE:
  assumes "andThen m f w = (Inr y, w2)"
  obtains x w1 where "m w = (Inr x, w1)" "f x w1 = (Inr y, w2)"
  using assms by (auto simp: andThen_Inr)

lemma andThen_Inl:
  "andThen m f w = (Inl e, w2) \<longleftrightarrow>
     m w = (Inl e, w2) \<or> (\<exists>x w1. m w = (Inr x, w1) \<and> f x w1 = (Inl e, w2))"
  by (auto simp: andThen_def split: prod.splits sum.splits)

lemma andThen_assoc: "andThen (andThen m f) g = andThen m (\<lambda>x. andThen (f x) g)"
  by (auto simp: andThen_def fun_eq_iff split: prod.splits sum.splits)

lemma lift_Inr [simp]: "lift r w = (Inr x, w') \<longleftrightarrow> r = Inr x \<and> w' = w"
  by (auto simp: lift_def)

lemma attempt_iff [simp]: "attempt m w = (Inr x, w') \<longleftrightarrow> m w = (x, w')"
  by (cases "m w") (auto simp: attempt_def)

lemma attempt_not_Inl [simp]: "attempt m w \<noteq> (Inl e, w')"
  by (cases "m w") (auto simp: attempt_def)

lemma map_err_Inr [simp]: "map_err g m w = (Inr x, w') \<longleftrightarrow> m w = (Inr x, w')"
  by (cases "m w"; cases "fst (m w)") (auto simp: map_err_def)

lemma map_err_Inl: "map_err g m w = (Inl e, w') \<longleftrightarrow> (\<exists>e0. m w = (Inl e0, w') \<and> e = g e0)"
  by (cases "m w"; cases "fst (m w)") (auto simp: map_err_def)

lemma andThen_cong [fundef_cong]:
  assumes "m = m'" and "\<And>w x w1. m' w = (Inr x, w1) \<Longrightarrow> f x w1 = f' x w1"
  shows "andThen m f = andThen m' f'"
  using assms by (auto simp: andThen_def fun_eq_iff split: prod.splits sum.splits)

section \<open>Hoare triples\<close>

text \<open>
  \<open>triple P m Q X\<close>: from a world satisfying \<open>P\<close>, a success of \<open>m\<close> ends in
  \<open>Q\<close> (of its value and world), a failure in \<open>X\<close> (of its error and world). Every
  computation here is total, so this is total correctness.
\<close>

definition triple ::
    "('w \<Rightarrow> bool) \<Rightarrow> ('w, 'e, 'a) comp \<Rightarrow> ('a \<Rightarrow> 'w \<Rightarrow> bool) \<Rightarrow> ('e \<Rightarrow> 'w \<Rightarrow> bool) \<Rightarrow> bool" where
  "triple P m Q X \<longleftrightarrow>
     (\<forall>w. P w \<longrightarrow> (case m w of (Inr x, w') \<Rightarrow> Q x w' | (Inl e, w') \<Rightarrow> X e w'))"

lemma tripleI:
  assumes "\<And>w x w'. P w \<Longrightarrow> m w = (Inr x, w') \<Longrightarrow> Q x w'"
    and "\<And>w e w'. P w \<Longrightarrow> m w = (Inl e, w') \<Longrightarrow> X e w'"
  shows "triple P m Q X"
  using assms by (auto simp: triple_def split: prod.splits sum.splits)

lemma triple_Inr: "triple P m Q X \<Longrightarrow> P w \<Longrightarrow> m w = (Inr x, w') \<Longrightarrow> Q x w'"
  by (fastforce simp: triple_def split: prod.splits sum.splits)

lemma triple_Inl: "triple P m Q X \<Longrightarrow> P w \<Longrightarrow> m w = (Inl e, w') \<Longrightarrow> X e w'"
  by (fastforce simp: triple_def split: prod.splits sum.splits)

lemma triple_conseq:
  assumes "triple P' m Q' X'" and "\<And>w. P w \<Longrightarrow> P' w"
    and "\<And>x w. Q' x w \<Longrightarrow> Q x w" and "\<And>e w. X' e w \<Longrightarrow> X e w"
  shows "triple P m Q X"
  using assms by (fastforce simp: triple_def split: prod.splits sum.splits)

lemma triple_pre: "triple P' m Q X \<Longrightarrow> (\<And>w. P w \<Longrightarrow> P' w) \<Longrightarrow> triple P m Q X"
  by (rule triple_conseq)

lemma triple_ok [triple_intros]: "(\<And>w. P w \<Longrightarrow> Q x w) \<Longrightarrow> triple P (ok x) Q X"
  by (auto simp: triple_def comp_eval)

lemma triple_fail [triple_intros]: "(\<And>w. P w \<Longrightarrow> X e w) \<Longrightarrow> triple P (fail e) Q X"
  by (auto simp: triple_def comp_eval)

lemma triple_lift [triple_intros]:
  "(\<And>w x. P w \<Longrightarrow> r = Inr x \<Longrightarrow> Q x w) \<Longrightarrow> (\<And>w e. P w \<Longrightarrow> r = Inl e \<Longrightarrow> X e w)
   \<Longrightarrow> triple P (lift r) Q X"
  by (cases r) (auto simp: triple_def comp_eval)

lemma triple_gets [triple_intros]:
  "(\<And>w. P w \<Longrightarrow> Q (f w) w) \<Longrightarrow> triple P (gets f) Q X"
  by (auto simp: triple_def comp_eval)

lemma triple_andThen [triple_intros]:
  "triple P m R X \<Longrightarrow> (\<And>x. triple (R x) (f x) Q X) \<Longrightarrow> triple P (andThen m f) Q X"
  by (fastforce simp: triple_def andThen_def split: prod.splits sum.splits)

lemma triple_attempt [triple_intros]:
  "triple P m (\<lambda>x. Q (Inr x)) (\<lambda>e. Q (Inl e)) \<Longrightarrow> triple P (attempt m) Q X"
  unfolding triple_def attempt_def
proof (intro allI impI)
  fix w
  assume *: "\<forall>w. P w \<longrightarrow> (case m w of (Inl e, w') \<Rightarrow> Q (Inl e) w' | (Inr x, w') \<Rightarrow> Q (Inr x) w')"
    and "P w"
  obtain r w' where r: "m w = (r, w')" by fastforce
  with * \<open>P w\<close> show "case case m w of (r, w') \<Rightarrow> (Inr r, w') of
      (Inl e, w') \<Rightarrow> X e w' | (Inr x, w') \<Rightarrow> Q x w'"
    by (cases r) fastforce+
qed

lemma triple_map_err [triple_intros]:
  "triple P m Q (\<lambda>e. X (g e)) \<Longrightarrow> triple P (map_err g m) Q X"
  by (auto simp: triple_def map_err_def split: prod.splits sum.splits)

lemma triple_if [triple_intros]:
  "(b \<Longrightarrow> triple P m Q X) \<Longrightarrow> (\<not> b \<Longrightarrow> triple P n Q X) \<Longrightarrow> triple P (if b then m else n) Q X"
  by simp

lemma triple_pull: "(\<And>w. P w \<Longrightarrow> b) \<Longrightarrow> (b \<Longrightarrow> triple P m Q X) \<Longrightarrow> triple P m Q X"
  by (auto simp: triple_def)

text \<open>When the value of the first computation is known.\<close>

lemma triple_value:
  assumes "triple P m (\<lambda>x w. R w \<and> x = v) X" "triple R (f v) Q X"
  shows "triple P (andThen m f) Q X"
proof (rule triple_andThen [OF assms(1)])
  fix x
  show "triple (\<lambda>w. R w \<and> x = v) (f x) Q X"
    using assms(2) by (auto simp: triple_def)
qed

text \<open>When it satisfies a fact that no world is needed for.\<close>

lemma triple_fact:
  assumes "triple P m (\<lambda>x w. R w \<and> b x) X" "\<And>x. b x \<Longrightarrow> triple R (f x) Q X"
  shows "triple P (andThen m f) Q X"
proof (rule triple_andThen [OF assms(1)])
  fix x
  show "triple (\<lambda>w. R w \<and> b x) (f x) Q X"
    using assms(2) by (auto simp: triple_def)
qed

text \<open>A loop over a list, with an invariant that sees the elements already pre.\<close>

lemma triple_foldIO:
  assumes "\<And>pre x rest s. xs = pre @ x # rest \<Longrightarrow>
             triple (I pre s) (f s x) (\<lambda>s'. I (pre @ [x]) s') X"
  shows "triple (I [] s0) (foldIO f s0 xs) (\<lambda>s'. I xs s') X"
proof -
  have "triple (I pre s) (foldIO f s rest) (\<lambda>s'. I xs s') X" if "xs = pre @ rest" for pre rest s
    using that
  proof (induction rest arbitrary: pre s)
    case Nil
    then show ?case by (simp add: triple_ok)
  next
    case (Cons x rest)
    have "triple (I pre s) (f s x) (\<lambda>s'. I (pre @ [x]) s') X"
      using Cons.prems by (rule assms)
    moreover have "triple (I (pre @ [x]) s') (foldIO f s' rest) (\<lambda>s'. I xs s') X" for s'
      using Cons.prems by (intro Cons.IH) simp
    ultimately show ?case by (auto intro: triple_andThen)
  qed
  from this [of "[]" xs s0] show ?thesis by simp
qed

section \<open>Kept invariants\<close>

text \<open>\<open>keeps I m\<close>: whatever \<open>m\<close> returns, it leads from \<open>I\<close> to \<open>I\<close>.\<close>

definition keeps :: "('w \<Rightarrow> bool) \<Rightarrow> ('w, 'e, 'a) comp \<Rightarrow> bool" where
  "keeps I m \<longleftrightarrow> (\<forall>w. I w \<longrightarrow> I (snd (m w)))"

lemma keepsI: "(\<And>w r w'. I w \<Longrightarrow> m w = (r, w') \<Longrightarrow> I w') \<Longrightarrow> keeps I m"
  unfolding keeps_def by (metis prod.collapse)

lemma keepsD: "keeps I m \<Longrightarrow> I w \<Longrightarrow> m w = (r, w') \<Longrightarrow> I w'"
  by (metis keeps_def snd_conv)

lemma keeps_pure [keeps_intros]: "keeps I (ok x)" "keeps I (fail e)" "keeps I (lift r)" "keeps I (gets f)"
  by (simp_all add: keeps_def comp_eval)

lemma keeps_andThen [keeps_intros]:
  "keeps I m \<Longrightarrow> (\<And>x. keeps I (f x)) \<Longrightarrow> keeps I (andThen m f)"
  by (fastforce simp: keeps_def andThen_def split: prod.splits sum.splits)

text \<open>With what the first computation says of its value.\<close>

lemma keeps_andThen_value:
  assumes "keeps I m" "\<And>w x w'. I w \<Longrightarrow> m w = (Inr x, w') \<Longrightarrow> Q x" "\<And>x. Q x \<Longrightarrow> keeps I (f x)"
  shows "keeps I (andThen m f)"
proof (rule keepsI)
  fix w r w'
  assume w: "I w" and run: "andThen m f w = (r, w')"
  obtain y w1 where m: "m w = (y, w1)" by fastforce
  have i: "I w1" by (rule keepsD [OF assms(1) w m])
  show "I w'"
  proof (cases y)
    case (Inl e)
    with m run i show ?thesis by simp
  next
    case (Inr x)
    with m run have "f x w1 = (r, w')" by simp
    with assms(2) [OF w] assms(3) m i Inr show ?thesis by (blast intro: keepsD)
  qed
qed

lemma keeps_attempt [keeps_intros]: "keeps I m \<Longrightarrow> keeps I (attempt m)"
  by (auto simp: keeps_def attempt_def split: prod.splits)

lemma keeps_map_err [keeps_intros]: "keeps I m \<Longrightarrow> keeps I (map_err g m)"
  by (fastforce simp: keeps_def map_err_def split: prod.splits sum.splits)

lemma keeps_if [keeps_intros]: "(b \<Longrightarrow> keeps I m) \<Longrightarrow> (\<not> b \<Longrightarrow> keeps I n) \<Longrightarrow> keeps I (if b then m else n)"
  by simp

lemma keeps_option [keeps_intros]:
  "(a = None \<Longrightarrow> keeps I n) \<Longrightarrow> (\<And>x. a = Some x \<Longrightarrow> keeps I (f x)) \<Longrightarrow> keeps I (case a of None \<Rightarrow> n | Some x \<Rightarrow> f x)"
  by (cases a) simp_all

lemma keeps_sum [keeps_intros]:
  "(\<And>e. b = Inl e \<Longrightarrow> keeps I (g e)) \<Longrightarrow> (\<And>y. b = Inr y \<Longrightarrow> keeps I (h y)) \<Longrightarrow> keeps I (case b of Inl e \<Rightarrow> g e | Inr y \<Rightarrow> h y)"
  by (cases b) simp_all

lemma keeps_prod [keeps_intros]:
  "(\<And>u v. c = (u, v) \<Longrightarrow> keeps I (k u v)) \<Longrightarrow> keeps I (case c of (u, v) \<Rightarrow> k u v)"
  by (cases c) simp

lemma keeps_foldIO [keeps_intros]:
  assumes "\<And>s x. x \<in> set xs \<Longrightarrow> keeps I (f s x)"
  shows "keeps I (foldIO f s xs)"
  using assms by (induction xs arbitrary: s) (auto intro: keeps_intros)

section \<open>Values of successes\<close>

text \<open>\<open>yields m Q\<close>: whatever the state, a value that \<open>m\<close> returns satisfies \<open>Q\<close>.\<close>

definition yields :: "('w, 'e, 'a) comp \<Rightarrow> ('a \<Rightarrow> bool) \<Rightarrow> bool" where
  "yields m Q \<longleftrightarrow> (\<forall>w x w'. m w = (Inr x, w') \<longrightarrow> Q x)"

named_theorems yields_intros \<open>what computations return\<close>

lemma yieldsD: "yields m Q \<Longrightarrow> m w = (Inr x, w') \<Longrightarrow> Q x"
  unfolding yields_def by blast

lemma yields_ok [yields_intros]: "Q x \<Longrightarrow> yields (ok x) Q"
  by (simp add: yields_def comp_eval)

lemma yields_fail [yields_intros]: "yields (fail e) Q"
  by (simp add: yields_def comp_eval)

lemma yields_lift: "(\<And>x. r = Inr x \<Longrightarrow> Q x) \<Longrightarrow> yields (lift r) Q"
  by (simp add: yields_def)

lemma yields_andThen [yields_intros]: "(\<And>x. yields (f x) Q) \<Longrightarrow> yields (andThen m f) Q"
  unfolding yields_def by (auto simp: andThen_Inr)

lemma yields_andThen_value: "yields m P \<Longrightarrow> (\<And>x. P x \<Longrightarrow> yields (f x) Q) \<Longrightarrow> yields (andThen m f) Q"
  unfolding yields_def andThen_Inr by blast

lemma yields_cases [yields_intros]:
  "(b \<Longrightarrow> yields m Q) \<Longrightarrow> (\<not> b \<Longrightarrow> yields n Q) \<Longrightarrow> yields (if b then m else n) Q"
  by simp

lemma yields_option [yields_intros]:
  "(a = None \<Longrightarrow> yields n Q) \<Longrightarrow> (\<And>x. a = Some x \<Longrightarrow> yields (f x) Q) \<Longrightarrow> yields (case a of None \<Rightarrow> n | Some x \<Rightarrow> f x) Q"
  by (cases a) simp_all

lemma yields_sum [yields_intros]:
  "(\<And>e. b = Inl e \<Longrightarrow> yields (g e) Q) \<Longrightarrow> (\<And>y. b = Inr y \<Longrightarrow> yields (h y) Q) \<Longrightarrow> yields (case b of Inl e \<Rightarrow> g e | Inr y \<Rightarrow> h y) Q"
  by (cases b) simp_all

lemma yields_prod [yields_intros]:
  "(\<And>u v. c = (u, v) \<Longrightarrow> yields (k u v) Q) \<Longrightarrow> yields (case c of (u, v) \<Rightarrow> k u v) Q"
  by (cases c) simp

lemma yields_foldIO:
  assumes "P s" "\<And>s x. P s \<Longrightarrow> x \<in> set xs \<Longrightarrow> yields (f s x) P"
  shows "yields (foldIO f s xs) P"
  using assms
proof (induction xs arbitrary: s)
  case (Cons x xs)
  show ?case
    by (simp, rule yields_andThen_value [where P = P]) (use Cons in \<open>simp_all add: Cons.IH\<close>)
qed (simp add: yields_ok)

end
