(* ===== verification/Filesystem.thy ===== *)
theory Filesystem
  imports Prelude
begin

text \<open>
  The part of \<open>std::fs\<close> the sources call, over a POSIX file tree: nodes at physical
  paths, kernel path resolution that follows symbolic links, and one function per call. A
  file system is an association list from paths to nodes, so every function computes; the
  order in which a directory is listed is the order of the list, which no theorem fixes.
  Permission checks and hard links are not modelled.
\<close>

section \<open>Nodes and paths\<close>

type_synonym path = "string list"

text \<open>Modification times are nanoseconds since the epoch (negative before it).\<close>

datatype node =
    File bytes "32 word" int
  | Dir
  | Symlink bool "string list"  \<comment> \<open>absolute target?, its components\<close>

type_synonym fs = "(path \<times> node) list"

datatype ioerr =
    NotFound
  | AlreadyExists
  | NotADirectory
  | IsADirectory
  | DirectoryNotEmpty
  | FilesystemLoop
  | InvalidData
  | UnexpectedEof
  | OtherIo string

definition entry_at :: "fs \<Rightarrow> path \<Rightarrow> node option" where
  "entry_at fs p = (if p = [] then Some Dir else map_of fs p)"

definition put_node :: "path \<Rightarrow> node \<Rightarrow> fs \<Rightarrow> fs" where
  "put_node p nd fs = AList.update p nd fs"

definition drop_node :: "path \<Rightarrow> fs \<Rightarrow> fs" where
  "drop_node p fs = AList.delete p fs"

lemma entry_at_root [simp]: "entry_at fs [] = Some Dir"
  by (simp add: entry_at_def)

lemma entry_at_put [fs_simps]:
  "p \<noteq> [] \<Longrightarrow> entry_at (put_node p nd fs) q = (if q = p then Some nd else entry_at fs q)"
  by (auto simp: entry_at_def put_node_def update_conv')

lemma entry_at_drop [fs_simps]:
  "entry_at (drop_node p fs) q = (if q = p \<and> p \<noteq> [] then None else entry_at fs q)"
  by (auto simp: entry_at_def drop_node_def delete_conv')

fun is_link :: "node option \<Rightarrow> bool" where
  "is_link (Some (Symlink _ _)) = True"
| "is_link _ = False"

fun is_dir_node :: "node option \<Rightarrow> bool" where
  "is_dir_node (Some Dir) = True"
| "is_dir_node _ = False"

fun is_file_node :: "node option \<Rightarrow> bool" where
  "is_file_node (Some (File _ _ _)) = True"
| "is_file_node _ = False"

fun file_data :: "node option \<Rightarrow> bytes option" where
  "file_data (Some (File d _ _)) = Some d"
| "file_data _ = None"

lemma is_dir_node_iff [simp]: "is_dir_node n \<longleftrightarrow> n = Some Dir"
  by (cases n rule: is_dir_node.cases) auto

lemma is_file_node_iff: "is_file_node n \<longleftrightarrow> (\<exists>d m t. n = Some (File d m t))"
  by (cases n rule: is_file_node.cases) auto

lemma file_data_Some: "file_data n = Some d \<longleftrightarrow> (\<exists>m t. n = Some (File d m t))"
  by (cases n rule: file_data.cases) auto

section \<open>Kernel path resolution\<close>

text \<open>
  \<open>resolve n fs fl cur cs\<close> walks the components \<open>cs\<close> from the physical directory
  \<open>cur\<close>: \<open>n\<close> bounds the symbolic links followed, \<open>fl\<close> says whether a link in
  the last place is followed. The result is the physical path the call acts on, which need
  not exist when everything before its last component does.
\<close>

fun resolve :: "nat \<Rightarrow> fs \<Rightarrow> bool \<Rightarrow> path \<Rightarrow> string list \<Rightarrow> ioerr + path" where
  "resolve n fs fl cur [] = Inr cur"
| "resolve n fs fl cur (c # cs) =
     (if c = ''..'' then resolve n fs fl (butlast cur) cs
      else case entry_at fs (cur @ [c]) of
        None \<Rightarrow> if cs = [] then Inr (cur @ [c]) else Inl NotFound
      | Some Dir \<Rightarrow> resolve n fs fl (cur @ [c]) cs
      | Some (File _ _ _) \<Rightarrow> if cs = [] then Inr (cur @ [c]) else Inl NotADirectory
      | Some (Symlink ab t) \<Rightarrow>
          if cs = [] \<and> \<not> fl then Inr (cur @ [c])
          else case n of
            0 \<Rightarrow> Inl FilesystemLoop
          | Suc m \<Rightarrow> resolve m fs fl (if ab then [] else cur) (t @ cs))"

definition max_symlinks :: nat where
  "max_symlinks = 40"

definition lookup_path :: "bool \<Rightarrow> fs \<Rightarrow> path \<Rightarrow> ioerr + path" where
  "lookup_path fl fs p = resolve max_symlinks fs fl [] p"

section \<open>System calls\<close>

definition fs_stat :: "bool \<Rightarrow> fs \<Rightarrow> path \<Rightarrow> ioerr + node" where
  "fs_stat fl fs p =
     (case lookup_path fl fs p of
        Inl e \<Rightarrow> Inl e
      | Inr q \<Rightarrow> (case entry_at fs q of None \<Rightarrow> Inl NotFound | Some nd \<Rightarrow> Inr nd))"

definition fs_exists :: "fs \<Rightarrow> path \<Rightarrow> bool" where
  "fs_exists fs p = (case fs_stat True fs p of Inl _ \<Rightarrow> False | Inr _ \<Rightarrow> True)"

definition fs_is_dir :: "fs \<Rightarrow> path \<Rightarrow> bool" where
  "fs_is_dir fs p = (case fs_stat True fs p of Inl _ \<Rightarrow> False | Inr nd \<Rightarrow> is_dir_node (Some nd))"

definition fs_is_file :: "fs \<Rightarrow> path \<Rightarrow> bool" where
  "fs_is_file fs p = (case fs_stat True fs p of Inl _ \<Rightarrow> False | Inr nd \<Rightarrow> is_file_node (Some nd))"

definition fs_read :: "bool \<Rightarrow> fs \<Rightarrow> path \<Rightarrow> ioerr + bytes" where
  "fs_read fl fs p =
     (case fs_stat fl fs p of
        Inl e \<Rightarrow> Inl e
      | Inr (File d _ _) \<Rightarrow> Inr d
      | Inr Dir \<Rightarrow> Inl IsADirectory
      | Inr (Symlink _ _) \<Rightarrow> Inl FilesystemLoop)"

text \<open>\<open>create_new\<close> is \<open>O_CREAT | O_EXCL\<close>: any existing entry, a link included, is refused.\<close>

definition fs_create_new :: "32 word \<Rightarrow> int \<Rightarrow> fs \<Rightarrow> path \<Rightarrow> (ioerr + path) \<times> fs" where
  "fs_create_new m t fs p =
     (case lookup_path False fs p of
        Inl e \<Rightarrow> (Inl e, fs)
      | Inr q \<Rightarrow>
          (case entry_at fs q of
             None \<Rightarrow> (Inr q, put_node q (File [] m t) fs)
           | Some _ \<Rightarrow> (Inl AlreadyExists, fs)))"

text \<open>Open for appending (new files get mode 0644), creating the file if it is missing.\<close>

definition fs_open_append :: "int \<Rightarrow> fs \<Rightarrow> path \<Rightarrow> (ioerr + path) \<times> fs" where
  "fs_open_append t fs p =
     (case lookup_path True fs p of
        Inl e \<Rightarrow> (Inl e, fs)
      | Inr q \<Rightarrow>
          (case entry_at fs q of
             None \<Rightarrow> (Inr q, put_node q (File [] 0x1A4 t) fs)
           | Some (File _ _ _) \<Rightarrow> (Inr q, fs)
           | Some Dir \<Rightarrow> (Inl IsADirectory, fs)
           | Some (Symlink _ _) \<Rightarrow> (Inl FilesystemLoop, fs)))"

text \<open>Create or truncate, the open of \<open>fs::write\<close>.\<close>

definition fs_truncate :: "int \<Rightarrow> fs \<Rightarrow> path \<Rightarrow> (ioerr + path) \<times> fs" where
  "fs_truncate t fs p =
     (case lookup_path True fs p of
        Inl e \<Rightarrow> (Inl e, fs)
      | Inr q \<Rightarrow>
          (case entry_at fs q of
             None \<Rightarrow> (Inr q, put_node q (File [] 0x1A4 t) fs)
           | Some (File _ m _) \<Rightarrow> (Inr q, put_node q (File [] m t) fs)
           | Some Dir \<Rightarrow> (Inl IsADirectory, fs)
           | Some (Symlink _ _) \<Rightarrow> (Inl FilesystemLoop, fs)))"

text \<open>Append bytes through an open handle (the physical path the open returned).\<close>

definition fs_append :: "int \<Rightarrow> fs \<Rightarrow> path \<Rightarrow> bytes \<Rightarrow> fs" where
  "fs_append t fs q d =
     (case entry_at fs q of Some (File d0 m _) \<Rightarrow> put_node q (File (d0 @ d) m t) fs | _ \<Rightarrow> fs)"

definition fs_rename :: "fs \<Rightarrow> path \<Rightarrow> path \<Rightarrow> (ioerr + unit) \<times> fs" where
  "fs_rename fs p q =
     (case (lookup_path False fs p, lookup_path False fs q) of
        (Inl e, _) \<Rightarrow> (Inl e, fs)
      | (Inr _, Inl e) \<Rightarrow> (Inl e, fs)
      | (Inr p', Inr q') \<Rightarrow>
          (case entry_at fs p' of
             None \<Rightarrow> (Inl NotFound, fs)
           | Some Dir \<Rightarrow> (Inl (OtherIo ''rename of a directory''), fs)
           | Some nd \<Rightarrow>
               (if entry_at fs q' = Some Dir then (Inl IsADirectory, fs)
                else if p' = q' then (Inr (), fs)
                else (Inr (), put_node q' nd (drop_node p' fs)))))"

definition fs_unlink :: "fs \<Rightarrow> path \<Rightarrow> (ioerr + unit) \<times> fs" where
  "fs_unlink fs p =
     (case lookup_path False fs p of
        Inl e \<Rightarrow> (Inl e, fs)
      | Inr q \<Rightarrow>
          (case entry_at fs q of
             None \<Rightarrow> (Inl NotFound, fs)
           | Some Dir \<Rightarrow> (Inl IsADirectory, fs)
           | Some _ \<Rightarrow> (Inr (), drop_node q fs)))"

definition children :: "fs \<Rightarrow> path \<Rightarrow> string list" where
  "children fs d =
     remdups (map (\<lambda>e. last (fst e)) (filter (\<lambda>e. fst e \<noteq> [] \<and> butlast (fst e) = d) fs))"

definition fs_rmdir :: "fs \<Rightarrow> path \<Rightarrow> (ioerr + unit) \<times> fs" where
  "fs_rmdir fs p =
     (case lookup_path False fs p of
        Inl e \<Rightarrow> (Inl e, fs)
      | Inr q \<Rightarrow>
          (if entry_at fs q \<noteq> Some Dir then
             (Inl (if entry_at fs q = None then NotFound else NotADirectory), fs)
           else if q = [] \<or> children fs q \<noteq> [] then (Inl DirectoryNotEmpty, fs)
           else (Inr (), drop_node q fs)))"

text \<open>\<open>create_dir_all\<close>: every missing directory on the way is made.\<close>

fun mkdirs :: "fs \<Rightarrow> path \<Rightarrow> string list \<Rightarrow> (ioerr + unit) \<times> fs" where
  "mkdirs fs cur [] = (Inr (), fs)"
| "mkdirs fs cur (c # cs) =
     (if fs_is_dir fs (cur @ [c]) then mkdirs fs (cur @ [c]) cs
      else case lookup_path False fs (cur @ [c]) of
        Inl e \<Rightarrow> (Inl e, fs)
      | Inr r \<Rightarrow>
          (if entry_at fs r = None then mkdirs (put_node r Dir fs) (cur @ [c]) cs
           else (Inl AlreadyExists, fs)))"

definition fs_create_dir_all :: "fs \<Rightarrow> path \<Rightarrow> (ioerr + unit) \<times> fs" where
  "fs_create_dir_all fs p = mkdirs fs [] p"

definition fs_chmod :: "32 word \<Rightarrow> fs \<Rightarrow> path \<Rightarrow> (ioerr + unit) \<times> fs" where
  "fs_chmod m fs p =
     (case lookup_path True fs p of
        Inl e \<Rightarrow> (Inl e, fs)
      | Inr q \<Rightarrow>
          (case entry_at fs q of
             Some (File d _ t) \<Rightarrow> (Inr (), put_node q (File d m t) fs)
           | Some _ \<Rightarrow> (Inr (), fs)
           | None \<Rightarrow> (Inl NotFound, fs)))"

definition fs_read_dir :: "fs \<Rightarrow> path \<Rightarrow> ioerr + string list" where
  "fs_read_dir fs p =
     (case lookup_path True fs p of
        Inl e \<Rightarrow> Inl e
      | Inr q \<Rightarrow>
          (case entry_at fs q of
             None \<Rightarrow> Inl NotFound
           | Some Dir \<Rightarrow> Inr (children fs q)
           | Some _ \<Rightarrow> Inl NotADirectory))"

text \<open>\<open>canonicalize\<close>: the physical path of an entry that exists.\<close>

definition fs_canonicalize :: "fs \<Rightarrow> path \<Rightarrow> ioerr + path" where
  "fs_canonicalize fs p =
     (case lookup_path True fs p of
        Inl e \<Rightarrow> Inl e
      | Inr q \<Rightarrow> (case entry_at fs q of None \<Rightarrow> Inl NotFound | Some _ \<Rightarrow> Inr q))"

section \<open>Well-formed trees and link-free regions\<close>

definition wf_fs :: "fs \<Rightarrow> bool" where
  "wf_fs fs \<longleftrightarrow> (\<forall>p. entry_at fs p \<noteq> None \<longrightarrow> entry_at fs (butlast p) = Some Dir)"

text \<open>No symbolic link on the way to \<open>p\<close>, nor at \<open>p\<close> itself, and no \<open>..\<close>.\<close>

definition clean_path :: "fs \<Rightarrow> path \<Rightarrow> bool" where
  "clean_path fs p \<longleftrightarrow> ''..'' \<notin> set p \<and> (\<forall>q. prefix q p \<longrightarrow> \<not> is_link (entry_at fs q))"

lemma wf_fs_parent: "wf_fs fs \<Longrightarrow> entry_at fs (p @ [c]) \<noteq> None \<Longrightarrow> entry_at fs p = Some Dir"
  by (metis wf_fs_def butlast_snoc)

lemma wf_fs_ancestor:
  assumes "wf_fs fs" "entry_at fs (p @ q) \<noteq> None" "q \<noteq> []"
  shows "entry_at fs p = Some Dir"
  using assms(2,3)
proof (induction q rule: rev_induct)
  case Nil
  then show ?case by simp
next
  case (snoc c q)
  then have "entry_at fs (p @ q) = Some Dir"
    using wf_fs_parent [OF assms(1), of "p @ q" c] by simp
  with snoc.IH show ?case by (cases "q = []") auto
qed

lemma wf_fs_put:
  assumes "wf_fs fs" "p \<noteq> []" "entry_at fs (butlast p) = Some Dir"
    and "nd = Dir \<or> entry_at fs p \<noteq> Some Dir"
  shows "wf_fs (put_node p nd fs)"
  unfolding wf_fs_def
proof (intro allI impI)
  fix q
  assume q: "entry_at (put_node p nd fs) q \<noteq> None"
  have ne: "butlast p \<noteq> p" using assms(2) by (metis append_butlast_last_id append_self_conv list.discI)
  show "entry_at (put_node p nd fs) (butlast q) = Some Dir"
  proof (cases "q = p")
    case True
    with assms ne show ?thesis by (simp add: entry_at_put)
  next
    case False
    with q assms have "entry_at fs (butlast q) = Some Dir"
      by (auto simp: entry_at_put wf_fs_def)
    with assms show ?thesis by (auto simp: entry_at_put)
  qed
qed

lemma wf_fs_drop:
  assumes "wf_fs fs" "entry_at fs p \<noteq> Some Dir"
  shows "wf_fs (drop_node p fs)"
  using assms unfolding wf_fs_def by (auto simp: entry_at_drop)

lemma clean_path_prefix: "clean_path fs p \<Longrightarrow> prefix q p \<Longrightarrow> clean_path fs q"
  unfolding clean_path_def by (meson prefix_order.trans set_mono_prefix subsetD)

lemma clean_path_Cons:
  assumes "clean_path fs (cur @ c # cs)"
  shows "c \<noteq> ''..''" "\<not> is_link (entry_at fs (cur @ [c]))" "clean_path fs ((cur @ [c]) @ cs)"
  using assms by (auto simp: clean_path_def)

lemma wf_fs_below_non_dir:
  assumes "wf_fs fs" "entry_at fs p \<noteq> Some Dir" "q \<noteq> []"
  shows "entry_at fs (p @ q) = None"
  using wf_fs_ancestor [OF assms(1) _ assms(3)] assms(2) by blast

lemma resolve_clean_ok:
  assumes "wf_fs fs" "clean_path fs (cur @ cs)" "cs = [] \<or> entry_at fs (butlast (cur @ cs)) = Some Dir"
  shows "resolve n fs fl cur cs = Inr (cur @ cs)"
  using assms(2,3)
proof (induction cs arbitrary: cur)
  case Nil
  then show ?case by simp
next
  case (Cons c cs)
  note c = clean_path_Cons [OF Cons.prems(1)]
  show ?case
  proof (cases "cs = []")
    case True
    with c show ?thesis
      by (cases "entry_at fs (cur @ [c])" rule: is_link.cases) (auto split: node.splits)
  next
    case False
    then obtain xs x where cs: "cs = xs @ [x]" by (metis rev_exhaust)
    from False Cons.prems(2) have par: "entry_at fs (cur @ c # xs) = Some Dir"
      by (simp add: cs butlast_append)
    then have "entry_at fs (cur @ [c]) = Some Dir"
      using wf_fs_ancestor [OF assms(1), of "cur @ [c]" xs] by (cases "xs = []") auto
    moreover have "resolve n fs fl (cur @ [c]) cs = Inr ((cur @ [c]) @ cs)"
      using c(3) par by (intro Cons.IH) (simp_all add: cs butlast_append)
    ultimately show ?thesis using c(1) by simp
  qed
qed

lemma resolve_clean_err:
  assumes "wf_fs fs" "clean_path fs (cur @ cs)" "entry_at fs cur = Some Dir" "cs \<noteq> []"
    and "entry_at fs (butlast (cur @ cs)) \<noteq> Some Dir"
  shows "\<exists>e. resolve n fs fl cur cs = Inl e"
  using assms(2-5)
proof (induction cs arbitrary: cur)
  case Nil
  then show ?case by simp
next
  case (Cons c cs)
  note c = clean_path_Cons [OF Cons.prems(1)]
  have ne: "cs \<noteq> []" using Cons.prems(2,4) by auto
  show ?case
  proof (cases "entry_at fs (cur @ [c])" rule: is_link.cases)
    case (1 ab t)
    with c show ?thesis by simp
  next
    case "2_1"
    with c ne show ?thesis by simp
  next
    case "2_2"
    with c ne show ?thesis by simp
  next
    case "2_3"
    moreover have "\<exists>e. resolve n fs fl (cur @ [c]) cs = Inl e"
      using Cons.prems c(3) ne "2_3" by (intro Cons.IH) (simp_all add: butlast_append)
    ultimately show ?thesis using c by simp
  qed
qed

lemma lookup_clean_ok:
  "wf_fs fs \<Longrightarrow> clean_path fs p \<Longrightarrow> entry_at fs (butlast p) = Some Dir \<Longrightarrow> lookup_path fl fs p = Inr p"
  unfolding lookup_path_def using resolve_clean_ok [of fs "[]" p] by simp

lemma lookup_clean_present:
  "wf_fs fs \<Longrightarrow> clean_path fs p \<Longrightarrow> entry_at fs p \<noteq> None \<Longrightarrow> lookup_path fl fs p = Inr p"
  by (rule lookup_clean_ok) (auto simp: wf_fs_def)

lemma lookup_clean_cases:
  assumes "wf_fs fs" "clean_path fs p"
  obtains (found) "lookup_path fl fs p = Inr p" "entry_at fs (butlast p) = Some Dir"
  | (missing) e where "lookup_path fl fs p = Inl e" "entry_at fs p = None"
proof (cases "entry_at fs (butlast p) = Some Dir")
  case True
  with assms show ?thesis by (intro found lookup_clean_ok)
next
  case False
  then have "p \<noteq> []" by auto
  with False assms obtain e where "lookup_path fl fs p = Inl e"
    unfolding lookup_path_def using resolve_clean_err [of fs "[]" p] by auto
  moreover from False assms(1) have "entry_at fs p = None" by (auto simp: wf_fs_def)
  ultimately show ?thesis by (rule missing)
qed

lemma fs_stat_clean:
  "wf_fs fs \<Longrightarrow> clean_path fs p \<Longrightarrow> entry_at fs p = Some nd \<Longrightarrow> fs_stat fl fs p = Inr nd"
  by (simp add: fs_stat_def lookup_clean_present)

lemma fs_stat_clean_none:
  assumes "wf_fs fs" "clean_path fs p" "entry_at fs p = None"
  obtains e where "fs_stat fl fs p = Inl e"
  using assms(1,2)
proof (cases rule: lookup_clean_cases [where fl = fl])
  case found
  with assms(3) that show ?thesis by (simp add: fs_stat_def)
next
  case (missing e)
  with that show ?thesis by (simp add: fs_stat_def)
qed

lemma fs_exists_clean:
  assumes "wf_fs fs" "clean_path fs p"
  shows "fs_exists fs p \<longleftrightarrow> entry_at fs p \<noteq> None"
    and "fs_is_dir fs p \<longleftrightarrow> entry_at fs p = Some Dir"
    and "fs_is_file fs p \<longleftrightarrow> is_file_node (entry_at fs p)"
proof -
  have "(fs_exists fs p \<longleftrightarrow> entry_at fs p \<noteq> None) \<and> (fs_is_dir fs p \<longleftrightarrow> entry_at fs p = Some Dir)
    \<and> (fs_is_file fs p \<longleftrightarrow> is_file_node (entry_at fs p))"
  proof (cases "entry_at fs p")
    case None
    then obtain e where "fs_stat True fs p = Inl e" using fs_stat_clean_none [OF assms] by metis
    with None show ?thesis by (simp add: fs_exists_def fs_is_dir_def fs_is_file_def)
  next
    case (Some nd)
    from fs_stat_clean [OF assms Some] Some show ?thesis
      by (simp add: fs_exists_def fs_is_dir_def fs_is_file_def)
  qed
  then show "fs_exists fs p \<longleftrightarrow> entry_at fs p \<noteq> None"
    and "fs_is_dir fs p \<longleftrightarrow> entry_at fs p = Some Dir"
    and "fs_is_file fs p \<longleftrightarrow> is_file_node (entry_at fs p)" by simp_all
qed

lemma fs_read_clean:
  assumes "wf_fs fs" "clean_path fs p"
  shows "fs_read fl fs p = Inr d \<longleftrightarrow> file_data (entry_at fs p) = Some d"
proof (cases "entry_at fs p")
  case None
  then obtain e where "fs_stat fl fs p = Inl e" using fs_stat_clean_none [OF assms] by metis
  with None show ?thesis by (simp add: fs_read_def)
next
  case (Some nd)
  from fs_stat_clean [OF assms Some] Some show ?thesis
    by (cases nd) (simp_all add: fs_read_def)
qed

text \<open>What a lookup of a missing entry reports when only directories precede it.\<close>

lemma fs_stat_not_found:
  assumes "wf_fs fs" "clean_path fs p" "entry_at fs p = None"
    and "\<And>q. prefix q p \<Longrightarrow> entry_at fs q = None \<or> entry_at fs q = Some Dir"
  shows "fs_stat fl fs p = Inl NotFound"
proof -
  have "resolve n fs fl cur cs = Inr (cur @ cs) \<or> resolve n fs fl cur cs = Inl NotFound"
    if "cur @ cs = p" for n cur cs
    using that
  proof (induction cs arbitrary: cur)
    case Nil
    then show ?case by simp
  next
    case (Cons c cs)
    then have "clean_path fs (cur @ c # cs)" using assms(2) by simp
    note c = clean_path_Cons [OF this]
    have "entry_at fs (cur @ [c]) = None \<or> entry_at fs (cur @ [c]) = Some Dir"
      by (rule assms(4)) (use Cons.prems in auto)
    with c(1) Cons.IH [of "cur @ [c]"] Cons.prems show ?case by auto
  qed
  from this [of "[]" p] have "lookup_path fl fs p = Inr p \<or> lookup_path fl fs p = Inl NotFound"
    by (auto simp: lookup_path_def)
  with assms(3) show ?thesis by (auto simp: fs_stat_def)
qed

section \<open>What the calls do on link-free paths\<close>

lemma fs_create_new_clean:
  assumes "wf_fs fs" "clean_path fs p" "fs_create_new m t fs p = (r, fs')"
  shows "case r of
      Inl e \<Rightarrow> fs' = fs
    | Inr q \<Rightarrow> q = p \<and> entry_at fs p = None \<and> entry_at fs (butlast p) = Some Dir
        \<and> fs' = put_node p (File [] m t) fs"
  using assms(1,2)
proof (cases rule: lookup_clean_cases [where fl = False])
  case found
  with assms(3) show ?thesis by (cases r) (auto simp: fs_create_new_def split: option.splits)
next
  case (missing e)
  with assms(3) show ?thesis by (cases r) (auto simp: fs_create_new_def)
qed

lemma fs_open_append_clean:
  assumes "wf_fs fs" "clean_path fs p" "fs_open_append t fs p = (r, fs')"
  shows "case r of
      Inl e \<Rightarrow> fs' = fs
    | Inr q \<Rightarrow> q = p \<and> (entry_at fs p = None \<and> entry_at fs (butlast p) = Some Dir
          \<and> fs' = put_node p (File [] 0x1A4 t) fs
        \<or> is_file_node (entry_at fs p) \<and> fs' = fs)"
  using assms(1,2)
proof (cases rule: lookup_clean_cases [where fl = True])
  case found
  with assms(3) show ?thesis
    by (cases r) (auto simp: fs_open_append_def is_file_node_iff split: option.splits node.splits)
next
  case (missing e)
  with assms(3) show ?thesis by (cases r) (auto simp: fs_open_append_def)
qed

lemma fs_truncate_clean:
  assumes "wf_fs fs" "clean_path fs p" "fs_truncate t fs p = (r, fs')"
  shows "case r of
      Inl e \<Rightarrow> fs' = fs
    | Inr q \<Rightarrow> q = p \<and> entry_at fs p \<noteq> Some Dir \<and> entry_at fs (butlast p) = Some Dir
        \<and> (\<exists>m. fs' = put_node p (File [] m t) fs)"
  using assms(1,2)
proof (cases rule: lookup_clean_cases [where fl = True])
  case found
  with assms(3) show ?thesis
    by (cases r) (auto simp: fs_truncate_def split: option.splits node.splits)
next
  case (missing e)
  with assms(3) show ?thesis by (cases r) (auto simp: fs_truncate_def)
qed

lemma fs_rename_clean:
  assumes "wf_fs fs" "clean_path fs p" "clean_path fs q" "fs_rename fs p q = (r, fs')"
  shows "case r of
      Inl e \<Rightarrow> fs' = fs
    | Inr _ \<Rightarrow> \<exists>nd. entry_at fs p = Some nd \<and> nd \<noteq> Dir \<and> entry_at fs q \<noteq> Some Dir
        \<and> entry_at fs (butlast q) = Some Dir
        \<and> fs' = (if p = q then fs else put_node q nd (drop_node p fs))"
  using assms(1,2)
proof (cases rule: lookup_clean_cases [where fl = False])
  case found
  note p = this
  from assms(1,3) show ?thesis
  proof (cases rule: lookup_clean_cases [where fl = False])
    case found
    with p assms(4) show ?thesis
      by (auto simp: fs_rename_def split: option.splits node.splits if_splits)
  next
    case (missing e)
    with p assms(4) show ?thesis by (auto simp: fs_rename_def)
  qed
next
  case (missing e)
  with assms(4) show ?thesis by (auto simp: fs_rename_def)
qed

lemma fs_unlink_result:
  assumes "fs_unlink fs p = (r, fs')"
  shows "case r of
      Inl e \<Rightarrow> fs' = fs
    | Inr _ \<Rightarrow> \<exists>q. lookup_path False fs p = Inr q \<and> entry_at fs q \<noteq> None
        \<and> entry_at fs q \<noteq> Some Dir \<and> fs' = drop_node q fs"
  using assms by (auto simp: fs_unlink_def split: sum.splits option.splits node.splits)

lemma fs_chmod_result:
  assumes "fs_chmod m fs p = (r, fs')"
  shows "case r of
      Inl e \<Rightarrow> fs' = fs
    | Inr _ \<Rightarrow> \<exists>q. lookup_path True fs p = Inr q
        \<and> (fs' = fs \<or> (\<exists>d m0 t. entry_at fs q = Some (File d m0 t) \<and> fs' = put_node q (File d m t) fs))"
  using assms by (auto simp: fs_chmod_def split: sum.splits option.splits node.splits)

subsection \<open>Making directories\<close>

text \<open>\<open>fs'\<close> has the nodes of \<open>fs\<close> and perhaps new directories on the way to \<open>p\<close>.\<close>

definition dirs_added :: "path \<Rightarrow> fs \<Rightarrow> fs \<Rightarrow> bool" where
  "dirs_added p fs fs' \<longleftrightarrow>
     (\<forall>q. entry_at fs' q = entry_at fs q
        \<or> entry_at fs q = None \<and> entry_at fs' q = Some Dir \<and> prefix q p)"

lemma dirs_added_refl [simp]: "dirs_added p fs fs"
  by (simp add: dirs_added_def)

lemma dirs_added_trans: "dirs_added p fs g \<Longrightarrow> dirs_added p g h \<Longrightarrow> dirs_added p fs h"
  unfolding dirs_added_def by (metis option.distinct(1))

lemma dirs_added_link: "dirs_added p fs fs' \<Longrightarrow> is_link (entry_at fs' q) \<longleftrightarrow> is_link (entry_at fs q)"
  unfolding dirs_added_def by (metis is_link.simps(2,4))

lemma dirs_added_clean: "dirs_added p fs fs' \<Longrightarrow> clean_path fs' q \<longleftrightarrow> clean_path fs q"
  by (simp add: clean_path_def dirs_added_link)

lemma dirs_added_data: "dirs_added p fs fs' \<Longrightarrow> file_data (entry_at fs' q) = file_data (entry_at fs q)"
  unfolding dirs_added_def by (metis file_data.simps(2,3))

lemma mkdirs_clean:
  assumes "wf_fs fs" "clean_path fs (cur @ cs)" "entry_at fs cur = Some Dir"
    and "mkdirs fs cur cs = (r, fs')"
  shows "wf_fs fs' \<and> dirs_added (cur @ cs) fs fs'
    \<and> (r = Inr () \<longrightarrow> (\<forall>q. prefix q (cur @ cs) \<longrightarrow> entry_at fs' q = Some Dir))"
  using assms
proof (induction cs arbitrary: fs cur)
  case Nil
  then have "\<forall>q. prefix q cur \<longrightarrow> entry_at fs q = Some Dir"
    by (metis append.right_neutral option.distinct(1) prefix_def wf_fs_ancestor)
  with Nil show ?case by simp
next
  case (Cons c cs)
  have cq: "clean_path fs (cur @ [c])" by (rule clean_path_prefix [OF Cons.prems(2)]) simp
  have lk: "lookup_path False fs (cur @ [c]) = Inr (cur @ [c])"
    using Cons.prems(1,3) cq by (intro lookup_clean_ok) simp_all
  consider (dir) "entry_at fs (cur @ [c]) = Some Dir" | (new) "entry_at fs (cur @ [c]) = None"
    | (other) nd where "entry_at fs (cur @ [c]) = Some nd" "nd \<noteq> Dir"
    by (cases "entry_at fs (cur @ [c])") auto
  then show ?case
  proof cases
    case dir
    then have "mkdirs fs (cur @ [c]) cs = (r, fs')"
      using Cons.prems cq by (simp add: fs_exists_clean)
    with Cons.prems dir Cons.IH [of fs "cur @ [c]"] show ?thesis by simp
  next
    case new
    let ?g = "put_node (cur @ [c]) Dir fs"
    have rest: "mkdirs ?g (cur @ [c]) cs = (r, fs')"
      using Cons.prems cq lk new by (simp add: fs_exists_clean)
    have da: "dirs_added (cur @ c # cs) fs ?g" using new by (auto simp: dirs_added_def entry_at_put)
    have "wf_fs ?g" using Cons.prems new by (intro wf_fs_put) simp_all
    moreover have "clean_path ?g ((cur @ [c]) @ cs)"
      using Cons.prems(2) dirs_added_clean [OF da] by simp
    moreover have "entry_at ?g (cur @ [c]) = Some Dir" by (simp add: entry_at_put)
    ultimately have "wf_fs fs' \<and> dirs_added ((cur @ [c]) @ cs) ?g fs'
      \<and> (r = Inr () \<longrightarrow> (\<forall>q. prefix q ((cur @ [c]) @ cs) \<longrightarrow> entry_at fs' q = Some Dir))"
      using rest by (rule Cons.IH)
    with da show ?thesis by (auto intro: dirs_added_trans)
  next
    case other
    then have "r = Inl AlreadyExists \<and> fs' = fs"
      using Cons.prems cq lk by (simp add: fs_exists_clean)
    with Cons.prems show ?thesis by simp
  qed
qed

lemma fs_create_dir_all_clean:
  assumes "wf_fs fs" "clean_path fs p" "fs_create_dir_all fs p = (r, fs')"
  shows "wf_fs fs'" "dirs_added p fs fs'"
    and "r = Inr () \<Longrightarrow> prefix q p \<Longrightarrow> entry_at fs' q = Some Dir"
  using mkdirs_clean [of fs "[]" p r fs'] assms by (simp_all add: fs_create_dir_all_def)

text \<open>Directories can be made when no entry on the way is something else.\<close>

lemma mkdirs_succeeds:
  assumes "wf_fs fs" "clean_path fs (cur @ cs)" "entry_at fs cur = Some Dir"
    and "\<And>q. prefix q (cur @ cs) \<Longrightarrow> entry_at fs q = None \<or> entry_at fs q = Some Dir"
  shows "fst (mkdirs fs cur cs) = Inr ()"
  using assms
proof (induction cs arbitrary: fs cur)
  case Nil
  then show ?case by simp
next
  case (Cons c cs)
  have cq: "clean_path fs (cur @ [c])" by (rule clean_path_prefix [OF Cons.prems(2)]) simp
  have lk: "lookup_path False fs (cur @ [c]) = Inr (cur @ [c])"
    using Cons.prems(1,3) cq by (intro lookup_clean_ok) simp_all
  show ?case
  proof (cases "entry_at fs (cur @ [c]) = Some Dir")
    case True
    have "fst (mkdirs fs (cur @ [c]) cs) = Inr ()"
      using Cons.prems True by (intro Cons.IH) simp_all
    with True Cons.prems(1) cq show ?thesis by (simp add: fs_exists_clean)
  next
    case False
    with Cons.prems(4) [of "cur @ [c]"] have new: "entry_at fs (cur @ [c]) = None" by simp
    let ?g = "put_node (cur @ [c]) Dir fs"
    have da: "dirs_added (cur @ c # cs) fs ?g" using new by (auto simp: dirs_added_def entry_at_put)
    have "fst (mkdirs ?g (cur @ [c]) cs) = Inr ()"
    proof (rule Cons.IH)
      show "wf_fs ?g" using Cons.prems new by (intro wf_fs_put) simp_all
      show "clean_path ?g ((cur @ [c]) @ cs)"
        using Cons.prems(2) dirs_added_clean [OF da] by simp
      show "entry_at ?g (cur @ [c]) = Some Dir" by (simp add: entry_at_put)
      show "entry_at ?g q = None \<or> entry_at ?g q = Some Dir" if "prefix q ((cur @ [c]) @ cs)" for q
        using Cons.prems(4) [of q] that by (simp add: entry_at_put)
    qed
    with new False Cons.prems(1) cq lk show ?thesis by (simp add: fs_exists_clean)
  qed
qed

lemma fs_create_dir_all_succeeds:
  assumes "wf_fs fs" "clean_path fs p"
    and "\<And>q. prefix q p \<Longrightarrow> entry_at fs q = None \<or> entry_at fs q = Some Dir"
  shows "fst (fs_create_dir_all fs p) = Inr ()"
  using assms mkdirs_succeeds [of fs "[]" p] by (simp add: fs_create_dir_all_def)

end
