(* ===== verification/Fabric.thy ===== *)
theory Fabric
  imports Filesystem
begin

text \<open>
  \<open>src/lib.rs\<close>: the error type, hashes and their hexadecimal form, the path and name
  checks, temporary names; and the world the operations of every component run in: the file
  system, the clock, the environment, and faults that may strike any system call.
\<close>

section \<open>Errors, hashes, constants\<close>

text \<open>A \<open>Hash\<close> is an array of 32 bytes.\<close>

type_synonym hash = bytes

datatype error =
    Io ioerr
  | Corrupt string
  | MissingObject hash
  | NotInitialized
  | BadHash string
  | Sync string
  | UnsafePath string
  | Locked string

definition FABRIC_DIR :: string where "FABRIC_DIR = ''.respawn''"

definition CDC_MIN :: nat where "CDC_MIN = 16 * 1024"
definition CDC_AVG :: nat where "CDC_AVG = 64 * 1024"
definition CDC_MAX :: nat where "CDC_MAX = 256 * 1024"

definition MAX_OBJECT_SIZE :: nat where "MAX_OBJECT_SIZE = CDC_MAX"

section \<open>The third-party functions this layer uses\<close>

text \<open>
  The crates \<open>blake3\<close>, \<open>hex\<close> and \<open>zstd\<close> are not part of the repository: their
  functions are fields of a record that every definition using them takes as an argument.
  \<open>zstd_read c n\<close> reads at most \<open>n\<close> bytes from the decoder of the blob \<open>c\<close>.
\<close>

record crates =
  blake3 :: "bytes \<Rightarrow> hash"
  hex_encode :: "bytes \<Rightarrow> string"
  hex_decode :: "string \<Rightarrow> bytes option"
  zstd_encode :: "bytes \<Rightarrow> ioerr + bytes"
  zstd_read :: "bytes \<Rightarrow> nat \<Rightarrow> ioerr + bytes"

text \<open>The documented behaviour of the crates that lemmas may rely on.\<close>

definition blake3_ok :: "('z) crates_scheme \<Rightarrow> bool" where
  "blake3_ok C \<longleftrightarrow> (\<forall>d. length (blake3 C d) = 32)"

definition hex_ok :: "('z) crates_scheme \<Rightarrow> bool" where
  "hex_ok C \<longleftrightarrow>
     (\<forall>b. hex_decode C (hex_encode C b) = Some b
        \<and> length (hex_encode C b) = 2 * length b \<and> lower_hex (hex_encode C b))
     \<and> (\<forall>s b. hex_decode C s = Some b \<longrightarrow> hex_encode C b = map lower_char s)"

definition zstd_ok :: "('z) crates_scheme \<Rightarrow> bool" where
  "zstd_ok C \<longleftrightarrow> (\<forall>d c n. zstd_encode C d = Inr c \<longrightarrow> zstd_read C c n = Inr (take n d))"

definition crates_ok :: "('z) crates_scheme \<Rightarrow> bool" where
  "crates_ok C \<longleftrightarrow> blake3_ok C \<and> hex_ok C \<and> zstd_ok C"

section \<open>Hash values and their text form\<close>

definition hash_bytes :: "('z) crates_scheme \<Rightarrow> bytes \<Rightarrow> hash" where
  "hash_bytes C data = blake3 C data"

definition parse_hash :: "('z) crates_scheme \<Rightarrow> string \<Rightarrow> error + hash" where
  "parse_hash C s =
     (case hex_decode C s of
        None \<Rightarrow> Inl (BadHash s)
      | Some b \<Rightarrow> if length b = 32 then Inr b else Inl (BadHash s))"

definition hash_hex :: "('z) crates_scheme \<Rightarrow> hash \<Rightarrow> string" where
  "hash_hex C h = hex_encode C h"

definition short :: "('z) crates_scheme \<Rightarrow> hash \<Rightarrow> string" where
  "short C h = hex_encode C (take 6 h)"

definition is_hash_name :: "string \<Rightarrow> bool" where
  "is_hash_name name \<longleftrightarrow>
     length name = 64 \<and> (\<forall>b \<in> set name. is_hexdigit b \<and> \<not> is_upper b)"

lemma length_hash [simp]: "blake3_ok C \<Longrightarrow> length (hash_bytes C d) = 32"
  by (simp add: blake3_ok_def hash_bytes_def)

lemma hash_hex_facts:
  assumes "hex_ok C"
  shows "length (hash_hex C h) = 2 * length h" "lower_hex (hash_hex C h)"
    and "hex_decode C (hash_hex C h) = Some h"
  using assms by (simp_all add: hex_ok_def hash_hex_def)

lemma hash_hex_inject: "hex_ok C \<Longrightarrow> hash_hex C h = hash_hex C k \<longleftrightarrow> h = k"
  by (metis hash_hex_facts(3) option.inject)

lemma parse_hash_hex: "hex_ok C \<Longrightarrow> length h = 32 \<Longrightarrow> parse_hash C (hash_hex C h) = Inr h"
  by (simp add: parse_hash_def hash_hex_facts)

lemma is_hash_name_hex: "hex_ok C \<Longrightarrow> length h = 32 \<Longrightarrow> is_hash_name (hash_hex C h)"
  using hash_hex_facts(1,2) [of C h] by (auto simp: is_hash_name_def lower_hex_def)

lemma lower_char_lower_hex: "lower_hex s \<Longrightarrow> map lower_char s = s"
  by (rule map_idI) (auto simp: lower_hex_def lower_char_def is_upper_def)

lemma parse_hash_name:
  assumes "hex_ok C" "is_hash_name s" "parse_hash C s = Inr h"
  shows "length h = 32 \<and> hash_hex C h = s"
proof -
  have "lower_hex s" using assms(2) by (auto simp: is_hash_name_def lower_hex_def)
  with assms(1,3) show ?thesis
    by (auto simp: parse_hash_def hash_hex_def hex_ok_def lower_char_lower_hex
        split: option.splits if_splits)
qed

section \<open>Relative paths\<close>

text \<open>\<open>Path::components\<close> on Unix: repeated separators and inner \<open>.\<close> vanish.\<close>

datatype component = RootDir | CurDir | ParentDir | Normal string

definition is_absolute :: "string \<Rightarrow> bool" where
  "is_absolute p \<longleftrightarrow> take 1 p = [slash]"

fun component_of :: "string \<Rightarrow> component" where
  "component_of w = (if w = ''..'' then ParentDir else if w = ''.'' then CurDir else Normal w)"

definition components :: "string \<Rightarrow> component list" where
  "components p =
     (let ws = split_on slash p;
          lead = (if is_absolute p then [RootDir] else if hd ws = ''.'' then [CurDir] else [])
      in lead @ map component_of (filter (\<lambda>w. w \<noteq> [] \<and> w \<noteq> ''.'') ws))"

fun component_str :: "component \<Rightarrow> string" where
  "component_str RootDir = [slash]"
| "component_str CurDir = ''.''"
| "component_str ParentDir = ''..''"
| "component_str (Normal w) = w"

fun is_normal :: "component \<Rightarrow> bool" where
  "is_normal (Normal _) = True"
| "is_normal _ = False"

definition sanitize_rel :: "string \<Rightarrow> error + path" where
  "sanitize_rel p =
     (if p = [] \<or> length p > 1024 \<or> CHR 0x00 \<in> set p \<or> backslash \<in> set p then Inl (UnsafePath p)
      else if is_absolute p then Inl (UnsafePath p)
      else if \<not> list_all is_normal (components p) then Inl (UnsafePath p)
      else Inr (map component_str (components p)))"

text \<open>A component that names an entry of the directory it is looked up in.\<close>

definition plain_name :: "string \<Rightarrow> bool" where
  "plain_name w \<longleftrightarrow> w \<noteq> [] \<and> w \<noteq> ''.'' \<and> w \<noteq> ''..'' \<and> slash \<notin> set w \<and> CHR 0x00 \<notin> set w"

text \<open>
  A sanitised path stays below the directory it is joined to: it has at least one component
  and each is a plain name.
\<close>

lemma sanitize_rel_plain:
  assumes "sanitize_rel p = Inr q"
  shows "q \<noteq> [] \<and> list_all plain_name q"
proof -
  let ?ws = "filter (\<lambda>w. w \<noteq> [] \<and> w \<noteq> ''.'') (split_on slash p)"
  from assms have p: "p \<noteq> []" "CHR 0x00 \<notin> set p" "\<not> is_absolute p"
    and n: "list_all is_normal (components p)" and q: "q = map component_str (components p)"
    by (auto simp: sanitize_rel_def split: if_splits)
  from n p(3) have hd: "hd (split_on slash p) \<noteq> ''.''"
    by (auto simp: components_def Let_def split: if_splits)
  with p(3) have c: "components p = map component_of ?ws" by (simp add: components_def)
  have w: "plain_name w \<and> component_str (component_of w) = w" if "w \<in> set ?ws" for w
  proof -
    from that n c have "is_normal (component_of w)" by (auto simp: list_all_iff)
    moreover from that split_on_free [of w slash p] split_on_subset [of w slash p] p(2)
    have "w \<noteq> []" "w \<noteq> ''.''" "slash \<notin> set w" "CHR 0x00 \<notin> set w" by auto
    ultimately show ?thesis by (auto simp: plain_name_def split: if_splits)
  qed
  have qe: "q = ?ws" unfolding q c using w by (simp add: map_idI)
  have "hd (split_on slash p) \<noteq> []"
  proof
    assume e: "hd (split_on slash p) = []"
    obtain c s where cs: "p = c # s" using p(1) by (cases p) auto
    with p(3) have "c \<noteq> slash" by (simp add: is_absolute_def)
    with e cs show False by (auto split: list.splits)
  qed
  moreover have "hd (split_on slash p) \<in> set (split_on slash p)" by (rule hd_in_set) simp
  ultimately have "hd (split_on slash p) \<in> set ?ws" using hd by simp
  then have "?ws \<noteq> []" by (metis empty_iff list.set(1))
  with qe w show ?thesis by (auto simp: list_all_iff simp del: component_of.simps)
qed

lemma sanitize_rel_no_dotdot: "sanitize_rel p = Inr q \<Longrightarrow> ''..'' \<notin> set q"
  using sanitize_rel_plain [of p q] by (auto simp: list_all_iff plain_name_def)

section \<open>The world\<close>

text \<open>
  Besides the file system the world holds what the process cannot control: the clock
  (\<open>wtime\<close>, nanoseconds since the epoch at each step), the system call faults
  (\<open>wfault n = Some (e, k)\<close>: step \<open>n\<close> fails with \<open>e\<close>, a write after \<open>k\<close> bytes;
  a crash is a fault at every step from some point on), what other processes do to the files
  before each step (\<open>winterf\<close>), the entropy and the environment variables. \<open>wtick\<close>
  counts the steps, \<open>wlock\<close> says whether the advisory lock is taken, \<open>wtmp\<close> is the
  process-wide counter \<open>TMP_COUNTER\<close>.
\<close>

record world =
  wfs :: fs
  wtick :: nat
  wtime :: "nat \<Rightarrow> int"
  wfault :: "nat \<Rightarrow> (ioerr \<times> nat) option"
  winterf :: "nat \<Rightarrow> fs \<Rightarrow> fs"
  wrand :: "nat \<Rightarrow> nat \<Rightarrow> bytes"
  wenv :: "string \<Rightarrow> string option"
  wlock :: bool
  wtmp :: "64 word"
  wpid :: nat

type_synonym 'a io = "(world, error, 'a) comp"

definition tick :: "world \<Rightarrow> world" where
  "tick w = w\<lparr>wfs := winterf w (wtick w) (wfs w), wtick := Suc (wtick w)\<rparr>"

definition syscall :: "(fs \<Rightarrow> int \<Rightarrow> (ioerr + 'a) \<times> fs) \<Rightarrow> 'a io" where
  "syscall f w =
     (let w1 = tick w in
      case wfault w (wtick w) of
        Some (e, _) \<Rightarrow> (Inl (Io e), w1)
      | None \<Rightarrow>
          (case f (wfs w1) (wtime w (wtick w)) of
             (Inl e, g) \<Rightarrow> (Inl (Io e), w1\<lparr>wfs := g\<rparr>)
           | (Inr x, g) \<Rightarrow> (Inr x, w1\<lparr>wfs := g\<rparr>)))"

text \<open>Queries never fail: \<open>Path::exists\<close> and its kin answer \<open>false\<close> on any error.\<close>

definition query :: "(fs \<Rightarrow> bool) \<Rightarrow> bool io" where
  "query f w = (let w1 = tick w in (Inr (wfault w (wtick w) = None \<and> f (wfs w1)), w1))"

definition p_exists :: "path \<Rightarrow> bool io" where "p_exists p = query (\<lambda>fs. fs_exists fs p)"
definition p_is_dir :: "path \<Rightarrow> bool io" where "p_is_dir p = query (\<lambda>fs. fs_is_dir fs p)"
definition p_is_file :: "path \<Rightarrow> bool io" where "p_is_file p = query (\<lambda>fs. fs_is_file fs p)"

definition p_read :: "path \<Rightarrow> bytes io" where
  "p_read p = syscall (\<lambda>fs t. (fs_read True fs p, fs))"

text \<open>Open with \<open>O_NOFOLLOW\<close> and read.\<close>

definition p_read_nofollow :: "path \<Rightarrow> bytes io" where
  "p_read_nofollow p = syscall (\<lambda>fs t. (fs_read False fs p, fs))"

definition p_read_to_string :: "path \<Rightarrow> string io" where
  "p_read_to_string p =
     syscall (\<lambda>fs t.
       (case fs_read True fs p of
          Inl e \<Rightarrow> Inl e
        | Inr d \<Rightarrow> if utf8_valid d then Inr d else Inl InvalidData, fs))"

definition p_metadata :: "path \<Rightarrow> node io" where
  "p_metadata p = syscall (\<lambda>fs t. (fs_stat True fs p, fs))"

definition p_symlink_metadata :: "path \<Rightarrow> node io" where
  "p_symlink_metadata p = syscall (\<lambda>fs t. (fs_stat False fs p, fs))"

definition p_create_new :: "32 word \<Rightarrow> path \<Rightarrow> path io" where
  "p_create_new m p = syscall (\<lambda>fs t. fs_create_new m t fs p)"

definition p_open_append :: "path \<Rightarrow> path io" where
  "p_open_append p = syscall (\<lambda>fs t. fs_open_append t fs p)"

definition p_truncate :: "path \<Rightarrow> path io" where
  "p_truncate p = syscall (\<lambda>fs t. fs_truncate t fs p)"

definition p_rename :: "path \<Rightarrow> path \<Rightarrow> unit io" where
  "p_rename p q = syscall (\<lambda>fs t. fs_rename fs p q)"

definition p_remove_file :: "path \<Rightarrow> unit io" where
  "p_remove_file p = syscall (\<lambda>fs t. fs_unlink fs p)"

definition p_remove_dir :: "path \<Rightarrow> unit io" where
  "p_remove_dir p = syscall (\<lambda>fs t. fs_rmdir fs p)"

definition p_create_dir_all :: "path \<Rightarrow> unit io" where
  "p_create_dir_all p = syscall (\<lambda>fs t. fs_create_dir_all fs p)"

definition p_set_mode :: "path \<Rightarrow> 32 word \<Rightarrow> unit io" where
  "p_set_mode p m = syscall (\<lambda>fs t. fs_chmod m fs p)"

definition p_read_dir :: "path \<Rightarrow> string list io" where
  "p_read_dir p = syscall (\<lambda>fs t. (fs_read_dir fs p, fs))"

definition p_canonicalize :: "path \<Rightarrow> path io" where
  "p_canonicalize p = syscall (\<lambda>fs t. (fs_canonicalize fs p, fs))"

definition p_sync_all :: "path \<Rightarrow> unit io" where
  "p_sync_all p = syscall (\<lambda>fs t. (Inr (), fs))"

text \<open>\<open>write_all\<close> on an open handle: a fault leaves the first \<open>k\<close> bytes written.\<close>

definition p_write_all :: "path \<Rightarrow> bytes \<Rightarrow> unit io" where
  "p_write_all q d w =
     (let w1 = tick w; t = wtime w (wtick w) in
      case wfault w (wtick w) of
        Some (e, k) \<Rightarrow> (Inl (Io e), w1\<lparr>wfs := fs_append t (wfs w1) q (take k d)\<rparr>)
      | None \<Rightarrow> (Inr (), w1\<lparr>wfs := fs_append t (wfs w1) q d\<rparr>))"

definition p_write :: "path \<Rightarrow> bytes \<Rightarrow> unit io" where
  "p_write p d = andThen (p_truncate p) (\<lambda>q. p_write_all q d)"

text \<open>\<open>SystemTime::now()\<close> as seconds since the epoch, 0 before it.\<close>

definition now_secs :: "64 word io" where
  "now_secs w = (Inr (word_of_int (max 0 (wtime w (wtick w)) div 1000000000)), tick w)"

section \<open>Temporary names\<close>

definition tmp_name :: "world \<Rightarrow> string \<Rightarrow> string" where
  "tmp_name w tag = ''.tmp-'' @ dec (wpid w) @ ''-'' @ dec (unat (wtmp w)) @ ''-'' @ tag"

definition tmp_path :: "path \<Rightarrow> string \<Rightarrow> path io" where
  "tmp_path dir tag w = (Inr (dir @ [tmp_name w tag]), w\<lparr>wtmp := wtmp w + 1\<rparr>)"

text \<open>Paths whose last component is a temporary name.\<close>

definition is_tmp :: "path \<Rightarrow> bool" where
  "is_tmp p \<longleftrightarrow> p \<noteq> [] \<and> take 5 (last p) = ''.tmp-''"

lemma is_tmp_name [simp]: "is_tmp (dir @ [tmp_name w tag])"
  by (simp add: is_tmp_def tmp_name_def)

lemma lower_hex_not_tmp: "lower_hex s \<Longrightarrow> take 5 s \<noteq> ''.tmp-''"
  by (cases s) (auto simp: lower_hex_def is_hexdigit_def digit_def code_def)

end
