(* ===== verification/World_Facts.thy ===== *)
theory World_Facts
  imports Fabric
begin

text \<open>
  How the primitives of \<open>Fabric\<close> act on the world: a step keeps the environment, and in a
  directory without symbolic links each call acts on the path it is given. \<open>sound F w\<close> is
  the invariant under which the components are verified, \<open>evolves F X\<close> the frame of every
  operation on the directory \<open>F\<close>: outside \<open>F\<close> nothing changes, inside only the paths of
  \<open>X\<close>, temporary names and new directories.
\<close>

section \<open>The environment of a run\<close>

definition entries :: "world \<Rightarrow> path \<Rightarrow> node option" where
  "entries w = entry_at (wfs w)"

text \<open>No other process touches the files; no system call fails.\<close>

definition quiet :: "world \<Rightarrow> bool" where
  "quiet w \<longleftrightarrow> (\<forall>n f. winterf w n f = f)"

definition calm :: "world \<Rightarrow> bool" where
  "calm w \<longleftrightarrow> quiet w \<and> (\<forall>n. wfault w n = None)"

definition same_env :: "world \<Rightarrow> world \<Rightarrow> bool" where
  "same_env w w' \<longleftrightarrow> wtime w' = wtime w \<and> wfault w' = wfault w \<and> winterf w' = winterf w
     \<and> wrand w' = wrand w \<and> wenv w' = wenv w \<and> wlock w' = wlock w \<and> wpid w' = wpid w"

lemma same_env_refl [simp]: "same_env w w"
  by (simp add: same_env_def)

lemma same_env_trans [trans]: "same_env w w1 \<Longrightarrow> same_env w1 w2 \<Longrightarrow> same_env w w2"
  by (simp add: same_env_def)

lemma same_env_quiet: "same_env w w' \<Longrightarrow> quiet w' \<longleftrightarrow> quiet w"
  by (simp add: same_env_def quiet_def)

lemma same_env_calm: "same_env w w' \<Longrightarrow> calm w' \<longleftrightarrow> calm w"
  by (simp add: same_env_def calm_def quiet_def)

lemma calm_quiet: "calm w \<Longrightarrow> quiet w"
  by (simp add: calm_def)

lemma tick_quiet: "quiet w \<Longrightarrow> wfs (tick w) = wfs w"
  by (simp add: tick_def quiet_def)

lemma same_env_tick [simp]: "same_env w (tick w)"
  by (simp add: tick_def same_env_def)

lemma same_env_wfs [simp]: "same_env w (w1\<lparr>wfs := g\<rparr>) \<longleftrightarrow> same_env w w1"
  by (simp add: same_env_def)

lemma syscall_result:
  assumes "syscall f w = (res, w')" "quiet w"
  shows "same_env w w' \<and>
    ((\<exists>e. res = Inl (Io e)) \<and> wfs w' = wfs w \<and> \<not> calm w
     \<or> (\<exists>e. f (wfs w) (wtime w (wtick w)) = (Inl e, wfs w') \<and> res = Inl (Io e))
     \<or> (\<exists>x. f (wfs w) (wtime w (wtick w)) = (Inr x, wfs w') \<and> res = Inr x))"
proof (cases "wfault w (wtick w)")
  case None
  obtain y g where y: "f (wfs w) (wtime w (wtick w)) = (y, g)" by fastforce
  with None assms show ?thesis
    by (cases y) (auto simp: syscall_def Let_def tick_quiet)
next
  case (Some a)
  then have "\<not> calm w" unfolding calm_def by (metis option.distinct(1))
  with Some assms show ?thesis
    by (cases a) (auto simp: syscall_def Let_def tick_quiet)
qed

lemma syscall_wtmp: "syscall f w = (res, w') \<Longrightarrow> wtmp w' = wtmp w"
  by (auto simp: syscall_def Let_def tick_def split: option.splits prod.splits sum.splits)

lemma query_result:
  assumes "query f w = (res, w')" "quiet w"
  shows "same_env w w' \<and> wfs w' = wfs w \<and> (\<exists>b. res = Inr b \<and> (b \<longrightarrow> f (wfs w)) \<and> (calm w \<longrightarrow> b = f (wfs w)))"
  using assms by (auto simp: query_def Let_def tick_quiet calm_def)

lemma p_write_all_result:
  assumes "p_write_all q d w = (res, w')" "quiet w"
  shows "same_env w w' \<and>
    (\<exists>k. wfs w' = fs_append (wtime w (wtick w)) (wfs w) q (take k d)
       \<and> (res = Inr () \<longrightarrow> length d \<le> k) \<and> (calm w \<longrightarrow> res = Inr ()))"
proof (cases "wfault w (wtick w)")
  case None
  with assms have "res = Inr ()" "same_env w w'"
    "wfs w' = fs_append (wtime w (wtick w)) (wfs w) q (take (length d) d)"
    by (auto simp: p_write_all_def Let_def tick_quiet)
  then show ?thesis by blast
next
  case (Some a)
  obtain e k where a: "a = (e, k)" by fastforce
  with Some assms have "res = Inl (Io e)" "same_env w w'"
    "wfs w' = fs_append (wtime w (wtick w)) (wfs w) q (take k d)"
    by (auto simp: p_write_all_def Let_def tick_quiet)
  moreover from Some have "\<not> calm w" unfolding calm_def by (metis option.distinct(1))
  ultimately show ?thesis by blast
qed

lemma now_secs_result: "now_secs w = (res, w') \<Longrightarrow> quiet w \<Longrightarrow>
    same_env w w' \<and> wfs w' = wfs w \<and> (\<exists>t. res = Inr t)"
  by (auto simp: now_secs_def tick_quiet)

section \<open>Directories without symbolic links\<close>

definition link_free :: "path \<Rightarrow> fs \<Rightarrow> bool" where
  "link_free F fs \<longleftrightarrow> ''..'' \<notin> set F
     \<and> (\<forall>p. prefix p F \<or> prefix F p \<longrightarrow> \<not> is_link (entry_at fs p))"

definition sound :: "path \<Rightarrow> world \<Rightarrow> bool" where
  "sound F w \<longleftrightarrow> quiet w \<and> wf_fs (wfs w) \<and> link_free F (wfs w)"

definition inside :: "path \<Rightarrow> path \<Rightarrow> bool" where
  "inside F p \<longleftrightarrow> prefix F p \<and> ''..'' \<notin> set p"

lemma inside_prefix: "inside F p \<Longrightarrow> prefix F p"
  by (simp add: inside_def)

lemma inside_clean: "link_free F fs \<Longrightarrow> inside F p \<Longrightarrow> clean_path fs p"
  unfolding link_free_def inside_def clean_path_def by (meson prefix_same_cases)

lemma sound_quiet: "sound F w \<Longrightarrow> quiet w"
  by (simp add: sound_def)

lemma sound_facts:
  assumes "sound F w"
  shows "quiet w" "wf_fs (wfs w)" "inside F p \<Longrightarrow> clean_path (wfs w) p"
  using assms inside_clean by (auto simp: sound_def)

text \<open>What may happen to the node at one path, and to all of them.\<close>

text \<open>
  Where the tools make directories: on the way to \<open>F\<close>, the named ones just below it, and
  any at depth two (the shards). So no directory ever takes the place of a blob or of HEAD.
\<close>

definition store_dirs :: "string list" where
  "store_dirs = [''objects'', ''manifests'', ''tmp'', ''remotes'', ''purges'']"

definition dir_place :: "path \<Rightarrow> path \<Rightarrow> bool" where
  "dir_place F p \<longleftrightarrow> prefix p F \<or> (\<exists>x \<in> set store_dirs. p = F @ [x]) \<or> (\<exists>x \<in> set store_dirs. \<exists>y. p = F @ [x, y])"

lemma prefix_one: "prefix q (F @ [x]) \<longleftrightarrow> prefix q F \<or> q = F @ [x]"
  by (auto simp: prefix_snoc)

lemma prefix_two: "prefix q (F @ [x, y]) \<longleftrightarrow> prefix q F \<or> q = F @ [x] \<or> q = F @ [x, y]"
  using prefix_snoc [of q "F @ [x]" y] by (auto simp: prefix_one)

lemma dir_place_prefix: "dir_place F p \<Longrightarrow> prefix q p \<Longrightarrow> dir_place F q"
  unfolding dir_place_def
  by (elim disjE bexE exE) (use prefix_order.trans in \<open>auto simp: prefix_one prefix_two\<close>)

lemma dir_place_near: "dir_place F p \<Longrightarrow> prefix F p \<or> prefix p F"
  by (auto simp: dir_place_def)

definition node_evolves :: "path \<Rightarrow> path set \<Rightarrow> path \<Rightarrow> node option \<Rightarrow> node option \<Rightarrow> bool" where
  "node_evolves F X p n n' \<longleftrightarrow> n' = n
     \<or> inside F p \<and> (is_tmp p \<or> p \<in> X)
     \<or> dir_place F p \<and> ''..'' \<notin> set p \<and> n = None \<and> n' = Some Dir"

definition evolves :: "path \<Rightarrow> path set \<Rightarrow> world \<Rightarrow> world \<Rightarrow> bool" where
  "evolves F X w w' \<longleftrightarrow> same_env w w' \<and> (\<forall>p. node_evolves F X p (entries w p) (entries w' p))"

lemma node_evolves_refl [simp]: "node_evolves F X p n n"
  by (simp add: node_evolves_def)

lemma node_evolves_trans: "node_evolves F X p n n1 \<Longrightarrow> node_evolves F X p n1 n2 \<Longrightarrow> node_evolves F X p n n2"
  by (auto simp: node_evolves_def)

lemma evolves_refl [simp]: "evolves F X w w"
  by (simp add: evolves_def)

lemma evolves_same: "same_env w w' \<Longrightarrow> wfs w' = wfs w \<Longrightarrow> evolves F X w w'"
  by (simp add: evolves_def entries_def)

lemma evolves_mono: "evolves F X w w' \<Longrightarrow> X \<subseteq> Y \<Longrightarrow> evolves F Y w w'"
  unfolding evolves_def node_evolves_def by blast

lemma evolves_trans: "evolves F X w w1 \<Longrightarrow> evolves F X w1 w2 \<Longrightarrow> evolves F X w w2"
  unfolding evolves_def by (meson node_evolves_trans same_env_trans)

text \<open>What the frame gives a client: a path it does not name keeps its data.\<close>

lemma node_evolves_data:
  assumes "node_evolves F X p n n'" "p \<notin> X" "\<not> is_tmp p"
  shows "file_data n' = file_data n"
proof -
  have "n' = n \<or> (n = None \<and> n' = Some Dir)"
    using assms unfolding node_evolves_def by blast
  then show ?thesis
  proof
    assume "n' = n"
    then show ?thesis by (rule arg_cong)
  next
    assume "n = None \<and> n' = Some Dir"
    then show ?thesis by simp
  qed
qed

lemma evolves_node: "evolves F X w w' \<Longrightarrow> node_evolves F X p (entries w p) (entries w' p)"
  by (simp add: evolves_def)

lemma evolves_data:
  assumes "evolves F X w w'" "p \<notin> X" "\<not> is_tmp p"
  shows "file_data (entries w' p) = file_data (entries w p)"
  by (rule node_evolves_data [OF evolves_node [OF assms(1)] assms(2,3)])

lemma evolves_file:
  assumes "evolves F X w w'" "p \<notin> X" "\<not> is_tmp p" "entries w p \<noteq> None"
  shows "entries w' p = entries w p"
  using evolves_node [OF assms(1), of p] assms(2-4) unfolding node_evolves_def by argo

lemma evolves_outside:
  assumes "evolves F X w w'" "\<not> prefix F p" "\<not> prefix p F"
  shows "entries w' p = entries w p"
  using evolves_node [OF assms(1), of p] assms(2,3) dir_place_near [of F p] inside_prefix [of F p] unfolding node_evolves_def by argo

lemma evolves_env: "evolves F X w w' \<Longrightarrow> same_env w w'"
  by (simp add: evolves_def)

lemma evolves_calm: "evolves F X w w' \<Longrightarrow> calm w' \<longleftrightarrow> calm w"
  by (simp add: evolves_def same_env_calm)

section \<open>The primitives in a sound world\<close>

lemma sound_same: "sound F w \<Longrightarrow> same_env w w' \<Longrightarrow> wfs w' = wfs w \<Longrightarrow> sound F w'"
  by (simp add: sound_def same_env_quiet)

text \<open>A query changes nothing; its positive answers are right, in a calm world all are.\<close>

lemma query_sound:
  assumes "sound F w" "query f w = (res, w')"
  shows "sound F w'" "evolves F X w w'" "wfs w' = wfs w"
    and "\<exists>b. res = Inr b \<and> (b \<longrightarrow> f (wfs w)) \<and> (calm w \<longrightarrow> b = f (wfs w))"
  using query_result [OF assms(2) sound_quiet [OF assms(1)]] assms(1)
  by (auto intro: sound_same evolves_same)

lemma syscall_read_sound:
  assumes "sound F w" "syscall (\<lambda>fs t. (f fs, fs)) w = (res, w')"
  shows "sound F w'" "evolves F X w w'" "wfs w' = wfs w"
    and "res = Inr x \<Longrightarrow> f (wfs w) = Inr x"
    and "calm w \<Longrightarrow> (case f (wfs w) of Inl e \<Rightarrow> res = Inl (Io e) | Inr x \<Rightarrow> res = Inr x)"
  using syscall_result [OF assms(2) sound_quiet [OF assms(1)]] assms(1)
  by (auto intro: sound_same evolves_same)

lemma p_read_sound:
  assumes "sound F w" "inside F p" "p_read p w = (res, w')"
  shows "sound F w'" "evolves F X w w'" "wfs w' = wfs w"
    and "res = Inr d \<Longrightarrow> file_data (entries w p) = Some d"
    and "calm w \<Longrightarrow> file_data (entries w p) = Some d \<Longrightarrow> res = Inr d"
proof -
  note r = syscall_read_sound [OF assms(1) assms(3) [unfolded p_read_def]]
  note c = fs_read_clean [OF sound_facts(2) [OF assms(1)] sound_facts(3) [OF assms(1,2)]]
  show "sound F w'" "evolves F X w w'" "wfs w' = wfs w" by (rule r)+
  show "file_data (entries w p) = Some d" if "res = Inr d"
    using r(4) [OF that] c by (simp add: entries_def)
  show "res = Inr d" if "calm w" "file_data (entries w p) = Some d"
    using r(5) [OF that(1)] that(2) c [of True d] by (simp add: entries_def)
qed

lemma p_read_to_string_sound:
  assumes "sound F w" "inside F p" "p_read_to_string p w = (res, w')"
  shows "sound F w'" "evolves F X w w'" "wfs w' = wfs w"
    and "res = Inr d \<Longrightarrow> file_data (entries w p) = Some d \<and> utf8_valid d"
    and "calm w \<Longrightarrow> file_data (entries w p) = Some d \<Longrightarrow> utf8_valid d \<Longrightarrow> res = Inr d"
proof -
  note r = syscall_read_sound [OF assms(1) assms(3) [unfolded p_read_to_string_def]]
  note c = fs_read_clean [OF sound_facts(2) [OF assms(1)] sound_facts(3) [OF assms(1,2)]]
  show "sound F w'" "evolves F X w w'" "wfs w' = wfs w" by (rule r)+
  show "file_data (entries w p) = Some d \<and> utf8_valid d" if "res = Inr d"
    using r(4) [OF that] c by (auto simp: entries_def split: sum.splits if_splits)
  show "res = Inr d" if "calm w" "file_data (entries w p) = Some d" "utf8_valid d"
    using r(5) [OF that(1)] that(2,3) c [of True d] by (simp add: entries_def)
qed

text \<open>New nodes inside \<open>F\<close> keep the world sound.\<close>

lemma sound_put:
  assumes "sound F w" "same_env w w'" "wfs w' = put_node p nd (wfs w)" "inside F p" "p \<noteq> []"
    and "entries w (butlast p) = Some Dir" "nd = Dir \<or> entries w p \<noteq> Some Dir"
    and "\<not> is_link (Some nd)"
  shows "sound F w'"
proof -
  have "wf_fs (wfs w')"
    using assms by (auto simp: sound_def entries_def intro: wf_fs_put)
  moreover have "link_free F (wfs w')"
    using assms by (auto simp: sound_def link_free_def entry_at_put)
  ultimately show ?thesis using assms by (simp add: sound_def same_env_quiet)
qed

lemma p_create_new_sound:
  assumes "sound F w" "inside F p" "p_create_new m p w = (res, w')"
  shows "sound F w'" "res = Inl e \<Longrightarrow> wfs w' = wfs w" "same_env w w'"
    and "res = Inr q \<Longrightarrow> q = p \<and> p \<noteq> [] \<and> entries w p = None \<and> entries w (butlast p) = Some Dir
          \<and> (\<exists>t. wfs w' = put_node p (File [] m t) (wfs w))"
    and "calm w \<Longrightarrow> entries w p = None \<Longrightarrow> entries w (butlast p) = Some Dir \<Longrightarrow> res = Inr p"
proof -
  let ?t = "wtime w (wtick w)"
  note wc = sound_facts(2) [OF assms(1)] sound_facts(3) [OF assms(1,2)]
  note r = syscall_result [OF assms(3) [unfolded p_create_new_def] sound_quiet [OF assms(1)]]
  note c = fs_create_new_clean [OF wc, of m ?t]
  show env: "same_env w w'" using r by simp
  show *: "q = p \<and> p \<noteq> [] \<and> entries w p = None \<and> entries w (butlast p) = Some Dir
          \<and> (\<exists>t. wfs w' = put_node p (File [] m t) (wfs w))" if "res = Inr q" for q
    using r that c by (cases "p = []") (fastforce simp: entries_def)+
  show same: "wfs w' = wfs w" if "res = Inl e" for e
    using r that c by fastforce
  show "sound F w'"
  proof (cases res)
    case (Inl e)
    with same env assms(1) show ?thesis by (auto intro: sound_same)
  next
    case (Inr q)
    with * [OF Inr] env assms show ?thesis by (auto intro: sound_put)
  qed
  show "res = Inr p" if "calm w" "entries w p = None" "entries w (butlast p) = Some Dir"
  proof -
    have "lookup_path False (wfs w) p = Inr p"
      using wc that by (intro lookup_clean_ok) (simp_all add: entries_def)
    with that r show ?thesis by (auto simp: fs_create_new_def entries_def)
  qed
qed

lemma p_create_dir_all_sound:
  assumes "sound F w" "inside F p" "p_create_dir_all p w = (res, w')"
  shows "sound F w'" "dir_place F p \<Longrightarrow> evolves F X w w'" "\<And>q. file_data (entries w' q) = file_data (entries w q)"
    and "res = Inr () \<Longrightarrow> prefix q p \<Longrightarrow> entries w' q = Some Dir"
    and "calm w \<Longrightarrow> (\<And>q. prefix q p \<Longrightarrow> entries w q = None \<or> entries w q = Some Dir) \<Longrightarrow> res = Inr ()"
    and "\<And>q. entries w q = entries w' q \<or> entries w q = None \<and> entries w' q = Some Dir \<and> prefix q p"
proof -
  let ?g = "fs_create_dir_all (wfs w) p"
  note wc = sound_facts(2) [OF assms(1)] sound_facts(3) [OF assms(1,2)]
  note r = syscall_result [OF assms(3) [unfolded p_create_dir_all_def] sound_quiet [OF assms(1)]]
  have env: "same_env w w'" using r by simp
  have *: "wf_fs (wfs w')" "dirs_added p (wfs w) (wfs w')"
    using r fs_create_dir_all_clean [OF wc] wc by auto
  have lf: "link_free F (wfs w')"
    using assms(1) dirs_added_link [OF *(2)] by (simp add: sound_def link_free_def)
  show "sound F w'" using env * lf assms(1) by (simp add: sound_def same_env_quiet)
  show "evolves F X w w'" if "dir_place F p"
  proof -
    have "''..'' \<notin> set q" if "prefix q p" for q
      using that assms(2) set_mono_prefix [OF that] by (auto simp: inside_def)
    then show ?thesis
      using *(2) env dir_place_prefix [OF that] unfolding evolves_def node_evolves_def dirs_added_def entries_def by metis
  qed
  show "\<And>q. file_data (entries w' q) = file_data (entries w q)"
    using dirs_added_data [OF *(2)] by (simp add: entries_def)
  show "entries w' q = Some Dir" if "res = Inr ()" "prefix q p"
    using that r fs_create_dir_all_clean(3) [OF wc _ refl that(2)] by (auto simp: entries_def)
  show "res = Inr ()" if "calm w" "\<And>q. prefix q p \<Longrightarrow> entries w q = None \<or> entries w q = Some Dir"
    using that r fs_create_dir_all_succeeds [OF wc] by (fastforce simp: entries_def)
  show "\<And>q. entries w q = entries w' q \<or> entries w q = None \<and> entries w' q = Some Dir \<and> prefix q p"
    using *(2) unfolding dirs_added_def entries_def by metis
qed

lemma p_write_all_sound:
  assumes "sound F w" "inside F p" "p_write_all p d w = (res, w')"
    and "entries w p = Some (File d0 m t0)" "p \<noteq> []"
  shows "sound F w'" "same_env w w'"
    and "\<exists>k t. wfs w' = put_node p (File (d0 @ take k d) m t) (wfs w) \<and> (res = Inr () \<longrightarrow> length d \<le> k)"
    and "calm w \<Longrightarrow> res = Inr ()"
proof -
  note r = p_write_all_result [OF assms(3) sound_quiet [OF assms(1)]]
  show env: "same_env w w'" using r by simp
  show *: "\<exists>k t. wfs w' = put_node p (File (d0 @ take k d) m t) (wfs w) \<and> (res = Inr () \<longrightarrow> length d \<le> k)"
    using r assms(4) by (auto simp: fs_append_def entries_def)
  have "entries w (butlast p) = Some Dir"
    using sound_facts(2) [OF assms(1)] assms(4) by (auto simp: wf_fs_def entries_def)
  with * env assms show "sound F w'" by (auto intro: sound_put)
  show "calm w \<Longrightarrow> res = Inr ()" using r by blast
qed

text \<open>Renaming a regular file within \<open>F\<close>.\<close>

lemma p_rename_sound:
  assumes "sound F w" "inside F p" "inside F q" "p \<noteq> q" "q \<noteq> []"
    and "entries w p = Some (File d m t)" "p_rename p q w = (res, w')"
  shows "sound F w'" "same_env w w'" "res = Inl e \<Longrightarrow> wfs w' = wfs w"
    and "res = Inr () \<Longrightarrow> entries w' = (entries w)(p := None, q := Some (File d m t))"
    and "calm w \<Longrightarrow> entries w q \<noteq> Some Dir \<Longrightarrow> entries w (butlast q) = Some Dir \<Longrightarrow> res = Inr ()"
proof -
  note s = sound_facts [OF assms(1)]
  note wc = s(2) s(3) [OF assms(2)] s(3) [OF assms(3)]
  note r = syscall_result [OF assms(7) [unfolded p_rename_def] s(1)]
  note c = fs_rename_clean [OF wc]
  show env: "same_env w w'" using r by simp
  show same: "wfs w' = wfs w" if "res = Inl e" for e using r that c by fastforce
  have p: "p \<noteq> []" using assms(6) by (auto simp: entries_def)
  have ok: "entries w q \<noteq> Some Dir \<and> entries w (butlast q) = Some Dir
      \<and> wfs w' = put_node q (File d m t) (drop_node p (wfs w))" if "res = Inr ()"
    using r that c assms(4,6) by (fastforce simp: entries_def)
  show "entries w' = (entries w)(p := None, q := Some (File d m t))" if "res = Inr ()"
    using ok [OF that] assms(4,5) p by (auto simp: entries_def entry_at_put entry_at_drop fun_eq_iff)
  show "sound F w'"
  proof (cases res)
    case (Inl e)
    with same env assms(1) show ?thesis by (auto intro: sound_same)
  next
    case (Inr u)
    then have res: "res = Inr ()" by simp
    let ?w1 = "w\<lparr>wfs := drop_node p (wfs w)\<rparr>"
    have "p \<noteq> butlast q" using ok [OF res] assms(6) by auto
    moreover have "sound F ?w1"
      using assms(1,6) by (auto simp: sound_def link_free_def quiet_def entry_at_drop entries_def
          intro!: wf_fs_drop)
    ultimately show ?thesis
      using ok [OF res] env assms
      by (intro sound_put [of F ?w1 w' q "File d m t"])
        (auto simp: entries_def entry_at_drop same_env_def)
  qed
  show "res = Inr ()" if "calm w" "entries w q \<noteq> Some Dir" "entries w (butlast q) = Some Dir"
  proof -
    have "lookup_path False (wfs w) q = Inr q" "lookup_path False (wfs w) p = Inr p"
      using wc that assms(6) by (auto intro: lookup_clean_ok lookup_clean_present simp: entries_def)
    with that r assms(4,6) show ?thesis by (auto simp: fs_rename_def entries_def)
  qed
qed

end
