(* ===== verification/Content_Store.thy ===== *)
theory Content_Store
  imports World_Facts
begin

text \<open>
  What the snapshot, revert, fleet and sync components rely on in a content-addressed store:
  operations that file bytes under their key and read them back, their contents as a map,
  and the frame that keeps two stores of one directory apart. \<open>'c\<close> is what selects the
  store (the crates and the worktree root). \<open>verified_store\<close> adds what only a store
  that checks the key on every read promises: it holds in any world.
\<close>

locale content_store =
  fixes put :: "'c \<Rightarrow> bytes \<Rightarrow> hash io"
    and get :: "'c \<Rightarrow> hash \<Rightarrow> bytes io"
    and key :: "'c \<Rightarrow> bytes \<Rightarrow> hash"
    and fits :: "bytes \<Rightarrow> bool"
    and contents :: "'c \<Rightarrow> world \<Rightarrow> hash \<Rightarrow> bytes option"
    and inv :: "'c \<Rightarrow> world \<Rightarrow> bool"
    and home :: "'c \<Rightarrow> path"
    and place :: "'c \<Rightarrow> hash \<Rightarrow> path"
  assumes put_stored: "\<And>c d w h w'. inv c w \<Longrightarrow> fits d \<Longrightarrow> put c d w = (Inr h, w') \<Longrightarrow>
        h = key c d \<and> (\<exists>d'. key c d' = h \<and> contents c w' = (contents c w)(h \<mapsto> d'))"
    and put_inv: "\<And>c d w r w'. inv c w \<Longrightarrow> fits d \<Longrightarrow> put c d w = (r, w') \<Longrightarrow> inv c w'"
    and put_frame: "\<And>c d w r w'. inv c w \<Longrightarrow> put c d w = (r, w') \<Longrightarrow>
        evolves (home c) (case r of Inl _ \<Rightarrow> {} | Inr h \<Rightarrow> {place c h}) w w'"
    and get_stored: "\<And>c h w d w'. inv c w \<Longrightarrow> get c h w = (Inr d, w') \<Longrightarrow> contents c w h = Some d"
    and get_reads: "\<And>c h w r w'. inv c w \<Longrightarrow> get c h w = (r, w') \<Longrightarrow> same_env w w' \<and> wfs w' = wfs w"
    and get_total: "\<And>c h w d. inv c w \<Longrightarrow> calm w \<Longrightarrow> contents c w h = Some d \<Longrightarrow> fst (get c h w) = Inr d"
    and contents_key: "\<And>c w h d. inv c w \<Longrightarrow> contents c w h = Some d \<Longrightarrow> key c d = h"
    and inv_sound: "\<And>c w. inv c w \<Longrightarrow> sound (home c) w"
    and frame: "\<And>c X w w'. inv c w \<Longrightarrow> evolves (home c) X w w' \<Longrightarrow> sound (home c) w' \<Longrightarrow>
        (\<And>h. place c h \<notin> X) \<Longrightarrow> inv c w' \<and> contents c w' = contents c w"
begin

lemma get_inv:
  assumes "inv c w" "get c h w = (r, w')"
  shows "inv c w' \<and> contents c w' = contents c w"
proof -
  from get_reads [OF assms] have *: "same_env w w'" "wfs w' = wfs w" by auto
  show ?thesis
    by (rule frame [OF assms(1) evolves_same [OF *, where X = "{}"] sound_same [OF inv_sound [OF assms(1)] *]]) simp
qed

lemma put_err_contents:
  assumes "inv c w" "fits d" "put c d w = (Inl e, w')"
  shows "inv c w' \<and> contents c w' = contents c w"
proof (rule frame [OF assms(1)])
  show "evolves (home c) {} w w'" using put_frame [OF assms(1,3)] by simp
  show "sound (home c) w'" by (rule inv_sound [OF put_inv [OF assms]])
qed simp

text \<open>Nothing stored is lost or changed, but to a value with the same key.\<close>

lemma put_keeps:
  assumes "inv c w" "fits d" "put c d w = (r, w')" "contents c w k = Some v"
  shows "\<exists>v'. contents c w' k = Some v' \<and> key c v' = key c v"
proof (cases r)
  case (Inl e)
  with put_err_contents [OF assms(1,2)] assms(3,4) show ?thesis by auto
next
  case (Inr h)
  with put_stored [OF assms(1,2)] assms(3) obtain d'
    where "key c d' = h" "contents c w' = (contents c w)(h \<mapsto> d')" by blast
  with assms(4) contents_key [OF assms(1,4)] show ?thesis by (cases "k = h") auto
qed

text \<open>What was put is read back, unless the reader is shown two values with one key.\<close>

lemma put_get:
  assumes "inv c w" "fits d" "put c d w = (Inr h, w1)" "get c h w1 = (Inr d', w2)"
  shows "d' = d \<or> key c d' = key c d \<and> d' \<noteq> d"
proof -
  from put_stored [OF assms(1-3)] have h: "h = key c d" by blast
  have "contents c w1 h = Some d'" by (rule get_stored [OF put_inv [OF assms(1-3)] assms(4)])
  then have "key c d' = h" by (rule contents_key [OF put_inv [OF assms(1-3)]])
  with h show ?thesis by blast
qed

lemma get_after_put:
  assumes "inv c w" "calm w" "fits d" "put c d w = (Inr h, w1)"
    and "\<And>d'. key c d' = key c d \<Longrightarrow> d' = d"
  shows "fst (get c h w1) = Inr d"
proof -
  from put_stored [OF assms(1,3,4)] obtain d' where "h = key c d" "key c d' = h"
    "contents c w1 = (contents c w)(h \<mapsto> d')" by blast
  with assms(5) have "contents c w1 h = Some d" by simp
  moreover have "calm w1" using put_frame [OF assms(1,4)] assms(2) by (simp add: evolves_calm)
  ultimately show ?thesis by (intro get_total put_inv [OF assms(1,3,4)])
qed

text \<open>Putting twice: the second put changes no stored value but to one with the same key.\<close>

lemma put_same_key:
  assumes "inv c w" "fits d" "put c d w = (Inr h, w1)" "put c d w1 = (Inr h', w2)"
  shows "h' = h"
  using put_stored [OF assms(1-3)] put_stored [OF put_inv [OF assms(1-3)] assms(2,4)] by simp

text \<open>Reading a list of keys in order, as a client that reassembles a file does.\<close>

fun fetch :: "'c \<Rightarrow> hash list \<Rightarrow> bytes list io" where
  "fetch c [] = ok []"
| "fetch c (h # hs) = andThen (get c h) (\<lambda>d. andThen (fetch c hs) (\<lambda>ds. ok (d # ds)))"

lemma fetch_stored:
  assumes "inv c w" "fetch c hs w = (Inr ds, w')"
  shows "list_all2 (\<lambda>h d. contents c w h = Some d) hs ds \<and> wfs w' = wfs w"
  using assms
proof (induction hs arbitrary: w ds)
  case Nil
  then show ?case by (simp add: comp_eval)
next
  case (Cons h hs)
  from Cons.prems(2) obtain d w1 ds' where g: "get c h w = (Inr d, w1)"
    and r: "fetch c hs w1 = (Inr ds', w')" and ds: "ds = d # ds'"
    by (auto simp: andThen_Inr comp_eval)
  note i = get_inv [OF Cons.prems(1) g]
  with Cons.IH [OF _ r] get_stored [OF Cons.prems(1) g] get_reads [OF Cons.prems(1) g] ds
  show ?case by simp
qed

lemma fetch_total:
  assumes "inv c w" "calm w" "list_all2 (\<lambda>h d. contents c w h = Some d) hs ds"
  shows "\<exists>w'. fetch c hs w = (Inr ds, w') \<and> same_env w w' \<and> wfs w' = wfs w"
  using assms
proof (induction hs arbitrary: w ds)
  case Nil
  then show ?case by (simp add: comp_eval)
next
  case (Cons h hs)
  from Cons.prems(3) obtain d ds' where ds: "ds = d # ds'" "contents c w h = Some d"
    "list_all2 (\<lambda>h d. contents c w h = Some d) hs ds'" by (auto simp: list_all2_Cons1)
  obtain r w1 where g: "get c h w = (r, w1)" by fastforce
  with get_total [OF Cons.prems(1,2) ds(2)] have r: "r = Inr d" by simp
  note i = get_inv [OF Cons.prems(1) g] and e = get_reads [OF Cons.prems(1) g]
  from Cons.IH [of w1 ds'] i e ds(3) Cons.prems(2) obtain w' where
    "fetch c hs w1 = (Inr ds', w')" "same_env w1 w'" "wfs w' = wfs w1"
    by (auto simp: same_env_calm)
  with g r ds e show ?case by (auto simp: comp_eval intro: same_env_trans)
qed

text \<open>Putting a list of values in order, as a client that cuts up a file does.\<close>

fun put_all :: "'c \<Rightarrow> bytes list \<Rightarrow> hash list io" where
  "put_all c [] = ok []"
| "put_all c (d # ds) = andThen (put c d) (\<lambda>h. andThen (put_all c ds) (\<lambda>hs. ok (h # hs)))"

lemma put_step:
  assumes "inv c w" "fits d" "put c d w = (r, w')"
  shows "inv c w' \<and> evolves (home c) (range (place c)) w w'
    \<and> (\<forall>k. contents c w k \<noteq> None \<longrightarrow> contents c w' k \<noteq> None)
    \<and> (\<forall>h. r = Inr h \<longrightarrow> h = key c d \<and> contents c w' h \<noteq> None)"
proof -
  have "evolves (home c) (range (place c)) w w'"
    using put_frame [OF assms(1,3)] by (cases r) (auto elim: evolves_mono)
  moreover have "\<forall>k. contents c w k \<noteq> None \<longrightarrow> contents c w' k \<noteq> None"
    using put_keeps [OF assms] by (metis not_None_eq)
  moreover have "\<forall>h. r = Inr h \<longrightarrow> h = key c d \<and> contents c w' h \<noteq> None"
    using put_stored [OF assms(1,2)] assms(3) by fastforce
  ultimately show ?thesis using put_inv [OF assms] by blast
qed

lemma put_all_step:
  assumes "inv c w" "list_all fits ds" "put_all c ds w = (r, w')"
  shows "inv c w' \<and> evolves (home c) (range (place c)) w w'
    \<and> (\<forall>k. contents c w k \<noteq> None \<longrightarrow> contents c w' k \<noteq> None)
    \<and> (\<forall>hs. r = Inr hs \<longrightarrow> hs = map (key c) ds \<and> (\<forall>h \<in> set hs. contents c w' h \<noteq> None))"
  using assms
proof (induction ds arbitrary: w r w')
  case Nil
  then show ?case by (auto simp: comp_eval)
next
  case (Cons d ds)
  obtain q w1 where q: "put c d w = (q, w1)" by fastforce
  have d: "fits d" "list_all fits ds" using Cons.prems(2) by simp_all
  note s = put_step [OF Cons.prems(1) d(1) q]
  show ?case
  proof (cases q)
    case (Inl e)
    with s q Cons.prems(3) show ?thesis by auto
  next
    case (Inr h)
    obtain q2 w2 where q2: "put_all c ds w1 = (q2, w2)" by fastforce
    have run: "(r, w') = (case q2 of Inl e \<Rightarrow> (Inl e, w2) | Inr hs \<Rightarrow> (Inr (h # hs), w2))"
      using Inr q q2 Cons.prems(3) by (cases q2) (auto simp: comp_eval)
    from s Inr have s1: "inv c w1" "evolves (home c) (range (place c)) w w1"
      "\<And>k. contents c w k \<noteq> None \<Longrightarrow> contents c w1 k \<noteq> None"
      "h = key c d" "contents c w1 h \<noteq> None" by blast+
    from Cons.IH [OF s1(1) d(2) q2] have s2: "inv c w2" "evolves (home c) (range (place c)) w1 w2"
      "\<And>k. contents c w1 k \<noteq> None \<Longrightarrow> contents c w2 k \<noteq> None"
      "\<And>hs. q2 = Inr hs \<Longrightarrow> hs = map (key c) ds \<and> (\<forall>h \<in> set hs. contents c w2 h \<noteq> None)" by blast+
    have w': "w' = w2" using run by (cases q2) simp_all
    have ev: "evolves (home c) (range (place c)) w w2" by (rule evolves_trans [OF s1(2) s2(2)])
    have "\<forall>hs. r = Inr hs \<longrightarrow> hs = map (key c) (d # ds) \<and> (\<forall>h \<in> set hs. contents c w2 h \<noteq> None)"
    proof (intro allI impI)
      fix hs
      assume "r = Inr hs"
      with run obtain hs2 where q2r: "q2 = Inr hs2" "hs = h # hs2" by (cases q2) auto
      with s2(4) [OF q2r(1)] s1(4) s2(3) [OF s1(5)]
      show "hs = map (key c) (d # ds) \<and> (\<forall>h \<in> set hs. contents c w2 h \<noteq> None)" by simp
    qed
    moreover have "\<forall>k. contents c w k \<noteq> None \<longrightarrow> contents c w2 k \<noteq> None" using s1(3) s2(3) by blast
    ultimately show ?thesis using s2(1) ev w' by blast
  qed
qed

text \<open>A list that was put is fetched again, value for value with the same key.\<close>

lemma put_all_fetch:
  assumes "inv c w" "calm w" "list_all fits ds" "put_all c ds w = (Inr hs, w1)"
  shows "\<exists>es w2. fetch c hs w1 = (Inr es, w2) \<and> map (key c) es = map (key c) ds"
proof -
  note s = put_all_step [OF assms(1,3,4)]
  from s have i: "inv c w1" and h: "hs = map (key c) ds" "\<forall>h \<in> set hs. contents c w1 h \<noteq> None" by blast+
  have c: "calm w1" using s assms(2) evolves_calm by blast
  let ?es = "map (\<lambda>h. the (contents c w1 h)) hs"
  have a: "list_all2 (\<lambda>h d. contents c w1 h = Some d) hs ?es"
    using h(2) by (auto simp: list_all2_conv_all_nth)
  from fetch_total [OF i c a] obtain w2 where "fetch c hs w1 = (Inr ?es, w2)" by blast
  moreover have "map (key c) ?es = hs"
    using h(2) contents_key [OF i] by (auto intro!: map_idI)
  ultimately show ?thesis using h(1) by auto
qed

end

locale verified_store = content_store +
  assumes get_verified: "\<And>c h w d w'. get c h w = (Inr d, w') \<Longrightarrow> key c d = h \<and> fits d"
begin

text \<open>Whatever was done to the files, a list that is read is the one that was named.\<close>

lemma fetch_verified: "fetch c hs w = (Inr ds, w') \<Longrightarrow> map (key c) ds = hs \<and> list_all fits ds"
proof (induction hs arbitrary: w ds)
  case Nil
  then show ?case by (simp add: comp_eval)
next
  case (Cons h hs)
  then obtain d w1 ds' where "get c h w = (Inr d, w1)" "fetch c hs w1 = (Inr ds', w')" "ds = d # ds'"
    by (auto simp: andThen_Inr comp_eval)
  with Cons.IH get_verified show ?case by fastforce
qed

lemma fetch_agree:
  assumes "fetch c hs w = (Inr ds, w')" "fetch c hs v = (Inr es, v')"
    and "inj_on (key c) (set ds \<union> set es)"
  shows "ds = es"
  using fetch_verified [OF assms(1)] fetch_verified [OF assms(2)] assms(3)
  by (metis inj_on_map_eq_map)

end

end
