(* ===== verification/Crate_Instances.thy ===== *)
theory Crate_Instances
  imports World_Facts
begin

text \<open>
  Concrete functions with the documented behaviour of the crates, so that the hypotheses
  on them are seen to be satisfiable and properties can be evaluated: hexadecimal coding as
  the \<open>hex\<close> crate defines it, a 32-byte digest that is not a cryptographic one, and the
  identity as compression. Nothing is proved about the program from these definitions.
\<close>

definition hex_digit :: "nat \<Rightarrow> char" where
  "hex_digit n = char_of (if n < 10 then 48 + n else 87 + n)"

definition hex_value :: "char \<Rightarrow> nat option" where
  "hex_value c =
     (if 48 \<le> code c \<and> code c \<le> 57 then Some (code c - 48)
      else if 97 \<le> code c \<and> code c \<le> 102 then Some (code c - 87)
      else if 65 \<le> code c \<and> code c \<le> 70 then Some (code c - 55)
      else None)"

definition ref_hex_encode :: "bytes \<Rightarrow> string" where
  "ref_hex_encode b = concat (map (\<lambda>c. [hex_digit (code c div 16), hex_digit (code c mod 16)]) b)"

fun ref_hex_decode :: "string \<Rightarrow> bytes option" where
  "ref_hex_decode [] = Some []"
| "ref_hex_decode [_] = None"
| "ref_hex_decode (a # b # s) =
     (case (hex_value a, hex_value b, ref_hex_decode s) of
        (Some x, Some y, Some r) \<Rightarrow> Some (char_of (16 * x + y) # r)
      | _ \<Rightarrow> None)"

lemma code_hex_digit: "n < 16 \<Longrightarrow> code (hex_digit n) = (if n < 10 then 48 + n else 87 + n)"
  by (simp add: hex_digit_def code_char_of)

lemma hex_value_digit: "n < 16 \<Longrightarrow> hex_value (hex_digit n) = Some n"
  by (simp add: hex_value_def code_hex_digit)

lemma char_of_code [simp]: "char_of (code c) = c"
  by (simp add: code_def)

lemma code_halves: "code c div 16 < 16" "code c mod 16 < 16"
  using code_less [of c] by presburger+

lemma ref_hex_round: "ref_hex_decode (ref_hex_encode b) = Some b"
proof (induction b)
  case Nil
  then show ?case by (simp add: ref_hex_encode_def)
next
  case (Cons c b)
  have "16 * (code c div 16) + code c mod 16 = code c" by simp
  with Cons code_halves [of c] show ?case by (simp add: ref_hex_encode_def hex_value_digit)
qed

lemma ref_hex_length: "length (ref_hex_encode b) = 2 * length b"
  by (induction b) (simp_all add: ref_hex_encode_def)

lemma ref_hex_lower: "lower_hex (ref_hex_encode b)"
proof -
  have "is_hexdigit (hex_digit n) \<and> \<not> is_upper (hex_digit n)" if "n < 16" for n
    using that by (simp add: is_hexdigit_def is_upper_def digit_def code_hex_digit)
  with code_halves show ?thesis by (auto simp: ref_hex_encode_def lower_hex_def)
qed

lemma code_lower: "is_hexdigit c \<Longrightarrow> code (lower_char c) = (if is_upper c then code c + 32 else code c)"
  by (auto simp: lower_char_def is_upper_def code_char_of is_hexdigit_def)

lemma hex_digit_value:
  assumes "hex_value c = Some n"
  shows "n < 16 \<and> hex_digit n = lower_char c"
proof -
  from assms have h: "is_hexdigit c" and n: "n < 16"
    by (auto simp: hex_value_def is_hexdigit_def digit_def split: if_splits)
  have "code (hex_digit n) = code (lower_char c)"
    using assms n by (auto simp: code_hex_digit code_lower [OF h] hex_value_def is_upper_def split: if_splits)
  with n show ?thesis by simp
qed

lemma ref_hex_decode_encode: "ref_hex_decode s = Some b \<Longrightarrow> ref_hex_encode b = map lower_char s"
proof (induction s arbitrary: b rule: ref_hex_decode.induct)
  case (3 x y s)
  then obtain m n r where v: "hex_value x = Some m" "hex_value y = Some n" "ref_hex_decode s = Some r"
    and b: "b = char_of (16 * m + n) # r"
    by (auto split: option.splits)
  from hex_digit_value [OF v(1)] hex_digit_value [OF v(2)]
  have mn: "m < 16" "n < 16" "hex_digit m = lower_char x" "hex_digit n = lower_char y" by auto
  then have "code (char_of (16 * m + n)) = 16 * m + n" by (simp add: code_char_of)
  with mn "3.IH" [OF v(3)] b show ?case by (simp add: ref_hex_encode_def)
qed (simp_all add: ref_hex_encode_def)

text \<open>A digest: position-weighted sums of the input, one for each of 32 positions.\<close>

fun weigh :: "nat \<Rightarrow> nat \<Rightarrow> bytes \<Rightarrow> nat" where
  "weigh i k [] = k"
| "weigh i k (c # s) = weigh i ((k * (i + 3) + code c + i) mod 256) s"

definition ref_blake3 :: "bytes \<Rightarrow> hash" where
  "ref_blake3 d = map (\<lambda>i. char_of (weigh i 7 d)) [0..<32]"

lemma ref_hex_zeros: "ref_hex_encode (replicate n (CHR 0x00)) = replicate (2 * n) CHR ''0''"
proof (induction n)
  case (Suc n)
  have "code (hex_digit 0) = code CHR ''0''" by (simp add: code_hex_digit) (simp add: code_def)
  then have "hex_digit 0 = CHR ''0''" by (rule code_inject [THEN iffD1])
  with Suc show ?case by (simp add: ref_hex_encode_def code_def)
qed (simp add: ref_hex_encode_def)

lemma ref_blake3_first: "code (ref_blake3 d ! 0) = weigh 0 7 d mod 256"
  by (simp add: ref_blake3_def code_def nth_map del: upt_rec_numeral)

definition ref_crates :: crates where
  "ref_crates = \<lparr>blake3 = ref_blake3, hex_encode = ref_hex_encode, hex_decode = ref_hex_decode,
     zstd_encode = Inr, zstd_read = (\<lambda>z n. Inr (take n z))\<rparr>"

lemma ref_ok:
  assumes "blake3 C = ref_blake3" "hex_encode C = ref_hex_encode" "hex_decode C = ref_hex_decode"
    and "zstd_encode C = Inr" "zstd_read C = (\<lambda>z n. Inr (take n z))"
  shows "crates_ok C"
  using assms
  by (simp add: crates_ok_def blake3_ok_def hex_ok_def zstd_ok_def ref_blake3_def ref_hex_round
      ref_hex_length ref_hex_lower ref_hex_decode_encode)

lemma ref_crates_ok: "crates_ok ref_crates"
  by (rule ref_ok) (simp_all add: ref_crates_def)

section \<open>A reversible one-line text for lists of fields\<close>

text \<open>
  It stands for a serializer in the witnesses: one line of graphic ASCII that reads back.
  Nested lists are fields themselves.
\<close>

abbreviation comma :: char where "comma \<equiv> CHR '',''"

definition ref_write :: "bytes list \<Rightarrow> string" where
  "ref_write fs = CHR ''['' # concat (map (\<lambda>f. ref_hex_encode f @ [comma]) fs)"

definition ref_read :: "string \<Rightarrow> bytes list option" where
  "ref_read s = those (map ref_hex_decode (butlast (split_on comma (drop 1 s))))"

lemma split_on_field: "d \<notin> set w \<Longrightarrow> split_on d (w @ d # s) = w # split_on d s"
  by (induction w) auto

lemma split_on_fields:
  "\<forall>w \<in> set ws. d \<notin> set w \<Longrightarrow> split_on d (concat (map (\<lambda>w. w @ [d]) ws)) = ws @ [[]]"
  by (induction ws) (simp_all add: split_on_field)

lemma lower_hex_no_comma: "lower_hex s \<Longrightarrow> comma \<notin> set s"
  by (auto simp: lower_hex_def is_hexdigit_def digit_def code_def)

lemma ref_read_write: "ref_read (ref_write fs) = Some fs"
proof -
  have "concat (map (\<lambda>f. ref_hex_encode f @ [comma]) fs) = concat (map (\<lambda>w. w @ [comma]) (map ref_hex_encode fs))"
    by (simp add: comp_def)
  then have "split_on comma (drop 1 (ref_write fs)) = map ref_hex_encode fs @ [[]]"
    using split_on_fields [of "map ref_hex_encode fs" comma] lower_hex_no_comma [OF ref_hex_lower]
    by (simp add: ref_write_def comp_def)
  moreover have "those (map ref_hex_decode (map ref_hex_encode fs)) = Some fs"
    by (induction fs) (simp_all add: ref_hex_round)
  ultimately show ?thesis by (simp add: ref_read_def)
qed

lemma ref_write_inject: "ref_write fs = ref_write gs \<longleftrightarrow> fs = gs"
  by (metis option.inject ref_read_write)

lemma ref_write_graphic: "\<forall>c \<in> set (ref_write fs). graphic c"
proof -
  have "graphic CHR ''[''" "graphic comma" by (simp_all add: graphic_def code_def)
  moreover have "\<forall>c \<in> set (ref_hex_encode f). graphic c" for f
    by (rule lower_hex_graphic [OF ref_hex_lower])
  ultimately show ?thesis by (auto simp: ref_write_def)
qed

lemma ref_write_line:
  "newline \<notin> set (ref_write fs)" "carriage \<notin> set (ref_write fs)" "utf8_valid (ref_write fs)"
  "trim (ref_write fs) \<noteq> []" "trim (ref_write fs) = ref_write fs"
proof -
  note g = ref_write_graphic [of fs]
  have "\<not> graphic newline" "\<not> graphic carriage" by (simp_all add: graphic_def code_def)
  with g show "newline \<notin> set (ref_write fs)" "carriage \<notin> set (ref_write fs)" by auto
  show "utf8_valid (ref_write fs)"
    using g by (auto intro!: ascii_utf8_valid simp: ascii_def graphic_def)
  show "trim (ref_write fs) = ref_write fs" by (rule trim_graphic [OF g])
  then show "trim (ref_write fs) \<noteq> []" by (simp add: ref_write_def)
qed

definition word_field :: "64 word \<Rightarrow> bytes" where
  "word_field w = replicate (unat w) CHR ''1''"

definition field_word :: "bytes \<Rightarrow> 64 word" where
  "field_word s = of_nat (length s)"

lemma field_word [simp]: "field_word (word_field w) = w"
  by (simp add: field_word_def word_field_def)

lemma word_field_inject [simp]: "word_field a = word_field b \<longleftrightarrow> a = b"
  by (metis field_word)

text \<open>Codecs of lists and options of fields.\<close>

definition enc_list :: "('a \<Rightarrow> bytes) \<Rightarrow> 'a list \<Rightarrow> bytes" where
  "enc_list e xs = ref_write (map e xs)"

definition dec_list :: "(bytes \<Rightarrow> 'a option) \<Rightarrow> bytes \<Rightarrow> 'a list option" where
  "dec_list d s = (case ref_read s of None \<Rightarrow> None | Some fs \<Rightarrow> those (map d fs))"

definition enc_opt :: "bytes option \<Rightarrow> bytes" where
  "enc_opt x = ref_write (case x of None \<Rightarrow> [] | Some y \<Rightarrow> [y])"

definition dec_opt :: "bytes \<Rightarrow> bytes option option" where
  "dec_opt s = (case ref_read s of Some [] \<Rightarrow> Some None | Some [y] \<Rightarrow> Some (Some y) | _ \<Rightarrow> None)"

lemma dec_enc_list: "(\<And>x. x \<in> set xs \<Longrightarrow> d (e x) = Some x) \<Longrightarrow> dec_list d (enc_list e xs) = Some xs"
  by (induction xs) (auto simp: dec_list_def enc_list_def ref_read_write)

lemma dec_enc_opt [simp]: "dec_opt (enc_opt x) = Some x"
  by (cases x) (simp_all add: dec_opt_def enc_opt_def ref_read_write)

definition half_field :: "32 word \<Rightarrow> bytes" where
  "half_field w = replicate (unat w) CHR ''1''"

definition field_half :: "bytes \<Rightarrow> 32 word" where
  "field_half s = of_nat (length s)"

lemma field_half [simp]: "field_half (half_field w) = w"
  by (simp add: field_half_def half_field_def)

text \<open>A world with nothing but the root directory, no faults and no other processes.\<close>

definition fresh_world :: "fs \<Rightarrow> world" where
  "fresh_world fs = \<lparr>wfs = fs, wtick = 0, wtime = (\<lambda>n. 1700000000000000000 + int n),
     wfault = (\<lambda>n. None), winterf = (\<lambda>n f. f), wrand = (\<lambda>n k. replicate k (CHR 0x07)),
     wenv = (\<lambda>v. None), wlock = False, wtmp = 0, wpid = 1\<rparr>"

lemma fresh_calm [simp]: "calm (fresh_world fs)" "quiet (fresh_world fs)"
  by (simp_all add: calm_def quiet_def fresh_world_def)

lemma fresh_entries: "entries (fresh_world fs) = entry_at fs"
  by (simp add: entries_def fresh_world_def)

lemma fresh_sound: "wf_fs fs \<Longrightarrow> link_free F fs \<Longrightarrow> sound F (fresh_world fs)"
  by (simp add: sound_def quiet_def fresh_world_def)

text \<open>Computable conditions for a concrete file tree.\<close>

definition plain_fs :: "fs \<Rightarrow> bool" where
  "plain_fs fs \<longleftrightarrow> list_all (\<lambda>(p, n). p \<noteq> [] \<and> \<not> is_link (Some n)
     \<and> (butlast p = [] \<or> map_of fs (butlast p) = Some Dir)) fs"

lemma plain_fs_entry:
  assumes "plain_fs fs" "entry_at fs p = Some n" "p \<noteq> []"
  shows "\<not> is_link (Some n)" "entry_at fs (butlast p) = Some Dir"
proof -
  from assms have "(p, n) \<in> set fs" by (auto simp: entry_at_def dest: map_of_SomeD)
  with assms(1) show "\<not> is_link (Some n)" "entry_at fs (butlast p) = Some Dir"
    by (auto simp: plain_fs_def list_all_iff entry_at_def)
qed

lemma plain_fs_sound:
  assumes "plain_fs fs" "''..'' \<notin> set F"
  shows "sound F (fresh_world fs)"
proof (rule fresh_sound)
  show "wf_fs fs"
    unfolding wf_fs_def
  proof (intro allI impI)
    fix p
    assume "entry_at fs p \<noteq> None"
    with plain_fs_entry(2) [OF assms(1)] show "entry_at fs (butlast p) = Some Dir"
      by (cases "p = []") auto
  qed
  have "\<not> is_link (entry_at fs p)" for p
    using plain_fs_entry(1) [OF assms(1)] by (cases "p = []"; cases "entry_at fs p") auto
  with assms(2) show "link_free F fs" by (simp add: link_free_def)
qed

end
