(* ===== verification/Store.thy ===== *)
theory Store
  imports Content_Store Crate_Instances
begin

text \<open>
  \<open>src/store.rs\<close>: the content-addressed store below \<open>.respawn/\<close>, with the layout on
  disk, atomic writes, verified reads, the HEAD pointer and the fabric lock. The store value
  itself is the worktree root. The locale \<open>content_store\<close> states what the snapshot, revert
  and sync components rely on; both halves of the store, objects and manifests, interpret it,
  and only the object half interprets \<open>verified_store\<close>.
\<close>

section \<open>Layout\<close>

definition fabric_dir :: "path \<Rightarrow> path" where
  "fabric_dir root = root @ [FABRIC_DIR]"

definition object_path :: "('z) crates_scheme \<Rightarrow> path \<Rightarrow> hash \<Rightarrow> path" where
  "object_path C root h =
     (let hex = hash_hex C h in fabric_dir root @ [''objects'', take 2 hex, drop 2 hex])"

definition manifest_path :: "('z) crates_scheme \<Rightarrow> path \<Rightarrow> hash \<Rightarrow> path" where
  "manifest_path C root h =
     (let hex = hash_hex C h in fabric_dir root @ [''manifests'', take 2 hex, drop 2 hex])"

definition head_path :: "path \<Rightarrow> path" where
  "head_path root = fabric_dir root @ [''HEAD'']"

section \<open>Opening and locking\<close>

definition store_init :: "path \<Rightarrow> path io" where
  "store_init root =
     (let dir = fabric_dir root in
      andThen (p_create_dir_all (dir @ [''objects''])) (\<lambda>_.
      andThen (p_create_dir_all (dir @ [''manifests''])) (\<lambda>_.
      andThen (p_exists (head_path root)) (\<lambda>ex.
      andThen (if ex then ok () else p_write (head_path root) []) (\<lambda>_.
      ok root)))))"

definition store_open :: "path \<Rightarrow> path io" where
  "store_open root =
     andThen (p_is_dir (fabric_dir root @ [''objects''])) (\<lambda>b.
     if b then ok root else fail NotInitialized)"

function find_up :: "path \<Rightarrow> path io" where
  "find_up cur =
     andThen (p_is_dir (cur @ [FABRIC_DIR, ''objects''])) (\<lambda>b.
     if b then ok cur
     else if cur = [] then fail NotInitialized
     else find_up (butlast cur))"
  by pat_completeness auto
termination
  by (relation "measure length") auto

declare find_up.simps [simp del]

definition find_root :: "path \<Rightarrow> path io" where
  "find_root start = andThen (map_err (\<lambda>_. NotInitialized) (p_canonicalize start)) find_up"

definition try_lock :: "path \<Rightarrow> unit io" where
  "try_lock root =
     andThen (p_open_append (fabric_dir root @ [''lock''])) (\<lambda>_ w.
     if wlock w then
       (Inl (Locked (''another respawn process is using this worktree ''
          @ ''(concurrent snap/pull/revert is unsupported by design)'')), w)
     else (Inr (), w\<lparr>wlock := True\<rparr>))"

text \<open>Dropping the \<open>FabricLock\<close>.\<close>

definition unlock :: "world \<Rightarrow> world" where
  "unlock w = w\<lparr>wlock := False\<rparr>"

section \<open>Atomic writes\<close>

definition atomic_write :: "path \<Rightarrow> bytes \<Rightarrow> unit io" where
  "atomic_write path data =
     (let dir = butlast path in
      andThen (p_create_dir_all dir) (\<lambda>_.
      andThen (tmp_path dir (last path)) (\<lambda>tmp.
      andThen (p_create_new 0x1A4 tmp) (\<lambda>f.
      andThen (p_write_all f data) (\<lambda>_.
      andThen (p_sync_all f) (\<lambda>_.
      p_rename tmp path))))))"

section \<open>Objects\<close>

definition put_object :: "('z) crates_scheme \<Rightarrow> path \<Rightarrow> bytes \<Rightarrow> hash io" where
  "put_object C root data =
     (let h = hash_bytes C data; path = object_path C root h in
      andThen (p_exists path) (\<lambda>ex.
      if ex then ok h
      else
        andThen (lift (map_sum Io id (zstd_encode C data))) (\<lambda>compressed.
        andThen (p_create_dir_all (butlast path)) (\<lambda>_.
        andThen (atomic_write path compressed) (\<lambda>_.
        ok h)))))"

definition put_object_as :: "('z) crates_scheme \<Rightarrow> path \<Rightarrow> hash \<Rightarrow> bytes \<Rightarrow> unit io" where
  "put_object_as C root h data =
     (if hash_bytes C data \<noteq> h then
        fail (Corrupt (''object '' @ short C h @ '' failed content verification''))
      else andThen (put_object C root data) (\<lambda>_. ok ()))"

text \<open>The pure part of a read: bounded decompression, size check, hash check.\<close>

definition decode_object :: "('z) crates_scheme \<Rightarrow> hash \<Rightarrow> bytes \<Rightarrow> error + bytes" where
  "decode_object C h compressed =
     (case zstd_read C compressed (MAX_OBJECT_SIZE + 1) of
        Inl e \<Rightarrow> Inl (Io e)
      | Inr data \<Rightarrow>
          (if length data > MAX_OBJECT_SIZE then
             Inl (Corrupt (''object '' @ short C h @ '' exceeds chunk bound''))
           else if hash_bytes C data \<noteq> h then
             Inl (Corrupt (''object '' @ short C h @ '' failed content verification''))
           else Inr data))"

definition missing_as :: "hash \<Rightarrow> error \<Rightarrow> error" where
  "missing_as h e = (if e = Io NotFound then MissingObject h else e)"

definition get_object :: "('z) crates_scheme \<Rightarrow> path \<Rightarrow> hash \<Rightarrow> bytes io" where
  "get_object C root h =
     andThen (map_err (missing_as h) (p_read (object_path C root h))) (\<lambda>compressed.
     lift (decode_object C h compressed))"

definition has_object :: "('z) crates_scheme \<Rightarrow> path \<Rightarrow> hash \<Rightarrow> bool io" where
  "has_object C root h = p_exists (object_path C root h)"

section \<open>Manifests\<close>

definition put_manifest :: "('z) crates_scheme \<Rightarrow> path \<Rightarrow> bytes \<Rightarrow> hash io" where
  "put_manifest C root data =
     (let h = hash_bytes C data; path = manifest_path C root h in
      andThen (p_exists path) (\<lambda>ex.
      if ex then ok h
      else
        andThen (p_create_dir_all (butlast path)) (\<lambda>_.
        andThen (atomic_write path data) (\<lambda>_.
        ok h))))"

definition put_manifest_as :: "('z) crates_scheme \<Rightarrow> path \<Rightarrow> hash \<Rightarrow> bytes \<Rightarrow> unit io" where
  "put_manifest_as C root h data =
     (if hash_bytes C data \<noteq> h then fail (Corrupt ''manifest hash mismatch'')
      else andThen (put_manifest C root data) (\<lambda>_. ok ()))"

definition get_manifest_bytes :: "('z) crates_scheme \<Rightarrow> path \<Rightarrow> hash \<Rightarrow> bytes io" where
  "get_manifest_bytes C root h = map_err (missing_as h) (p_read (manifest_path C root h))"

definition has_manifest :: "('z) crates_scheme \<Rightarrow> path \<Rightarrow> hash \<Rightarrow> bool io" where
  "has_manifest C root h = p_exists (manifest_path C root h)"

section \<open>HEAD\<close>

text \<open>The text of the HEAD file, once read.\<close>

definition parse_head :: "('z) crates_scheme \<Rightarrow> string \<Rightarrow> error + hash option" where
  "parse_head C text =
     (let s = trim text in
      if s = [] then Inr None else map_sum id Some (parse_hash C s))"

definition store_head :: "('z) crates_scheme \<Rightarrow> path \<Rightarrow> hash option io" where
  "store_head C root =
     andThen (attempt (p_read_to_string (head_path root))) (\<lambda>r.
     case r of
       Inr s \<Rightarrow> lift (parse_head C s)
     | Inl e \<Rightarrow> if e = Io NotFound then ok None else fail e)"

definition set_head :: "('z) crates_scheme \<Rightarrow> path \<Rightarrow> hash option \<Rightarrow> unit io" where
  "set_head C root h =
     atomic_write (head_path root) (case h of Some k \<Rightarrow> hash_hex C k | None \<Rightarrow> [])"

section \<open>Hashing a stream\<close>

text \<open>The reader loop with its 64 KiB buffer; the hasher state is the bytes fed so far.\<close>

function hash_loop :: "bytes \<Rightarrow> 64 word \<Rightarrow> bytes \<Rightarrow> bytes \<times> 64 word" where
  "hash_loop acc tot r =
     (let n = min (64 * 1024) (length r) in
      if n = 0 then (acc, tot) else hash_loop (acc @ take n r) (tot + of_nat n) (drop n r))"
  by pat_completeness auto
termination
  by (relation "measure (\<lambda>(acc, tot, r). length r)") (auto simp: min_def split: if_splits)

declare hash_loop.simps [simp del]

definition hash_reader :: "('z) crates_scheme \<Rightarrow> bytes \<Rightarrow> hash \<times> 64 word" where
  "hash_reader C r = (case hash_loop [] 0 r of (acc, tot) \<Rightarrow> (blake3 C acc, tot))"

lemma hash_loop_eq: "hash_loop acc tot r = (acc @ r, tot + of_nat (length r))"
proof (induction acc tot r rule: hash_loop.induct)
  case (1 acc tot r)
  let ?n = "min (64 * 1024) (length r)"
  show ?case
  proof (cases "?n = 0")
    case True
    then have "r = []" by (simp add: min_def split: if_splits)
    then show ?thesis by (simp add: hash_loop.simps [of acc tot "[]"])
  next
    case False
    have "of_nat ?n + of_nat (length (drop ?n r)) = (of_nat (length r) :: 64 word)"
      by (simp flip: of_nat_add)
    with False "1.IH" [OF refl False] show ?thesis
      by (simp add: hash_loop.simps [of acc tot r] Let_def add.assoc flip: append.assoc)
  qed
qed

lemma hash_reader_eq: "hash_reader C r = (hash_bytes C r, of_nat (length r))"
  by (simp add: hash_reader_def hash_loop_eq hash_bytes_def)

section \<open>Facts about the layout\<close>

lemma fabric_dir_prefix [simp]: "prefix (fabric_dir root) (fabric_dir root @ p)"
  by simp

lemma object_path_inject:
  assumes "hex_ok C"
  shows "object_path C root h = object_path C root k \<longleftrightarrow> h = k"
    and "manifest_path C root h = manifest_path C root k \<longleftrightarrow> h = k"
proof -
  have "take 2 (hash_hex C h) = take 2 (hash_hex C k) \<and> drop 2 (hash_hex C h) = drop 2 (hash_hex C k)
      \<longleftrightarrow> hash_hex C h = hash_hex C k"
    by (metis append_take_drop_id)
  with hash_hex_inject [OF assms] show "object_path C root h = object_path C root k \<longleftrightarrow> h = k"
    and "manifest_path C root h = manifest_path C root k \<longleftrightarrow> h = k"
    by (simp_all add: object_path_def manifest_path_def Let_def)
qed

lemma object_manifest_disjoint [simp]: "object_path C root h \<noteq> manifest_path C root k"
  by (simp add: object_path_def manifest_path_def Let_def)

lemma lower_hex_take_drop: "lower_hex s \<Longrightarrow> lower_hex (take n s) \<and> lower_hex (drop n s)"
  unfolding lower_hex_def by (meson in_set_dropD in_set_takeD)

lemma lower_hex_not_dots: "lower_hex s \<Longrightarrow> s \<noteq> ''..''"
  by (auto simp: lower_hex_def is_hexdigit_def digit_def code_def)

text \<open>
  A slot is a path below \<open>.respawn/\<close> that is no temporary name and passes through no
  \<open>..\<close>: every file the store writes has one.
\<close>

definition slot :: "path \<Rightarrow> path \<Rightarrow> bool" where
  "slot F p \<longleftrightarrow> inside F p \<and> inside F (butlast p) \<and> \<not> is_tmp p \<and> p \<noteq> [] \<and> dir_place F (butlast p)"

lemma slot_object:
  assumes "hex_ok C" "''..'' \<notin> set root"
  shows "slot (fabric_dir root) (object_path C root h)" "slot (fabric_dir root) (manifest_path C root h)"
  using lower_hex_take_drop [OF hash_hex_facts(2) [OF assms(1)], of 2 h] assms(2)
  by (auto simp: slot_def inside_def object_path_def manifest_path_def fabric_dir_def Let_def
      FABRIC_DIR_def is_tmp_def dir_place_def store_dirs_def butlast_append lower_hex_not_dots lower_hex_not_tmp
      dest: lower_hex_not_dots)

lemma slot_head: "''..'' \<notin> set root \<Longrightarrow> slot (fabric_dir root) (head_path root)"
  by (auto simp: slot_def inside_def head_path_def fabric_dir_def FABRIC_DIR_def is_tmp_def dir_place_def store_dirs_def butlast_append)

lemma slot_fabric_file:
  "''..'' \<notin> set root \<Longrightarrow> name \<noteq> ''..'' \<Longrightarrow> take 5 name \<noteq> ''.tmp-'' \<Longrightarrow>
   slot (fabric_dir root) (fabric_dir root @ [name])"
  by (auto simp: slot_def inside_def fabric_dir_def FABRIC_DIR_def is_tmp_def dir_place_def butlast_append)

section \<open>An atomic write is all or nothing\<close>

definition write_as :: "32 word \<Rightarrow> string \<Rightarrow> path \<Rightarrow> bytes \<Rightarrow> unit io" where
  "write_as m tg path data =
     (let dir = butlast path in
      andThen (p_create_dir_all dir) (\<lambda>_.
      andThen (tmp_path dir tg) (\<lambda>tmp.
      andThen (p_create_new m tmp) (\<lambda>f.
      andThen (p_write_all f data) (\<lambda>_.
      andThen (p_sync_all f) (\<lambda>_.
      p_rename tmp path))))))"

definition stays :: "path \<Rightarrow> world \<Rightarrow> world \<Rightarrow> bool" where
  "stays F w w' \<longleftrightarrow> sound F w' \<and> evolves F {} w w'"

lemma stays_refl: "sound F w \<Longrightarrow> stays F w w"
  by (simp add: stays_def)

lemma stays_trans: "stays F w w1 \<Longrightarrow> stays F w1 w2 \<Longrightarrow> stays F w w2"
  by (auto simp: stays_def intro: evolves_trans)

lemma stays_same: "stays F w w1 \<Longrightarrow> same_env w1 w2 \<Longrightarrow> wfs w2 = wfs w1 \<Longrightarrow> stays F w w2"
  by (rule stays_trans) (auto simp: stays_def intro: sound_same evolves_same)

lemma stays_put_tmp:
  assumes "stays F w w1" "sound F w2" "same_env w1 w2" "wfs w2 = put_node p nd (wfs w1)"
    and "inside F p" "is_tmp p"
  shows "stays F w w2"
proof -
  have "p \<noteq> []" using assms(6) by (simp add: is_tmp_def)
  then have "evolves F {} w1 w2"
    using assms by (auto simp: evolves_def node_evolves_def entries_def entry_at_put inside_def)
  with assms show ?thesis by (auto simp: stays_def intro: evolves_trans)
qed

text \<open>When an atomic write cannot fail: no fault, a free temporary name, room for the file.\<close>

definition writable_as :: "string \<Rightarrow> path \<Rightarrow> world \<Rightarrow> bool" where
  "writable_as tg p w \<longleftrightarrow> calm w
     \<and> (\<forall>q. prefix q (butlast p) \<longrightarrow> entries w q = None \<or> entries w q = Some Dir)
     \<and> entries w p \<noteq> Some Dir \<and> entries w (butlast p @ [tmp_name w tg]) = None"

abbreviation writable :: "path \<Rightarrow> world \<Rightarrow> bool" where
  "writable p \<equiv> writable_as (last p) p"

lemmas writable_def = writable_as_def

definition staged :: "path \<Rightarrow> path \<Rightarrow> world \<Rightarrow> world \<Rightarrow> bool" where
  "staged F p w x \<longleftrightarrow> stays F w x \<and> entries x (butlast p) = Some Dir \<and> entries x p = entries w p"

definition aborted :: "string \<Rightarrow> path \<Rightarrow> path \<Rightarrow> world \<Rightarrow> world \<Rightarrow> bool" where
  "aborted tg F p w x \<longleftrightarrow> stays F w x \<and> \<not> writable_as tg p w"

definition stage :: "string \<Rightarrow> path \<Rightarrow> world \<Rightarrow> path" where
  "stage tg p w = butlast p @ [tmp_name w tg]"

text \<open>The temporary file holds \<open>c\<close> and the target is as it was.\<close>

definition holding :: "32 word \<Rightarrow> string \<Rightarrow> bytes \<Rightarrow> path \<Rightarrow> path \<Rightarrow> world \<Rightarrow> world \<Rightarrow> bool" where
  "holding m tg c F p w x \<longleftrightarrow> staged F p w x \<and> (\<exists>t. entries x (stage tg p w) = Some (File c m t))"

lemma slot_facts:
  assumes "slot F p"
  shows "inside F p" "inside F (butlast p)" "\<not> is_tmp p" "p \<noteq> []" "inside F (stage tg p w)"
    and "stage tg p w \<noteq> p" "\<not> prefix p (butlast p)" "butlast p \<noteq> p" "\<not> prefix (stage tg p w) (butlast p)"
      "butlast p \<noteq> stage tg p w" "dir_place F (butlast p)"
proof -
  show ins: "inside F p" "inside F (butlast p)" "\<not> is_tmp p" "p \<noteq> []"
    using assms by (simp_all add: slot_def)
  show "inside F (stage tg p w)" using ins(2) by (auto simp: inside_def tmp_name_def stage_def)
  show "stage tg p w \<noteq> p" using ins(3) is_tmp_name unfolding stage_def by metis
  show "dir_place F (butlast p)" using assms by (simp add: slot_def)
  have "length (butlast p) < length p" using ins(4) by (cases p) auto
  then show "\<not> prefix p (butlast p)" "butlast p \<noteq> p" using prefix_length_le [of p "butlast p"] by auto
  show "\<not> prefix (stage tg p w) (butlast p)" "butlast p \<noteq> stage tg p w"
    using prefix_length_le [of "stage tg p w" "butlast p"] by (auto simp: stage_def)
qed

lemma stage_create_dir:
  assumes p: "slot F p"
  shows "triple (\<lambda>x. x = w \<and> sound F w) (p_create_dir_all (butlast p))
      (\<lambda>_ x. staged F p w x \<and> wtmp x = wtmp w \<and> wpid x = wpid w \<and> entries x (stage tg p w) = entries w (stage tg p w))
      (\<lambda>_. aborted tg F p w)"
proof -
  let ?dir = "butlast p" and ?tmp = "butlast p @ [tmp_name w tg]"
  let ?X = "\<lambda>(_::error) x. stays F w x \<and> \<not> writable_as tg p w"
  let ?A = "\<lambda>x. stays F w x \<and> entries x ?dir = Some Dir \<and> entries x p = entries w p"
  note ins = slot_facts(1-4) [OF p] and place = slot_facts(11) [OF p] and itmp = slot_facts(5) [OF p, of tg w, unfolded stage_def]
  note ne = slot_facts(6,9,10) [OF p, of tg w, unfolded stage_def] slot_facts(7,8) [OF p] and ne1 = slot_facts(6) [OF p, of tg w, unfolded stage_def]
  have 1: "triple (\<lambda>x. x = w \<and> sound F w) (p_create_dir_all ?dir)
      (\<lambda>_ x. ?A x \<and> wtmp x = wtmp w \<and> wpid x = wpid w \<and> entries x ?tmp = entries w ?tmp) ?X"
  proof (rule tripleI)
    fix x r x'
    assume x: "x = w \<and> sound F w" and run: "p_create_dir_all ?dir x = (Inr r, x')"
    have snd: "sound F x" using x by simp
    note f = p_create_dir_all_sound [OF snd ins(2) run]
    have keep: "entries x' q = entries w q" if "\<not> prefix q ?dir" for q using x f(6) [of q] that by auto
    have "wtmp x' = wtmp w" using x run by (auto simp: p_create_dir_all_def dest: syscall_wtmp)
    moreover have "stays F w x'" using x f(1) f(2) [OF place, of "{}"] by (simp add: stays_def)
    moreover from this have "wpid x' = wpid w" by (simp add: stays_def evolves_def same_env_def)
    ultimately show "?A x' \<and> wtmp x' = wtmp w \<and> wpid x' = wpid w \<and> entries x' ?tmp = entries w ?tmp"
      using f(4) [of ?dir] keep ne by simp
  next
    fix x e x'
    assume x: "x = w \<and> sound F w" and run: "p_create_dir_all ?dir x = (Inl e, x')"
    have snd: "sound F x" using x by simp
    note f = p_create_dir_all_sound [OF snd ins(2) run]
    have "stays F w x'" using x f(1) f(2) [OF place, of "{}"] by (simp add: stays_def)
    moreover have "\<not> writable_as tg p w" using x f(5) by (auto simp: writable_as_def)
    ultimately show "?X e x'" by simp
  qed
  then show ?thesis by (simp add: holding_def [abs_def] staged_def [abs_def] aborted_def [abs_def] stage_def conj_assoc)
qed

lemma stage_tmp_path:
  assumes p: "slot F p"
  shows "triple (\<lambda>x. staged F p w x \<and> wtmp x = wtmp w \<and> wpid x = wpid w \<and> entries x (stage tg p w) = entries w (stage tg p w))
      (tmp_path (butlast p) tg) (\<lambda>t x. t = stage tg p w \<and> staged F p w x \<and> entries x (stage tg p w) = entries w (stage tg p w))
      (\<lambda>_. aborted tg F p w)"
proof -
  let ?dir = "butlast p" and ?tmp = "butlast p @ [tmp_name w tg]"
  let ?X = "\<lambda>(_::error) x. stays F w x \<and> \<not> writable_as tg p w"
  let ?A = "\<lambda>x. stays F w x \<and> entries x ?dir = Some Dir \<and> entries x p = entries w p"
  note ins = slot_facts(1-4) [OF p] and place = slot_facts(11) [OF p] and itmp = slot_facts(5) [OF p, of tg w, unfolded stage_def]
  note ne = slot_facts(6,9,10) [OF p, of tg w, unfolded stage_def] slot_facts(7,8) [OF p] and ne1 = slot_facts(6) [OF p, of tg w, unfolded stage_def]
  have 2: "triple (\<lambda>x. ?A x \<and> wtmp x = wtmp w \<and> wpid x = wpid w \<and> entries x ?tmp = entries w ?tmp)
      (tmp_path ?dir tg) (\<lambda>t x. t = ?tmp \<and> ?A x \<and> entries x ?tmp = entries w ?tmp) ?X"
    by (rule tripleI)
      (auto simp: tmp_path_def tmp_name_def entries_def same_env_def elim: stays_same)
  then show ?thesis by (simp add: holding_def [abs_def] staged_def [abs_def] aborted_def [abs_def] stage_def conj_assoc)
qed

lemma stage_create_new:
  assumes p: "slot F p"
  shows "triple (\<lambda>x. staged F p w x \<and> entries x (stage tg p w) = entries w (stage tg p w)) (p_create_new m (stage tg p w))
      (\<lambda>f x. f = stage tg p w \<and> holding m tg [] F p w x) (\<lambda>_. aborted tg F p w)"
proof -
  let ?dir = "butlast p" and ?tmp = "butlast p @ [tmp_name w tg]"
  let ?X = "\<lambda>(_::error) x. stays F w x \<and> \<not> writable_as tg p w"
  let ?A = "\<lambda>x. stays F w x \<and> entries x ?dir = Some Dir \<and> entries x p = entries w p"
  note ins = slot_facts(1-4) [OF p] and place = slot_facts(11) [OF p] and itmp = slot_facts(5) [OF p, of tg w, unfolded stage_def]
  note ne = slot_facts(6,9,10) [OF p, of tg w, unfolded stage_def] slot_facts(7,8) [OF p] and ne1 = slot_facts(6) [OF p, of tg w, unfolded stage_def]
  have 3: "triple (\<lambda>x. ?A x \<and> entries x ?tmp = entries w ?tmp) (p_create_new m ?tmp)
      (\<lambda>f x. f = ?tmp \<and> ?A x \<and> (\<exists>t. entries x ?tmp = Some (File [] m t))) ?X"
  proof (rule tripleI)
    fix x f x'
    assume x: "?A x \<and> entries x ?tmp = entries w ?tmp" and run: "p_create_new m ?tmp x = (Inr f, x')"
    from x have snd: "sound F x" by (simp add: stays_def)
    note c = p_create_new_sound [OF snd itmp run]
    from c(4) [OF refl] obtain t where t: "f = ?tmp" "wfs x' = put_node ?tmp (File [] m t) (wfs x)" by auto
    with x c(1,3) have "stays F w x'" by (intro stays_put_tmp [OF _ c(1) c(3) t(2) itmp]) simp_all
    with x t ne show "f = ?tmp \<and> ?A x' \<and> (\<exists>t. entries x' ?tmp = Some (File [] m t))"
      by (auto simp: entries_def entry_at_put)
  next
    fix x e x'
    assume x: "?A x \<and> entries x ?tmp = entries w ?tmp" and run: "p_create_new m ?tmp x = (Inl e, x')"
    from x have snd: "sound F x" by (simp add: stays_def)
    note c = p_create_new_sound [OF snd itmp run]
    have "\<not> writable_as tg p w"
    proof
      assume "writable_as tg p w"
      with x have "calm x" "entries x ?tmp = None"
        by (auto simp: writable_as_def stays_def evolves_calm)
      with x c(5) show False by simp
    qed
    with x c(2,3) show "?X e x'" by (auto intro: stays_same)
  qed
  then show ?thesis by (simp add: holding_def [abs_def] staged_def [abs_def] aborted_def [abs_def] stage_def conj_assoc)
qed

lemma stage_write_all:
  assumes p: "slot F p"
  shows "triple (holding m tg [] F p w) (p_write_all (stage tg p w) d) (\<lambda>_. holding m tg d F p w) (\<lambda>_. aborted tg F p w)"
proof -
  let ?dir = "butlast p" and ?tmp = "butlast p @ [tmp_name w tg]"
  let ?X = "\<lambda>(_::error) x. stays F w x \<and> \<not> writable_as tg p w"
  let ?A = "\<lambda>x. stays F w x \<and> entries x ?dir = Some Dir \<and> entries x p = entries w p"
  note ins = slot_facts(1-4) [OF p] and place = slot_facts(11) [OF p] and itmp = slot_facts(5) [OF p, of tg w, unfolded stage_def]
  note ne = slot_facts(6,9,10) [OF p, of tg w, unfolded stage_def] slot_facts(7,8) [OF p] and ne1 = slot_facts(6) [OF p, of tg w, unfolded stage_def]
  have 4: "triple (\<lambda>x. ?A x \<and> (\<exists>t. entries x ?tmp = Some (File [] m t))) (p_write_all ?tmp d)
      (\<lambda>_ x. ?A x \<and> (\<exists>t. entries x ?tmp = Some (File d m t))) ?X"
  proof (rule tripleI)
    fix x r x'
    assume x: "?A x \<and> (\<exists>t. entries x ?tmp = Some (File [] m t))" and run: "p_write_all ?tmp d x = (Inr r, x')"
    then obtain t where t: "entries x ?tmp = Some (File [] m t)" and snd: "sound F x" by (auto simp: stays_def)
    note c = p_write_all_sound [OF snd itmp run t]
    from c(3) obtain t' where t': "wfs x' = put_node ?tmp (File d m t') (wfs x)" by auto
    with x c have "stays F w x'" by (intro stays_put_tmp [OF _ _ _ t' itmp]) simp_all
    with x t' ne show "?A x' \<and> (\<exists>t. entries x' ?tmp = Some (File d m t))"
      by (auto simp: entries_def entry_at_put)
  next
    fix x e x'
    assume x: "?A x \<and> (\<exists>t. entries x ?tmp = Some (File [] m t))" and run: "p_write_all ?tmp d x = (Inl e, x')"
    then obtain t where t: "entries x ?tmp = Some (File [] m t)" and snd: "sound F x" by (auto simp: stays_def)
    note c = p_write_all_sound [OF snd itmp run t]
    from c(3) obtain k t' where t': "wfs x' = put_node ?tmp (File (take k d) m t') (wfs x)" by auto
    with x c have "stays F w x'" by (intro stays_put_tmp [OF _ _ _ t' itmp]) simp_all
    moreover have "\<not> calm w" using x c(4) by (auto simp: stays_def evolves_calm)
    ultimately show "?X e x'" by (simp add: writable_as_def)
  qed
  then show ?thesis by (simp add: holding_def [abs_def] staged_def [abs_def] aborted_def [abs_def] stage_def conj_assoc)
qed

lemma stage_sync_all:
  assumes p: "slot F p"
  shows "triple (holding m tg d F p w) (p_sync_all (stage tg p w)) (\<lambda>_. holding m tg d F p w) (\<lambda>_. aborted tg F p w)"
proof -
  let ?dir = "butlast p" and ?tmp = "butlast p @ [tmp_name w tg]"
  let ?X = "\<lambda>(_::error) x. stays F w x \<and> \<not> writable_as tg p w"
  let ?A = "\<lambda>x. stays F w x \<and> entries x ?dir = Some Dir \<and> entries x p = entries w p"
  note ins = slot_facts(1-4) [OF p] and place = slot_facts(11) [OF p] and itmp = slot_facts(5) [OF p, of tg w, unfolded stage_def]
  note ne = slot_facts(6,9,10) [OF p, of tg w, unfolded stage_def] slot_facts(7,8) [OF p] and ne1 = slot_facts(6) [OF p, of tg w, unfolded stage_def]
  have 5: "triple (\<lambda>x. ?A x \<and> (\<exists>t. entries x ?tmp = Some (File d m t))) (p_sync_all ?tmp)
      (\<lambda>_ x. ?A x \<and> (\<exists>t. entries x ?tmp = Some (File d m t))) ?X"
  proof (rule tripleI)
    fix x r x'
    assume x: "?A x \<and> (\<exists>t. entries x ?tmp = Some (File d m t))" and run: "p_sync_all ?tmp x = (Inr r, x')"
    from x have snd: "sound F x" by (simp add: stays_def)
    note c = syscall_result [OF run [unfolded p_sync_all_def] sound_quiet [OF snd]]
    with x show "?A x' \<and> (\<exists>t. entries x' ?tmp = Some (File d m t))"
      by (auto simp: entries_def intro: stays_same)
  next
    fix x e x'
    assume x: "?A x \<and> (\<exists>t. entries x ?tmp = Some (File d m t))" and run: "p_sync_all ?tmp x = (Inl e, x')"
    from x have snd: "sound F x" by (simp add: stays_def)
    note c = syscall_result [OF run [unfolded p_sync_all_def] sound_quiet [OF snd]]
    then have same: "same_env x x'" "wfs x' = wfs x" "\<not> calm x" by auto
    have "stays F w x'" using x by (intro stays_same [OF _ same(1,2)]) simp
    moreover have "\<not> calm w" using x same(3) evolves_calm [of F "{}" w x] by (simp add: stays_def)
    ultimately show "?X e x'" by (simp add: writable_as_def)
  qed
  then show ?thesis by (simp add: holding_def [abs_def] staged_def [abs_def] aborted_def [abs_def] stage_def conj_assoc)
qed

lemma stage_rename:
  assumes p: "slot F p"
  shows "triple (holding m tg d F p w) (p_rename (stage tg p w) p)
      (\<lambda>_ x. sound F x \<and> evolves F {p} w x \<and> (\<exists>t. entries x p = Some (File d m t))) (\<lambda>_. aborted tg F p w)"
proof -
  let ?dir = "butlast p" and ?tmp = "butlast p @ [tmp_name w tg]"
  let ?X = "\<lambda>(_::error) x. stays F w x \<and> \<not> writable_as tg p w"
  let ?A = "\<lambda>x. stays F w x \<and> entries x ?dir = Some Dir \<and> entries x p = entries w p"
  note ins = slot_facts(1-4) [OF p] and place = slot_facts(11) [OF p] and itmp = slot_facts(5) [OF p, of tg w, unfolded stage_def]
  note ne = slot_facts(6,9,10) [OF p, of tg w, unfolded stage_def] slot_facts(7,8) [OF p] and ne1 = slot_facts(6) [OF p, of tg w, unfolded stage_def]
  have 6: "triple (\<lambda>x. ?A x \<and> (\<exists>t. entries x ?tmp = Some (File d m t))) (p_rename ?tmp p)
      (\<lambda>_ x. sound F x \<and> evolves F {p} w x \<and> (\<exists>t. entries x p = Some (File d m t))) ?X"
  proof (rule tripleI)
    fix x r x'
    assume x: "?A x \<and> (\<exists>t. entries x ?tmp = Some (File d m t))" and run: "p_rename ?tmp p x = (Inr r, x')"
    then obtain t where t: "entries x ?tmp = Some (File d m t)" and snd: "sound F x" by (auto simp: stays_def)
    note c = p_rename_sound [OF snd itmp ins(1) ne(1) ins(4) t run]
    from c(4) have e: "entries x' = (entries x)(?tmp := None, p := Some (File d m t))" by simp
    have "evolves F {p} x x'"
      using c(2) e ins(1) itmp by (auto simp: evolves_def node_evolves_def inside_def)
    moreover have "evolves F {p} w x" using x by (auto simp: stays_def intro: evolves_mono)
    ultimately show "sound F x' \<and> evolves F {p} w x' \<and> (\<exists>t. entries x' p = Some (File d m t))"
      using c(1) e by (auto intro: evolves_trans)
  next
    fix x e x'
    assume x: "?A x \<and> (\<exists>t. entries x ?tmp = Some (File d m t))" and run: "p_rename ?tmp p x = (Inl e, x')"
    then obtain t where t: "entries x ?tmp = Some (File d m t)" and snd: "sound F x" by (auto simp: stays_def)
    note c = p_rename_sound [OF snd itmp ins(1) ne(1) ins(4) t run]
    from x c(5) have "\<not> writable_as tg p w" by (auto simp: writable_as_def stays_def evolves_calm)
    with x c(2,3) show "?X e x'" by (auto intro: stays_same)
  qed
  then show ?thesis by (simp add: holding_def [abs_def] staged_def [abs_def] aborted_def [abs_def] stage_def conj_assoc)
qed

lemma write_as_triple:
  assumes p: "slot F p"
  shows "triple (\<lambda>x. x = w \<and> sound F w) (write_as m tg p d)
    (\<lambda>_ x. sound F x \<and> evolves F {p} w x \<and> (\<exists>t. entries x p = Some (File d m t)))
    (\<lambda>_ x. stays F w x \<and> \<not> writable_as tg p w)"
proof -
  let ?Q = "\<lambda>_ x. sound F x \<and> evolves F {p} w x \<and> (\<exists>t. entries x p = Some (File d m t))"
  let ?body = "\<lambda>t f. andThen (p_write_all f d) (\<lambda>_. andThen (p_sync_all f) (\<lambda>_. p_rename t p))"
  have 1: "triple (holding m tg [] F p w) (?body (stage tg p w) (stage tg p w)) ?Q (\<lambda>_. aborted tg F p w)"
    by (rule triple_andThen [OF stage_write_all [OF p] triple_andThen [OF stage_sync_all [OF p] stage_rename [OF p]]])
  have "triple (\<lambda>x. staged F p w x \<and> entries x (stage tg p w) = entries w (stage tg p w))
      (andThen (p_create_new m (stage tg p w)) (?body (stage tg p w))) ?Q (\<lambda>_. aborted tg F p w)"
  proof (rule triple_andThen [OF stage_create_new [OF p]])
    fix f
    show "triple (\<lambda>x. f = stage tg p w \<and> holding m tg [] F p w x) (?body (stage tg p w) f) ?Q (\<lambda>_. aborted tg F p w)"
      using 1 by (cases "f = stage tg p w") (simp_all add: triple_def)
  qed
  then have 2: "triple (\<lambda>x. t = stage tg p w \<and> staged F p w x \<and> entries x (stage tg p w) = entries w (stage tg p w))
      (andThen (p_create_new m t) (?body t)) ?Q (\<lambda>_. aborted tg F p w)" for t
    by (cases "t = stage tg p w") (simp_all add: triple_def)
  have "triple (\<lambda>x. x = w \<and> sound F w) (write_as m tg p d) ?Q (\<lambda>_. aborted tg F p w)"
    unfolding write_as_def Let_def
    by (rule triple_andThen [OF stage_create_dir [OF p] triple_andThen [OF stage_tmp_path [OF p] 2]])
  then show ?thesis by (simp add: aborted_def [abs_def])
qed

text \<open>The same sequence with another mode and tag, which the writers of other files use.\<close>

lemma atomic_write_as: "atomic_write p d = write_as 0x1A4 (last p) p d"
  by (simp add: atomic_write_def write_as_def Let_def)

lemma atomic_write_triple:
  assumes "slot F p"
  shows "triple (\<lambda>x. x = w \<and> sound F w) (atomic_write p d)
    (\<lambda>_ x. sound F x \<and> evolves F {p} w x \<and> file_data (entries x p) = Some d)
    (\<lambda>_ x. stays F w x \<and> \<not> writable p w)"
  unfolding atomic_write_as by (rule triple_conseq [OF write_as_triple [OF assms]]) auto

lemma write_as_result:
  assumes "sound F w" "slot F p" "write_as m tg p d w = (r, w')"
  shows "case r of
      Inl _ \<Rightarrow> stays F w w' \<and> \<not> writable_as tg p w
    | Inr _ \<Rightarrow> sound F w' \<and> evolves F {p} w w' \<and> (\<exists>t. entries w' p = Some (File d m t))"
  using write_as_triple [OF assms(2), of w m tg d] assms(1,3) by (auto simp: triple_def split: sum.splits)

lemma atomic_write_result:
  assumes "sound F w" "slot F p" "atomic_write p d w = (r, w')"
  shows "case r of
      Inl _ \<Rightarrow> stays F w w' \<and> \<not> writable p w
    | Inr _ \<Rightarrow> sound F w' \<and> evolves F {p} w w' \<and> file_data (entries w' p) = Some d"
  using atomic_write_triple [OF assms(2), of w d] assms(1,3) by (auto simp: triple_def)

section \<open>Putting a blob\<close>

text \<open>The common shape of \<open>put_object\<close> and \<open>put_manifest\<close>.\<close>

definition put_blob :: "path \<Rightarrow> hash \<Rightarrow> error + bytes \<Rightarrow> hash io" where
  "put_blob p h enc =
     andThen (p_exists p) (\<lambda>ex.
     if ex then ok h
     else andThen (lift enc) (\<lambda>z.
          andThen (p_create_dir_all (butlast p)) (\<lambda>_.
          andThen (atomic_write p z) (\<lambda>_. ok h))))"

lemma put_object_blob:
  "put_object C root d = put_blob (object_path C root (hash_bytes C d)) (hash_bytes C d)
     (map_sum Io id (zstd_encode C d))"
  by (simp add: put_object_def put_blob_def Let_def)

lemma put_manifest_blob:
  "put_manifest C root d = put_blob (manifest_path C root (hash_bytes C d)) (hash_bytes C d) (Inr d)"
  by (simp add: put_manifest_def put_blob_def Let_def cong: if_cong)

lemma put_blob_write:
  assumes p: "slot F p"
  shows "triple (\<lambda>x. stays F w x)
     (andThen (p_create_dir_all (butlast p)) (\<lambda>_. andThen (atomic_write p z) (\<lambda>_. ok h)))
     (\<lambda>r x. r = h \<and> sound F x \<and> evolves F {p} w x \<and> file_data (entries x p) = Some z)
     (\<lambda>_ x. stays F w x)"
proof (rule triple_andThen)
  show "triple (stays F w) (p_create_dir_all (butlast p)) (\<lambda>_. stays F w) (\<lambda>_. stays F w)"
  proof (rule tripleI)
    fix x r x'
    assume x: "stays F w x" and run: "p_create_dir_all (butlast p) x = (Inr r, x')"
    then have snd: "sound F x" by (simp add: stays_def)
    note f = p_create_dir_all_sound [OF snd slot_facts(2) [OF p] run]
    have "stays F x x'" using f(1) f(2) [OF slot_facts(11) [OF p], of "{}"] by (simp add: stays_def)
    with x show "stays F w x'" by (rule stays_trans)
  next
    fix x e x'
    assume x: "stays F w x" and run: "p_create_dir_all (butlast p) x = (Inl e, x')"
    then have snd: "sound F x" by (simp add: stays_def)
    note f = p_create_dir_all_sound [OF snd slot_facts(2) [OF p] run]
    have "stays F x x'" using f(1) f(2) [OF slot_facts(11) [OF p], of "{}"] by (simp add: stays_def)
    with x show "stays F w x'" by (rule stays_trans)
  qed
  fix u :: unit
  show "triple (stays F w) (andThen (atomic_write p z) (\<lambda>_. ok h))
     (\<lambda>r x. r = h \<and> sound F x \<and> evolves F {p} w x \<and> file_data (entries x p) = Some z)
     (\<lambda>_. stays F w)"
  proof (rule tripleI)
    fix x r x'
    assume x: "stays F w x" and run: "andThen (atomic_write p z) (\<lambda>_. ok h) x = (Inr r, x')"
    from run have "atomic_write p z x = (Inr (), x')" "r = h" by (auto simp: andThen_Inr comp_eval)
    with triple_Inr [OF atomic_write_triple [OF p]] x evolves_mono [of F "{}" w x "{p}"]
    show "r = h \<and> sound F x' \<and> evolves F {p} w x' \<and> file_data (entries x' p) = Some z"
      by (auto simp: stays_def intro: evolves_trans)
  next
    fix x e x'
    assume x: "stays F w x" and run: "andThen (atomic_write p z) (\<lambda>_. ok h) x = (Inl e, x')"
    from run have "atomic_write p z x = (Inl e, x')" by (auto simp: andThen_Inl comp_eval)
    with triple_Inl [OF atomic_write_triple [OF p]] x show "stays F w x'"
      by (blast intro: stays_trans dest: stays_def [THEN iffD1])
  qed
qed

text \<open>A blob is left as it is, when something has its place already, or written whole.\<close>

lemma put_blob_result:
  assumes p: "slot F p" and s: "sound F w" and run: "put_blob p h enc w = (r, w')"
  shows "case r of
      Inl e \<Rightarrow> stays F w w'
    | Inr k \<Rightarrow> k = h \<and> sound F w' \<and> evolves F {p} w w'
        \<and> (entries w p \<noteq> None \<and> entries w' = entries w
           \<or> (\<exists>z. enc = Inr z \<and> file_data (entries w' p) = Some z))"
proof -
  obtain b w1 where q: "p_exists p w = (Inr b, w1)"
    using query_sound(4) [OF s] by (metis p_exists_def prod.exhaust_sel)
  note qs = query_sound [OF s q [unfolded p_exists_def]]
  have st: "stays F w w1" using qs(1,2) by (simp add: stays_def)
  show ?thesis
  proof (cases b)
    case True
    with q run have "r = Inr h" "w' = w1" by (simp_all add: put_blob_def comp_eval)
    moreover from True qs(4) have "fs_exists (wfs w) p" by blast
    then have "entries w p \<noteq> None"
      using fs_exists_clean(1) [OF sound_facts(2) [OF s] sound_facts(3) [OF s slot_facts(1) [OF p]]]
      by (simp add: entries_def)
    ultimately show ?thesis using qs(1,2,3) by (simp add: entries_def)
  next
    case False
    show ?thesis
    proof (cases enc)
      case (Inl e)
      with False q run st show ?thesis by (auto simp: put_blob_def comp_eval)
    next
      case (Inr z)
      with False q run have run1: "andThen (p_create_dir_all (butlast p))
          (\<lambda>_. andThen (atomic_write p z) (\<lambda>_. ok h)) w1 = (r, w')"
        by (simp add: put_blob_def)
      show ?thesis
      proof (cases r)
        case (Inl e)
        with triple_Inl [OF put_blob_write [OF p] st] run1 show ?thesis by simp
      next
        case (Inr k)
        note t = triple_Inr [OF put_blob_write [OF p] st run1 [unfolded Inr]]
        from Inr t \<open>enc = Inr z\<close> show ?thesis by auto
      qed
    qed
  qed
qed

section \<open>The contents of the store\<close>

text \<open>
  What a store selected by its crates and its root holds: the objects that decode, and the
  manifests as they are.
\<close>

type_synonym 'z sel = "('z) crates_scheme \<times> path"

definition home :: "'z sel \<Rightarrow> path" where
  "home c = fabric_dir (snd c)"

definition object_at :: "'z sel \<Rightarrow> hash \<Rightarrow> path" where
  "object_at c h = object_path (fst c) (snd c) h"

definition manifest_at :: "'z sel \<Rightarrow> hash \<Rightarrow> path" where
  "manifest_at c h = manifest_path (fst c) (snd c) h"

definition decodes :: "'z sel \<Rightarrow> hash \<Rightarrow> bytes option \<Rightarrow> bytes option" where
  "decodes c h z = (case z of None \<Rightarrow> None | Some y \<Rightarrow>
     (case decode_object (fst c) h y of Inl _ \<Rightarrow> None | Inr d \<Rightarrow> Some d))"

definition objects :: "'z sel \<Rightarrow> world \<Rightarrow> hash \<Rightarrow> bytes option" where
  "objects c w h = decodes c h (file_data (entries w (object_at c h)))"

definition manifests :: "'z sel \<Rightarrow> world \<Rightarrow> hash \<Rightarrow> bytes option" where
  "manifests c w h = file_data (entries w (manifest_at c h))"

text \<open>A store is in order when every blob it names is one its operations have written.\<close>

definition store_base :: "'z sel \<Rightarrow> world \<Rightarrow> bool" where
  "store_base c w \<longleftrightarrow> crates_ok (fst c) \<and> ''..'' \<notin> set (snd c) \<and> sound (home c) w"

definition objects_ok :: "'z sel \<Rightarrow> world \<Rightarrow> bool" where
  "objects_ok c w \<longleftrightarrow> store_base c w
     \<and> (\<forall>h. entries w (object_at c h) \<noteq> None \<longrightarrow> objects c w h \<noteq> None)"

definition manifests_ok :: "'z sel \<Rightarrow> world \<Rightarrow> bool" where
  "manifests_ok c w \<longleftrightarrow> store_base c w
     \<and> (\<forall>h. entries w (manifest_at c h) \<noteq> None \<longrightarrow>
          (\<exists>d. manifests c w h = Some d \<and> hash_bytes (fst c) d = h))"

definition object_fits :: "bytes \<Rightarrow> bool" where
  "object_fits d \<longleftrightarrow> length d \<le> MAX_OBJECT_SIZE"

definition any_size :: "bytes \<Rightarrow> bool" where
  "any_size d \<longleftrightarrow> True"

lemma objects_ok_base: "objects_ok c w \<Longrightarrow> store_base c w"
  by (simp add: objects_ok_def)

lemma manifests_ok_base: "manifests_ok c w \<Longrightarrow> store_base c w"
  by (simp add: manifests_ok_def)

lemma store_base_facts:
  assumes "store_base c w"
  shows "slot (home c) (object_at c h)" "slot (home c) (manifest_at c h)" "sound (home c) w"
    and "object_at c h = object_at c k \<longleftrightarrow> h = k" "manifest_at c h = manifest_at c k \<longleftrightarrow> h = k"
    and "zstd_ok (fst c)" "hex_ok (fst c)" "blake3_ok (fst c)"
  using assms slot_object [of "fst c" "snd c" h] object_path_inject [of "fst c" "snd c" h k]
  by (auto simp: store_base_def crates_ok_def home_def object_at_def manifest_at_def)

lemma blob_not_dir_place: "\<not> dir_place (home c) (object_at c h)" "\<not> dir_place (home c) (manifest_at c h)"
  by (auto simp: dir_place_def home_def object_at_def manifest_at_def object_path_def manifest_path_def Let_def)

text \<open>An update elsewhere leaves a blob alone.\<close>

lemma evolves_blob:
  assumes "evolves (home c) X w w'" "slot (home c) p" "\<not> dir_place (home c) p" "p \<notin> X"
  shows "entries w' p = entries w p"
  using evolves_node [OF assms(1), of p] assms(2-4) unfolding node_evolves_def slot_def by argo

lemma decode_encoded:
  assumes "zstd_ok C" "zstd_encode C d = Inr z" "length d \<le> MAX_OBJECT_SIZE"
  shows "decode_object C (hash_bytes C d) z = Inr d"
  using assms by (simp add: decode_object_def zstd_ok_def)

lemma decode_verified:
  "decode_object C h z = Inr d \<Longrightarrow> hash_bytes C d = h \<and> length d \<le> MAX_OBJECT_SIZE"
  by (auto simp: decode_object_def split: sum.splits if_splits)

lemma decodes_Some: "decodes c h z = Some d \<Longrightarrow> hash_bytes (fst c) d = h"
  by (auto simp: decodes_def split: option.splits sum.splits dest: decode_verified)

lemma get_object_result:
  assumes "store_base c w" "get_object (fst c) (snd c) h w = (r, w')"
  shows "same_env w w' \<and> wfs w' = wfs w" "r = Inr d \<Longrightarrow> objects c w h = Some d"
    and "calm w \<Longrightarrow> objects c w h = Some d \<Longrightarrow> r = Inr d"
proof -
  note b = store_base_facts [OF assms(1)]
  obtain q w1 where q: "p_read (object_at c h) w = (q, w1)" by fastforce
  note rd = p_read_sound [OF b(3) slot_facts(1) [OF b(1)] q]
  have w': "w' = w1" using assms(2) q
    by (cases q) (auto simp: get_object_def object_at_def andThen_def map_err_def comp_eval)
  show "same_env w w' \<and> wfs w' = wfs w" using rd(2) [of "{}"] rd(3) w' by (simp add: evolves_def)
  show "objects c w h = Some d" if "r = Inr d"
  proof -
    from that assms(2) q obtain z where "q = Inr z" "decode_object (fst c) h z = Inr d"
      by (cases q) (auto simp: get_object_def object_at_def andThen_def map_err_def comp_eval)
    with rd(4) show ?thesis by (simp add: objects_def decodes_def)
  qed
  show "r = Inr d" if "calm w" "objects c w h = Some d"
  proof -
    from that(2) obtain z where "file_data (entries w (object_at c h)) = Some z"
      "decode_object (fst c) h z = Inr d"
      by (auto simp: objects_def decodes_def split: option.splits sum.splits)
    with rd(5) that(1) assms(2) q show ?thesis
      by (auto simp: get_object_def object_at_def andThen_def map_err_def comp_eval)
  qed
qed

lemma get_manifest_result:
  assumes "store_base c w" "get_manifest_bytes (fst c) (snd c) h w = (r, w')"
  shows "same_env w w' \<and> wfs w' = wfs w" "r = Inr d \<Longrightarrow> manifests c w h = Some d"
    and "calm w \<Longrightarrow> manifests c w h = Some d \<Longrightarrow> r = Inr d"
proof -
  note b = store_base_facts [OF assms(1)]
  obtain q w1 where q: "p_read (manifest_at c h) w = (q, w1)" by fastforce
  note rd = p_read_sound [OF b(3) slot_facts(1) [OF b(2)] q]
  have "(r, w') = (case q of Inl e \<Rightarrow> (Inl (missing_as h e), w1) | Inr x \<Rightarrow> (Inr x, w1))"
    using assms(2) q by (simp add: get_manifest_bytes_def manifest_at_def map_err_def)
  then have w': "w' = w1" "r = Inr d \<longleftrightarrow> q = Inr d" by (cases q; simp)+
  show "same_env w w' \<and> wfs w' = wfs w" using rd(2) [of "{}"] rd(3) w'(1) by (simp add: evolves_def)
  show "r = Inr d \<Longrightarrow> manifests c w h = Some d" using rd(4) w'(2) by (simp add: manifests_def)
  show "calm w \<Longrightarrow> manifests c w h = Some d \<Longrightarrow> r = Inr d" using rd(5) w'(2) by (simp add: manifests_def)
qed

text \<open>No read hands out bytes that do not hash to the name they were asked by.\<close>

lemma get_object_verified:
  "get_object C root h w = (Inr d, w') \<Longrightarrow> hash_bytes C d = h \<and> object_fits d"
  by (auto simp: get_object_def andThen_Inr object_fits_def dest: decode_verified)

lemma objects_frame:
  assumes "objects_ok c w" "evolves (home c) X w w'" "sound (home c) w'" "\<And>h. object_at c h \<notin> X"
  shows "objects_ok c w' \<and> objects c w' = objects c w"
proof -
  note b = objects_ok_base [OF assms(1)]
  have e: "entries w' (object_at c h) = entries w (object_at c h)" for h
    by (rule evolves_blob [OF assms(2) store_base_facts(1) [OF b] blob_not_dir_place(1) assms(4)])
  then have o: "objects c w' = objects c w" by (simp add: objects_def fun_eq_iff)
  with e assms(1,3) show ?thesis by (simp add: objects_ok_def store_base_def)
qed

lemma manifests_frame:
  assumes "manifests_ok c w" "evolves (home c) X w w'" "sound (home c) w'" "\<And>h. manifest_at c h \<notin> X"
  shows "manifests_ok c w' \<and> manifests c w' = manifests c w"
proof -
  note b = manifests_ok_base [OF assms(1)]
  have e: "entries w' (manifest_at c h) = entries w (manifest_at c h)" for h
    by (rule evolves_blob [OF assms(2) store_base_facts(2) [OF b] blob_not_dir_place(2) assms(4)])
  then have o: "manifests c w' = manifests c w" by (simp add: manifests_def fun_eq_iff)
  with e assms(1,3) show ?thesis by (simp add: manifests_ok_def store_base_def)
qed

lemma objects_put:
  assumes "objects_ok c w" "object_fits d" "put_object (fst c) (snd c) d w = (Inr h, w')"
  shows "h = hash_bytes (fst c) d \<and> objects_ok c w'
    \<and> (\<exists>d'. hash_bytes (fst c) d' = h \<and> objects c w' = (objects c w)(h \<mapsto> d'))"
proof -
  note b = objects_ok_base [OF assms(1)] and bf = store_base_facts [OF b]
  let ?k = "hash_bytes (fst c) d"
  from put_blob_result [OF bf(1) bf(3) assms(3) [unfolded put_object_blob, folded object_at_def]]
  have h: "h = ?k" "sound (home c) w'" "evolves (home c) {object_at c ?k} w w'"
    and blob: "entries w (object_at c ?k) \<noteq> None \<and> entries w' = entries w \<or>
      (\<exists>z. zstd_encode (fst c) d = Inr z \<and> file_data (entries w' (object_at c ?k)) = Some z)"
    by (auto simp: map_sum_def split: sum.splits)
  have e: "entries w' (object_at c k) = entries w (object_at c k)" if "k \<noteq> ?k" for k
    using that bf(5) by (intro evolves_blob [OF h(3) bf(1) blob_not_dir_place(1)]) (simp add: bf(4))
  have "\<exists>d'. objects c w' ?k = Some d'"
    using blob
  proof
    assume "entries w (object_at c ?k) \<noteq> None \<and> entries w' = entries w"
    with assms(1) show ?thesis by (simp add: objects_ok_def objects_def)
  next
    assume "\<exists>z. zstd_encode (fst c) d = Inr z \<and> file_data (entries w' (object_at c ?k)) = Some z"
    with decode_encoded [OF bf(6)] assms(2) show ?thesis
      by (auto simp: objects_def decodes_def object_fits_def)
  qed
  then obtain d' where d': "objects c w' ?k = Some d'" ..
  have o: "objects c w' = (objects c w)(?k \<mapsto> d')"
    using e d' by (auto simp: objects_def fun_eq_iff)
  moreover have "objects_ok c w'"
    unfolding objects_ok_def
  proof (intro conjI allI impI)
    show "store_base c w'" using b h(2) by (simp add: store_base_def)
    fix k
    assume "entries w' (object_at c k) \<noteq> None"
    with e assms(1) o show "objects c w' k \<noteq> None" by (cases "k = ?k") (auto simp: objects_ok_def)
  qed
  moreover have "hash_bytes (fst c) d' = ?k" by (rule decodes_Some [OF d' [unfolded objects_def]])
  ultimately show ?thesis using h(1) by auto
qed

lemma manifests_put:
  assumes "manifests_ok c w" "put_manifest (fst c) (snd c) d w = (Inr h, w')"
  shows "h = hash_bytes (fst c) d \<and> manifests_ok c w'
    \<and> (\<exists>d'. hash_bytes (fst c) d' = h \<and> manifests c w' = (manifests c w)(h \<mapsto> d'))"
proof -
  note b = manifests_ok_base [OF assms(1)] and bf = store_base_facts [OF b]
  let ?k = "hash_bytes (fst c) d"
  from put_blob_result [OF bf(2) bf(3) assms(2) [unfolded put_manifest_blob, folded manifest_at_def]]
  have h: "h = ?k" "sound (home c) w'" "evolves (home c) {manifest_at c ?k} w w'"
    and blob: "entries w (manifest_at c ?k) \<noteq> None \<and> entries w' = entries w \<or>
      file_data (entries w' (manifest_at c ?k)) = Some d"
    by auto
  have e: "entries w' (manifest_at c k) = entries w (manifest_at c k)" if "k \<noteq> ?k" for k
    using that by (intro evolves_blob [OF h(3) bf(2) blob_not_dir_place(2)]) (simp add: bf(5))
  have "\<exists>d'. manifests c w' ?k = Some d' \<and> hash_bytes (fst c) d' = ?k"
    using blob assms(1) by (auto simp: manifests_ok_def manifests_def)
  then obtain d' where d': "manifests c w' ?k = Some d'" "hash_bytes (fst c) d' = ?k" by blast
  have o: "manifests c w' = (manifests c w)(?k \<mapsto> d')"
    using e d' by (auto simp: manifests_def fun_eq_iff)
  moreover have "manifests_ok c w'"
    unfolding manifests_ok_def
  proof (intro conjI allI impI)
    show "store_base c w'" using b h(2) by (simp add: store_base_def)
    fix k
    assume "entries w' (manifest_at c k) \<noteq> None"
    with e assms(1) o d' show "\<exists>v. manifests c w' k = Some v \<and> hash_bytes (fst c) v = k"
      by (cases "k = ?k") (auto simp: manifests_ok_def)
  qed
  ultimately show ?thesis using h(1) d'(2) by auto
qed

section \<open>Both halves of the store keep the contract\<close>

lemma objects_put_err:
  assumes "objects_ok c w" "put_object (fst c) (snd c) d w = (Inl e, w')"
  shows "stays (home c) w w' \<and> objects_ok c w'"
proof -
  note b = objects_ok_base [OF assms(1)] and bf = store_base_facts [OF b]
  from put_blob_result [OF bf(1) bf(3) assms(2) [unfolded put_object_blob, folded object_at_def]]
  have st: "stays (home c) w w'" by simp
  with objects_frame [OF assms(1), of "{}" w'] show ?thesis by (simp add: stays_def)
qed

lemma manifests_put_err:
  assumes "manifests_ok c w" "put_manifest (fst c) (snd c) d w = (Inl e, w')"
  shows "stays (home c) w w' \<and> manifests_ok c w'"
proof -
  note b = manifests_ok_base [OF assms(1)] and bf = store_base_facts [OF b]
  from put_blob_result [OF bf(2) bf(3) assms(2) [unfolded put_manifest_blob, folded manifest_at_def]]
  have st: "stays (home c) w w'" by simp
  with manifests_frame [OF assms(1), of "{}" w'] show ?thesis by (simp add: stays_def)
qed

lemma put_blob_frame:
  assumes "slot F p" "sound F w" "put_blob p h enc w = (r, w')"
  shows "evolves F (case r of Inl _ \<Rightarrow> {} | Inr k \<Rightarrow> {p}) w w'" "r = Inr k \<Longrightarrow> k = h"
  using put_blob_result [OF assms] by (auto simp: stays_def split: sum.splits)

lemma object_put_frame:
  assumes "objects_ok c w" "put_object (fst c) (snd c) d w = (r, w')"
  shows "evolves (home c) (case r of Inl _ \<Rightarrow> {} | Inr h \<Rightarrow> {object_at c h}) w w'"
proof -
  note bf = store_base_facts [OF objects_ok_base [OF assms(1)]]
  note f = put_blob_frame [OF bf(1) bf(3) assms(2) [unfolded put_object_blob, folded object_at_def]]
  from f show ?thesis by (cases r) auto
qed

lemma manifest_put_frame:
  assumes "manifests_ok c w" "put_manifest (fst c) (snd c) d w = (r, w')"
  shows "evolves (home c) (case r of Inl _ \<Rightarrow> {} | Inr h \<Rightarrow> {manifest_at c h}) w w'"
proof -
  note bf = store_base_facts [OF manifests_ok_base [OF assms(1)]]
  note f = put_blob_frame [OF bf(2) bf(3) assms(2) [unfolded put_manifest_blob, folded manifest_at_def]]
  from f show ?thesis by (cases r) auto
qed

interpretation obj: verified_store
  "\<lambda>c. put_object (fst c) (snd c)" "\<lambda>c. get_object (fst c) (snd c)" "\<lambda>c. hash_bytes (fst c)"
  object_fits objects objects_ok home object_at
proof (unfold_locales, goal_cases)
  case (1 c d w h w')
  then show ?case using objects_put by blast
next
  case (2 c d w r w')
  then show ?case using objects_put objects_put_err by (cases r) blast+
next
  case (3 c d w r w')
  then show ?case by (intro object_put_frame)
next
  case (4 c h w d w')
  then show ?case by (intro get_object_result(2) [OF objects_ok_base]) simp_all
next
  case (5 c h w r w')
  then show ?case by (intro get_object_result(1) [OF objects_ok_base])
next
  case (6 c h w d)
  obtain r w' where g: "get_object (fst c) (snd c) h w = (r, w')" by fastforce
  with 6 get_object_result(3) [OF _ g] show ?case by (simp add: objects_ok_def)
next
  case (7 c w h d)
  then show ?case using decodes_Some [of c h] by (simp add: objects_def)
next
  case (8 c w)
  then show ?case by (simp add: objects_ok_def store_base_def)
next
  case (9 c X w w')
  then show ?case by (intro objects_frame)
next
  case (10 c h w d w')
  then show ?case by (rule get_object_verified)
qed

interpretation man: content_store
  "\<lambda>c. put_manifest (fst c) (snd c)" "\<lambda>c. get_manifest_bytes (fst c) (snd c)" "\<lambda>c. hash_bytes (fst c)"
  any_size manifests manifests_ok home manifest_at
proof (unfold_locales, goal_cases)
  case (1 c d w h w')
  then show ?case using manifests_put by blast
next
  case (2 c d w r w')
  then show ?case using manifests_put manifests_put_err by (cases r) blast+
next
  case (3 c d w r w')
  then show ?case by (intro manifest_put_frame)
next
  case (4 c h w d w')
  then show ?case by (intro get_manifest_result(2) [OF manifests_ok_base]) simp_all
next
  case (5 c h w r w')
  then show ?case by (intro get_manifest_result(1) [OF manifests_ok_base])
next
  case (6 c h w d)
  obtain r w' where g: "get_manifest_bytes (fst c) (snd c) h w = (r, w')" by fastforce
  with 6 get_manifest_result(3) [OF _ g] show ?case by (simp add: manifests_ok_def)
next
  case (7 c w h d)
  then show ?case by (auto simp: manifests_ok_def manifests_def file_data_Some)
next
  case (8 c w)
  then show ?case by (simp add: manifests_ok_def store_base_def)
next
  case (9 c X w w')
  then show ?case by (intro manifests_frame)
qed

section \<open>In a calm world a blob is stored\<close>

lemma writable_step:
  assumes "slot F p" "writable p w" "same_env w w'" "wtmp w' = wtmp w"
    and "\<And>q. entries w q = entries w' q \<or>
           entries w q = None \<and> entries w' q = Some Dir \<and> prefix q (butlast p)"
  shows "writable p w'"
proof -
  have t: "tmp_name w' (last p) = tmp_name w (last p)"
    using assms(3,4) by (simp add: tmp_name_def same_env_def)
  have "entries w' p = entries w p" "entries w' (stage (last p) p w) = entries w (stage (last p) p w)"
    using assms(5) slot_facts(7,9) [OF assms(1)] by metis+
  moreover have "entries w' q = None \<or> entries w' q = Some Dir"
    if "entries w q = None \<or> entries w q = Some Dir" for q
    using assms(5) [of q] that by auto
  ultimately show ?thesis using assms(2,3) t
    by (auto simp: writable_def stage_def same_env_calm)
qed

lemma put_blob_total:
  assumes p: "slot F p" and s: "sound F w" and wr: "writable p w"
  shows "\<exists>w'. put_blob p h (Inr z) w = (Inr h, w')"
proof -
  have calm: "calm w" using wr by (simp add: writable_def)
  obtain b w1 where q: "p_exists p w = (Inr b, w1)"
    using query_sound(4) [OF s] by (metis p_exists_def prod.exhaust_sel)
  note qs = query_sound [OF s q [unfolded p_exists_def]]
  have env: "same_env w w1" using qs(2) [of "{}"] by (simp add: evolves_def)
  have wt: "wtmp w1 = wtmp w" using q by (auto simp: p_exists_def query_def tick_def Let_def)
  have w1: "writable p w1"
    by (rule writable_step [OF p wr env wt]) (simp add: qs(3) entries_def)
  obtain r w2 where c: "p_create_dir_all (butlast p) w1 = (r, w2)" by fastforce
  note cs = p_create_dir_all_sound [OF qs(1) slot_facts(2) [OF p] c]
  have r: "r = Inr ()" using cs(5) w1 by (auto simp: writable_def)
  have env2: "same_env w1 w2" using cs(2) [OF slot_facts(11) [OF p], of "{}"] by (simp add: evolves_def)
  have w2: "writable p w2"
    by (rule writable_step [OF p w1 env2])
      (use c cs(6) in \<open>auto simp: p_create_dir_all_def dest: syscall_wtmp\<close>)
  obtain r' w3 where a: "atomic_write p z w2 = (r', w3)" by fastforce
  have "r' = Inr ()"
  proof (cases r')
    case (Inl e)
    with triple_Inl [OF atomic_write_triple [OF p], of w2] a cs(1) w2 show ?thesis by blast
  qed simp
  with q c r a show ?thesis by (cases b) (auto simp: put_blob_def comp_eval)
qed

lemma put_object_total:
  assumes "objects_ok c w" "writable (object_at c (hash_bytes (fst c) d)) w" "zstd_encode (fst c) d = Inr z"
  shows "\<exists>w'. put_object (fst c) (snd c) d w = (Inr (hash_bytes (fst c) d), w')"
proof -
  note b = store_base_facts [OF objects_ok_base [OF assms(1)]]
  show ?thesis
    using put_blob_total [OF b(1) b(3) assms(2)] assms(3) by (simp add: put_object_blob object_at_def)
qed

section \<open>Appending a line to a log file\<close>

lemma p_open_append_sound:
  assumes "sound F w" "inside F p" "p_open_append p w = (r, w')"
  shows "sound F w' \<and> same_env w w' \<and> (case r of
      Inl _ \<Rightarrow> wfs w' = wfs w
    | Inr q \<Rightarrow> q = p \<and> p \<noteq> [] \<and> (wfs w' = wfs w \<and> is_file_node (entries w p)
        \<or> entries w p = None \<and> (\<exists>m t. wfs w' = put_node p (File [] m t) (wfs w))))"
proof -
  note wc = sound_facts(2) [OF assms(1)] sound_facts(3) [OF assms(1,2)]
  note r = syscall_result [OF assms(3) [unfolded p_open_append_def] sound_quiet [OF assms(1)]]
  have env: "same_env w w'" using r by simp
  show ?thesis
  proof (cases r)
    case (Inl e)
    with r fs_open_append_clean [OF wc] have "wfs w' = wfs w" by fastforce
    with env assms(1) Inl show ?thesis by (simp add: sound_same)
  next
    case (Inr q)
    with r have o: "fs_open_append (wtime w (wtick w)) (wfs w) p = (Inr q, wfs w')" by auto
    from fs_open_append_clean [OF wc o]
    have q: "q = p" and c: "entries w p = None \<and> entries w (butlast p) = Some Dir
        \<and> wfs w' = put_node p (File [] 0x1A4 (wtime w (wtick w))) (wfs w)
      \<or> is_file_node (entries w p) \<and> wfs w' = wfs w"
      by (simp_all add: entries_def)
    have ne: "p \<noteq> []" using c by (auto simp: entries_def is_file_node_iff)
    from c have "sound F w'"
    proof
      assume a: "entries w p = None \<and> entries w (butlast p) = Some Dir
        \<and> wfs w' = put_node p (File [] 0x1A4 (wtime w (wtick w))) (wfs w)"
      then have a': "wfs w' = put_node p (File [] 0x1A4 (wtime w (wtick w))) (wfs w)"
        "entries w p = None" "entries w (butlast p) = Some Dir" by simp_all
      show ?thesis
        by (rule sound_put [OF assms(1) env a'(1) assms(2) ne a'(3)]) (simp_all add: a'(2))
    next
      assume "is_file_node (entries w p) \<and> wfs w' = wfs w"
      with assms(1) env show ?thesis by (simp add: sound_same)
    qed
    with env Inr q ne c show ?thesis by auto
  qed
qed

lemma evolves_put:
  assumes "same_env w w'" "wfs w' = put_node p nd (wfs w)" "inside F p" "p \<noteq> []"
  shows "evolves F {p} w w'"
  using assms by (auto simp: evolves_def node_evolves_def entries_def entry_at_put inside_def)

definition data_at :: "world \<Rightarrow> path \<Rightarrow> bytes" where
  "data_at w p = (case file_data (entries w p) of None \<Rightarrow> [] | Some d \<Rightarrow> d)"

definition append_line :: "path \<Rightarrow> error + bytes \<Rightarrow> unit io" where
  "append_line p enc =
     andThen (p_open_append p) (\<lambda>h.
     andThen (lift enc) (\<lambda>s.
     andThen (p_write_all h s) (\<lambda>_. p_write_all h [newline])))"

text \<open>A write to the open log: the file grows by a prefix of what was to be written.\<close>

definition grown :: "path \<Rightarrow> path \<Rightarrow> world \<Rightarrow> bytes \<Rightarrow> world \<Rightarrow> bool" where
  "grown F p w t w' \<longleftrightarrow> sound F w' \<and> evolves F {p} w w' \<and> file_data (entries w' p) = Some (data_at w p @ t)"

lemma grown_write:
  assumes "slot F p" "grown F p w t x" "p_write_all p d x = (r, x')"
  shows "\<exists>k. grown F p w (t @ take k d) x' \<and> (r = Inr () \<longrightarrow> take k d = d)"
proof -
  have snd: "sound F x" and ev: "evolves F {p} w x" using assms(2) by (simp_all add: grown_def)
  from assms(2) obtain m t0 where f: "entries x p = Some (File (data_at w p @ t) m t0)"
    by (auto simp: grown_def file_data_Some)
  note ps = slot_facts(1,4) [OF assms(1)]
  note c = p_write_all_sound [OF snd ps(1) assms(3) f ps(2)]
  from c(3) obtain k t' where k: "wfs x' = put_node p (File ((data_at w p @ t) @ take k d) m t') (wfs x)"
    "r = Inr () \<longrightarrow> length d \<le> k" by auto
  have "evolves F {p} w x'" by (rule evolves_trans [OF ev evolves_put [OF c(2) k(1) ps]])
  with c(1) k ps show ?thesis by (auto simp: grown_def entries_def entry_at_put)
qed

lemma append_line_result:
  assumes p: "slot F p" and s: "sound F w" and run: "append_line p enc w = (r, w')"
  shows "case r of
      Inr _ \<Rightarrow> \<exists>s. enc = Inr s \<and> grown F p w (s @ [newline]) w'
    | Inl _ \<Rightarrow> stays F w w' \<or> (\<exists>t. grown F p w t w' \<and> (\<forall>s. enc = Inr s \<longrightarrow> prefix t (s @ [newline])))"
proof -
  obtain q w1 where o: "p_open_append p w = (q, w1)" by fastforce
  note os = p_open_append_sound [OF s slot_facts(1) [OF p] o]
  show ?thesis
  proof (cases q)
    case (Inl e)
    with o run os have "r = Inl e" "w' = w1" "stays F w w1"
      by (auto simp: append_line_def stays_def evolves_same)
    then show ?thesis by simp
  next
    case (Inr h)
    with os have h: "h = p" and g0: "grown F p w [] w1"
      by (auto simp: grown_def data_at_def file_data_Some is_file_node_iff entries_def entry_at_put
          intro: evolves_same evolves_put [OF _ _ slot_facts(1,4) [OF p]])
    show ?thesis
    proof (cases enc)
      case (Inl e)
      with o Inr run have "r = Inl e" "w' = w1" by (simp_all add: append_line_def comp_eval)
      with g0 Inl show ?thesis by auto
    next
      case 2: (Inr s)
      obtain q2 w2 where wr: "p_write_all p s w1 = (q2, w2)" by fastforce
      from grown_write [OF p g0 wr] obtain k where k: "grown F p w (take k s) w2" "q2 = Inr () \<longrightarrow> take k s = s"
        by auto
      show ?thesis
      proof (cases q2)
        case (Inl e)
        with o Inr h 2 run wr have "r = Inl e" "w' = w2" by (simp_all add: append_line_def)
        with k 2 show ?thesis by (auto intro: prefix_order.trans [OF take_is_prefix])
      next
        case 3: (Inr u)
        with o Inr h 2 run wr have fin: "p_write_all p [newline] w2 = (r, w')" by (simp add: append_line_def)
        from k 3 have "grown F p w s w2" by simp
        from grown_write [OF p this fin] obtain j where
          j: "grown F p w (s @ take j [newline]) w'" "r = Inr () \<longrightarrow> take j [newline] = [newline]" by auto
        with 2 show ?thesis by (cases r) (auto simp: take_is_prefix)
      qed
    qed
  qed
qed

section \<open>A concrete store\<close>

definition demo_fs :: fs where
  "demo_fs =
     [([''.respawn''], Dir), ([''.respawn'', ''objects''], Dir), ([''.respawn'', ''manifests''], Dir),
      ([''.respawn'', ''HEAD''], File [] 0x1A4 0)]"

definition demo :: world where
  "demo = fresh_world demo_fs"

definition demo_sel :: "unit sel" where
  "demo_sel = (ref_crates, [])"

lemma demo_sound: "sound (fabric_dir []) demo"
  unfolding demo_def
  by (rule plain_fs_sound) (simp_all add: plain_fs_def demo_fs_def fabric_dir_def FABRIC_DIR_def)

lemma demo_base: "store_base demo_sel demo"
  using demo_sound by (simp add: store_base_def demo_sel_def home_def ref_crates_ok)

lemma demo_entries: "entries demo p = (if p = [] then Some Dir else map_of demo_fs p)"
  by (simp add: demo_def fresh_entries entry_at_def)

lemma demo_no_blob: "entries demo (object_at c h) = None" "entries demo (manifest_at c h) = None"
  if "snd c = []" for c :: "'z sel"
  using that
  by (simp_all add: demo_entries demo_fs_def object_at_def manifest_at_def object_path_def
      manifest_path_def fabric_dir_def Let_def)

lemma demo_ok: "objects_ok demo_sel demo" "manifests_ok demo_sel demo"
  using demo_base demo_no_blob [of demo_sel]
  by (simp_all add: objects_ok_def manifests_ok_def) (simp_all add: demo_sel_def)

lemma demo_writable: "writable (object_at demo_sel h) demo"
proof -
  have len: "length (take 2 (hash_hex ref_crates h)) \<le> 2" by simp
  have *: "entries demo q = None \<or> entries demo q = Some Dir" if "prefix q (butlast (object_at demo_sel h))" for q
  proof -
    from that have "q \<noteq> [''.respawn'', ''HEAD'']"
      by (auto simp: object_at_def object_path_def demo_sel_def fabric_dir_def FABRIC_DIR_def Let_def prefix_Cons)
    then show ?thesis by (auto simp: demo_entries demo_fs_def)
  qed
  have "calm demo" by (simp add: demo_def)
  moreover have "entries demo (butlast (object_at demo_sel h) @ [t]) = None" for t
    by (simp add: object_at_def object_path_def demo_sel_def fabric_dir_def FABRIC_DIR_def Let_def
        demo_entries demo_fs_def)
  ultimately show ?thesis
    using * demo_no_blob(1) [of demo_sel h] by (simp add: writable_def demo_sel_def)
qed

lemma demo_put_get:
  obtains h w1 d w2 where "put_object ref_crates [] ''hello'' demo = (Inr h, w1)"
    "get_object ref_crates [] h w1 = (Inr d, w2)"
proof -
  obtain w1 where p: "put_object (fst demo_sel) (snd demo_sel) ''hello'' demo
      = (Inr (hash_bytes (fst demo_sel) ''hello''), w1)"
    using put_object_total [OF demo_ok(1) demo_writable] by (auto simp: demo_sel_def ref_crates_def)
  have fits: "object_fits ''hello''" by (simp add: object_fits_def MAX_OBJECT_SIZE_def CDC_MAX_def)
  from obj.put_stored [OF demo_ok(1) fits p] obtain d where d: "objects demo_sel w1 (hash_bytes (fst demo_sel) ''hello'') = Some d"
    by auto
  have "calm w1" using obj.put_frame [OF demo_ok(1) p] by (simp add: evolves_calm demo_def)
  from obj.get_total [OF obj.put_inv [OF demo_ok(1) fits p] this d] obtain w2 where
    "get_object (fst demo_sel) (snd demo_sel) (hash_bytes (fst demo_sel) ''hello'') w1 = (Inr d, w2)"
    by (metis prod.collapse)
  with p that show thesis by (simp add: demo_sel_def)
qed

section \<open>Properties\<close>

text \<open>C1: A read of an object, in any world and whatever other processes and faults did to the
  files, returns only bytes that hash to the requested name and fit the chunk bound.\<close>

theorem get_object_content:
  assumes "get_object C root h w = (Inr d, w')"
  shows "hash_bytes C d = h \<and> length d \<le> MAX_OBJECT_SIZE"
  using get_object_verified [OF assms] by (simp add: object_fits_def)

theorem get_object_content_witness:
  "\<exists>h w1 d w2. put_object ref_crates [] ''hello'' demo = (Inr h, w1)
     \<and> get_object ref_crates [] h w1 = (Inr d, w2) \<and> hash_bytes ref_crates d = h"
  using get_object_content by (metis demo_put_get)

text \<open>An atomic write is all or nothing: on success the file holds exactly the new bytes;
  on any failure every file but a temporary one has the data it had, and the target in
  particular; files outside the directory keep their entry in both cases. It cannot fail in a
  calm world with a free temporary name and no obstacle on the path.\<close>

theorem atomic_write_all_or_nothing:
  assumes "sound F w" "slot F p" "atomic_write p d w = (r, w')"
  shows "(case r of
       Inr _ \<Rightarrow> file_data (entries w' p) = Some d
     | Inl _ \<Rightarrow> file_data (entries w' p) = file_data (entries w p) \<and> \<not> writable p w)
    \<and> (\<forall>q. q \<noteq> p \<longrightarrow> \<not> is_tmp q \<longrightarrow> file_data (entries w' q) = file_data (entries w q))
    \<and> (\<forall>q. \<not> prefix F q \<longrightarrow> \<not> prefix q F \<longrightarrow> entries w' q = entries w q)"
proof (cases r)
  case (Inl e)
  with atomic_write_result [OF assms] have wr: "\<not> writable p w" and ev: "evolves F {} w w'"
    by (simp_all add: stays_def)
  from wr evolves_data [OF ev] evolves_outside [OF ev] slot_facts(3) [OF assms(2)] Inl
  show ?thesis by simp
next
  case (Inr u)
  with atomic_write_result [OF assms] have ev: "evolves F {p} w w'"
    and fd: "file_data (entries w' p) = Some d" by simp_all
  from fd evolves_data [OF ev] evolves_outside [OF ev] Inr show ?thesis by simp
qed

theorem atomic_write_all_or_nothing_witness:
  "\<exists>r w'. atomic_write (head_path []) ''abc'' demo = (r, w')
     \<and> file_data (entries w' (object_path ref_crates [] [])) = file_data (entries demo (object_path ref_crates [] []))"
proof -
  obtain r w' where r: "atomic_write (head_path []) ''abc'' demo = (r, w')" by fastforce
  have ne: "object_path ref_crates [] [] \<noteq> head_path []" "\<not> is_tmp (object_path ref_crates [] [])"
    using slot_object(1) [of ref_crates "[]" "[]"] ref_crates_ok
    by (auto simp: object_path_def head_path_def Let_def slot_def crates_ok_def)
  from atomic_write_all_or_nothing [OF demo_sound slot_head r] ne r show ?thesis by auto
qed

lemma store_head_reads:
  assumes "sound (fabric_dir root) w" "''..'' \<notin> set root" "calm w"
    and "file_data (entries w (head_path root)) = Some s" "utf8_valid s"
  shows "fst (store_head C root w) = parse_head C s"
proof -
  obtain q w1 where q: "p_read_to_string (head_path root) w = (q, w1)" by fastforce
  note r = p_read_to_string_sound [OF assms(1) slot_facts(1) [OF slot_head [OF assms(2)]] q]
  from r(5) [OF assms(3-5)] q show ?thesis
    by (simp add: store_head_def andThen_def attempt_def comp_eval)
qed

lemma parse_head_hex:
  assumes "hex_ok C" "length h = 32"
  shows "parse_head C (hash_hex C h) = Inr (Some h)"
proof -
  have "hash_hex C h \<noteq> []" using hash_hex_facts(1) [OF assms(1), of h] assms(2) by auto
  then show ?thesis
    using assms hash_hex_facts(2) [OF assms(1), of h]
    by (simp add: parse_head_def lower_hex_trim parse_hash_hex Let_def)
qed

lemma parse_head_empty: "parse_head C [] = Inr None"
  by (simp add: parse_head_def trim_graphic)

lemma utf8_head: "hex_ok C \<Longrightarrow> utf8_valid (case k of Some h \<Rightarrow> hash_hex C h | None \<Rightarrow> [])"
  using hash_hex_facts(2) [of C] by (auto intro: ascii_utf8_valid lower_hex_ascii split: option.split)

text \<open>Setting HEAD and reading it back gives the same snapshot id (or none); a set that
  fails leaves what HEAD said before.\<close>

theorem set_head_round_trip:
  assumes "store_base c w" "calm w" "file_data (entries w (head_path (snd c))) = Some s" "utf8_valid s"
    and "\<And>h. k = Some h \<Longrightarrow> length h = 32" "set_head (fst c) (snd c) k w = (r, w')"
  shows "fst (store_head (fst c) (snd c) w') =
    (case r of Inr _ \<Rightarrow> Inr k | Inl _ \<Rightarrow> fst (store_head (fst c) (snd c) w))"
proof -
  have b: "sound (fabric_dir (snd c)) w" "''..'' \<notin> set (snd c)" "hex_ok (fst c)"
    using assms(1) by (simp_all add: store_base_def home_def crates_ok_def)
  note a = atomic_write_result [OF b(1) slot_head [OF b(2)] assms(6) [unfolded set_head_def]]
  show ?thesis
  proof (cases r)
    case (Inl e)
    with a have s': "sound (fabric_dir (snd c)) w'" and ev: "evolves (fabric_dir (snd c)) {} w w'"
      by (simp_all add: stays_def)
    have f: "file_data (entries w' (head_path (snd c))) = Some s"
      using evolves_data [OF ev _ slot_facts(3) [OF slot_head [OF b(2)]]] assms(3) by simp
    have "calm w'" using ev assms(2) by (simp add: evolves_calm)
    from store_head_reads [OF s' b(2) this f assms(4), of "fst c"]
      store_head_reads [OF b(1,2) assms(2,3,4), of "fst c"] Inl show ?thesis by simp
  next
    case (Inr u)
    let ?t = "case k of Some h \<Rightarrow> hash_hex (fst c) h | None \<Rightarrow> []"
    from a Inr have s': "sound (fabric_dir (snd c)) w'" and f: "file_data (entries w' (head_path (snd c))) = Some ?t"
      and ev: "evolves (fabric_dir (snd c)) {head_path (snd c)} w w'" by simp_all
    have "calm w'" using ev assms(2) by (simp add: evolves_calm)
    from store_head_reads [OF s' b(2) this f utf8_head [OF b(3)], of "fst c"] Inr assms(5) show ?thesis
      by (cases k) (simp_all add: parse_head_empty parse_head_hex [OF b(3)])
  qed
qed

theorem set_head_round_trip_witness:
  "\<exists>r w'. set_head ref_crates [] (Some (replicate 32 CHR ''x'')) demo = (r, w')
     \<and> fst (store_head ref_crates [] w') = (case r of Inr _ \<Rightarrow> Inr (Some (replicate 32 CHR ''x''))
          | Inl _ \<Rightarrow> fst (store_head ref_crates [] demo))"
proof -
  let ?k = "Some (replicate 32 CHR ''x'')"
  obtain r w' where run: "set_head (fst demo_sel) (snd demo_sel) ?k demo = (r, w')" by fastforce
  have f: "file_data (entries demo (head_path (snd demo_sel))) = Some []"
    by (simp add: demo_entries demo_fs_def demo_sel_def head_path_def fabric_dir_def FABRIC_DIR_def)
  have l: "\<And>h. ?k = Some h \<Longrightarrow> length h = 32" by auto
  have cm: "calm demo" by (simp add: demo_def)
  have u: "utf8_valid []" by simp
  from set_head_round_trip [OF demo_base cm f u l run] run show ?thesis
    unfolding demo_sel_def fst_conv snd_conv by blast
qed

text \<open>The search for the worktree root in a world nobody else changes.\<close>

definition is_root :: "fs \<Rightarrow> path \<Rightarrow> bool" where
  "is_root fs p \<longleftrightarrow> fs_is_dir fs (p @ [FABRIC_DIR, ''objects''])"

lemma find_up_result:
  assumes "calm w" "find_up cur w = (r, w')"
  shows "wfs w' = wfs w \<and> (case r of
       Inr p \<Rightarrow> prefix p cur \<and> is_root (wfs w) p
         \<and> (\<forall>q. prefix q cur \<and> is_root (wfs w) q \<longrightarrow> prefix q p)
     | Inl e \<Rightarrow> e = NotInitialized \<and> (\<forall>q. prefix q cur \<longrightarrow> \<not> is_root (wfs w) q))"
  using assms
proof (induction cur arbitrary: w rule: find_up.induct)
  case (1 cur)
  obtain b w1 where q: "p_is_dir (cur @ [FABRIC_DIR, ''objects'']) w = (Inr b, w1)"
    using query_result calm_quiet [OF "1.prems"(1)] unfolding p_is_dir_def by (metis prod.exhaust)
  from query_result [OF q [unfolded p_is_dir_def] calm_quiet [OF "1.prems"(1)]] "1.prems"(1)
  have w1: "wfs w1 = wfs w" "b = is_root (wfs w) cur" "calm w1"
    by (auto simp: is_root_def same_env_calm)
  show ?case
  proof (cases "b \<or> cur = []")
    case True
    with "1.prems"(2) q w1 show ?thesis
      by (subst (asm) find_up.simps) (auto simp: comp_eval split: if_splits)
  next
    case False
    then obtain ys y where cur: "cur = ys @ [y]" by (metis rev_exhaust)
    have run: "find_up (butlast cur) w1 = (r, w')"
      using "1.prems"(2) q False by (subst (asm) find_up.simps) simp
    from "1.IH" [OF q _ _ w1(3) run] False w1 cur show ?thesis
      by (auto simp: prefix_snoc split: sum.splits)
  qed
qed

text \<open>C17: The search for the worktree root ends, and in a calm world it returns the nearest
  ancestor of the physical start directory that holds a fabric; it fails with
  \<open>NotInitialized\<close> exactly when the start does not resolve or no ancestor holds one.\<close>

theorem find_root_nearest:
  assumes "calm w" "find_root start w = (r, w')"
  shows "case fs_canonicalize (wfs w) start of
      Inl _ \<Rightarrow> r = Inl NotInitialized
    | Inr cur \<Rightarrow> (case r of
         Inr p \<Rightarrow> prefix p cur \<and> is_root (wfs w) p
           \<and> (\<forall>q. prefix q cur \<and> is_root (wfs w) q \<longrightarrow> prefix q p)
       | Inl e \<Rightarrow> e = NotInitialized \<and> (\<forall>q. prefix q cur \<longrightarrow> \<not> is_root (wfs w) q))"
proof -
  obtain q w1 where q: "p_canonicalize start w = (q, w1)" by fastforce
  from syscall_result [OF q [unfolded p_canonicalize_def] calm_quiet [OF assms(1)]] assms(1)
  have w1: "wfs w1 = wfs w" "calm w1"
    and qr: "case fs_canonicalize (wfs w) start of Inl e \<Rightarrow> q = Inl (Io e) | Inr p \<Rightarrow> q = Inr p"
    by (auto simp: same_env_calm)
  show ?thesis
  proof (cases "fs_canonicalize (wfs w) start")
    case (Inl e)
    with qr q assms(2) show ?thesis by (simp add: find_root_def andThen_def map_err_def)
  next
    case (Inr cur)
    with qr q assms(2) have "find_up cur w1 = (r, w')"
      by (simp add: find_root_def andThen_def map_err_def)
    from find_up_result [OF w1(2) this, unfolded w1(1)] Inr show ?thesis by simp
  qed
qed

theorem find_root_nearest_witness:
  "\<exists>r w'. find_root [''.respawn'', ''manifests''] demo = (r, w') \<and> r = Inr []"
proof -
  let ?s = "[''.respawn'', ''manifests'']"
  obtain r w' where run: "find_root ?s demo = (r, w')" by fastforce
  have can: "fs_canonicalize (wfs demo) ?s = Inr ?s" "is_root (wfs demo) []"
    "\<not> is_root (wfs demo) ?s" "\<not> is_root (wfs demo) [''.respawn'']"
    by (simp_all add: demo_def demo_fs_def fresh_world_def fs_canonicalize_def lookup_path_def
        max_symlinks_def entry_at_def is_root_def fs_is_dir_def fs_stat_def FABRIC_DIR_def)
  have cm: "calm demo" by (simp add: demo_def)
  from find_root_nearest [OF cm run] can have "case r of Inr p \<Rightarrow> prefix p ?s \<and> is_root (wfs demo) p
      | Inl e \<Rightarrow> \<forall>q. prefix q ?s \<longrightarrow> \<not> is_root (wfs demo) q"
    by (auto split: sum.splits)
  with can have "r = Inr []" by (auto simp: prefix_Cons split: sum.splits)
  with run show ?thesis by blast
qed

lemma try_lock_step:
  assumes "try_lock root w = (r, w')"
  shows "wlock w' \<longleftrightarrow> wlock w \<or> r = Inr ()" "r = Inr () \<Longrightarrow> \<not> wlock w"
proof -
  obtain q w1 where q: "p_open_append (fabric_dir root @ [''lock'']) w = (q, w1)" by fastforce
  then have "wlock w1 = wlock w"
    by (auto simp: p_open_append_def syscall_def tick_def Let_def split: option.splits prod.splits sum.splits)
  with q assms show "wlock w' \<longleftrightarrow> wlock w \<or> r = Inr ()" "r = Inr () \<Longrightarrow> \<not> wlock w"
    by (cases q; auto simp: try_lock_def andThen_def split: if_splits)+
qed

text \<open>The fabric lock is exclusive: a success means nobody held it and holds it from then on,
  so that a second attempt fails until the holder drops it; a failed attempt neither takes nor
  frees the lock.\<close>

theorem try_lock_exclusive:
  assumes "try_lock root w = (r, w')"
  shows "(r = Inr () \<longrightarrow> \<not> wlock w \<and> wlock w' \<and> (\<exists>e. fst (try_lock root' w') = Inl e))
    \<and> (r \<noteq> Inr () \<longrightarrow> wlock w' = wlock w) \<and> \<not> wlock (unlock w')"
proof -
  obtain r2 w2 where t: "try_lock root' w' = (r2, w2)" by fastforce
  have "r2 \<noteq> Inr ()" if "wlock w'" using try_lock_step(2) [OF t] that by blast
  then have "\<exists>e. r2 = Inl e" if "wlock w'" using that by (cases r2) auto
  with t try_lock_step [OF assms] show ?thesis by (auto simp: unlock_def)
qed

theorem try_lock_exclusive_witness:
  "\<exists>r w'. try_lock [] demo = (r, w') \<and> r = Inr () \<and> (\<exists>e. fst (try_lock [] w') = Inl e)"
proof -
  obtain r w' where run: "try_lock [] demo = (r, w')" by fastforce
  have "r = Inr ()"
    using run
    by (auto simp: try_lock_def demo_def demo_fs_def fresh_world_def p_open_append_def syscall_def tick_def
        fs_open_append_def lookup_path_def max_symlinks_def entry_at_def fabric_dir_def FABRIC_DIR_def
        andThen_def)
  with try_lock_exclusive [OF run, of "[]"] run show ?thesis by blast
qed

text \<open>Hashing a stream through the 64 KiB buffer gives the hash of all its bytes and its length
  modulo \<open>2 ^ 64\<close>.\<close>

theorem hash_reader_whole:
  "hash_reader C r = (hash_bytes C r, of_nat (length r))"
  by (rule hash_reader_eq)

text \<open>The manifest half of the store checks nothing on a read: in a calm, sound world it returns
  whatever bytes lie at the path of the requested id, also when they do not hash to it.\<close>

theorem get_manifest_unverified:
  assumes "store_base c w" "calm w" "file_data (entries w (manifest_path (fst c) (snd c) h)) = Some d"
  shows "fst (get_manifest_bytes (fst c) (snd c) h w) = Inr d"
proof -
  obtain r w' where g: "get_manifest_bytes (fst c) (snd c) h w = (r, w')" by fastforce
  from get_manifest_result(3) [OF assms(1) g assms(2)] assms(3) g show ?thesis
    by (simp add: manifests_def manifest_at_def)
qed

definition planted :: world where
  "planted = fresh_world (demo_fs @
     [([''.respawn'', ''manifests'', ''00''], Dir),
      ([''.respawn'', ''manifests'', ''00'', replicate 62 CHR ''0''], File ''planted'' 0x1A4 0)])"

lemma planted_base: "store_base demo_sel planted"
proof -
  have "sound (fabric_dir []) planted"
    unfolding planted_def
    by (rule plain_fs_sound) (simp_all add: plain_fs_def demo_fs_def fabric_dir_def FABRIC_DIR_def)
  then show ?thesis by (simp add: store_base_def demo_sel_def home_def ref_crates_ok)
qed

lemma planted_file:
  "file_data (entries planted (manifest_path ref_crates [] (replicate 32 (CHR 0x00)))) = Some ''planted''"
proof -
  have "hash_hex ref_crates (replicate 32 (CHR 0x00)) = replicate 64 CHR ''0''"
    by (simp add: hash_hex_def ref_crates_def ref_hex_zeros)
  moreover have "take 2 (replicate 64 CHR ''0'') = ''00''" "drop 2 (replicate 64 CHR ''0'') = replicate 62 CHR ''0''"
    by (simp_all add: numeral_eq_Suc)
  ultimately have "manifest_path ref_crates [] (replicate 32 (CHR 0x00))
      = [''.respawn'', ''manifests'', ''00'', replicate 62 CHR ''0'']"
    unfolding manifest_path_def fabric_dir_def FABRIC_DIR_def Let_def by simp
  then show ?thesis
    by (simp add: planted_def fresh_entries entry_at_def demo_fs_def)
qed

theorem get_manifest_unverified_witness:
  "fst (get_manifest_bytes ref_crates [] (replicate 32 (CHR 0x00)) planted) = Inr ''planted''
   \<and> hash_bytes ref_crates ''planted'' \<noteq> replicate 32 (CHR 0x00)"
proof -
  have ne: "a \<noteq> b" if "code (a ! 0) = 51" "code (b ! 0) = 0" for a b :: bytes
    using that by auto
  have 1: "code (hash_bytes ref_crates ''planted'' ! 0) = 51"
    unfolding hash_bytes_def ref_crates_def crates.simps ref_blake3_first by (simp add: code_def)
  have 2: "code (replicate 32 (CHR 0x00) ! 0) = 0" by (simp add: code_def)
  have "hash_bytes ref_crates ''planted'' \<noteq> replicate 32 (CHR 0x00)" by (rule ne [OF 1 2])
  moreover have "calm planted" by (simp add: planted_def)
  ultimately show ?thesis
    using get_manifest_unverified [OF planted_base, unfolded demo_sel_def fst_conv snd_conv, OF _ planted_file]
    by blast
qed

text \<open>A value longer than the chunk bound can be put, but the blob written for it is one that
  every later read refuses.\<close>

theorem put_object_oversize:
  assumes "store_base c w" "calm w" "MAX_OBJECT_SIZE < length d" "zstd_encode (fst c) d = Inr z"
    and "writable (object_at c (hash_bytes (fst c) d)) w" "entries w (object_at c (hash_bytes (fst c) d)) = None"
    and "put_object (fst c) (snd c) d w = (r, w1)"
  shows "r = Inr (hash_bytes (fst c) d) \<and> entries w1 (object_at c (hash_bytes (fst c) d)) \<noteq> None
    \<and> (\<exists>m. fst (get_object (fst c) (snd c) (hash_bytes (fst c) d) w1) = Inl (Corrupt m))"
proof -
  let ?h = "hash_bytes (fst c) d"
  note b = store_base_facts [OF assms(1)]
  from put_blob_total [OF b(1) b(3) assms(5), of ?h z] assms(4,7) have r: "r = Inr ?h"
    by (auto simp: put_object_blob object_at_def)
  from put_blob_result [OF b(1) b(3) assms(7) [unfolded put_object_blob, folded object_at_def]] r assms(4,6)
  have s: "sound (home c) w1" "evolves (home c) {object_at c ?h} w w1"
    and f: "file_data (entries w1 (object_at c ?h)) = Some z" by auto
  obtain q w2 where q: "p_read (object_at c ?h) w1 = (q, w2)" by fastforce
  have "calm w1" using s(2) assms(2) by (simp add: evolves_calm)
  from p_read_sound(5) [OF s(1) slot_facts(1) [OF b(1)] q this f] have "q = Inr z" .
  moreover have "zstd_read (fst c) z (MAX_OBJECT_SIZE + 1) = Inr (take (MAX_OBJECT_SIZE + 1) d)"
    using b(6) assms(4) by (simp add: zstd_ok_def)
  ultimately show ?thesis
    using q r f assms(3) by (auto simp: file_data_Some get_object_def andThen_def map_err_def comp_eval object_at_def decode_object_def)
qed

theorem put_object_oversize_witness:
  "\<exists>h w1 m. put_object ref_crates [] (replicate (MAX_OBJECT_SIZE + 1) CHR ''a'') demo = (Inr h, w1)
     \<and> fst (get_object ref_crates [] h w1) = Inl (Corrupt m)"
proof -
  let ?d = "replicate (MAX_OBJECT_SIZE + 1) CHR ''a''"
  obtain r w1 where run: "put_object (fst demo_sel) (snd demo_sel) ?d demo = (r, w1)" by fastforce
  have z: "zstd_encode (fst demo_sel) ?d = Inr ?d" by (simp add: demo_sel_def ref_crates_def)
  have "calm demo" "snd demo_sel = []" by (simp_all add: demo_def demo_sel_def)
  with put_object_oversize [OF demo_base _ _ z demo_writable demo_no_blob(1) run] run
  show ?thesis by (auto simp: demo_sel_def)
qed

end
