(* ===== verification/Audit_Log.thy ===== *)
theory Audit_Log
  imports Store
begin

text \<open>
  \<open>src/audit.rs\<close>: the hash-chained log \<open>.respawn/audit.jsonl\<close>. The abstract state of a
  log is the list of its entries; \<open>chain\<close> is the invariant, \<open>render\<close> the bytes of a log
  that only \<open>record\<close> has written. Shown: recording keeps the chain and appends one entry,
  verification accepts such a log, an anchored prefix stays one, and a log that passes
  verification against an anchored tip has exactly the anchored entries unless the hash
  function collides on two of the bodies at hand.
\<close>

section \<open>Entries\<close>

record audit_entry =
  ae_seq :: "64 word"
  ae_ts :: "64 word"
  ae_event :: string
  ae_detail :: string
  ae_prev :: string
  ae_hash :: string

type_synonym audit_body = "64 word \<times> 64 word \<times> string \<times> string \<times> string"

text \<open>\<open>serde_json\<close> on the types of this file: the text, or the error message.\<close>

record audit_crates = crates +
  json_body :: "audit_body \<Rightarrow> string + string"
  json_audit :: "audit_entry \<Rightarrow> string + string"
  read_audit :: "string \<Rightarrow> string + audit_entry"

text \<open>Rust strings are UTF-8.\<close>

definition body_text :: "audit_body \<Rightarrow> bool" where
  "body_text b = (case b of (_, _, ev, det, prv) \<Rightarrow> utf8_valid ev \<and> utf8_valid det \<and> utf8_valid prv)"

definition entry_text :: "audit_entry \<Rightarrow> bool" where
  "entry_text e \<longleftrightarrow> utf8_valid (ae_event e) \<and> utf8_valid (ae_detail e)
     \<and> utf8_valid (ae_prev e) \<and> utf8_valid (ae_hash e)"

text \<open>
  What the log relies on: compact JSON is one non-blank line of UTF-8 that reads back, reading
  gives UTF-8 strings, and two tuples with the same text are equal.
\<close>

definition audit_json_ok :: "('z) audit_crates_scheme \<Rightarrow> bool" where
  "audit_json_ok C \<longleftrightarrow>
     (\<forall>e. entry_text e \<longrightarrow> (\<exists>s. json_audit C e = Inr s \<and> read_audit C s = Inr e
        \<and> newline \<notin> set s \<and> carriage \<notin> set s \<and> utf8_valid s \<and> trim s \<noteq> []))
     \<and> (\<forall>s e. read_audit C s = Inr e \<longrightarrow> entry_text e)
     \<and> (\<forall>b. body_text b \<longrightarrow> (\<exists>s. json_body C b = Inr s))
     \<and> (\<forall>b b' s. body_text b \<and> body_text b' \<and> json_body C b = Inr s \<and> json_body C b' = Inr s \<longrightarrow> b = b')"

definition body_string :: "('z) audit_crates_scheme \<Rightarrow> audit_body \<Rightarrow> string" where
  "body_string C b =
     (case json_body C b of Inr s \<Rightarrow> s | Inl _ \<Rightarrow> dec (unat (fst b)) @ dec (unat (fst (snd b))))"

definition entry_hash ::
    "('z) audit_crates_scheme \<Rightarrow> 64 word \<Rightarrow> 64 word \<Rightarrow> string \<Rightarrow> string \<Rightarrow> string \<Rightarrow> string" where
  "entry_hash C sq t event detail prv =
     hex_encode C (hash_bytes C (body_string C (sq, t, event, detail, prv)))"

definition json_err :: "string \<Rightarrow> error" where
  "json_err e = Corrupt (''json: '' @ e)"

definition audit_path :: "path \<Rightarrow> path" where
  "audit_path root = fabric_dir root @ [''audit.jsonl'']"

section \<open>Recording\<close>

text \<open>
  The scan for the last entry: a line that does not parse is skipped, a line that is not
  UTF-8 ends the scan. The increment is that of the release profile, which wraps.
\<close>

fun audit_scan :: "('z) audit_crates_scheme \<Rightarrow> 64 word \<times> string \<Rightarrow> bytes list \<Rightarrow> 64 word \<times> string" where
  "audit_scan C (sq, prv) [] = (sq, prv)"
| "audit_scan C (sq, prv) (l # ls) =
     (if \<not> utf8_valid l then (sq, prv)
      else case read_audit C l of
        Inr e \<Rightarrow> audit_scan C (ae_seq e + 1, ae_hash e) ls
      | Inl _ \<Rightarrow> audit_scan C (sq, prv) ls)"

definition next_entry ::
    "('z) audit_crates_scheme \<Rightarrow> 64 word \<times> string \<Rightarrow> 64 word \<Rightarrow> string \<Rightarrow> string \<Rightarrow> audit_entry" where
  "next_entry C st t event detail =
     (case st of (sq, prv) \<Rightarrow>
        \<lparr>ae_seq = sq, ae_ts = t, ae_event = event, ae_detail = detail, ae_prev = prv,
         ae_hash = entry_hash C sq t event detail prv\<rparr>)"

definition audit_record :: "('z) audit_crates_scheme \<Rightarrow> path \<Rightarrow> string \<Rightarrow> string \<Rightarrow> unit io" where
  "audit_record C root event detail =
     (let path = audit_path root in
      andThen (p_create_dir_all (butlast path)) (\<lambda>_.
      andThen (attempt (p_read path)) (\<lambda>f.
      let st = (case f of Inr d \<Rightarrow> audit_scan C (0, []) (text_lines d) | Inl _ \<Rightarrow> (0, [])) in
      andThen now_secs (\<lambda>t.
      andThen (p_open_append path) (\<lambda>h.
      andThen (lift (map_sum json_err id (json_audit C (next_entry C st t event detail)))) (\<lambda>s.
      andThen (p_write_all h s) (\<lambda>_.
      p_write_all h [newline])))))))"

section \<open>Verifying\<close>

record verify_report =
  vr_entries :: "64 word"
  vr_valid :: bool
  vr_first_bad :: "64 word option"

definition unparsable :: "nat \<Rightarrow> error" where
  "unparsable i = Corrupt (''audit line '' @ dec i @ '' unparsable'')"

fun verify_lines ::
    "('z) audit_crates_scheme \<Rightarrow> nat \<Rightarrow> string \<Rightarrow> verify_report \<Rightarrow> bytes list \<Rightarrow> error + verify_report" where
  "verify_lines C i prv rep [] = Inr rep"
| "verify_lines C i prv rep (l # ls) =
     (if \<not> utf8_valid l then Inl (Io InvalidData)
      else if trim l = [] then verify_lines C (i + 1) prv rep ls
      else case read_audit C l of
        Inl _ \<Rightarrow> Inl (unparsable (i + 1))
      | Inr e \<Rightarrow>
          (if ae_seq e \<noteq> vr_entries rep \<or> ae_prev e \<noteq> prv
              \<or> ae_hash e \<noteq> entry_hash C (ae_seq e) (ae_ts e) (ae_event e) (ae_detail e) prv
           then Inr (rep\<lparr>vr_valid := False, vr_first_bad := Some (ae_seq e)\<rparr>)
           else verify_lines C (i + 1) (ae_hash e) (rep\<lparr>vr_entries := vr_entries rep + 1\<rparr>) ls))"

definition audit_verify :: "('z) audit_crates_scheme \<Rightarrow> path \<Rightarrow> verify_report io" where
  "audit_verify C root =
     (let path = audit_path root; rep = \<lparr>vr_entries = 0, vr_valid = True, vr_first_bad = None\<rparr> in
      andThen (p_exists path) (\<lambda>ex.
      if \<not> ex then ok rep
      else andThen (p_read path) (\<lambda>d. lift (verify_lines C 0 [] rep (text_lines d)))))"

section \<open>The tip and the anchored prefix\<close>

fun tip_lines ::
    "('z) audit_crates_scheme \<Rightarrow> nat \<Rightarrow> 64 word \<times> string \<Rightarrow> bytes list \<Rightarrow> error + (64 word \<times> string)" where
  "tip_lines C i st [] = Inr st"
| "tip_lines C i st (l # ls) =
     (if \<not> utf8_valid l then Inl (Io InvalidData)
      else if trim l = [] then tip_lines C (i + 1) st ls
      else case read_audit C l of
        Inl _ \<Rightarrow> Inl (unparsable (i + 1))
      | Inr e \<Rightarrow> tip_lines C (i + 1) (ae_seq e + 1, ae_hash e) ls)"

definition audit_tip :: "('z) audit_crates_scheme \<Rightarrow> path \<Rightarrow> (64 word \<times> string) io" where
  "audit_tip C root =
     (let path = audit_path root in
      andThen (p_exists path) (\<lambda>ex.
      if \<not> ex then ok (0, [])
      else andThen (p_read path) (\<lambda>d. lift (tip_lines C 0 (0, []) (text_lines d)))))"

fun prefix_lines ::
    "('z) audit_crates_scheme \<Rightarrow> 64 word \<Rightarrow> 64 word \<times> string \<Rightarrow> bytes list \<Rightarrow> error + (64 word \<times> string)" where
  "prefix_lines C len (sq, prv) [] = Inr (sq, prv)"
| "prefix_lines C len (sq, prv) (l # ls) =
     (if \<not> utf8_valid l then Inl (Io InvalidData)
      else if trim l = [] then prefix_lines C len (sq, prv) ls
      else if len \<le> sq then Inr (sq, prv)
      else case read_audit C l of
        Inl _ \<Rightarrow> Inl (unparsable (unat (sq + 1)))
      | Inr e \<Rightarrow>
          (if ae_seq e \<noteq> sq \<or> ae_prev e \<noteq> prv
              \<or> ae_hash e \<noteq> entry_hash C (ae_seq e) (ae_ts e) (ae_event e) (ae_detail e) prv
           then Inl (Corrupt (''audit chain broken inside anchored region at seq '' @ dec (unat (ae_seq e))))
           else prefix_lines C len (sq + 1, ae_hash e) ls))"

definition prefix_verdict :: "64 word \<Rightarrow> string \<Rightarrow> 64 word \<times> string \<Rightarrow> error + unit" where
  "prefix_verdict len expected st =
     (case st of (sq, prv) \<Rightarrow>
        if sq < len then
          Inl (Corrupt (''audit log truncated: anchor covers '' @ dec (unat len)
                 @ '' entries, only '' @ dec (unat sq) @ '' present''))
        else if prv \<noteq> expected then
          Inl (Corrupt (''audit tip diverged from anchor '' @ emdash @ '' covered history was altered''))
        else Inr ())"

definition tip_is_prefix :: "('z) audit_crates_scheme \<Rightarrow> path \<Rightarrow> 64 word \<Rightarrow> string \<Rightarrow> unit io" where
  "tip_is_prefix C root len expected =
     (if len = 0 then ok ()
      else
        let path = audit_path root in
        andThen (p_exists path) (\<lambda>ex.
        if \<not> ex then fail (Corrupt ''audit log missing since anchor'')
        else andThen (p_read path) (\<lambda>d.
             andThen (lift (prefix_lines C len (0, []) (text_lines d))) (\<lambda>st.
             lift (prefix_verdict len expected st)))))"

section \<open>Logs as lists of entries\<close>

definition body_of :: "audit_entry \<Rightarrow> audit_body" where
  "body_of e = (ae_seq e, ae_ts e, ae_event e, ae_detail e, ae_prev e)"

definition linked :: "('z) audit_crates_scheme \<Rightarrow> 64 word \<times> string \<Rightarrow> audit_entry \<Rightarrow> bool" where
  "linked C st e \<longleftrightarrow> ae_seq e = fst st \<and> ae_prev e = snd st
     \<and> ae_hash e = hex_encode C (hash_bytes C (body_string C (body_of e)))"

fun chain :: "('z) audit_crates_scheme \<Rightarrow> 64 word \<times> string \<Rightarrow> audit_entry list \<Rightarrow> bool" where
  "chain C st [] = True"
| "chain C st (e # es) = (linked C st e \<and> chain C (ae_seq e + 1, ae_hash e) es)"

fun after :: "64 word \<times> string \<Rightarrow> audit_entry list \<Rightarrow> 64 word \<times> string" where
  "after st [] = st"
| "after st (e # es) = after (ae_seq e + 1, ae_hash e) es"

lemma after_append [simp]: "after st (es @ fs) = after (after st es) fs"
  by (induction es arbitrary: st) auto

lemma chain_append [simp]: "chain C st (es @ fs) \<longleftrightarrow> chain C st es \<and> chain C (after st es) fs"
  by (induction es arbitrary: st) auto

lemma after_seq: "chain C st es \<Longrightarrow> fst (after st es) = fst st + of_nat (length es)"
  by (induction es arbitrary: st) (auto simp: linked_def)

lemma broken_link:
  "(ae_seq e \<noteq> sq \<or> ae_prev e \<noteq> prv
     \<or> ae_hash e \<noteq> entry_hash C (ae_seq e) (ae_ts e) (ae_event e) (ae_detail e) prv)
   \<longleftrightarrow> \<not> linked C (sq, prv) e"
  by (auto simp: linked_def entry_hash_def body_of_def)

text \<open>The text of a log, one line for an entry.\<close>

definition line_of :: "('z) audit_crates_scheme \<Rightarrow> audit_entry \<Rightarrow> string" where
  "line_of C e = (case json_audit C e of Inr s \<Rightarrow> s | Inl _ \<Rightarrow> [])"

definition render :: "('z) audit_crates_scheme \<Rightarrow> audit_entry list \<Rightarrow> bytes" where
  "render C es = concat (map (\<lambda>e. line_of C e @ [newline]) es)"

lemma line_of:
  assumes "audit_json_ok C" "entry_text e"
  shows "json_audit C e = Inr (line_of C e)" "read_audit C (line_of C e) = Inr e"
    "newline \<notin> set (line_of C e)" "carriage \<notin> set (line_of C e)"
    "utf8_valid (line_of C e)" "trim (line_of C e) \<noteq> []"
  using assms unfolding audit_json_ok_def line_of_def by fastforce+

lemma render_simps [simp]:
  "render C [] = []" "render C (e # es) = line_of C e @ newline # render C es"
  "render C (es @ fs) = render C es @ render C fs"
  by (simp_all add: render_def)

lemma render_lines:
  "audit_json_ok C \<Longrightarrow> list_all entry_text es \<Longrightarrow> text_lines (render C es) = map (line_of C) es"
proof (induction es)
  case Nil
  then show ?case by simp
next
  case (Cons e es)
  then have e: "newline \<notin> set (line_of C e)" "carriage \<notin> set (line_of C e)"
    using line_of [OF Cons.prems(1), of e] by auto
  have "text_lines ((line_of C e @ [newline]) @ render C es)
      = text_lines (line_of C e @ [newline]) @ text_lines (render C es)"
    by (rule text_lines_append) simp
  with Cons text_lines_line [OF e] show ?case by simp
qed

text \<open>The entries a file of arbitrary bytes is read as (up to the first bad line).\<close>

fun parsed :: "('z) audit_crates_scheme \<Rightarrow> bytes list \<Rightarrow> audit_entry list" where
  "parsed C [] = []"
| "parsed C (l # ls) =
     (if \<not> utf8_valid l then []
      else if trim l = [] then parsed C ls
      else case read_audit C l of Inl _ \<Rightarrow> [] | Inr e \<Rightarrow> e # parsed C ls)"

lemma parsed_lines:
  "audit_json_ok C \<Longrightarrow> list_all entry_text es \<Longrightarrow> parsed C (map (line_of C) es) = es"
  by (induction es) (simp_all add: line_of)

lemma parsed_text: "audit_json_ok C \<Longrightarrow> list_all entry_text (parsed C ls)"
  by (induction ls) (auto simp: audit_json_ok_def split: sum.splits)

section \<open>What the scans compute\<close>

lemma audit_scan_lines:
  "audit_json_ok C \<Longrightarrow> list_all entry_text es \<Longrightarrow> audit_scan C st (map (line_of C) es) = after st es"
  by (induction es arbitrary: st) (auto simp: line_of)

lemma tip_lines_result:
  "tip_lines C i st ls = Inr r \<Longrightarrow> r = after st (parsed C ls)"
  by (induction ls arbitrary: i st) (auto split: if_splits sum.splits)

lemma tip_lines_render:
  "audit_json_ok C \<Longrightarrow> list_all entry_text es \<Longrightarrow>
   tip_lines C i st (map (line_of C) es) = Inr (after st es)"
  by (induction es arbitrary: i st) (simp_all add: line_of)

lemma verify_lines_result:
  assumes "verify_lines C i prv rep ls = Inr r" "vr_valid rep"
  shows "vr_valid r \<longleftrightarrow> chain C (vr_entries rep, prv) (parsed C ls)"
    and "vr_valid r \<Longrightarrow> vr_entries r = vr_entries rep + of_nat (length (parsed C ls))"
proof -
  from assms have "(vr_valid r \<longleftrightarrow> chain C (vr_entries rep, prv) (parsed C ls))
      \<and> (vr_valid r \<longrightarrow> vr_entries r = vr_entries rep + of_nat (length (parsed C ls)))"
  proof (induction ls arbitrary: i prv rep)
    case Nil
    then show ?case by simp
  next
    case (Cons l ls)
    show ?case
    proof (cases "trim l = [] \<or> \<not> utf8_valid l")
      case True
      with Cons show ?thesis by (auto split: if_splits)
    next
      case False
      with Cons.prems obtain e where e: "read_audit C l = Inr e" by (auto split: sum.splits)
      show ?thesis
      proof (cases "linked C (vr_entries rep, prv) e")
        case True
        then have sq: "ae_seq e = vr_entries rep" by (simp add: linked_def)
        from Cons.prems(1) False e True
        have "verify_lines C (i + 1) (ae_hash e) (rep\<lparr>vr_entries := vr_entries rep + 1\<rparr>) ls = Inr r"
          unfolding verify_lines.simps broken_link by simp
        from Cons.IH [OF this] Cons.prems(2) False e True sq show ?thesis by (simp add: ac_simps)
      next
        case 2: False
        from Cons.prems(1) False e 2
        have "r = rep\<lparr>vr_valid := False, vr_first_bad := Some (ae_seq e)\<rparr>"
          unfolding verify_lines.simps broken_link by simp
        with False e 2 show ?thesis by simp
      qed
    qed
  qed
  then show "vr_valid r \<longleftrightarrow> chain C (vr_entries rep, prv) (parsed C ls)"
    "vr_valid r \<Longrightarrow> vr_entries r = vr_entries rep + of_nat (length (parsed C ls))" by auto
qed

lemma verify_lines_render:
  assumes "audit_json_ok C" "list_all entry_text es" "chain C (vr_entries rep, prv) es"
  shows "verify_lines C i prv rep (map (line_of C) es)
    = Inr (rep\<lparr>vr_entries := vr_entries rep + of_nat (length es)\<rparr>)"
  using assms(2,3)
proof (induction es arbitrary: i prv rep)
  case Nil
  then show ?case by simp
next
  case (Cons e es)
  then have "linked C (vr_entries rep, prv) e" and sq: "ae_seq e = vr_entries rep"
    by (simp_all add: linked_def)
  with Cons line_of [OF assms(1), of e] show ?case
    unfolding list.map verify_lines.simps broken_link by (simp add: ac_simps)
qed

lemma word_step:
  fixes a b :: "64 word"
  assumes "a < b"
  shows "unat (a + 1) = Suc (unat a)" "a + 1 \<le> b"
proof -
  have ab: "unat a < unat b" "unat b < 2 ^ 64" using assms unsigned_less [of b] by (simp_all add: word_less_nat_alt)
  then have "Suc (unat a) < 2 ^ 64" by linarith
  then show u: "unat (a + 1) = Suc (unat a)" by (simp add: unat_word_ariths)
  with ab show "a + 1 \<le> b" by (simp add: word_le_nat_alt)
qed

lemma prefix_lines_result:
  assumes "prefix_lines C len st ls = Inr r"
  shows "\<exists>k. k \<le> length (parsed C ls) \<and> chain C st (take k (parsed C ls))
    \<and> r = after st (take k (parsed C ls)) \<and> unat (fst r) = unat (fst st) + k
    \<and> (fst st \<le> len \<longrightarrow> fst r \<le> len) \<and> (k < length (parsed C ls) \<longrightarrow> len \<le> fst r)"
  using assms
proof (induction ls arbitrary: st)
  case Nil
  then show ?case by (cases st) simp
next
  case (Cons l ls)
  obtain sq prv where st: "st = (sq, prv)" by fastforce
  show ?case
  proof (cases "trim l = [] \<or> \<not> utf8_valid l \<or> len \<le> sq")
    case True
    then consider "utf8_valid l" "trim l = []" | "utf8_valid l" "trim l \<noteq> []" "len \<le> sq"
      using Cons.prems st by (auto split: if_splits)
    then show ?thesis
    proof cases
      case 1
      with Cons.IH [of st] Cons.prems st show ?thesis by simp
    next
      case 2
      with Cons.prems st show ?thesis by (intro exI [of _ 0]) auto
    qed
  next
    case False
    with Cons.prems st obtain e where e: "read_audit C l = Inr e" by (auto split: sum.splits)
    have lk: "linked C (sq, prv) e" and rest: "prefix_lines C len (sq + 1, ae_hash e) ls = Inr r"
      using Cons.prems False e unfolding st prefix_lines.simps broken_link by (auto split: if_splits)
    then have sq: "ae_seq e = sq" by (simp add: linked_def)
    have "sq < len" using False by (simp add: not_le)
    note step = word_step [OF this]
    from Cons.IH [OF rest] obtain k where "k \<le> length (parsed C ls)"
      "chain C (sq + 1, ae_hash e) (take k (parsed C ls))"
      "r = after (sq + 1, ae_hash e) (take k (parsed C ls))" "unat (fst r) = unat (sq + 1) + k"
      "sq + 1 \<le> len \<longrightarrow> fst r \<le> len" "k < length (parsed C ls) \<longrightarrow> len \<le> fst r" by auto
    moreover have "parsed C (l # ls) = e # parsed C ls" using False e by simp
    ultimately show ?thesis
      using lk sq step unfolding st by (intro exI [of _ "Suc k"]) simp
  qed
qed

lemma prefix_lines_render:
  assumes "audit_json_ok C" "n < 2 ^ 64"
    and "chain C (sq, prv) (as @ bs)" "list_all entry_text (as @ bs)" "unat sq + length as = n"
  shows "prefix_lines C (of_nat n) (sq, prv) (map (line_of C) (as @ bs)) = Inr (after (sq, prv) as)"
  using assms(3-5)
proof (induction as arbitrary: sq prv)
  case Nil
  then have "of_nat n \<le> sq" by (auto simp: word_le_nat_alt)
  with Nil line_of [OF assms(1)] show ?case by (cases bs) (auto simp: list_all_iff)
next
  case (Cons e as)
  have "unat (of_nat n :: 64 word) = n" using assms(2) by (simp add: unat_of_nat take_bit_nat_eq_self)
  then have lt: "sq < of_nat n" using Cons.prems(3) by (simp add: word_less_nat_alt)
  from Cons.prems have lk: "linked C (sq, prv) e" and sq: "ae_seq e = sq" and et: "entry_text e"
    by (simp_all add: linked_def)
  have IH: "prefix_lines C (of_nat n) (sq + 1, ae_hash e) (map (line_of C) (as @ bs))
      = Inr (after (sq + 1, ae_hash e) as)"
    using Cons word_step [OF lt] sq by simp
  note l = line_of [OF assms(1) et]
  have "prefix_lines C (of_nat n) (sq, prv) (line_of C e # map (line_of C) (as @ bs))
      = prefix_lines C (of_nat n) (sq + 1, ae_hash e) (map (line_of C) (as @ bs))"
    unfolding prefix_lines.simps broken_link using l lt lk by (simp add: not_le [symmetric])
  with IH sq show ?case by simp
qed

section \<open>A tip binds the whole history before it\<close>

definition body_strings :: "('z) audit_crates_scheme \<Rightarrow> audit_entry list \<Rightarrow> string set" where
  "body_strings C es = (\<lambda>e. body_string C (body_of e)) ` set es"

lemma entry_text_body: "entry_text e \<Longrightarrow> body_text (body_of e)"
  by (simp add: entry_text_def body_text_def body_of_def)

lemma body_string_inject:
  assumes "audit_json_ok C" "entry_text e" "entry_text f"
    and "body_string C (body_of e) = body_string C (body_of f)"
  shows "body_of e = body_of f"
proof -
  note t = entry_text_body [OF assms(2)] entry_text_body [OF assms(3)]
  obtain s where s: "json_body C (body_of e) = Inr s"
    using assms(1) t(1) unfolding audit_json_ok_def by blast
  obtain s' where s': "json_body C (body_of f) = Inr s'"
    using assms(1) t(2) unfolding audit_json_ok_def by blast
  have "s' = s" using assms(4) s s' by (simp add: body_string_def)
  with s' have "json_body C (body_of f) = Inr s" by simp
  with assms(1) t s show ?thesis unfolding audit_json_ok_def by blast
qed

lemma linked_inject:
  assumes "audit_json_ok C" "hex_ok C" "entry_text e" "entry_text f"
    and "linked C st e" "linked C st' f" "ae_hash e = ae_hash f"
    and "inj_on (hash_bytes C) B" "body_string C (body_of e) \<in> B" "body_string C (body_of f) \<in> B"
  shows "e = f"
proof -
  from assms(5-7) have "hash_hex C (hash_bytes C (body_string C (body_of e)))
      = hash_hex C (hash_bytes C (body_string C (body_of f)))"
    by (simp add: linked_def hash_hex_def)
  with assms(2) have "hash_bytes C (body_string C (body_of e)) = hash_bytes C (body_string C (body_of f))"
    by (simp add: hash_hex_inject)
  with assms(8-10) have "body_string C (body_of e) = body_string C (body_of f)" by (meson inj_onD)
  with body_string_inject assms(1,3,4) have "body_of e = body_of f" by blast
  with assms(7) show ?thesis by (simp add: body_of_def)
qed

lemma after_snoc: "after st (es @ [e]) = (ae_seq e + 1, ae_hash e)"
  by simp

lemma chain_tip_unique:
  assumes "audit_json_ok C" "hex_ok C" "inj_on (hash_bytes C) B"
    and "chain C st es" "chain C st fs" "length es = length fs" "after st es = after st fs"
    and "list_all entry_text es" "list_all entry_text fs" "body_strings C es \<subseteq> B" "body_strings C fs \<subseteq> B"
  shows "es = fs"
  using assms(4-11)
proof (induction es arbitrary: fs rule: rev_induct)
  case Nil
  then show ?case by simp
next
  case (snoc e es)
  from snoc.prems(3) obtain fs' f where fs: "fs = fs' @ [f]" by (cases fs rule: rev_exhaust) auto
  with snoc.prems have lk: "linked C (after st es) e" "linked C (after st fs') f" "ae_hash e = ae_hash f"
    by simp_all
  with linked_inject [OF assms(1,2) _ _ lk assms(3)] snoc.prems fs have "e = f"
    by (simp add: body_strings_def)
  with lk have "after st es = after st fs'" by (simp add: linked_def prod_eq_iff)
  with snoc.IH [of fs'] snoc.prems fs \<open>e = f\<close> show ?case by (simp add: body_strings_def)
qed

section \<open>The log in the file system\<close>

definition audit_log :: "('z) audit_crates_scheme \<Rightarrow> path \<Rightarrow> world \<Rightarrow> audit_entry list \<Rightarrow> bool" where
  "audit_log C root w es \<longleftrightarrow> sound (fabric_dir root) w \<and> ''..'' \<notin> set root
     \<and> (file_data (entries w (audit_path root)) = Some (render C es)
        \<or> es = [] \<and> entries w (audit_path root) = None)
     \<and> chain C (0, []) es \<and> list_all entry_text es"

lemma slot_audit: "''..'' \<notin> set root \<Longrightarrow> slot (fabric_dir root) (audit_path root)"
  unfolding audit_path_def by (rule slot_fabric_file) auto

lemma audit_log_data: "audit_log C root w es \<Longrightarrow> data_at w (audit_path root) = render C es"
  by (auto simp: audit_log_def data_at_def)

lemma next_entry_linked:
  "linked C st (next_entry C st t event detail)"
  by (cases st) (simp add: linked_def next_entry_def entry_hash_def body_of_def)

lemma next_entry_text:
  assumes "hex_ok C" "utf8_valid event" "utf8_valid detail" "utf8_valid (snd st)"
  shows "entry_text (next_entry C st t event detail)"
  using assms hash_hex_facts(2) [OF assms(1)]
  by (cases st)
    (auto simp: next_entry_def entry_text_def entry_hash_def hash_hex_def intro!: ascii_utf8_valid lower_hex_ascii)

lemma after_text: "list_all entry_text es \<Longrightarrow> utf8_valid (snd st) \<Longrightarrow> utf8_valid (snd (after st es))"
  by (induction es arbitrary: st) (auto simp: entry_text_def)

text \<open>The part of \<open>audit_record\<close> after the directory is there.\<close>

lemma audit_record_eq:
  "audit_record C root event detail =
     andThen (p_create_dir_all (butlast (audit_path root))) (\<lambda>_.
     andThen (attempt (p_read (audit_path root))) (\<lambda>f.
     andThen now_secs (\<lambda>t.
     append_line (audit_path root) (map_sum json_err id (json_audit C
       (next_entry C (case f of Inr d \<Rightarrow> audit_scan C (0, []) (text_lines d) | Inl _ \<Rightarrow> (0, []))
          t event detail))))))"
  by (simp add: audit_record_def append_line_def Let_def)

lemma create_dir_stays:
  assumes "slot F p" "sound F w" "p_create_dir_all (butlast p) w = (r, w')"
  shows "stays F w w'" "entries w' p = entries w p"
proof -
  note c = p_create_dir_all_sound [OF assms(2) slot_facts(2) [OF assms(1)] assms(3)]
  show "stays F w w'" using c(1) c(2) [OF slot_facts(11) [OF assms(1)], of "{}"] by (simp add: stays_def)
  show "entries w' p = entries w p" using c(6) [of p] slot_facts(7) [OF assms(1)] by auto
qed

lemma audit_record_grows:
  assumes "audit_log C root w es" "calm w" "audit_json_ok C" "audit_record C root event detail w = (Inr u, w')"
  shows "\<exists>t. let e = next_entry C (after (0, []) es) t event detail in
     (\<exists>s. json_audit C e = Inr s \<and> grown (fabric_dir root) (audit_path root) w (s @ [newline]) w')"
proof -
  let ?F = "fabric_dir root" and ?p = "audit_path root"
  have s: "sound ?F w" "''..'' \<notin> set root" using assms(1) by (simp_all add: audit_log_def)
  note p = slot_audit [OF s(2)]
  from assms(4) obtain u1 w1 f w2 t w3 where
    c: "p_create_dir_all (butlast ?p) w = (Inr u1, w1)" and
    rd: "p_read ?p w1 = (f, w2)" and n: "now_secs w2 = (Inr t, w3)" and
    ap: "append_line ?p (map_sum json_err id (json_audit C
       (next_entry C (case f of Inr d \<Rightarrow> audit_scan C (0, []) (text_lines d) | Inl _ \<Rightarrow> (0, []))
          t event detail))) w3 = (Inr u, w')"
    unfolding audit_record_eq by (auto simp: andThen_Inr)
  note st = create_dir_stays [OF p s(1) c]
  have s1: "sound ?F w1" "calm w1"
    using st(1) assms(2) evolves_calm [of ?F "{}" w w1] by (simp_all add: stays_def)
  note r = p_read_sound [OF s1(1) slot_facts(1) [OF p] rd]
  have scan: "(case f of Inr d \<Rightarrow> audit_scan C (0, []) (text_lines d) | Inl _ \<Rightarrow> (0, [])) = after (0, []) es"
  proof (cases "file_data (entries w1 ?p)")
    case None
    with assms(1) st(2) have "es = []" by (auto simp: audit_log_def)
    moreover from None r(4) have "\<exists>e. f = Inl e" by (cases f) auto
    ultimately show ?thesis by auto
  next
    case (Some d)
    with assms(1) st(2) have "d = render C es" "list_all entry_text es" by (auto simp: audit_log_def)
    moreover from r(5) [OF s1(2) Some] have "f = Inr d" .
    ultimately show ?thesis using audit_scan_lines [OF assms(3)] render_lines [OF assms(3)] by simp
  qed
  have s3: "sound ?F w3" "stays ?F w w3"
  proof -
    from now_secs_result [OF n sound_quiet [OF r(1)]]
    have q: "same_env w2 w3" "wfs w3 = wfs w2" by blast+
    show s3: "sound ?F w3" by (rule sound_same [OF r(1) q])
    have "stays ?F w2 w3" using s3 evolves_same [OF q] by (simp add: stays_def)
    moreover have "stays ?F w1 w2" using r(1) r(2) [of "{}"] by (simp add: stays_def)
    ultimately show "stays ?F w w3" using st(1) by (blast intro: stays_trans)
  qed
  have ev: "evolves ?F {} w w3" using s3(2) by (simp add: stays_def)
  have d3: "data_at w3 ?p = data_at w ?p"
    using evolves_data [OF ev _ slot_facts(3) [OF p]] by (simp add: data_at_def)
  let ?e = "next_entry C (after (0, []) es) t event detail"
  from append_line_result [OF p s3(1) ap, unfolded scan] obtain l where
    l: "json_audit C ?e = Inr l" "grown ?F ?p w3 (l @ [newline]) w'"
    by (auto simp: map_sum_def split: sum.splits)
  have "grown ?F ?p w (l @ [newline]) w'"
    using l(2) d3 evolves_mono [OF ev, of "{?p}"] by (auto simp: grown_def intro: evolves_trans)
  with l(1) show ?thesis by (auto simp: Let_def)
qed

lemma audit_log_file:
  assumes "audit_log C root w es" "audit_json_ok C" "file_data (entries w (audit_path root)) = Some d"
  shows "d = render C es" "text_lines d = map (line_of C) es"
  using assms render_lines [OF assms(2)] by (auto simp: audit_log_def)

text \<open>Reading the log: what \<open>verify\<close>, \<open>tip\<close> and \<open>tip_is_prefix\<close> have in common.\<close>

lemma read_log:
  assumes "sound (fabric_dir root) w" "''..'' \<notin> set root"
    and "andThen (p_exists (audit_path root)) (\<lambda>ex. if \<not> ex then ok x
           else andThen (p_read (audit_path root)) (\<lambda>d. lift (f d))) w = (r, w')"
  shows "r = Inr y \<Longrightarrow> y = x \<and> (calm w \<longrightarrow> entries w (audit_path root) = None)
      \<or> (\<exists>d. file_data (entries w (audit_path root)) = Some d \<and> f d = Inr y)"
    and "calm w \<Longrightarrow> file_data (entries w (audit_path root)) = Some d \<Longrightarrow> r = f d"
    and "calm w \<Longrightarrow> entries w (audit_path root) = None \<Longrightarrow> r = Inr x"
proof -
  let ?p = "audit_path root"
  note p = slot_audit [OF assms(2)]
  obtain b w1 where q: "p_exists ?p w = (Inr b, w1)"
    using query_sound(4) [OF assms(1)] by (metis p_exists_def prod.exhaust_sel)
  note qs = query_sound [OF assms(1) q [unfolded p_exists_def]]
  have ex: "fs_exists (wfs w) ?p \<longleftrightarrow> entries w ?p \<noteq> None"
    using fs_exists_clean(1) [OF sound_facts(2) [OF assms(1)] sound_facts(3) [OF assms(1) slot_facts(1) [OF p]]]
    by (simp add: entries_def)
  have b: "calm w \<Longrightarrow> b \<longleftrightarrow> entries w ?p \<noteq> None" using qs(4) ex by auto
  obtain g w2 where rd: "p_read ?p w1 = (g, w2)" by fastforce
  note rs = p_read_sound [OF qs(1) slot_facts(1) [OF p] rd]
  have e1: "entries w1 = entries w" using qs(3) by (simp add: entries_def)
  have c1: "calm w \<Longrightarrow> calm w1" using qs(2) [of "{}"] evolves_calm by blast
  have run: "r = (if b then (case g of Inl e \<Rightarrow> Inl e | Inr d \<Rightarrow> f d) else Inr x)"
    using assms(3) q rd by (cases g) (auto simp: comp_eval)
  show "y = x \<and> (calm w \<longrightarrow> entries w ?p = None) \<or> (\<exists>d. file_data (entries w ?p) = Some d \<and> f d = Inr y)"
    if "r = Inr y" using that run b rs(4) e1 by (cases g) (auto split: if_splits)
  show "r = f d" if "calm w" "file_data (entries w ?p) = Some d"
    using that run b rs(5) [OF c1] e1 by (auto simp: file_data_Some)
  show "r = Inr x" if "calm w" "entries w ?p = None" using that run b by simp
qed

section \<open>In a calm world an event is recorded\<close>

lemma append_line_total:
  assumes p: "slot F p" and s: "sound F w" "calm w" "entries w (butlast p) = Some Dir" "entries w p \<noteq> Some Dir"
  shows "\<exists>w'. append_line p (Inr l) w = (Inr (), w')"
proof -
  obtain q w1 where o: "p_open_append p w = (q, w1)" by fastforce
  note os = p_open_append_sound [OF s(1) slot_facts(1) [OF p] o]
  have "lookup_path True (wfs w) p = Inr p"
    using s(3) by (intro lookup_clean_ok sound_facts [OF s(1)] slot_facts [OF p]) (simp add: entries_def)
  moreover have "\<not> is_link (entry_at (wfs w) p)"
    using sound_facts(3) [OF s(1) slot_facts(1) [OF p]] by (simp add: clean_path_def)
  ultimately have "\<exists>g. fs_open_append (wtime w (wtick w)) (wfs w) p = (Inr p, g)"
    using s(4) by (auto simp: fs_open_append_def entries_def split: option.splits node.splits)
  with syscall_result [OF o [unfolded p_open_append_def] calm_quiet [OF s(2)]] s(2) have q: "q = Inr p" by auto
  with os have g0: "grown F p w [] w1"
    by (auto simp: grown_def data_at_def file_data_Some is_file_node_iff entries_def entry_at_put
        intro: evolves_same evolves_put [OF _ _ slot_facts(1,4) [OF p]])
  have wr: "\<exists>y. p_write_all p d x = (Inr (), y) \<and> (\<exists>t'. grown F p w t' y)" if g: "grown F p w t x" for d t x
  proof -
    obtain r y where run: "p_write_all p d x = (r, y)" by fastforce
    from g obtain m t0 where f: "entries x p = Some (File (data_at w p @ t) m t0)" and snd: "sound F x"
      and "evolves F {p} w x" by (auto simp: grown_def file_data_Some)
    then have "calm x" using s(2) by (simp add: evolves_calm)
    with p_write_all_sound(4) [OF snd slot_facts(1) [OF p] run f slot_facts(4) [OF p]] have "r = Inr ()" by simp
    with run grown_write [OF p g run] show ?thesis by auto
  qed
  from wr [OF g0, of l] obtain w2 t where w2: "p_write_all p l w1 = (Inr (), w2)" "grown F p w t w2" by blast
  from wr [OF w2(2), of "[newline]"] obtain w3 where "p_write_all p [newline] w2 = (Inr (), w3)" by blast
  with o q w2(1) show ?thesis by (simp add: append_line_def)
qed

lemma audit_record_total:
  assumes "audit_log C root w es" "calm w" "audit_json_ok C" "hex_ok C" "utf8_valid event" "utf8_valid detail"
    and "entries w (fabric_dir root) = Some Dir"
  shows "\<exists>w'. audit_record C root event detail w = (Inr (), w')"
proof -
  let ?F = "fabric_dir root" and ?p = "audit_path root"
  have s: "sound ?F w" "''..'' \<notin> set root" "list_all entry_text es" using assms(1) by (simp_all add: audit_log_def)
  note p = slot_audit [OF s(2)]
  have b: "butlast ?p = ?F" by (simp add: audit_path_def)
  obtain r1 w1 where c: "p_create_dir_all (butlast ?p) w = (r1, w1)" by fastforce
  note cs = p_create_dir_all_sound [OF s(1) slot_facts(2) [OF p] c] and st = create_dir_stays [OF p s(1) c]
  have "entries w q = Some Dir" if "prefix q ?F" for q
    using that assms(7) wf_fs_ancestor [OF sound_facts(2) [OF s(1)]] by (fastforce simp: prefix_def entries_def)
  then have r1: "r1 = Inr ()" using cs(5) [OF assms(2)] b by simp
  obtain f w2 where rd: "p_read ?p w1 = (f, w2)" by fastforce
  note rs = p_read_sound [OF cs(1) slot_facts(1) [OF p] rd]
  obtain r3 w3 where n0: "now_secs w2 = (r3, w3)" by fastforce
  from now_secs_result [OF n0 sound_quiet [OF rs(1)]] obtain t where
    n: "r3 = Inr t" "same_env w2 w3" "wfs w3 = wfs w2" by blast
  have e3: "entries w3 = entries w1" using n(3) rs(3) by (simp add: entries_def)
  have s3: "sound ?F w3" by (rule sound_same [OF rs(1) n(2,3)])
  have c1: "calm w1" using st(1) assms(2) evolves_calm [of ?F "{}" w w1] by (simp add: stays_def)
  then have "calm w2" using rs(2) [of "{}"] evolves_calm [of ?F "{}" w1 w2] by simp
  then have c3: "calm w3" using n(2) by (simp add: same_env_calm)
  let ?st = "case f of Inr d \<Rightarrow> audit_scan C (0, []) (text_lines d) | Inl _ \<Rightarrow> (0, [])"
  have "?st = after (0, []) es"
  proof (cases "file_data (entries w1 ?p)")
    case None
    with assms(1) st(2) rs(4) show ?thesis by (cases f) (auto simp: audit_log_def)
  next
    case (Some d)
    with assms(1) st(2) have "d = render C es" by (auto simp: audit_log_def)
    with rs(5) [OF c1 Some] show ?thesis
      using audit_scan_lines [OF assms(3) s(3)] render_lines [OF assms(3) s(3)] by simp
  qed
  moreover have "utf8_valid (snd (after (0, []) es))" using after_text [OF s(3), of "(0, [])"] by simp
  ultimately have "entry_text (next_entry C ?st t event detail)" using assms(4-6) by (simp add: next_entry_text)
  from line_of(1) [OF assms(3) this] obtain l where l: "json_audit C (next_entry C ?st t event detail) = Inr l" ..
  have "entries w3 (butlast ?p) = Some Dir" using e3 cs(4) [OF r1, of ?F] b by simp
  moreover have "entries w3 ?p \<noteq> Some Dir" using e3 st(2) assms(1) by (auto simp: audit_log_def)
  ultimately obtain w4 where "append_line ?p (Inr l) w3 = (Inr (), w4)"
    using append_line_total [OF p s3 c3] by blast
  with c r1 rd n0 n(1) l show ?thesis
    unfolding audit_record_eq by (simp add: attempt_def)
qed

section \<open>Concrete instances\<close>

definition ref_json_body :: "audit_body \<Rightarrow> string + string" where
  "ref_json_body b = (case b of (sq, t, ev, det, prv) \<Rightarrow>
     Inr (ref_write [word_field sq, word_field t, ev, det, prv]))"

definition ref_json_audit :: "audit_entry \<Rightarrow> string + string" where
  "ref_json_audit e = Inr (ref_write [word_field (ae_seq e), word_field (ae_ts e), ae_event e,
     ae_detail e, ae_prev e, ae_hash e])"

definition ref_read_audit :: "string \<Rightarrow> string + audit_entry" where
  "ref_read_audit s =
     (case ref_read s of
        Some [sq, t, ev, det, prv, h] \<Rightarrow>
          (let e = \<lparr>ae_seq = field_word sq, ae_ts = field_word t, ae_event = ev, ae_detail = det,
                    ae_prev = prv, ae_hash = h\<rparr>
           in if entry_text e then Inr e else Inl ''encoding'')
      | _ \<Rightarrow> Inl ''syntax'')"

definition ref_audit_crates :: audit_crates where
  "ref_audit_crates = crates.extend ref_crates
     \<lparr>json_body = ref_json_body, json_audit = ref_json_audit, read_audit = ref_read_audit\<rparr>"

lemma ref_audit_ok:
  assumes "json_body C = ref_json_body" "json_audit C = ref_json_audit" "read_audit C = ref_read_audit"
  shows "audit_json_ok C"
proof -
  have 1: "ref_read_audit (ref_write [word_field (ae_seq e), word_field (ae_ts e), ae_event e,
     ae_detail e, ae_prev e, ae_hash e]) = Inr e" if "entry_text e" for e
    using that by (simp add: ref_read_audit_def ref_read_write Let_def entry_text_def)
  have 2: "entry_text e" if "ref_read_audit s = Inr e" for s e
    using that by (auto simp: ref_read_audit_def Let_def split: option.splits list.splits if_splits)
  have 3: "b = b'" if "ref_json_body b = Inr s" "ref_json_body b' = Inr s" for b b' s
    using that by (cases b; cases b') (auto simp: ref_json_body_def ref_write_inject)
  have 4: "\<exists>s. ref_json_body b = Inr s" for b by (cases b) (simp add: ref_json_body_def)
  show ?thesis
    unfolding audit_json_ok_def assms using 1 2 3 4 by (auto simp: ref_json_audit_def ref_write_line(1-4))
qed

lemma ref_audit_crates_ok: "audit_json_ok ref_audit_crates" "crates_ok ref_audit_crates"
  by (rule ref_audit_ok, simp_all add: ref_audit_crates_def crates.extend_def)
    (rule ref_ok, simp_all add: ref_crates_def)

lemma demo_audit_log: "audit_log ref_audit_crates [] demo []"
  using demo_sound
  by (simp add: audit_log_def demo_entries demo_fs_def audit_path_def fabric_dir_def FABRIC_DIR_def)

section \<open>Properties\<close>

text \<open>C11: Recording an event on a well-formed log in a calm world appends exactly one entry with the
  event, the detail, the next sequence number and the hash of the entry before it; the file
  keeps its old bytes as a prefix, the chain stays valid, and no other file changes.\<close>

theorem audit_record_appends:
  assumes "audit_log C root w es" "calm w" "audit_json_ok C" "hex_ok C" "utf8_valid event" "utf8_valid detail"
    and "entries w (fabric_dir root) = Some Dir"
  shows "\<exists>e w'. audit_record C root event detail w = (Inr (), w') \<and> audit_log C root w' (es @ [e])
    \<and> ae_event e = event \<and> ae_detail e = detail
    \<and> ae_seq e = of_nat (length es) \<and> linked C (after (0, []) es) e
    \<and> (\<forall>q. q \<noteq> audit_path root \<longrightarrow> \<not> is_tmp q \<longrightarrow> file_data (entries w' q) = file_data (entries w q))"
proof -
  obtain w' where run: "audit_record C root event detail w = (Inr (), w')"
    using audit_record_total [OF assms] by blast
  obtain t s where e: "json_audit C (next_entry C (after (0, []) es) t event detail) = Inr s"
    and g: "grown (fabric_dir root) (audit_path root) w (s @ [newline]) w'"
    using audit_record_grows [OF assms(1-3) run] by (auto simp: Let_def)
  let ?e = "next_entry C (after (0, []) es) t event detail"
  have l: "audit_log C root w es" "list_all entry_text es" "chain C (0, []) es"
    using assms(1) by (simp_all add: audit_log_def)
  have "utf8_valid (snd (after (0, []) es))" using after_text [OF l(2), of "(0, [])"] by simp
  then have t: "entry_text ?e" using assms(4-6) by (intro next_entry_text)
  from e have "line_of C ?e = s" by (simp add: line_of_def)
  with g t l next_entry_linked [of C "after (0, []) es"] audit_log_data [OF l(1)] assms(1)
  have "audit_log C root w' (es @ [?e])" by (simp add: audit_log_def grown_def)
  moreover have "ae_seq ?e = of_nat (length es)"
    using after_seq [OF l(3)] by (cases "after (0, []) es") (simp add: next_entry_def)
  moreover have "evolves (fabric_dir root) {audit_path root} w w'" using g by (simp add: grown_def)
  ultimately show ?thesis
    using next_entry_linked [of C "after (0, []) es"] evolves_data run
    by (intro exI [of _ ?e] exI [of _ w']) (auto simp: next_entry_def split: prod.splits)
qed

text \<open>A log with two recorded events, for the witnesses.\<close>

lemma demo_dir: "entries demo (fabric_dir []) = Some Dir"
  by (simp add: demo_entries demo_fs_def fabric_dir_def FABRIC_DIR_def)

lemma demo_calm: "calm demo"
  by (simp add: demo_def)

lemma plain_utf8: "utf8_valid ''init''" "utf8_valid ''snap''" "utf8_valid ''v1''"
  by (simp_all add: code_def)

theorem audit_record_appends_witness:
  "\<exists>e w'. audit_record ref_audit_crates [] ''init'' ''v1'' demo = (Inr (), w')
     \<and> audit_log ref_audit_crates [] w' [e] \<and> ae_seq e = 0"
  using audit_record_appends [OF demo_audit_log demo_calm ref_audit_crates_ok(1) _ plain_utf8(1,3) demo_dir]
    ref_audit_crates_ok(2) by (fastforce simp: crates_ok_def)

definition demo_entry :: "audit_entry list \<Rightarrow> string \<Rightarrow> audit_entry" where
  "demo_entry es event = next_entry ref_audit_crates (after (0, []) es) 7 event ''v1''"

definition demo_log :: "audit_entry list" where
  "demo_log = [demo_entry [] ''init'', demo_entry [demo_entry [] ''init''] ''snap'']"

lemma demo_log_ok: "chain ref_audit_crates (0, []) demo_log" "list_all entry_text demo_log"
proof -
  have h: "hex_ok ref_audit_crates" using ref_audit_crates_ok(2) by (simp add: crates_ok_def)
  let ?e = "demo_entry [] ''init''"
  have 1: "linked ref_audit_crates (0, []) ?e" "entry_text ?e"
    using next_entry_linked [of ref_audit_crates "(0, [])"] next_entry_text [OF h plain_utf8(1,3), of "(0, [])"]
    by (simp_all add: demo_entry_def)
  then have "utf8_valid (ae_hash ?e)" by (simp add: entry_text_def)
  then have 2: "linked ref_audit_crates (after (0, []) [?e]) (demo_entry [?e] ''snap'')"
    "entry_text (demo_entry [?e] ''snap'')"
    using next_entry_linked [of ref_audit_crates "after (0, []) [?e]"]
      next_entry_text [OF h plain_utf8(2,3), of "after (0, []) [?e]"]
    unfolding demo_entry_def by simp_all
  with 1 show "chain ref_audit_crates (0, []) demo_log" "list_all entry_text demo_log"
    by (simp_all add: demo_log_def)
qed

definition logged :: "audit_entry list \<Rightarrow> world" where
  "logged es = fresh_world (demo_fs @ [([''.respawn'', ''audit.jsonl''], File (render ref_audit_crates es) 0x1A4 0)])"

lemma logged_ok:
  assumes "chain ref_audit_crates (0, []) es" "list_all entry_text es"
  shows "audit_log ref_audit_crates [] (logged es) es" "calm (logged es)" "sound (fabric_dir []) (logged es)"
    "file_data (entries (logged es) (audit_path [])) = Some (render ref_audit_crates es)"
proof -
  show s: "sound (fabric_dir []) (logged es)"
    unfolding logged_def
    by (rule plain_fs_sound) (simp_all add: plain_fs_def demo_fs_def fabric_dir_def FABRIC_DIR_def)
  show f: "file_data (entries (logged es) (audit_path [])) = Some (render ref_audit_crates es)"
    by (simp add: logged_def fresh_entries entry_at_def demo_fs_def audit_path_def fabric_dir_def FABRIC_DIR_def)
  show "calm (logged es)" by (simp add: logged_def)
  show "audit_log ref_audit_crates [] (logged es) es"
    using s f assms by (simp add: audit_log_def)
qed

lemmas demo_logged = logged_ok [OF demo_log_ok]

text \<open>C12: Verification accepts every log the program has written and counts its entries, and the
  tip it reports is the last entry's sequence number plus one and hash.\<close>

theorem audit_verify_accepts:
  assumes "audit_log C root w es" "calm w" "audit_json_ok C"
  shows "fst (audit_verify C root w) = Inr \<lparr>vr_entries = of_nat (length es), vr_valid = True, vr_first_bad = None\<rparr>
    \<and> fst (audit_tip C root w) = Inr (after (0, []) es)"
proof -
  have s: "sound (fabric_dir root) w" "''..'' \<notin> set root" "list_all entry_text es" "chain C (0, []) es"
    using assms(1) by (simp_all add: audit_log_def)
  obtain r w1 where v: "audit_verify C root w = (r, w1)" by fastforce
  obtain r2 w2 where t: "audit_tip C root w = (r2, w2)" by fastforce
  note rv = read_log [OF s(1,2) v [unfolded audit_verify_def Let_def]]
  note rt = read_log [OF s(1,2) t [unfolded audit_tip_def Let_def]]
  show ?thesis
  proof (cases "file_data (entries w (audit_path root))")
    case None
    with assms(1) have "es = []" "entries w (audit_path root) = None" by (auto simp: audit_log_def)
    with rv(3) rt(3) assms(2) v t show ?thesis by simp
  next
    case (Some d)
    note f = audit_log_file [OF assms(1,3) Some]
    from rv(2) [OF assms(2) Some] rt(2) [OF assms(2) Some] v t f(2)
      verify_lines_render [OF assms(3) s(3), of "\<lparr>vr_entries = 0, vr_valid = True, vr_first_bad = None\<rparr>" "[]" 0]
      tip_lines_render [OF assms(3) s(3), of 0 "(0, [])"] s(4)
    show ?thesis by simp
  qed
qed

theorem audit_verify_accepts_witness:
  "fst (audit_verify ref_audit_crates [] (logged demo_log)) = Inr \<lparr>vr_entries = 2, vr_valid = True, vr_first_bad = None\<rparr>"
  using audit_verify_accepts [OF demo_logged(1,2) ref_audit_crates_ok(1)] by (simp add: demo_log_def)

text \<open>C13: A positive verification of a file of arbitrary bytes means that its entries form an
  unbroken chain from the start: sequence numbers count up from 0, each entry names the hash of
  the one before it and each hash is that of its entry's body.\<close>

theorem audit_verify_chain:
  assumes "sound (fabric_dir root) w" "''..'' \<notin> set root"
    and "file_data (entries w (audit_path root)) = Some d" "calm w" "audit_verify C root w = (Inr rep, w')"
  shows "vr_valid rep \<longleftrightarrow> chain C (0, []) (parsed C (text_lines d))"
proof -
  note rv = read_log(2) [OF assms(1,2) assms(5) [unfolded audit_verify_def Let_def] assms(4,3)]
  from verify_lines_result(1) [OF rv [symmetric]] show ?thesis by simp
qed

theorem audit_verify_chain_witness:
  "\<exists>rep w'. audit_verify ref_audit_crates [] (logged demo_log) = (Inr rep, w')
     \<and> (vr_valid rep \<longleftrightarrow> chain ref_audit_crates (0, []) (parsed ref_audit_crates (text_lines (render ref_audit_crates demo_log))))"
proof -
  obtain r w' where run: "audit_verify ref_audit_crates [] (logged demo_log) = (r, w')" by fastforce
  have "r = verify_lines ref_audit_crates 0 [] \<lparr>vr_entries = 0, vr_valid = True, vr_first_bad = None\<rparr>
      (text_lines (render ref_audit_crates demo_log))"
    by (rule read_log(2) [OF demo_logged(3) _ run [unfolded audit_verify_def Let_def] demo_logged(2,4)]) simp
  with verify_lines_render [OF ref_audit_crates_ok(1) demo_log_ok(2), of "\<lparr>vr_entries = 0, vr_valid = True, vr_first_bad = None\<rparr>" "[]" 0]
    demo_log_ok render_lines [OF ref_audit_crates_ok(1) demo_log_ok(2)]
  obtain rep where r: "r = Inr rep" by auto
  from audit_verify_chain [OF demo_logged(3) _ demo_logged(4,2) run [unfolded r]] run r show ?thesis by simp
qed

lemma tip_prefix_holds:
  assumes "audit_log C root w (es @ fs)" "calm w" "audit_json_ok C" "length es < 2 ^ 64"
  shows "fst (tip_is_prefix C root (of_nat (length es)) (snd (after (0, []) es)) w) = Inr ()"
proof (cases "(of_nat (length es) :: 64 word) = 0")
  case True
  then show ?thesis by (simp add: tip_is_prefix_def comp_eval)
next
  case False
  let ?len = "of_nat (length es) :: 64 word" and ?p = "audit_path root"
  have s: "sound (fabric_dir root) w" "''..'' \<notin> set root" "list_all entry_text (es @ fs)" "chain C (0, []) (es @ fs)"
    using assms(1) by (simp_all add: audit_log_def)
  have "es \<noteq> []" using False by auto
  with assms(1) have f: "file_data (entries w ?p) = Some (render C (es @ fs))" by (simp add: audit_log_def)
  have lines: "text_lines (render C (es @ fs)) = map (line_of C) (es @ fs)"
    by (rule render_lines [OF assms(3) s(3)])
  have pl: "prefix_lines C ?len (0, []) (map (line_of C) (es @ fs)) = Inr (after (0, []) es)"
    using prefix_lines_render [OF assms(3,4), of 0 "[]" es fs] s(3,4) by simp
  have a: "after (0, []) es = (?len, snd (after (0, []) es))"
    using after_seq [of C "(0, [])" es] s(4) by (simp add: prod_eq_iff)
  obtain r w' where run: "tip_is_prefix C root ?len (snd (after (0, []) es)) w = (r, w')" by fastforce
  obtain b w1 where q: "p_exists ?p w = (Inr b, w1)"
    using query_sound(4) [OF s(1)] by (metis p_exists_def prod.exhaust_sel)
  note p = slot_audit [OF s(2)]
  note qs = query_sound [OF s(1) q [unfolded p_exists_def]]
  have b: "b" using qs(4) assms(2) f
      fs_exists_clean(1) [OF sound_facts(2) [OF s(1)] sound_facts(3) [OF s(1) slot_facts(1) [OF p]]]
    by (auto simp: entries_def)
  obtain g w2 where rd: "p_read ?p w1 = (g, w2)" by fastforce
  have "calm w1" using qs(2) [of "{}"] assms(2) evolves_calm by blast
  with p_read_sound(5) [OF qs(1) slot_facts(1) [OF p] rd] f qs(3) have "g = Inr (render C (es @ fs))"
    by (simp add: entries_def)
  then have "r = (case Inr (after (0, []) es) of Inl e \<Rightarrow> Inl e | Inr st \<Rightarrow> prefix_verdict ?len (snd (after (0, []) es)) st)"
    using run q b rd lines False pl by (simp add: tip_is_prefix_def comp_eval Let_def)
  moreover have "prefix_verdict ?len (snd (after (0, []) es)) (after (0, []) es) = Inr ()"
    by (subst (2) a) (simp add: prefix_verdict_def)
  ultimately show ?thesis using run by simp
qed

text \<open>What an anchor recorded stays a prefix of the log: after any further entries the check of
  the anchored length and tip succeeds.\<close>

theorem tip_is_prefix_stays:
  assumes "audit_log C root w (es @ fs)" "calm w" "audit_json_ok C" "length es < 2 ^ 64"
  shows "fst (tip_is_prefix C root (of_nat (length es)) (snd (after (0, []) es)) w) = Inr ()"
  by (rule tip_prefix_holds [OF assms])

theorem tip_is_prefix_stays_witness:
  "fst (tip_is_prefix ref_audit_crates [] 1 (ae_hash (demo_entry [] ''init'')) (logged demo_log)) = Inr ()"
  using tip_is_prefix_stays [of ref_audit_crates "[]" "logged demo_log" "[demo_entry [] ''init'']" "tl demo_log"]
    demo_logged(1,2) ref_audit_crates_ok(1) by (simp add: demo_log_def)

lemma prefix_run:
  assumes "sound (fabric_dir root) w" "''..'' \<notin> set root" "len \<noteq> 0"
    and "tip_is_prefix C root len tip w = (Inr u, w')"
  shows "\<exists>d st. file_data (entries w (audit_path root)) = Some d
    \<and> prefix_lines C len (0, []) (text_lines d) = Inr st \<and> \<not> fst st < len \<and> snd st = tip"
proof -
  let ?p = "audit_path root"
  obtain b w1 where q: "p_exists ?p w = (Inr b, w1)"
    using query_sound(4) [OF assms(1)] by (metis p_exists_def prod.exhaust_sel)
  note qs = query_sound [OF assms(1) q [unfolded p_exists_def]]
  from assms(3,4) q obtain d w2 st where rd: "p_read ?p w1 = (Inr d, w2)"
    and pl: "prefix_lines C len (0, []) (text_lines d) = Inr st" and v: "prefix_verdict len tip st = Inr u"
    by (auto simp: tip_is_prefix_def Let_def andThen_Inr comp_eval split: if_splits)
  from p_read_sound(4) [OF qs(1) slot_facts(1) [OF slot_audit [OF assms(2)]] rd] qs(3)
  have "file_data (entries w ?p) = Some d" by (simp add: entries_def)
  with pl v show ?thesis by (auto simp: prefix_verdict_def split: prod.splits if_splits)
qed

lemma anchored_prefix:
  assumes "audit_json_ok C" "hex_ok C" "chain C (0, []) es" "list_all entry_text es"
    and "es \<noteq> []" "length es < 2 ^ 64" "sound (fabric_dir root) w" "''..'' \<notin> set root"
    and "tip_is_prefix C root (of_nat (length es)) (snd (after (0, []) es)) w = (Inr u, w')"
    and "inj_on (hash_bytes C) (body_strings C es \<union> body_strings C (parsed C (text_lines (data_at w (audit_path root)))))"
  shows "take (length es) (parsed C (text_lines (data_at w (audit_path root)))) = es"
proof -
  let ?len = "of_nat (length es) :: 64 word"
  have ul: "unat ?len = length es" using assms(6) by (simp add: unat_of_nat take_bit_nat_eq_self)
  then have "?len \<noteq> 0" using assms(5) by (metis length_0_conv unat_0)
  from prefix_run [OF assms(7,8) this assms(9)] obtain d st where
    d: "file_data (entries w (audit_path root)) = Some d"
    and pl: "prefix_lines C ?len (0, []) (text_lines d) = Inr st"
    and v: "\<not> fst st < ?len" "snd st = snd (after (0, []) es)" by blast
  let ?ps = "parsed C (text_lines d)"
  from prefix_lines_result [OF pl] obtain k where "k \<le> length ?ps \<and> chain C (0, []) (take k ?ps)
    \<and> st = after (0, []) (take k ?ps) \<and> unat (fst st) = 0 + k \<and> fst st \<le> ?len"
    unfolding fst_conv unat_0 by (metis word_zero_le)
  then have k: "k \<le> length ?ps" "chain C (0, []) (take k ?ps)"
    "st = after (0, []) (take k ?ps)" "unat (fst st) = k" "fst st \<le> ?len"
    by (blast, blast, blast, (elim conjE, simp only: add_0), blast)
  with v(1) have "fst st = ?len" by simp
  with k(4) ul have kl: "k = length es" by simp
  have "after (0, []) es = after (0, []) (take k ?ps)"
    using v(2) k(3) \<open>fst st = ?len\<close> after_seq [OF assms(3)] by (simp add: prod_eq_iff)
  moreover have "list_all entry_text (take k ?ps)"
    using parsed_text [OF assms(1), of "text_lines d"] by (auto simp: list_all_iff dest: in_set_takeD)
  moreover have "data_at w (audit_path root) = d" using d by (simp add: data_at_def)
  moreover from this have "body_strings C (take k ?ps) \<subseteq> body_strings C es \<union>
      body_strings C (parsed C (text_lines (data_at w (audit_path root))))"
    by (auto simp: body_strings_def dest: in_set_takeD)
  ultimately show ?thesis
    using chain_tip_unique [OF assms(1,2,10,3) k(2)] k(1) kl assms(4) by (simp add: min_def)
qed

text \<open>C14: The audit log is tamper evident: when the anchored length and tip of a history still check
  against whatever bytes the log file now has, then the file starts with exactly the anchored
  entries, unless two of the entry bodies at hand have the same hash.\<close>

theorem anchored_history_unaltered:
  assumes "audit_json_ok C" "hex_ok C" "chain C (0, []) es" "list_all entry_text es"
    and "es \<noteq> []" "length es < 2 ^ 64" "sound (fabric_dir root) w" "''..'' \<notin> set root"
    and "tip_is_prefix C root (of_nat (length es)) (snd (after (0, []) es)) w = (Inr u, w')"
    and "inj_on (hash_bytes C) (body_strings C es \<union> body_strings C (parsed C (text_lines (data_at w (audit_path root)))))"
  shows "take (length es) (parsed C (text_lines (data_at w (audit_path root)))) = es"
  by (rule anchored_prefix [OF assms])

theorem anchored_history_unaltered_witness:
  "take 1 (parsed ref_audit_crates (text_lines (data_at (logged [demo_entry [] ''init'']) (audit_path []))))
     = [demo_entry [] ''init'']"
proof -
  let ?e = "demo_entry [] ''init''" and ?c = ref_audit_crates
  have ok: "chain ?c (0, []) [?e]" "list_all entry_text [?e]"
    using demo_log_ok by (simp_all add: demo_log_def)
  note l = logged_ok [OF ok]
  have p: "parsed ?c (text_lines (data_at (logged [?e]) (audit_path []))) = [?e]"
    using l(4) render_lines [OF ref_audit_crates_ok(1) ok(2)]
      parsed_lines [OF ref_audit_crates_ok(1) ok(2)] by (simp add: data_at_def)
  have "fst (tip_is_prefix ?c [] (of_nat (length [?e])) (snd (after (0, []) [?e])) (logged [?e])) = Inr ()"
    using tip_prefix_holds [of ?c "[]" "logged [?e]" "[?e]" "[]"] l(1,2) ref_audit_crates_ok(1) by simp
  then obtain w' where run: "tip_is_prefix ?c [] (of_nat (length [?e])) (snd (after (0, []) [?e])) (logged [?e]) = (Inr (), w')"
    by (metis prod.collapse)
  have inj: "inj_on (hash_bytes ?c) (body_strings ?c [?e] \<union> body_strings ?c [?e])"
    by (simp add: body_strings_def)
  from anchored_history_unaltered [OF ref_audit_crates_ok(1) _ ok _ _ l(3) _ run, unfolded p] inj ref_audit_crates_ok(2)
  show ?thesis by (simp add: crates_ok_def p)
qed

end
