(* ===== verification/Manifest.thy ===== *)
theory Manifest
  imports Audit_Log
begin

text \<open>
  The manifest half of \<open>src/snapshot.rs\<close>, which needs no file system: the records, their
  serialization behind a size bound, validation and the difference of two manifests; and the
  tombstone record of \<open>src/purge.rs\<close>. Shown: what an accepted manifest guarantees to the
  code that writes its paths, and that the difference is complete, exclusive and sorted.
\<close>

section \<open>Constants and records\<close>

definition MANIFEST_VERSION :: "32 word" where "MANIFEST_VERSION = 3"
definition MIN_MANIFEST_VERSION :: "32 word" where "MIN_MANIFEST_VERSION = 2"
definition MAX_MANIFEST_FILES :: nat where "MAX_MANIFEST_FILES = 2000000"
definition MAX_MANIFEST_CHUNKS :: nat where "MAX_MANIFEST_CHUNKS = 8000000"

record file_entry =
  fe_path :: string
  fe_mode :: "32 word"
  fe_size :: "64 word"
  fe_mtime_secs :: "64 word"
  fe_mtime_nanos :: "32 word"
  fe_content :: hash
  fe_chunks :: "hash list"

record manifest =
  m_version :: "32 word"
  m_parent :: "hash option"
  m_timestamp :: "64 word"
  m_message :: string
  m_files :: "file_entry list"
  m_unstable :: "string list"
  m_actor :: "string option"

record tombstone =
  t_path :: string
  t_content :: string
  t_purge_id :: string
  t_ts :: "64 word"

section \<open>The third-party functions\<close>

text \<open>
  \<open>serde_json\<close> on these types, the chunker of the \<open>fastcdc\<close> crate (bounds and data
  to chunks, and to cut points) and the traversal of the \<open>walkdir\<close> crate: the entries below
  a directory with their relative paths, the directory itself first.
\<close>

datatype file_type = FtFile | FtDir | FtSymlink

datatype walk_item = WalkErr string | WalkItem path file_type

record snap_crates = audit_crates +
  json_manifest :: "manifest \<Rightarrow> string + bytes"
  read_manifest :: "bytes \<Rightarrow> string + manifest"
  json_tombstone :: "tombstone \<Rightarrow> string + string"
  read_tombstone :: "string \<Rightarrow> string + tombstone"
  cdc_stream :: "nat \<Rightarrow> nat \<Rightarrow> nat \<Rightarrow> bytes \<Rightarrow> bytes list"
  cdc_points :: "nat \<Rightarrow> nat \<Rightarrow> nat \<Rightarrow> bytes \<Rightarrow> (nat \<times> nat) list"
  walk_dir :: "bool \<Rightarrow> fs \<Rightarrow> path \<Rightarrow> walk_item list"

text \<open>A \<open>Hash\<close> is an array of 32 bytes and every \<open>String\<close> is UTF-8.\<close>

definition entry_typed :: "file_entry \<Rightarrow> bool" where
  "entry_typed f \<longleftrightarrow> utf8_valid (fe_path f) \<and> length (fe_content f) = 32
     \<and> list_all (\<lambda>h. length h = 32) (fe_chunks f)"

definition typed :: "manifest \<Rightarrow> bool" where
  "typed m \<longleftrightarrow> (case m_parent m of None \<Rightarrow> True | Some p \<Rightarrow> length p = 32) \<and> utf8_valid (m_message m)
     \<and> list_all entry_typed (m_files m) \<and> list_all utf8_valid (m_unstable m)
     \<and> (case m_actor m of None \<Rightarrow> True | Some a \<Rightarrow> utf8_valid a)"

definition tombstone_text :: "tombstone \<Rightarrow> bool" where
  "tombstone_text t \<longleftrightarrow> utf8_valid (t_path t) \<and> utf8_valid (t_content t) \<and> utf8_valid (t_purge_id t)"

definition manifest_json_ok :: "('z) snap_crates_scheme \<Rightarrow> bool" where
  "manifest_json_ok C \<longleftrightarrow>
     (\<forall>m. typed m \<longrightarrow> (\<exists>s. json_manifest C m = Inr s \<and> read_manifest C s = Inr m))
     \<and> (\<forall>s m. read_manifest C s = Inr m \<longrightarrow> typed m)"

definition tombstone_json_ok :: "('z) snap_crates_scheme \<Rightarrow> bool" where
  "tombstone_json_ok C \<longleftrightarrow>
     (\<forall>t. tombstone_text t \<longrightarrow> (\<exists>s. json_tombstone C t = Inr s \<and> read_tombstone C s = Inr t
        \<and> newline \<notin> set s \<and> carriage \<notin> set s \<and> utf8_valid s \<and> trim s \<noteq> [] \<and> trim s = s))
     \<and> (\<forall>s t. read_tombstone C s = Inr t \<longrightarrow> tombstone_text t)"

text \<open>Chunks are the pieces of the data in order, none longer than the maximum.\<close>

definition cdc_ok :: "('z) snap_crates_scheme \<Rightarrow> bool" where
  "cdc_ok C \<longleftrightarrow> (\<forall>lo av hi d. 0 < hi \<longrightarrow>
     concat (cdc_stream C lo av hi d) = d
     \<and> (\<forall>c \<in> set (cdc_stream C lo av hi d). c \<noteq> [] \<and> length c \<le> hi)
     \<and> cdc_stream C lo av hi d = map (\<lambda>(i, n). take n (drop i d)) (cdc_points C lo av hi d))"

fun type_of_node :: "node \<Rightarrow> file_type" where
  "type_of_node (File _ _ _) = FtFile"
| "type_of_node Dir = FtDir"
| "type_of_node (Symlink _ _) = FtSymlink"

text \<open>
  Without following links, a traversal of a directory in a well-formed tree yields each entry
  below it once, with its type.
\<close>

definition walk_ok :: "('z) snap_crates_scheme \<Rightarrow> bool" where
  "walk_ok C \<longleftrightarrow> (\<forall>b fs root. wf_fs fs \<and> clean_path fs root \<and> entry_at fs root = Some Dir \<longrightarrow>
     distinct (walk_dir C b fs root) \<and>
     (\<forall>p ft. WalkItem p ft \<in> set (walk_dir C b fs root) \<longleftrightarrow>
        (\<exists>nd. entry_at fs (root @ p) = Some nd \<and> ft = type_of_node nd))
     \<and> (\<forall>e. WalkErr e \<notin> set (walk_dir C b fs root)))"

section \<open>Chunking (\<open>src/cdc.rs\<close>)\<close>

definition chunk_bytes :: "('z) snap_crates_scheme \<Rightarrow> bytes \<Rightarrow> error + bytes list" where
  "chunk_bytes C data = Inr (map (\<lambda>(off, len). take len (drop off data)) (cdc_points C CDC_MIN CDC_AVG CDC_MAX data))"

text \<open>All that \<open>Chunker\<close> yields for a reader with the given bytes.\<close>

definition chunker :: "('z) snap_crates_scheme \<Rightarrow> bytes \<Rightarrow> bytes list" where
  "chunker C data = cdc_stream C CDC_MIN CDC_AVG CDC_MAX data"

section \<open>Serialization\<close>

definition serialize :: "('z) snap_crates_scheme \<Rightarrow> manifest \<Rightarrow> error + bytes" where
  "serialize C m = map_sum json_err id (json_manifest C m)"

definition deserialize :: "('z) snap_crates_scheme \<Rightarrow> bytes \<Rightarrow> error + manifest" where
  "deserialize C data =
     (if length data > 256 * 1024 * 1024 then Inl (Corrupt ''manifest exceeds size cap'')
      else map_sum json_err id (read_manifest C data))"

section \<open>Validation\<close>

fun validate_files :: "nat \<Rightarrow> file_entry list \<Rightarrow> error + unit" where
  "validate_files tot [] = Inr ()"
| "validate_files tot (f # fs) =
     (case sanitize_rel (fe_path f) of
        Inl e \<Rightarrow> Inl e
      | Inr _ \<Rightarrow>
          (let tot = tot + length (fe_chunks f) in
           if tot > MAX_MANIFEST_CHUNKS then Inl (Corrupt ''manifest exceeds chunk count cap'')
           else if fe_chunks f = [] \<and> fe_size f > 0 then
             Inl (Corrupt (''non-empty file with no chunks: '' @ fe_path f))
           else validate_files tot fs))"

definition validate :: "manifest \<Rightarrow> error + unit" where
  "validate m =
     (if m_version m > MANIFEST_VERSION \<or> m_version m < MIN_MANIFEST_VERSION then
        Inl (Corrupt (''unsupported manifest version '' @ dec (unat (m_version m))))
      else if length (m_files m) > MAX_MANIFEST_FILES then
        Inl (Corrupt ''manifest exceeds file count cap'')
      else validate_files 0 (m_files m))"

section \<open>Differences\<close>

text \<open>The hash map from paths to entries: the last entry of a path wins.\<close>

definition by_path :: "file_entry list \<Rightarrow> string \<Rightarrow> file_entry option" where
  "by_path fs = map_of (rev (map (\<lambda>f. (fe_path f, f)) fs))"

definition paths :: "file_entry list \<Rightarrow> string list" where
  "paths fs = remdups (map fe_path fs)"

definition diff_manifests :: "manifest \<Rightarrow> manifest \<Rightarrow> string list \<times> string list \<times> string list" where
  "diff_manifests a b =
     (let amap = by_path (m_files a); bmap = by_path (m_files b) in
      (sort (filter (\<lambda>p. bmap p = None) (paths (m_files a))),
       sort (filter (\<lambda>p. case (bmap p, amap p) of
          (Some fb, Some fa) \<Rightarrow> fe_content fb \<noteq> fe_content fa | _ \<Rightarrow> False) (paths (m_files a))),
       sort (filter (\<lambda>p. amap p = None) (paths (m_files b)))))"

section \<open>Lemmas\<close>

lemma by_path_dom: "by_path fs p \<noteq> None \<longleftrightarrow> p \<in> fe_path ` set fs"
  by (auto simp: by_path_def map_of_eq_None_iff image_comp simp flip: not_None_eq)

lemma by_path_Some: "by_path fs p = Some f \<Longrightarrow> f \<in> set fs \<and> fe_path f = p"
  by (auto simp: by_path_def dest!: map_of_SomeD)

lemma set_paths [simp]: "set (paths fs) = fe_path ` set fs"
  by (simp add: paths_def)

lemma distinct_paths [simp]: "distinct (paths fs)"
  by (simp add: paths_def)

lemma validate_files_sound:
  "validate_files n fs = Inr () \<Longrightarrow> f \<in> set fs \<Longrightarrow>
     (\<exists>q. sanitize_rel (fe_path f) = Inr q) \<and> (fe_chunks f = [] \<longrightarrow> fe_size f = 0)"
  by (induction n fs rule: validate_files.induct)
    (auto simp: Let_def word_gt_0 split: sum.splits if_splits)

lemma validate_files_count:
  "validate_files n fs = Inr () \<Longrightarrow> n \<le> MAX_MANIFEST_CHUNKS \<Longrightarrow>
   n + sum_list (map (\<lambda>f. length (fe_chunks f)) fs) \<le> MAX_MANIFEST_CHUNKS"
  by (induction n fs rule: validate_files.induct) (auto simp: Let_def add.assoc split: sum.splits if_splits)

text \<open>Conversely, nothing else is rejected.\<close>

lemma validate_files_complete:
  assumes "\<forall>f \<in> set fs. (\<exists>q. sanitize_rel (fe_path f) = Inr q) \<and> (fe_chunks f = [] \<longrightarrow> fe_size f = 0)"
    and "n + sum_list (map (\<lambda>f. length (fe_chunks f)) fs) \<le> MAX_MANIFEST_CHUNKS"
  shows "validate_files n fs = Inr ()"
  using assms by (induction n fs rule: validate_files.induct) (auto simp: Let_def add.assoc)

definition acceptable :: "manifest \<Rightarrow> bool" where
  "acceptable m \<longleftrightarrow> 2 \<le> unat (m_version m) \<and> unat (m_version m) \<le> 3
     \<and> length (m_files m) \<le> MAX_MANIFEST_FILES
     \<and> sum_list (map (\<lambda>f. length (fe_chunks f)) (m_files m)) \<le> MAX_MANIFEST_CHUNKS
     \<and> (\<forall>f \<in> set (m_files m). (\<exists>q. sanitize_rel (fe_path f) = Inr q)
          \<and> (fe_chunks f = [] \<longrightarrow> fe_size f = 0))"

lemma validate_iff: "validate m = Inr () \<longleftrightarrow> acceptable m"
proof -
  have v: "\<not> (m_version m > MANIFEST_VERSION \<or> m_version m < MIN_MANIFEST_VERSION) \<longleftrightarrow>
      2 \<le> unat (m_version m) \<and> unat (m_version m) \<le> 3"
    by (auto simp: MANIFEST_VERSION_def MIN_MANIFEST_VERSION_def word_less_nat_alt)
  have f: "validate_files 0 (m_files m) = Inr () \<longleftrightarrow>
      sum_list (map (\<lambda>f. length (fe_chunks f)) (m_files m)) \<le> MAX_MANIFEST_CHUNKS
      \<and> (\<forall>f \<in> set (m_files m). (\<exists>q. sanitize_rel (fe_path f) = Inr q) \<and> (fe_chunks f = [] \<longrightarrow> fe_size f = 0))"
    using validate_files_sound [of 0 "m_files m"] validate_files_count [of 0 "m_files m"]
      validate_files_complete [of "m_files m" 0] by auto
  show ?thesis using v f by (auto simp: validate_def acceptable_def)
qed

section \<open>Concrete instances\<close>

definition demo_file :: "string \<Rightarrow> hash \<Rightarrow> file_entry" where
  "demo_file p h = \<lparr>fe_path = p, fe_mode = 0x1A4, fe_size = 0, fe_mtime_secs = 0, fe_mtime_nanos = 0,
     fe_content = h, fe_chunks = []\<rparr>"

definition demo_manifest :: "file_entry list \<Rightarrow> manifest" where
  "demo_manifest fs = \<lparr>m_version = 3, m_parent = None, m_timestamp = 0, m_message = [], m_files = fs,
     m_unstable = [], m_actor = None\<rparr>"

definition enc_entry :: "file_entry \<Rightarrow> bytes" where
  "enc_entry f = ref_write [fe_path f, half_field (fe_mode f), word_field (fe_size f),
     word_field (fe_mtime_secs f), half_field (fe_mtime_nanos f), fe_content f, ref_write (fe_chunks f)]"

definition dec_entry :: "bytes \<Rightarrow> file_entry option" where
  "dec_entry s = (case ref_read s of
     Some [p, m, z, t, n, h, cs] \<Rightarrow> (case ref_read cs of None \<Rightarrow> None | Some cs \<Rightarrow>
       Some \<lparr>fe_path = p, fe_mode = field_half m, fe_size = field_word z, fe_mtime_secs = field_word t,
         fe_mtime_nanos = field_half n, fe_content = h, fe_chunks = cs\<rparr>)
   | _ \<Rightarrow> None)"

definition ref_json_manifest :: "manifest \<Rightarrow> string + bytes" where
  "ref_json_manifest m = Inr (ref_write [half_field (m_version m), enc_opt (m_parent m),
     word_field (m_timestamp m), m_message m, enc_list enc_entry (m_files m),
     ref_write (m_unstable m), enc_opt (m_actor m)])"

definition ref_read_manifest :: "bytes \<Rightarrow> string + manifest" where
  "ref_read_manifest s = (case ref_read s of
     Some [v, pa, t, msg, fs, us, a] \<Rightarrow>
       (case (dec_opt pa, dec_list dec_entry fs, ref_read us, dec_opt a) of
          (Some pa, Some fs, Some us, Some a) \<Rightarrow>
            (let m = \<lparr>m_version = field_half v, m_parent = pa, m_timestamp = field_word t, m_message = msg,
                      m_files = fs, m_unstable = us, m_actor = a\<rparr>
             in if typed m then Inr m else Inl ''type'')
        | _ \<Rightarrow> Inl ''syntax'')
   | _ \<Rightarrow> Inl ''syntax'')"

definition ref_json_tombstone :: "tombstone \<Rightarrow> string + string" where
  "ref_json_tombstone t = Inr (ref_write [t_path t, t_content t, t_purge_id t, word_field (t_ts t)])"

definition ref_read_tombstone :: "string \<Rightarrow> string + tombstone" where
  "ref_read_tombstone s = (case ref_read s of
     Some [p, c, i, t] \<Rightarrow>
       (let x = \<lparr>t_path = p, t_content = c, t_purge_id = i, t_ts = field_word t\<rparr>
        in if tombstone_text x then Inr x else Inl ''encoding'')
   | _ \<Rightarrow> Inl ''syntax'')"

text \<open>Fixed-size chunks, and a traversal that lists the tree.\<close>

fun ref_points :: "nat \<Rightarrow> nat \<Rightarrow> nat \<Rightarrow> (nat \<times> nat) list" where
  "ref_points hi i n = (if hi = 0 \<or> n = 0 then [] else (i, min hi n) # ref_points hi (i + hi) (n - hi))"

declare ref_points.simps [simp del]

lemma ref_points_0 [simp]: "ref_points hi i 0 = []"
  by (simp add: ref_points.simps)

definition ref_cdc_points :: "nat \<Rightarrow> nat \<Rightarrow> nat \<Rightarrow> bytes \<Rightarrow> (nat \<times> nat) list" where
  "ref_cdc_points lo av hi d = ref_points hi 0 (length d)"

definition ref_cdc_stream :: "nat \<Rightarrow> nat \<Rightarrow> nat \<Rightarrow> bytes \<Rightarrow> bytes list" where
  "ref_cdc_stream lo av hi d = map (\<lambda>(i, n). take n (drop i d)) (ref_cdc_points lo av hi d)"

definition ref_walk_dir :: "bool \<Rightarrow> fs \<Rightarrow> path \<Rightarrow> walk_item list" where
  "ref_walk_dir b fs root =
     WalkItem [] FtDir #
     map (\<lambda>p. WalkItem (drop (length root) p) (case entry_at fs p of Some nd \<Rightarrow> type_of_node nd | None \<Rightarrow> FtFile))
       (filter (\<lambda>p. take (length root) p = root \<and> p \<noteq> root \<and> p \<noteq> []) (remdups (map fst fs)))"

definition ref_snap_crates :: snap_crates where
  "ref_snap_crates = audit_crates.extend ref_audit_crates
     \<lparr>json_manifest = ref_json_manifest, read_manifest = ref_read_manifest,
      json_tombstone = ref_json_tombstone, read_tombstone = ref_read_tombstone,
      cdc_stream = ref_cdc_stream, cdc_points = ref_cdc_points, walk_dir = ref_walk_dir\<rparr>"

lemma dec_enc_entry: "dec_entry (enc_entry f) = Some f"
  by (simp add: dec_entry_def enc_entry_def ref_read_write)

lemma ref_manifest_ok:
  assumes "json_manifest C = ref_json_manifest" "read_manifest C = ref_read_manifest"
  shows "manifest_json_ok C"
proof -
  have "ref_read_manifest (ref_write [half_field (m_version m), enc_opt (m_parent m),
     word_field (m_timestamp m), m_message m, enc_list enc_entry (m_files m),
     ref_write (m_unstable m), enc_opt (m_actor m)]) = Inr m" if "typed m" for m
    using that by (cases m) (simp add: ref_read_manifest_def ref_read_write dec_enc_list dec_enc_entry Let_def)
  moreover have "typed m" if "ref_read_manifest s = Inr m" for s m
    using that by (auto simp: ref_read_manifest_def Let_def split: option.splits list.splits if_splits)
  ultimately show ?thesis by (simp add: manifest_json_ok_def assms ref_json_manifest_def)
qed

lemma ref_tombstone_ok:
  assumes "json_tombstone C = ref_json_tombstone" "read_tombstone C = ref_read_tombstone"
  shows "tombstone_json_ok C"
proof -
  have "ref_read_tombstone (ref_write [t_path t, t_content t, t_purge_id t, word_field (t_ts t)]) = Inr t"
    if "tombstone_text t" for t
    using that by (simp add: ref_read_tombstone_def ref_read_write Let_def tombstone_text_def)
  moreover have "tombstone_text t" if "ref_read_tombstone s = Inr t" for s t
    using that by (auto simp: ref_read_tombstone_def Let_def split: option.splits list.splits if_splits)
  moreover have "ref_write fs \<noteq> []" for fs by (simp add: ref_write_def)
  ultimately show ?thesis
    by (auto simp: tombstone_json_ok_def assms ref_json_tombstone_def ref_write_line)
qed

lemma ref_points_pieces:
  "0 < hi \<Longrightarrow> i + n = length d \<Longrightarrow>
     concat (map (\<lambda>(i, n). take n (drop i d)) (ref_points hi i n)) = drop i d
     \<and> (\<forall>c \<in> set (map (\<lambda>(i, n). take n (drop i d)) (ref_points hi i n)). c \<noteq> [] \<and> length c \<le> hi)"
proof (induction hi i n rule: ref_points.induct)
  case (1 hi i n)
  show ?case
  proof (cases "n = 0")
    case True
    with 1 show ?thesis by (simp add: ref_points.simps [of hi i n])
  next
    case False
    show ?thesis
    proof (cases "n \<le> hi")
      case True
      with False 1 show ?thesis by (simp add: ref_points.simps [of hi i n])
    next
      case 2: False
      then have IH: "concat (map (\<lambda>(i, n). take n (drop i d)) (ref_points hi (i + hi) (n - hi))) = drop (i + hi) d
        \<and> (\<forall>c \<in> set (map (\<lambda>(i, n). take n (drop i d)) (ref_points hi (i + hi) (n - hi))). c \<noteq> [] \<and> length c \<le> hi)"
        using 1 False by simp
      have "take hi (drop i d) @ drop (i + hi) d = drop i d"
        by (metis append_take_drop_id drop_drop add.commute)
      moreover have "take hi (drop i d) \<noteq> []" "length (take hi (drop i d)) \<le> hi" using 1 2 by auto
      ultimately show ?thesis using IH False 2 1(2) by (simp add: ref_points.simps [of hi i n] min_def)
    qed
  qed
qed

lemma ref_cdc_ok:
  assumes "cdc_stream C = ref_cdc_stream" "cdc_points C = ref_cdc_points"
  shows "cdc_ok C"
  unfolding cdc_ok_def assms ref_cdc_stream_def ref_cdc_points_def
proof (intro allI impI)
  fix hi :: nat and d :: bytes
  assume "0 < hi"
  then show "concat (map (\<lambda>(i, n). take n (drop i d)) (ref_points hi 0 (length d))) = d
    \<and> (\<forall>c \<in> set (map (\<lambda>(i, n). take n (drop i d)) (ref_points hi 0 (length d))). c \<noteq> [] \<and> length c \<le> hi)
    \<and> map (\<lambda>(i, n). take n (drop i d)) (ref_points hi 0 (length d))
      = map (\<lambda>(i, n). take n (drop i d)) (ref_points hi 0 (length d))"
    using ref_points_pieces [of hi 0 "length d" d] by simp
qed

lemma ref_walk_ok:
  assumes "walk_dir C = ref_walk_dir"
  shows "walk_ok C"
  unfolding walk_ok_def assms
proof (intro allI impI)
  fix b and fs :: fs and root
  assume a: "wf_fs fs \<and> clean_path fs root \<and> entry_at fs root = Some Dir"
  define ps where "ps = filter (\<lambda>p. take (length root) p = root \<and> p \<noteq> root \<and> p \<noteq> []) (remdups (map fst fs))"
  let ?f = "\<lambda>p. WalkItem (drop (length root) p) (case entry_at fs p of Some nd \<Rightarrow> type_of_node nd | None \<Rightarrow> FtFile)"
  have walk: "ref_walk_dir b fs root = WalkItem [] FtDir # map ?f ps" by (simp add: ref_walk_dir_def ps_def)
  have mem: "root @ q \<in> set ps \<longleftrightarrow> q \<noteq> [] \<and> entry_at fs (root @ q) \<noteq> None" for q
    using map_of_eq_None_iff [of fs "root @ q"] by (auto simp: ps_def entry_at_def)
  have root: "\<exists>q. p = root @ q" if "p \<in> set ps" for p
  proof
    show "p = root @ drop (length root) p"
      using that append_take_drop_id [of "length root" p] by (simp add: ps_def)
  qed
  have inj: "inj_on ?f (set ps)"
  proof (rule inj_onI)
    fix p p' assume "p \<in> set ps" "p' \<in> set ps" and e: "?f p = ?f p'"
    then obtain q q' where q: "p = root @ q" "p' = root @ q'" using root by blast
    from e have "q = q'" by (simp add: q)
    then show "p = p'" by (simp add: q)
  qed
  have iff: "WalkItem p ft \<in> set (ref_walk_dir b fs root) \<longleftrightarrow>
      (\<exists>nd. entry_at fs (root @ p) = Some nd \<and> ft = type_of_node nd)" for p ft
  proof (cases "p = []")
    case True
    have "WalkItem [] ft \<notin> ?f ` set ps" using root mem by fastforce
    with a True show ?thesis by (auto simp: walk)
  next
    case False
    have "WalkItem p ft \<in> set (ref_walk_dir b fs root) \<longleftrightarrow>
        root @ p \<in> set ps \<and> ft = (case entry_at fs (root @ p) of Some nd \<Rightarrow> type_of_node nd | None \<Rightarrow> FtFile)"
    proof
      assume "WalkItem p ft \<in> set (ref_walk_dir b fs root)"
      then obtain p' where p': "p' \<in> set ps" "WalkItem p ft = ?f p'" using False by (auto simp: walk)
      then obtain q where "p' = root @ q" using root by blast
      with p' show "root @ p \<in> set ps \<and> ft = (case entry_at fs (root @ p) of Some nd \<Rightarrow> type_of_node nd | None \<Rightarrow> FtFile)"
        by simp
    next
      assume r: "root @ p \<in> set ps \<and> ft = (case entry_at fs (root @ p) of Some nd \<Rightarrow> type_of_node nd | None \<Rightarrow> FtFile)"
      then have "WalkItem p ft = ?f (root @ p)" by simp
      with r have "WalkItem p ft \<in> ?f ` set ps" by blast
      then show "WalkItem p ft \<in> set (ref_walk_dir b fs root)" unfolding walk by (metis list.set_intros(2) set_map)
    qed
    with mem [of p] False show ?thesis by auto
  qed
  have "distinct ps" by (simp add: ps_def)
  moreover have "WalkItem [] FtDir \<notin> ?f ` set ps" using root mem by fastforce
  ultimately have "distinct (ref_walk_dir b fs root)" using inj by (simp add: walk distinct_map)
  then show "distinct (ref_walk_dir b fs root) \<and>
     (\<forall>p ft. WalkItem p ft \<in> set (ref_walk_dir b fs root) \<longleftrightarrow>
        (\<exists>nd. entry_at fs (root @ p) = Some nd \<and> ft = type_of_node nd))
     \<and> (\<forall>e. WalkErr e \<notin> set (ref_walk_dir b fs root))" using iff by (auto simp: walk)
qed

text \<open>The concrete store of \<open>Store\<close>, under these crates.\<close>

definition snap_sel :: "snap_crates \<times> path" where
  "snap_sel = (ref_snap_crates, [])"

lemma snap_sel_simps [simp]: "fst snap_sel = ref_snap_crates" "snd snap_sel = []"
  by (simp_all add: snap_sel_def)

lemma ref_snap_facts:
  "crates_ok ref_snap_crates" "manifest_json_ok ref_snap_crates" "tombstone_json_ok ref_snap_crates"
  "cdc_ok ref_snap_crates" "walk_ok ref_snap_crates" "hash_hex ref_snap_crates = ref_hex_encode" "hash_bytes ref_snap_crates = ref_blake3"
  "zstd_encode ref_snap_crates = Inr"
proof -
  have e: "blake3 ref_snap_crates = blake3 ref_crates" "hex_encode ref_snap_crates = hex_encode ref_crates"
    "hex_decode ref_snap_crates = hex_decode ref_crates" "zstd_encode ref_snap_crates = zstd_encode ref_crates"
    "zstd_read ref_snap_crates = zstd_read ref_crates"
    by (simp_all add: ref_snap_crates_def ref_audit_crates_def ref_crates_def crates.defs audit_crates.defs)
  then show "crates_ok ref_snap_crates"
    using ref_crates_ok by (simp add: crates_ok_def blake3_ok_def hex_ok_def zstd_ok_def)
  show "hash_hex ref_snap_crates = ref_hex_encode" "hash_bytes ref_snap_crates = ref_blake3"
    "zstd_encode ref_snap_crates = Inr"
    by (simp_all add: fun_eq_iff hash_hex_def hash_bytes_def e) (simp_all add: ref_crates_def)
  show "manifest_json_ok ref_snap_crates" "tombstone_json_ok ref_snap_crates" "cdc_ok ref_snap_crates"
      "walk_ok ref_snap_crates"
    by (simp_all add: ref_manifest_ok ref_tombstone_ok ref_cdc_ok ref_walk_ok ref_snap_crates_def audit_crates.defs)
qed

lemma snap_base: "store_base snap_sel demo"
  using demo_sound ref_snap_facts(1) by (simp add: store_base_def home_def)

lemma snap_ok: "objects_ok snap_sel demo" "manifests_ok snap_sel demo"
  using snap_base demo_no_blob [of snap_sel] by (simp_all add: objects_ok_def manifests_ok_def)

section \<open>Properties\<close>

lemma empty_notin: "xs = [] \<longleftrightarrow> (\<forall>x. x \<notin> set xs)"
  by (cases xs) auto

text \<open>What a path has to be like to be rejected, and to be accepted, by its text alone.\<close>

definition unsafe_text :: "string \<Rightarrow> bool" where
  "unsafe_text p \<longleftrightarrow> p = [] \<or> length p > 1024 \<or> CHR 0x00 \<in> set p \<or> backslash \<in> set p \<or> hd p = slash
     \<or> ''..'' \<in> set (split_on slash p)"

definition joined_names :: "string \<Rightarrow> string list \<Rightarrow> bool" where
  "joined_names p ws \<longleftrightarrow> p = join_with [slash] ws \<and> ws \<noteq> [] \<and> list_all plain_name ws \<and> length p \<le> 1024 \<and> backslash \<notin> set p"

lemma sanitize_rejects:
  assumes "unsafe_text p"
  shows "sanitize_rel p = Inl (UnsafePath p)"
proof (cases "p = [] \<or> length p > 1024 \<or> CHR 0x00 \<in> set p \<or> backslash \<in> set p \<or> is_absolute p")
  case True
  then show ?thesis by (auto simp: sanitize_rel_def)
next
  case False
  then have "hd p \<noteq> slash" by (cases p) (auto simp: is_absolute_def)
  with False assms have "''..'' \<in> set (split_on slash p)" by (simp add: unsafe_text_def)
  then have "ParentDir \<in> set (components p)" by (force simp: components_def Let_def)
  then have "\<not> list_all is_normal (components p)" unfolding list_all_iff by (metis is_normal.simps(4))
  then show ?thesis by (simp add: sanitize_rel_def)
qed

lemma split_on_first: "d \<notin> set w \<Longrightarrow> split_on d (w @ d # s) = w # split_on d s"
  by (induction w) auto

lemma split_on_none: "d \<notin> set w \<Longrightarrow> split_on d w = [w]"
  by (induction w) auto

lemma split_on_join: "ws \<noteq> [] \<Longrightarrow> \<forall>w \<in> set ws. d \<notin> set w \<Longrightarrow> split_on d (join_with [d] ws) = ws"
  by (induction "[d]" ws rule: join_with.induct) (simp_all add: split_on_none split_on_first)

lemma set_join: "set (join_with [d] ws) \<subseteq> insert d (\<Union>w \<in> set ws. set w)"
  by (induction "[d]" ws rule: join_with.induct) auto

lemma sanitize_accepts:
  assumes "joined_names p ws"
  shows "sanitize_rel p = Inr ws"
proof -
  note a = assms [unfolded joined_names_def]
  have w: "x \<noteq> [] \<and> x \<noteq> ''.'' \<and> x \<noteq> ''..'' \<and> slash \<notin> set x \<and> CHR 0x00 \<notin> set x" if "x \<in> set ws" for x
    using a that by (auto simp: list_all_iff plain_name_def)
  then have sp: "split_on slash p = ws" using a split_on_join [of ws slash] by blast
  have "slash \<noteq> CHR 0x00" by simp
  then have nul: "CHR 0x00 \<notin> set p" using a w set_join [of slash ws] by blast
  have h: "hd ws \<in> set ws" using a by simp
  have abs: "\<not> is_absolute p" "p \<noteq> []"
    using sp w [OF h] by (cases p; auto simp: is_absolute_def split: if_splits)+
  have "filter (\<lambda>x. x \<noteq> [] \<and> x \<noteq> ''.'') ws = ws" using w by (simp add: filter_id_conv)
  then have c: "components p = map component_of ws"
    using abs w [OF h] by (simp add: components_def sp del: component_of.simps)
  have n: "component_of x = Normal x" if "x \<in> set ws" for x using w [OF that] by simp
  have "list_all is_normal (components p)" unfolding c by (simp add: list_all_iff n del: component_of.simps)
  moreover have "map component_str (components p) = ws"
    unfolding c by (simp add: map_idI n del: component_of.simps)
  moreover have "length p \<le> 1024" "backslash \<notin> set p" using a by blast+
  ultimately show ?thesis using abs nul by (auto simp: sanitize_rel_def)
qed

text \<open>C15: Validation, both ways. What it accepts has version 2 or 3, at most 2000000 files and 8000000
  chunks, no content without chunks, and only safe paths: not empty, at most 1024 bytes, no NUL
  and no backslash, not absolute, no component \<open>..\<close>, and read as a non-empty sequence of plain names,
  so that joining one to a directory stays below it. And it accepts every manifest within these
  limits whose paths are plain names joined by \<open>/\<close>, each of which then reads as just these names.
  (Of the spellings between the two, as with a doubled \<open>/\<close>, nothing is said.)\<close>

theorem validate_exact:
  defines "limits m \<equiv> (m_version m = 2 \<or> m_version m = 3) \<and> length (m_files m) \<le> 2000000
      \<and> sum_list (map (\<lambda>f. length (fe_chunks f)) (m_files m)) \<le> 8000000
      \<and> (\<forall>f \<in> set (m_files m). fe_chunks f = [] \<longrightarrow> fe_size f = 0)"
  shows "(validate m = Inr () \<longrightarrow> limits m \<and> (\<forall>f \<in> set (m_files m). \<not> unsafe_text (fe_path f)
        \<and> (\<exists>q. sanitize_rel (fe_path f) = Inr q \<and> q \<noteq> [] \<and> list_all plain_name q)))
    \<and> (limits m \<and> (\<forall>f \<in> set (m_files m). \<exists>ws. joined_names (fe_path f) ws) \<longrightarrow> validate m = Inr ())
    \<and> (\<forall>p ws. joined_names p ws \<longrightarrow> sanitize_rel p = Inr ws)"
proof -
  have ver: "m_version m = 2 \<or> m_version m = 3 \<longleftrightarrow> 2 \<le> unat (m_version m) \<and> unat (m_version m) \<le> 3"
  proof -
    have "unat (m_version m) = 2 \<longleftrightarrow> m_version m = 2" "unat (m_version m) = 3 \<longleftrightarrow> m_version m = 3"
      using word_eq_iff_unsigned [of "m_version m" 2, where 'a = nat] word_eq_iff_unsigned [of "m_version m" 3, where 'a = nat] by simp_all
    then show ?thesis by linarith
  qed
  have split: "acceptable m \<longleftrightarrow> limits m \<and> (\<forall>f \<in> set (m_files m). \<exists>q. sanitize_rel (fe_path f) = Inr q)"
    unfolding acceptable_def limits_def ver MAX_MANIFEST_FILES_def MAX_MANIFEST_CHUNKS_def by blast
  have safe: "\<not> unsafe_text p \<and> q \<noteq> [] \<and> list_all plain_name q" if "sanitize_rel p = Inr q" for p q
    using sanitize_rel_plain [OF that] sanitize_rejects [of p] that by auto
  show ?thesis unfolding validate_iff split using safe sanitize_accepts by meson
qed

theorem validate_exact_witness:
  "validate (demo_manifest [demo_file ''a/b'' []]) = Inr () \<and> sanitize_rel ''a/b'' = Inr [''a'', ''b'']
   \<and> validate (demo_manifest [demo_file ''../b'' []]) \<noteq> Inr ()"
proof -
  have j: "joined_names ''a/b'' [''a'', ''b'']" by (simp add: joined_names_def plain_name_def)
  have u: "unsafe_text ''../b''" by (simp add: unsafe_text_def)
  show ?thesis
    using validate_exact [of "demo_manifest [demo_file ''a/b'' []]"] validate_exact [of "demo_manifest [demo_file ''../b'' []]"] j u
    by (auto simp: demo_manifest_def demo_file_def MAX_MANIFEST_FILES_def MAX_MANIFEST_CHUNKS_def)
qed

text \<open>C16: The difference of two manifests is complete and exclusive: a path is reported as added,
  modified or deleted exactly when it is only in the newer, in both with different content, or
  only in the older; each list is sorted without repetition, and all are empty exactly when the
  two record the same paths with the same content.\<close>

theorem diff_manifests_complete:
  assumes "diff_manifests a b = (ad, mo, de)"
  defines "A \<equiv> by_path (m_files a)" and "B \<equiv> by_path (m_files b)"
  shows "(\<forall>p. p \<in> set ad \<longleftrightarrow> A p \<noteq> None \<and> B p = None)
    \<and> (\<forall>p. p \<in> set de \<longleftrightarrow> A p = None \<and> B p \<noteq> None)
    \<and> (\<forall>p. p \<in> set mo \<longleftrightarrow> (\<exists>x y. A p = Some x \<and> B p = Some y \<and> fe_content x \<noteq> fe_content y))
    \<and> sorted ad \<and> sorted mo \<and> sorted de \<and> distinct ad \<and> distinct mo \<and> distinct de
    \<and> (ad = [] \<and> mo = [] \<and> de = [] \<longleftrightarrow> map_option fe_content \<circ> A = map_option fe_content \<circ> B)"
proof -
  have dA: "p \<in> fe_path ` set (m_files a) \<longleftrightarrow> A p \<noteq> None" for p
    unfolding A_def by (rule by_path_dom [symmetric])
  have dB: "p \<in> fe_path ` set (m_files b) \<longleftrightarrow> B p \<noteq> None" for p
    unfolding B_def by (rule by_path_dom [symmetric])
  have e: "ad = sort (filter (\<lambda>p. B p = None) (paths (m_files a)))"
    "mo = sort (filter (\<lambda>p. case (B p, A p) of
        (Some fb, Some fa) \<Rightarrow> fe_content fb \<noteq> fe_content fa | _ \<Rightarrow> False) (paths (m_files a)))"
    "de = sort (filter (\<lambda>p. A p = None) (paths (m_files b)))"
    using assms(1) by (simp_all add: diff_manifests_def A_def B_def Let_def)
  have ad: "p \<in> set ad \<longleftrightarrow> A p \<noteq> None \<and> B p = None" for p
    unfolding e(1) using dA by auto
  have de: "p \<in> set de \<longleftrightarrow> A p = None \<and> B p \<noteq> None" for p
    unfolding e(3) using dB by auto
  have mo: "p \<in> set mo \<longleftrightarrow> (\<exists>x y. A p = Some x \<and> B p = Some y \<and> fe_content x \<noteq> fe_content y)" for p
    unfolding e(2) using dA [of p] by (auto split: option.splits)
  have "ad = [] \<and> mo = [] \<and> de = [] \<longleftrightarrow> (\<forall>p. p \<notin> set ad \<and> p \<notin> set mo \<and> p \<notin> set de)"
    using empty_notin [of ad] empty_notin [of mo] empty_notin [of de] by blast
  also have "\<dots> \<longleftrightarrow> (\<forall>p. map_option fe_content (A p) = map_option fe_content (B p))"
  proof (intro iff_allI)
    fix p
    show "p \<notin> set ad \<and> p \<notin> set mo \<and> p \<notin> set de \<longleftrightarrow> map_option fe_content (A p) = map_option fe_content (B p)"
      unfolding ad mo de by (cases "A p"; cases "B p") auto
  qed
  finally have empty: "ad = [] \<and> mo = [] \<and> de = [] \<longleftrightarrow> map_option fe_content \<circ> A = map_option fe_content \<circ> B"
    by (simp add: fun_eq_iff)
  have "sorted ad" "sorted mo" "sorted de" "distinct ad" "distinct mo" "distinct de"
    unfolding e by simp_all
  with ad mo de empty show ?thesis by blast
qed

theorem diff_manifests_complete_witness:
  "\<exists>ad mo de. diff_manifests (demo_manifest [demo_file ''x'' [], demo_file ''y'' ''1''])
       (demo_manifest [demo_file ''y'' ''2'', demo_file ''z'' []]) = (ad, mo, de)
     \<and> ''x'' \<in> set ad \<and> ''y'' \<in> set mo \<and> ''z'' \<in> set de"
proof -
  obtain ad mo de where d: "diff_manifests (demo_manifest [demo_file ''x'' [], demo_file ''y'' ''1''])
       (demo_manifest [demo_file ''y'' ''2'', demo_file ''z'' []]) = (ad, mo, de)"
    by (metis prod_cases3)
  have "(\<forall>p. p \<in> set ad \<longleftrightarrow> by_path [demo_file ''x'' [], demo_file ''y'' ''1''] p \<noteq> None
        \<and> by_path [demo_file ''y'' ''2'', demo_file ''z'' []] p = None)
    \<and> (\<forall>p. p \<in> set de \<longleftrightarrow> by_path [demo_file ''x'' [], demo_file ''y'' ''1''] p = None
        \<and> by_path [demo_file ''y'' ''2'', demo_file ''z'' []] p \<noteq> None)
    \<and> (\<forall>p. p \<in> set mo \<longleftrightarrow> (\<exists>x y. by_path [demo_file ''x'' [], demo_file ''y'' ''1''] p = Some x
        \<and> by_path [demo_file ''y'' ''2'', demo_file ''z'' []] p = Some y \<and> fe_content x \<noteq> fe_content y))"
    using diff_manifests_complete [OF d] unfolding demo_manifest_def manifest.simps by blast
  then have "''x'' \<in> set ad" "''y'' \<in> set mo" "''z'' \<in> set de"
    by (simp_all add: by_path_def demo_file_def)
  with d show ?thesis by blast
qed

text \<open>A manifest survives serialization: what is written can be read back and gives the same
  manifest, as long as it is within the size cap.\<close>

lemma serialize_round_trip:
  assumes "manifest_json_ok C" "typed m"
  shows "\<exists>s. serialize C m = Inr s \<and> (length s \<le> 256 * 1024 * 1024 \<longrightarrow> deserialize C s = Inr m)"
  using assms by (force simp: serialize_def deserialize_def manifest_json_ok_def)

lemma serialize_round_trip_example:
  "\<exists>s. serialize ref_snap_crates (demo_manifest []) = Inr s
     \<and> (length s \<le> 256 * 1024 * 1024 \<longrightarrow> deserialize ref_snap_crates s = Inr (demo_manifest []))"
proof -
  have "manifest_json_ok ref_snap_crates"
    by (rule ref_manifest_ok) (simp_all add: ref_snap_crates_def audit_crates.extend_def)
  moreover have "typed (demo_manifest [])" by (simp add: typed_def demo_manifest_def)
  ultimately show ?thesis by (rule serialize_round_trip)
qed

end
