(* ===== verification/Snapshot.thy ===== *)
theory Snapshot
  imports Tombstones
begin

text \<open>
  The part of \<open>src/snapshot.rs\<close> that works on the store and the worktree: loading and
  resolving snapshots, capturing files in chunks with the quiescence check, creating a
  snapshot from a traversal, and listing the history.
\<close>

section \<open>Loading\<close>

definition load :: "('z) snap_crates_scheme \<Rightarrow> path \<Rightarrow> hash \<Rightarrow> manifest io" where
  "load C root id0 =
     andThen (get_manifest_bytes C root id0) (\<lambda>b.
     andThen (lift (deserialize C b)) (\<lambda>m.
     andThen (lift (validate m)) (\<lambda>_.
     ok m)))"

section \<open>Resolving a reference\<close>

text \<open>The loop over \<open>manifests/\<close>, with what to do for each full name.\<close>

definition for_manifest_names ::
    "path \<Rightarrow> ('s \<Rightarrow> string \<Rightarrow> 's io) \<Rightarrow> 's \<Rightarrow> 's io" where
  "for_manifest_names root f s =
     (let mdir = fabric_dir root @ [''manifests''] in
      andThen (p_is_dir mdir) (\<lambda>isdir.
      if \<not> isdir then ok s
      else
        andThen (p_read_dir mdir) (\<lambda>fans.
        foldIO (\<lambda>s fan.
          andThen (p_symlink_metadata (mdir @ [fan])) (\<lambda>ft.
          if ft \<noteq> Dir then ok s
          else
            andThen (p_read_dir (mdir @ [fan])) (\<lambda>names.
            foldIO (\<lambda>s name. f s (fan @ name)) s names))) s fans)))"

definition resolve_hit :: "('z) crates_scheme \<Rightarrow> string \<Rightarrow> hash list \<Rightarrow> string \<Rightarrow> hash list io" where
  "resolve_hit C pre hits full =
     (if take (length pre) full = pre \<and> is_hash_name full then
        andThen (lift (parse_hash C full)) (\<lambda>h. ok (hits @ [h]))
      else ok hits)"

definition quoted :: "string \<Rightarrow> string" where
  "quoted s = CHR 0x27 # s @ [CHR 0x27]"

definition resolve_ref :: "('z) crates_scheme \<Rightarrow> path \<Rightarrow> string \<Rightarrow> hash io" where
  "resolve_ref C root reference =
     (if reference = ''head'' \<or> reference = ''HEAD'' then
        andThen (store_head C root) (\<lambda>h.
        case h of None \<Rightarrow> fail (Corrupt ''no HEAD snapshot'') | Some k \<Rightarrow> ok k)
      else if length reference = 64 then lift (parse_hash C reference)
      else
        let pre = map lower_char reference in
        if length pre < 4 \<or> \<not> list_all is_hexdigit pre then fail (BadHash reference)
        else
          andThen (for_manifest_names root (resolve_hit C pre) []) (\<lambda>hits.
          case hits of
            [] \<Rightarrow> fail (BadHash (''no snapshot matches '' @ quoted reference))
          | [h] \<Rightarrow> ok h
          | _ \<Rightarrow> fail (BadHash (''ambiguous prefix '' @ quoted reference))))"

section \<open>What is left out\<close>

text \<open>Names are UTF-8, so \<open>to_string_lossy\<close> is the identity.\<close>

definition excluded :: "path \<Rightarrow> bool" where
  "excluded rel \<longleftrightarrow> list_ex (\<lambda>c. c = FABRIC_DIR \<or> c = ''.git'' \<or> c = ''.DS_Store'') rel"

definition rel_string :: "path \<Rightarrow> string" where
  "rel_string rel = replace_char backslash [slash] (join_with [slash] rel)"

definition parse_patterns :: "string \<Rightarrow> string list" where
  "parse_patterns s = filter (\<lambda>l. l \<noteq> [] \<and> take 1 l \<noteq> ''#'') (map trim (text_lines s))"

definition ignore_patterns :: "path \<Rightarrow> string list io" where
  "ignore_patterns root =
     andThen (attempt (p_read_to_string (root @ [''.fabricignore'']))) (\<lambda>r.
     ok (parse_patterns (case r of Inr s \<Rightarrow> s | Inl _ \<Rightarrow> [])))"

definition ignored :: "string list \<Rightarrow> string \<Rightarrow> bool" where
  "ignored patterns rel_str \<longleftrightarrow> list_ex (\<lambda>p. contains_str p rel_str) patterns"

section \<open>Capturing one file\<close>

definition chunk_file :: "('z) snap_crates_scheme \<Rightarrow> path \<Rightarrow> path \<Rightarrow> (hash \<times> hash list \<times> 64 word) io" where
  "chunk_file C root p =
     andThen (p_read_nofollow p) (\<lambda>d.
     andThen (foldIO (\<lambda>(fed, chunks, size) data.
         andThen (put_object C root data) (\<lambda>h.
         ok (fed @ data, chunks @ [h], size + of_nat (length data))))
       ([], [], 0) (chunker C d)) (\<lambda>(fed, chunks, size).
     ok (blake3 C fed, chunks, size)))"

definition QUIESCE_RETRIES :: nat where "QUIESCE_RETRIES = 3"

text \<open>Seconds and nanoseconds of a modification time, none before the epoch.\<close>

definition since_epoch :: "int \<Rightarrow> (64 word \<times> 32 word) option" where
  "since_epoch t = (if t < 0 then None else Some (word_of_int (t div 1000000000), word_of_int (t mod 1000000000)))"

fun node_mtime :: "node \<Rightarrow> int" where
  "node_mtime (File _ _ t) = t"
| "node_mtime _ = 0"

fun node_len :: "node \<Rightarrow> nat" where
  "node_len (File d _ _) = length d"
| "node_len Dir = 0"
| "node_len (Symlink _ t) = length (join_with [slash] t)"

definition file_stamp :: "node \<Rightarrow> 64 word \<times> 64 word" where
  "file_stamp nd =
     (of_nat (node_len nd),
      case since_epoch (node_mtime nd) of None \<Rightarrow> 0 | Some (s, n) \<Rightarrow> s * 1000000000 + ucast n)"

text \<open>\<open>n\<close> is the number of attempts left after this one.\<close>

primrec capture_loop ::
    "nat \<Rightarrow> ('z) snap_crates_scheme \<Rightarrow> path \<Rightarrow> path \<Rightarrow> string list \<Rightarrow> string
       \<Rightarrow> ((hash \<times> hash list \<times> 64 word) \<times> string list) io" where
  "capture_loop 0 C root p unstable rel_str =
     andThen (p_symlink_metadata p) (\<lambda>m0.
     andThen (chunk_file C root p) (\<lambda>captured.
     andThen (p_symlink_metadata p) (\<lambda>m1.
     ok (captured, if file_stamp m0 \<noteq> file_stamp m1 then unstable @ [rel_str] else unstable))))"
| "capture_loop (Suc n) C root p unstable rel_str =
     andThen (p_symlink_metadata p) (\<lambda>m0.
     andThen (chunk_file C root p) (\<lambda>captured.
     andThen (p_symlink_metadata p) (\<lambda>m1.
     if file_stamp m0 = file_stamp m1 then ok (captured, unstable)
     else capture_loop n C root p unstable rel_str)))"

definition chunk_file_stable ::
    "('z) snap_crates_scheme \<Rightarrow> path \<Rightarrow> path \<Rightarrow> string list \<Rightarrow> string
       \<Rightarrow> ((hash \<times> hash list \<times> 64 word) \<times> string list) io" where
  "chunk_file_stable C root p unstable rel_str = capture_loop QUIESCE_RETRIES C root p unstable rel_str"

section \<open>Creating a snapshot\<close>

text \<open>The traversal, taken at one moment.\<close>

definition p_walk :: "('z) snap_crates_scheme \<Rightarrow> bool \<Rightarrow> path \<Rightarrow> walk_item list io" where
  "p_walk C sorted_names root w = (let w1 = tick w in (Inr (walk_dir C sorted_names (wfs w1) root), w1))"

definition env_actor :: "string option io" where
  "env_actor = gets (\<lambda>w. case wenv w ''RESPAWN_ACTOR'' of
     Some s \<Rightarrow> if trim s \<noteq> [] then Some s else None | None \<Rightarrow> None)"

fun unix_mode :: "node \<Rightarrow> 32 word" where
  "unix_mode (File _ m _) = and m 0x1FF"
| "unix_mode _ = 0x1FF"

type_synonym scan_state = "file_entry list \<times> string list \<times> string list"

definition snap_entry ::
    "('z) snap_crates_scheme \<Rightarrow> path \<Rightarrow> path \<Rightarrow> string list \<Rightarrow> tombstone list
       \<Rightarrow> scan_state \<Rightarrow> walk_item \<Rightarrow> scan_state io" where
  "snap_entry C root scan_root patterns tombs st item =
     (case (st, item) of
        (_, WalkErr _) \<Rightarrow> ok st
      | ((files, unstable, purged), WalkItem rel ft) \<Rightarrow>
          (let rel_str = rel_string rel; p = scan_root @ rel in
           if ft \<noteq> FtFile then ok st
           else if excluded rel then ok st
           else if ignored patterns rel_str then ok st
           else if list_ex (\<lambda>t. t_path t = rel_str) tombs then ok (files, unstable, purged @ [rel_str])
           else
             andThen (lift (sanitize_rel rel_str)) (\<lambda>_.
             andThen (p_symlink_metadata p) (\<lambda>meta.
             andThen (chunk_file_stable C root p unstable rel_str) (\<lambda>((content, chunks, size), unstable).
             if list_ex (\<lambda>t. t_content t = hash_hex C content) tombs then
               ok (files, unstable, purged @ [rel_str])
             else
               (let (secs, nanos) = (case since_epoch (node_mtime meta) of Some d \<Rightarrow> d | None \<Rightarrow> (0, 0)) in
                ok (files @ [\<lparr>fe_path = rel_str, fe_mode = unix_mode meta, fe_size = size,
                              fe_mtime_secs = secs, fe_mtime_nanos = nanos, fe_content = content,
                              fe_chunks = chunks\<rparr>], unstable, purged)))))))"

definition create_from_actor ::
    "('z) snap_crates_scheme \<Rightarrow> path \<Rightarrow> path \<Rightarrow> string \<Rightarrow> string option \<Rightarrow> hash io" where
  "create_from_actor C root scan_root message actor =
     andThen (ignore_patterns scan_root) (\<lambda>patterns.
     andThen (tombstones C root) (\<lambda>tombs.
     andThen (p_walk C True scan_root) (\<lambda>items.
     andThen (foldIO (snap_entry C root scan_root patterns tombs) ([], [], []) items) (\<lambda>(files, unstable, purged).
     andThen (store_head C root) (\<lambda>parent.
     andThen now_secs (\<lambda>t.
     andThen (lift (serialize C \<lparr>m_version = MANIFEST_VERSION, m_parent = parent, m_timestamp = t,
                m_message = message, m_files = files, m_unstable = unstable, m_actor = actor\<rparr>)) (\<lambda>b.
     andThen (put_manifest C root b) (\<lambda>id0.
     andThen (set_head C root (Some id0)) (\<lambda>_.
     ok id0)))))))))"

definition create_from :: "('z) snap_crates_scheme \<Rightarrow> path \<Rightarrow> path \<Rightarrow> string \<Rightarrow> hash io" where
  "create_from C root scan_root message =
     andThen env_actor (\<lambda>a. create_from_actor C root scan_root message a)"

definition create :: "('z) snap_crates_scheme \<Rightarrow> path \<Rightarrow> path \<Rightarrow> string \<Rightarrow> hash io" where
  "create C root scan_root message = create_from C root scan_root message"

section \<open>Listing\<close>

text \<open>
  The walk along the parents. It ends because each round adds to \<open>seen\<close> an id of 32 bytes
  that was not there (after the first, which is whatever the caller passes).
\<close>

definition hashes :: "hash set" where
  "hashes = {h. length h = 32}"

lemma finite_hashes: "finite hashes"
  unfolding hashes_def using finite_lists_length_eq [of "UNIV :: char set" 32] by simp

definition chain_measure :: "hash list \<Rightarrow> hash option \<Rightarrow> nat" where
  "chain_measure seen cur = card (hashes - set seen)
     + (case cur of Some id0 \<Rightarrow> if id0 \<in> hashes then 0 else 1 | None \<Rightarrow> 0)"

text \<open>\<open>[u8; 32]\<close> as the type of a parent.\<close>

definition parent_of :: "manifest \<Rightarrow> hash option" where
  "parent_of m = (case m_parent m of Some p \<Rightarrow> if length p = 32 then Some p else None | None \<Rightarrow> None)"

lemma chain_measure_less:
  assumes "id0 \<notin> set seen"
  shows "chain_measure (id0 # seen) (parent_of m) < chain_measure seen (Some id0)"
proof -
  have p: "(case parent_of m of Some p \<Rightarrow> if p \<in> hashes then 0 else 1 | None \<Rightarrow> 0) = (0 :: nat)"
    by (auto simp: parent_of_def hashes_def split: option.splits)
  show ?thesis
  proof (cases "id0 \<in> hashes")
    case True
    have "hashes - set (id0 # seen) = (hashes - set seen) - {id0}" by auto
    moreover have "id0 \<in> hashes - set seen" using True assms by simp
    ultimately have "card (hashes - set (id0 # seen)) < card (hashes - set seen)"
      using finite_hashes by (metis card_Diff1_less finite_Diff)
    with p True show ?thesis by (simp add: chain_measure_def)
  next
    case False
    then have "hashes - set (id0 # seen) = hashes - set seen" by auto
    with p False show ?thesis by (simp add: chain_measure_def)
  qed
qed

function list_chain ::
    "('z) snap_crates_scheme \<Rightarrow> path \<Rightarrow> hash list \<Rightarrow> (hash \<times> manifest) list \<Rightarrow> hash option
       \<Rightarrow> (hash list \<times> (hash \<times> manifest) list) io" where
  "list_chain C root seen out None = ok (seen, out)"
| "list_chain C root seen out (Some id0) =
     (if id0 \<in> set seen then ok (seen, out)
      else
        andThen (load C root id0) (\<lambda>m.
        list_chain C root (id0 # seen) (out @ [(id0, m)]) (parent_of m)))"
  by pat_completeness auto
termination
  by (relation "measure (\<lambda>(C, root, seen, out, cur). chain_measure seen cur)")
    (simp_all add: chain_measure_less)

definition list_orphan ::
    "('z) snap_crates_scheme \<Rightarrow> path \<Rightarrow> hash list \<times> (hash \<times> manifest) list \<Rightarrow> string
       \<Rightarrow> (hash list \<times> (hash \<times> manifest) list) io" where
  "list_orphan C root st full =
     (case st of (seen, out) \<Rightarrow>
        if \<not> is_hash_name full then ok (seen, out)
        else
          andThen (lift (parse_hash C full)) (\<lambda>id0.
          if id0 \<in> set seen then ok (seen, out)
          else
            andThen (attempt (load C root id0)) (\<lambda>r.
            case r of
              Inr m \<Rightarrow> ok (id0 # seen, out @ [(id0, m)])
            | Inl _ \<Rightarrow> ok (id0 # seen, out))))"

definition list_snapshots :: "('z) snap_crates_scheme \<Rightarrow> path \<Rightarrow> (hash \<times> manifest) list io" where
  "list_snapshots C root =
     andThen (store_head C root) (\<lambda>h.
     andThen (list_chain C root [] [] h) (\<lambda>st.
     andThen (for_manifest_names root (list_orphan C root) st) (\<lambda>(seen, out).
     ok (sort_key (\<lambda>e. - uint (m_timestamp (snd e))) out))))"

end
