(* ===== verification/Store_Frame.thy ===== *)
theory Store_Frame
  imports Store
begin

text \<open>
  What every client of the store keeps: \<open>store_kept c X w0 w\<close> says that from \<open>w0\<close> to
  \<open>w\<close> nothing outside \<open>.respawn\<close> has changed, inside it only blobs and the files of
  \<open>X\<close>, and that no object or genuine manifest is lost, short of a hash collision.
  \<open>store_inv\<close> adds that both halves of the store are in order. The rules in
  \<open>keeps_intros\<close> push both through the operations of \<open>Store\<close>, so that a client's
  proof follows its program text.
\<close>

section \<open>The invariants\<close>

definition blobs :: "'z sel \<Rightarrow> path set" where
  "blobs c = range (object_at c) \<union> range (manifest_at c)"

definition collides :: "('z) crates_scheme \<Rightarrow> bytes \<Rightarrow> bool" where
  "collides C d \<longleftrightarrow> (\<exists>d'. d' \<noteq> d \<and> hash_bytes C d' = hash_bytes C d)"

definition store_kept :: "'z sel \<Rightarrow> path set \<Rightarrow> world \<Rightarrow> world \<Rightarrow> bool" where
  "store_kept c X w0 w \<longleftrightarrow> store_base c w \<and> evolves (home c) (X \<union> blobs c) w0 w
     \<and> (\<forall>h d. objects c w0 h = Some d \<longrightarrow> objects c w h = Some d \<or> collides (fst c) d)
     \<and> (\<forall>h d. manifests c w0 h = Some d \<longrightarrow> hash_bytes (fst c) d = h \<longrightarrow>
          manifests c w h = Some d \<or> collides (fst c) d)"

definition store_inv :: "'z sel \<Rightarrow> path set \<Rightarrow> world \<Rightarrow> world \<Rightarrow> bool" where
  "store_inv c X w0 w \<longleftrightarrow> store_kept c X w0 w \<and> objects_ok c w \<and> manifests_ok c w
     \<and> (\<forall>h. objects c w0 h \<noteq> None \<longrightarrow> objects c w h \<noteq> None)
     \<and> (\<forall>h. manifests c w0 h \<noteq> None \<longrightarrow> manifests c w h \<noteq> None)"

text \<open>The other files a client may write.\<close>

definition apart :: "'z sel \<Rightarrow> path set \<Rightarrow> bool" where
  "apart c X \<longleftrightarrow> (\<forall>p \<in> X. slot (home c) p \<and> p \<notin> blobs c)"

lemma blobs_iff: "p \<in> blobs c \<longleftrightarrow> (\<exists>h. p = object_at c h) \<or> (\<exists>h. p = manifest_at c h)"
  by (auto simp: blobs_def)

lemma blob_length: "p \<in> blobs c \<Longrightarrow> length p = length (home c) + 3"
  by (auto simp: blobs_iff object_at_def manifest_at_def object_path_def manifest_path_def home_def Let_def)

lemma apart_short:
  assumes "\<And>p. p \<in> X \<Longrightarrow> slot (home c) p \<and> length p \<noteq> length (home c) + 3"
  shows "apart c X"
  using assms blob_length [of _ c] by (auto simp: apart_def)

lemma object_manifest_at [simp]: "object_at c h \<noteq> manifest_at c' k" if "snd c' = snd c" for c c' :: "'z sel"
  using that by (auto simp: object_at_def manifest_at_def object_path_def manifest_path_def Let_def)

lemma store_kept_refl: "store_base c w \<Longrightarrow> store_kept c X w w"
  by (simp add: store_kept_def)

lemma store_inv_refl: "objects_ok c w \<Longrightarrow> manifests_ok c w \<Longrightarrow> store_inv c X w w"
  by (simp add: store_inv_def store_kept_refl objects_ok_base)

lemma store_inv_kept: "store_inv c X w0 w \<Longrightarrow> store_kept c X w0 w"
  by (simp add: store_inv_def)

lemma store_kept_sound: "store_kept c X w0 w \<Longrightarrow> sound (home c) w"
  by (simp add: store_kept_def store_base_def)

lemma store_kept_calm: "store_kept c X w0 w \<Longrightarrow> calm w \<longleftrightarrow> calm w0"
  unfolding store_kept_def using evolves_calm by blast

text \<open>What the frame says to the outside.\<close>

lemma store_kept_outside:
  assumes "store_kept c X w0 w" "\<not> prefix (home c) p" "\<not> prefix p (home c)"
  shows "entries w p = entries w0 p"
  using assms evolves_outside by (fastforce simp: store_kept_def)

lemma store_kept_data:
  assumes "store_kept c X w0 w" "p \<notin> X" "p \<notin> blobs c" "\<not> is_tmp p"
  shows "file_data (entries w p) = file_data (entries w0 p)"
  using assms evolves_data [of "home c" "X \<union> blobs c" w0 w p] by (simp add: store_kept_def)

lemma collides_hash: "hash_bytes C d' = hash_bytes C d \<Longrightarrow> collides C d' \<Longrightarrow> collides C d"
  unfolding collides_def by metis

section \<open>Steps\<close>

lemma store_kept_step:
  assumes "store_kept c X w0 w" "store_base c w'" "evolves (home c) (X \<union> blobs c) w w'"
    and "\<And>h d. objects c w h = Some d \<Longrightarrow> objects c w' h = Some d \<or> collides (fst c) d"
    and "\<And>h d. manifests c w h = Some d \<Longrightarrow> hash_bytes (fst c) d = h \<Longrightarrow>
          manifests c w' h = Some d \<or> collides (fst c) d"
  shows "store_kept c X w0 w'"
  using assms evolves_trans unfolding store_kept_def by blast

text \<open>An update that leaves every blob alone.\<close>

lemma blobs_frame:
  assumes "store_base c w" "evolves (home c) X w w'" "\<And>p. p \<in> X \<Longrightarrow> p \<notin> blobs c"
  shows "entries w' (object_at c h) = entries w (object_at c h)"
    and "entries w' (manifest_at c h) = entries w (manifest_at c h)"
proof -
  note bf = store_base_facts [OF assms(1)]
  have X: "object_at c h \<notin> X" "manifest_at c h \<notin> X" using assms(3) by (auto simp: blobs_iff)
  show "entries w' (object_at c h) = entries w (object_at c h)"
    by (rule evolves_blob [OF assms(2) bf(1) blob_not_dir_place(1) X(1)])
  show "entries w' (manifest_at c h) = entries w (manifest_at c h)"
    by (rule evolves_blob [OF assms(2) bf(2) blob_not_dir_place(2) X(2)])
qed

lemma store_kept_frame:
  assumes "store_kept c X w0 w" "evolves (home c) Y w w'" "sound (home c) w'" "Y \<subseteq> X" "apart c X"
  shows "store_kept c X w0 w'"
proof -
  have b: "store_base c w" using assms(1) by (simp add: store_kept_def)
  have "\<And>p. p \<in> Y \<Longrightarrow> p \<notin> blobs c" using assms(4,5) by (auto simp: apart_def)
  note f = blobs_frame [OF b assms(2) this]
  have e: "objects c w' = objects c w" "manifests c w' = manifests c w"
    using f by (auto simp: objects_def manifests_def)
  have ev: "evolves (home c) (X \<union> blobs c) w w'" using evolves_mono [OF assms(2)] assms(4) by blast
  have b': "store_base c w'" using b assms(3) by (simp add: store_base_def)
  show ?thesis by (rule store_kept_step [OF assms(1) b' ev]) (simp_all add: e)
qed

lemma store_inv_frame:
  assumes "store_inv c X w0 w" "evolves (home c) Y w w'" "sound (home c) w'" "Y \<subseteq> X" "apart c X"
  shows "store_inv c X w0 w'"
proof -
  have Y: "\<And>h. object_at c h \<notin> Y" "\<And>h. manifest_at c h \<notin> Y"
    using assms(4,5) by (auto simp: apart_def blobs_iff)
  have o: "objects_ok c w" "manifests_ok c w" using assms(1) by (simp_all add: store_inv_def)
  from objects_frame [OF o(1) assms(2,3) Y(1)] manifests_frame [OF o(2) assms(2,3) Y(2)] assms(1)
    store_kept_frame [OF store_inv_kept [OF assms(1)] assms(2-5)]
  show ?thesis by (simp add: store_inv_def)
qed

text \<open>A put, of any length.\<close>

lemma store_kept_put_object:
  assumes "store_kept c X w0 w" "put_object (fst c) (snd c) d w = (r, w')"
  shows "store_kept c X w0 w'"
proof -
  have b: "store_base c w" using assms(1) by (simp add: store_kept_def)
  note bf = store_base_facts [OF b]
  let ?k = "hash_bytes (fst c) d"
  note res = put_blob_result [OF bf(1) bf(3) assms(2) [unfolded put_object_blob, folded object_at_def]]
  show ?thesis
  proof (cases r)
    case (Inl e)
    with res have s: "sound (home c) w'" "evolves (home c) {} w w'" by (simp_all add: stays_def)
    note f = blobs_frame [OF b s(2)]
    show ?thesis
    proof (rule store_kept_step [OF assms(1)])
      show "store_base c w'" using b s(1) by (simp add: store_base_def)
      show "evolves (home c) (X \<union> blobs c) w w'" using evolves_mono [OF s(2)] by blast
    qed (use f in \<open>simp_all add: objects_def manifests_def\<close>)
  next
    case (Inr k)
    with res have s: "sound (home c) w'" "evolves (home c) {object_at c ?k} w w'"
      and z: "entries w (object_at c ?k) \<noteq> None \<and> entries w' = entries w
        \<or> (\<exists>z. zstd_encode (fst c) d = Inr z \<and> file_data (entries w' (object_at c ?k)) = Some z)"
      by (auto simp: map_sum_def split: sum.splits)
    have e: "entries w' (object_at c h) = entries w (object_at c h)" if "h \<noteq> ?k" for h
      using that by (intro evolves_blob [OF s(2) bf(1) blob_not_dir_place(1)]) (simp add: bf(4))
    have m: "entries w' (manifest_at c h) = entries w (manifest_at c h)" for h
      by (intro evolves_blob [OF s(2) bf(2) blob_not_dir_place(2)]) (metis object_manifest_at singletonD)
    show ?thesis
    proof (rule store_kept_step [OF assms(1)])
      show "store_base c w'" using b s(1) by (simp add: store_base_def)
      show "evolves (home c) (X \<union> blobs c) w w'" by (rule evolves_mono [OF s(2)]) (auto simp: blobs_iff)
      fix h v
      show "manifests c w h = Some v \<Longrightarrow> manifests c w' h = Some v \<or> collides (fst c) v"
        using m by (simp add: manifests_def)
      assume v: "objects c w h = Some v"
      then have hv: "hash_bytes (fst c) v = h" "length v \<le> MAX_OBJECT_SIZE"
        by (auto simp: objects_def decodes_def split: option.splits sum.splits dest: decode_verified)
      show "objects c w' h = Some v \<or> collides (fst c) v"
      proof (cases "h = ?k \<and> entries w' \<noteq> entries w \<and> v = d")
        case True
        with z obtain y where "zstd_encode (fst c) v = Inr y" "file_data (entries w' (object_at c h)) = Some y"
          by auto
        with decode_encoded [OF bf(6) _ hv(2)] hv(1) show ?thesis by (simp add: objects_def decodes_def)
      next
        case False
        with v e [of h] hv show ?thesis
          by (cases "hash_bytes (fst c) v = hash_bytes (fst c) d") (auto simp: objects_def collides_def)
      qed
    qed
  qed
qed

lemma store_kept_put_manifest:
  assumes "store_kept c X w0 w" "put_manifest (fst c) (snd c) d w = (r, w')"
  shows "store_kept c X w0 w'"
proof -
  have b: "store_base c w" using assms(1) by (simp add: store_kept_def)
  note bf = store_base_facts [OF b]
  let ?k = "hash_bytes (fst c) d"
  note res = put_blob_result [OF bf(2) bf(3) assms(2) [unfolded put_manifest_blob, folded manifest_at_def]]
  have s: "sound (home c) w'" "evolves (home c) {manifest_at c ?k} w w'"
    and z: "entries w' (manifest_at c ?k) = entries w (manifest_at c ?k)
        \<or> file_data (entries w' (manifest_at c ?k)) = Some d"
    using res evolves_mono [of "home c" "{}" w w'] blobs_frame(2) [OF b, of "{}" w']
    by (auto simp: stays_def split: sum.splits)
  have o: "entries w' (object_at c h) = entries w (object_at c h)" for h
    by (intro evolves_blob [OF s(2) bf(1) blob_not_dir_place(1)]) (metis object_manifest_at singletonD)
  have e: "entries w' (manifest_at c h) = entries w (manifest_at c h)" if "h \<noteq> ?k" for h
    using that by (intro evolves_blob [OF s(2) bf(2) blob_not_dir_place(2)]) (simp add: bf(5))
  show ?thesis
  proof (rule store_kept_step [OF assms(1)])
    show "store_base c w'" using b s(1) by (simp add: store_base_def)
    show "evolves (home c) (X \<union> blobs c) w w'" by (rule evolves_mono [OF s(2)]) (auto simp: blobs_iff)
    fix h v
    show "objects c w h = Some v \<Longrightarrow> objects c w' h = Some v \<or> collides (fst c) v"
      using o by (simp add: objects_def)
    assume v: "manifests c w h = Some v" "hash_bytes (fst c) v = h"
    show "manifests c w' h = Some v \<or> collides (fst c) v"
      using v e [of h] z by (cases "h = ?k") (auto simp: manifests_def collides_def)
  qed
qed

lemma store_inv_put_object:
  assumes "store_inv c X w0 w" "object_fits d" "put_object (fst c) (snd c) d w = (r, w')"
  shows "store_inv c X w0 w'" "r = Inr h \<Longrightarrow> h = hash_bytes (fst c) d \<and> objects c w' h \<noteq> None"
proof -
  have o: "objects_ok c w" "manifests_ok c w" using assms(1) by (simp_all add: store_inv_def)
  note p = obj.put_step [OF o(1) assms(2,3)]
  have mf: "manifests_ok c w' \<and> manifests c w' = manifests c w"
    by (rule manifests_frame [OF o(2)])
      (use p in \<open>auto simp: objects_ok_def store_base_def object_manifest_at [symmetric] simp del: object_manifest_at\<close>)
  then show "store_inv c X w0 w'"
    using p assms(1) store_kept_put_object [OF store_inv_kept [OF assms(1)] assms(3)] by (simp add: store_inv_def)
  show "r = Inr h \<Longrightarrow> h = hash_bytes (fst c) d \<and> objects c w' h \<noteq> None" using p by blast
qed

lemma store_inv_put_manifest:
  assumes "store_inv c X w0 w" "put_manifest (fst c) (snd c) d w = (r, w')"
  shows "store_inv c X w0 w'" "r = Inr h \<Longrightarrow> h = hash_bytes (fst c) d \<and> manifests c w' h \<noteq> None"
proof -
  have o: "objects_ok c w" "manifests_ok c w" using assms(1) by (simp_all add: store_inv_def)
  note p = man.put_step [OF o(2) _ assms(2)]
  have f: "any_size d" by (simp add: any_size_def)
  have mf: "objects_ok c w' \<and> objects c w' = objects c w"
    by (rule objects_frame [OF o(1)])
      (use p [OF f] in \<open>auto simp: manifests_ok_def store_base_def\<close>)
  then show "store_inv c X w0 w'"
    using p [OF f] assms(1) store_kept_put_manifest [OF store_inv_kept [OF assms(1)] assms(2)]
    by (simp add: store_inv_def)
  show "r = Inr h \<Longrightarrow> h = hash_bytes (fst c) d \<and> manifests c w' h \<noteq> None" using p [OF f] by blast
qed

section \<open>The operations keep the invariants\<close>

text \<open>Both invariants at once: what is shown of \<open>I\<close> holds of either.\<close>

definition framed :: "'z sel \<Rightarrow> path set \<Rightarrow> (world \<Rightarrow> bool) \<Rightarrow> bool" where
  "framed c X I \<longleftrightarrow> apart c X \<and> (\<forall>w. I w \<longrightarrow> sound (home c) w)
     \<and> (\<forall>Y w w'. I w \<longrightarrow> Y \<subseteq> X \<longrightarrow> evolves (home c) Y w w' \<longrightarrow> sound (home c) w' \<longrightarrow> I w')"

lemma framed_inv [simp]: "apart c X \<Longrightarrow> framed c X (store_inv c X w0)"
  unfolding framed_def using store_inv_frame store_kept_sound store_inv_kept by blast

lemma framed_kept [simp]: "apart c X \<Longrightarrow> framed c X (store_kept c X w0)"
  unfolding framed_def using store_kept_frame store_kept_sound by blast

lemma framedD:
  assumes "framed c X I"
  shows "apart c X" "I w \<Longrightarrow> sound (home c) w"
    "I w \<Longrightarrow> Y \<subseteq> X \<Longrightarrow> evolves (home c) Y w w' \<Longrightarrow> sound (home c) w' \<Longrightarrow> I w'"
  using assms unfolding framed_def by blast+

text \<open>Invariants that a call which changes no file cannot break.\<close>

definition inert :: "(world \<Rightarrow> bool) \<Rightarrow> bool" where
  "inert I \<longleftrightarrow> (\<forall>w. I w \<longrightarrow> quiet w \<and> (\<forall>w'. same_env w w' \<longrightarrow> wfs w' = wfs w \<longrightarrow> I w'))"

definition still :: "world \<Rightarrow> world \<Rightarrow> bool" where
  "still w0 w \<longleftrightarrow> quiet w0 \<and> same_env w0 w \<and> wfs w = wfs w0"

lemma inert_still [simp]: "inert (still w0)"
  unfolding inert_def still_def using same_env_quiet same_env_trans by metis

lemma framed_inert:
  assumes "framed c X I"
  shows "inert I"
  unfolding inert_def
proof (intro allI impI conjI)
  fix w w'
  assume i: "I w"
  show "quiet w" by (rule sound_quiet [OF framedD(2) [OF assms i]])
  assume "same_env w w'" "wfs w' = wfs w"
  then show "I w'"
    using framedD(3) [OF assms i, of "{}" w'] sound_same [OF framedD(2) [OF assms i]] evolves_same by simp
qed

lemma inert_reads:
  assumes "inert I"
  shows "keeps I (syscall (\<lambda>fs t. (f fs, fs)))" "keeps I (query g)" "keeps I now_secs"
    "keeps I (\<lambda>w. (Inr (h (tick w)), tick w))"
proof -
  have *: "I w'" if "I w" "same_env w w'" "wfs w' = wfs w" for w w'
    using assms that unfolding inert_def by blast
  have q: "quiet w" if "I w" for w using assms that unfolding inert_def by blast
  show "keeps I (syscall (\<lambda>fs t. (f fs, fs)))"
  proof (rule keepsI)
    fix w r w'
    assume "I w" "syscall (\<lambda>fs t. (f fs, fs)) w = (r, w')"
    with syscall_result [OF this(2) q] show "I w'" by (auto intro: *)
  qed
  show "keeps I (query g)"
  proof (rule keepsI)
    fix w r w'
    assume "I w" "query g w = (r, w')"
    with query_result [OF this(2) q] show "I w'" by (auto intro: *)
  qed
  show "keeps I now_secs"
  proof (rule keepsI)
    fix w r w'
    assume "I w" "now_secs w = (r, w')"
    with now_secs_result [OF this(2) q] show "I w'" by (auto intro: *)
  qed
  show "keeps I (\<lambda>w. (Inr (h (tick w)), tick w))"
    using tick_quiet [OF q] by (auto simp: keeps_def intro: *)
qed

lemmas inert_prims =
  inert_reads(2) [of _ "\<lambda>fs. fs_exists fs p" for p, folded p_exists_def]
  inert_reads(2) [of _ "\<lambda>fs. fs_is_dir fs p" for p, folded p_is_dir_def]
  inert_reads(2) [of _ "\<lambda>fs. fs_is_file fs p" for p, folded p_is_file_def]
  inert_reads(1) [of _ "\<lambda>fs. fs_read True fs p" for p, folded p_read_def]
  inert_reads(1) [of _ "\<lambda>fs. fs_read False fs p" for p, folded p_read_nofollow_def]
  inert_reads(1) [of _ "\<lambda>fs. case fs_read True fs p of Inl e \<Rightarrow> Inl e | Inr d \<Rightarrow> if utf8_valid d then Inr d else Inl InvalidData" for p,
    folded p_read_to_string_def]
  inert_reads(1) [of _ "\<lambda>fs. fs_stat True fs p" for p, folded p_metadata_def]
  inert_reads(1) [of _ "\<lambda>fs. fs_stat False fs p" for p, folded p_symlink_metadata_def]
  inert_reads(1) [of _ "\<lambda>fs. fs_read_dir fs p" for p, folded p_read_dir_def]
  inert_reads(1) [of _ "\<lambda>fs. fs_canonicalize fs p" for p, folded p_canonicalize_def]
  inert_reads(1) [of _ "\<lambda>fs. Inr ()", folded p_sync_all_def]
  inert_reads(3)

lemma inert_store_reads:
  assumes "inert I"
  shows "keeps I (get_object C root h)" "keeps I (has_object C root h)"
    "keeps I (get_manifest_bytes C root h)" "keeps I (has_manifest C root h)" "keeps I (store_head C root)"
  unfolding get_object_def has_object_def get_manifest_bytes_def has_manifest_def store_head_def
  by (intro keeps_intros inert_prims [OF assms])+

lemmas framed_prims = inert_prims [OF framed_inert]
lemmas framed_store_reads = inert_store_reads [OF framed_inert]

lemma framed_create_dir:
  assumes "framed c X I" "inside (home c) p" "dir_place (home c) p"
  shows "keeps I (p_create_dir_all p)"
proof (rule keepsI)
  fix w r w'
  assume "I w" "p_create_dir_all p w = (r, w')"
  with p_create_dir_all_sound(1,2) [OF framedD(2) [OF assms(1) this(1)] assms(2)] assms(3)
  show "I w'" using framedD(3) [OF assms(1), of w "{}"] by blast
qed

lemma framed_atomic_write:
  assumes "framed c X I" "p \<in> X"
  shows "keeps I (atomic_write p d)"
proof (rule keepsI)
  fix w r w'
  assume i: "I w" and run: "atomic_write p d w = (r, w')"
  have p: "slot (home c) p" using framedD(1) [OF assms(1)] assms(2) by (simp add: apart_def)
  note a = atomic_write_result [OF framedD(2) [OF assms(1) i] p run]
  show "I w'"
    using a assms(2) framedD(3) [OF assms(1) i, of "{}"] framedD(3) [OF assms(1) i, of "{p}"]
    by (cases r) (auto simp: stays_def)
qed

lemma p_truncate_sound:
  assumes "sound F w" "inside F p" "p_truncate p w = (res, w')"
  shows "sound F w'" "same_env w w'" "res = Inl e \<Longrightarrow> wfs w' = wfs w"
    and "res = Inr q \<Longrightarrow> q = p \<and> p \<noteq> [] \<and> (\<exists>m t. wfs w' = put_node p (File [] m t) (wfs w))"
proof -
  note wc = sound_facts(2) [OF assms(1)] sound_facts(3) [OF assms(1,2)]
  note r = syscall_result [OF assms(3) [unfolded p_truncate_def] sound_quiet [OF assms(1)]]
  show env: "same_env w w'" using r by simp
  show same: "wfs w' = wfs w" if "res = Inl e" for e
    using r that fs_truncate_clean [OF wc] by fastforce
  have *: "q = p \<and> entries w p \<noteq> Some Dir \<and> entries w (butlast p) = Some Dir
      \<and> (\<exists>m. wfs w' = put_node p (File [] m (wtime w (wtick w))) (wfs w))" if "res = Inr q" for q
    using r that fs_truncate_clean [OF wc] by (fastforce simp: entries_def)
  have ne: "p \<noteq> []" if "res = Inr q" for q using * [OF that] by (auto simp: entries_def)
  show "q = p \<and> p \<noteq> [] \<and> (\<exists>m t. wfs w' = put_node p (File [] m t) (wfs w))" if "res = Inr q"
    using * [OF that] ne [OF that] by blast
  show "sound F w'"
  proof (cases res)
    case (Inl e)
    with same env assms(1) show ?thesis by (auto intro: sound_same)
  next
    case (Inr q)
    with * obtain m where m: "wfs w' = put_node p (File [] m (wtime w (wtick w))) (wfs w)"
      "entries w p \<noteq> Some Dir" "entries w (butlast p) = Some Dir" by blast
    show ?thesis
      by (rule sound_put [OF assms(1) env m(1) assms(2) ne [OF Inr] m(3)]) (simp_all add: m(2))
  qed
qed

text \<open>\<open>fs::write\<close> on a file of \<open>X\<close>.\<close>

lemma p_write_sound:
  assumes "sound F w" "inside F p" "p_write p d w = (res, w')"
  shows "sound F w' \<and> evolves F {p} w w' \<and> (res = Inr () \<longrightarrow> file_data (entries w' p) = Some d)"
proof -
  obtain q w1 where q: "p_truncate p w = (q, w1)" by fastforce
  note t = p_truncate_sound [OF assms(1,2) q]
  show ?thesis
  proof (cases q)
    case (Inl e)
    with t q assms(3) show ?thesis by (auto simp: p_write_def evolves_same)
  next
    case (Inr h)
    with t obtain m t0 where h: "h = p" "p \<noteq> []" "wfs w1 = put_node p (File [] m t0) (wfs w)" by blast
    have run: "p_write_all p d w1 = (res, w')" using Inr q h assms(3) by (simp add: p_write_def)
    have f: "entries w1 p = Some (File [] m t0)" using h by (simp add: entries_def entry_at_put)
    note a = p_write_all_sound [OF t(1) assms(2) run f h(2)]
    from a(3) obtain k t' where k: "wfs w' = put_node p (File ([] @ take k d) m t') (wfs w1)"
      "res = Inr () \<longrightarrow> length d \<le> k" by auto
    have "evolves F {p} w w'"
      by (rule evolves_trans [OF evolves_put [OF t(2) h(3) assms(2) h(2)] evolves_put [OF a(2) k(1) assms(2) h(2)]])
    with a(1) k h(2) show ?thesis by (auto simp: entries_def entry_at_put)
  qed
qed

lemma framed_write:
  assumes "framed c X I" "p \<in> X"
  shows "keeps I (p_write p d)"
proof (rule keepsI)
  fix w r w'
  assume i: "I w" and run: "p_write p d w = (r, w')"
  have p: "inside (home c) p"
    using framedD(1) [OF assms(1)] assms(2) by (simp add: apart_def slot_def)
  from p_write_sound [OF framedD(2) [OF assms(1) i] p run] assms(2)
  show "I w'" using framedD(3) [OF assms(1) i, of "{p}"] by blast
qed

lemma keeps_put_object:
  "keeps (store_kept c X w0) (put_object (fst c) (snd c) d)"
  "object_fits d \<Longrightarrow> keeps (store_inv c X w0) (put_object (fst c) (snd c) d)"
  by (blast intro: keepsI store_kept_put_object store_inv_put_object)+

lemma keeps_put_manifest:
  "keeps (store_kept c X w0) (put_manifest (fst c) (snd c) d)"
  "keeps (store_inv c X w0) (put_manifest (fst c) (snd c) d)"
  by (blast intro: keepsI store_kept_put_manifest store_inv_put_manifest)+

section \<open>Successes in a calm world\<close>

lemma p_write_calm:
  assumes "sound F w" "inside F p" "calm w" "p \<noteq> []" "entries w (butlast p) = Some Dir" "entries w p \<noteq> Some Dir"
  shows "\<exists>w'. p_write p d w = (Inr (), w')"
proof -
  obtain q w1 where q: "p_truncate p w = (q, w1)" by fastforce
  note t = p_truncate_sound [OF assms(1,2) q]
  have l: "lookup_path True (wfs w) p = Inr p"
    using sound_facts(2,3) [OF assms(1)] assms(2,5) by (intro lookup_clean_ok) (simp_all add: entries_def)
  have nl: "\<not> is_link (entries w p)"
    using sound_facts(3) [OF assms(1,2)] by (simp add: clean_path_def entries_def)
  have "q = Inr p"
    using syscall_result [OF q [unfolded p_truncate_def] sound_quiet [OF assms(1)]] l nl assms(3,6)
    by (cases "entries w p" rule: is_link.cases)
      (auto simp: fs_truncate_def entries_def split: option.splits node.splits)
  with t obtain m t0 where h: "wfs w1 = put_node p (File [] m t0) (wfs w)" by blast
  have f: "entries w1 p = Some (File [] m t0)" using h assms(4) by (simp add: entries_def entry_at_put)
  obtain r w2 where r: "p_write_all p d w1 = (r, w2)" by fastforce
  have "r = Inr ()"
    using p_write_all_sound(4) [OF t(1) assms(2) r f assms(4)] t(2) assms(3) by (simp add: same_env_calm)
  with \<open>q = Inr p\<close> q r show ?thesis by (simp add: p_write_def)
qed

lemma put_manifest_total:
  assumes "manifests_ok c w" "writable (manifest_at c (hash_bytes (fst c) d)) w"
  shows "\<exists>w'. put_manifest (fst c) (snd c) d w = (Inr (hash_bytes (fst c) d), w')"
proof -
  note b = store_base_facts [OF manifests_ok_base [OF assms(1)]]
  show ?thesis
    using put_blob_total [OF b(2) b(3) assms(2)] by (simp add: put_manifest_blob manifest_at_def)
qed

lemma demo_writable_in:
  assumes "p = [''.respawn'', x, y, z]" "x \<noteq> ''HEAD''"
  shows "writable p demo"
proof -
  have "entries demo q = None \<or> entries demo q = Some Dir" if "prefix q (butlast p)" for q
    using that assms by (auto simp: demo_entries demo_fs_def prefix_Cons)
  then show ?thesis
    using assms by (simp add: writable_def demo_entries demo_fs_def) (simp add: demo_def)
qed

end
