(* ===== verification/Tree_Reads.thy ===== *)
theory Tree_Reads
  imports Snapshot Store_Frame
begin

text \<open>
  Reading a worktree that nobody changes. \<open>tree_ok root w\<close>: a directory reached without
  symbolic links, no entry below it called \<open>..\<close>. In a calm world reads succeed and say what
  is there: the rules are triples whose failure postcondition is \<open>False\<close>.
\<close>

definition no_dotdot :: "path \<Rightarrow> world \<Rightarrow> bool" where
  "no_dotdot root w \<longleftrightarrow> (\<forall>rel. entries w (root @ rel) \<noteq> None \<longrightarrow> ''..'' \<notin> set rel)"

definition tree_ok :: "path \<Rightarrow> world \<Rightarrow> bool" where
  "tree_ok root w \<longleftrightarrow> calm w \<and> wf_fs (wfs w) \<and> clean_path (wfs w) root \<and> entries w root = Some Dir \<and> no_dotdot root w"

lemma type_of_node_file: "type_of_node nd = FtFile \<longleftrightarrow> (\<exists>d m t. nd = File d m t)"
  by (cases nd) simp_all

lemma map_filter_snoc:
  "List.map_filter f (xs @ [x]) = List.map_filter f xs @ (case f x of None \<Rightarrow> [] | Some y \<Rightarrow> [y])"
  by (simp add: List.map_filter_def split: option.split)

lemma set_map_filter: "set (List.map_filter f xs) = {y. \<exists>x \<in> set xs. f x = Some y}"
  by (auto simp: List.map_filter_def) force

text \<open>Below a directory reached without links, a regular file is too.\<close>

lemma clean_below:
  assumes "wf_fs fs" "clean_path fs root" "entry_at fs (root @ rel) = Some nd" "\<not> is_link (Some nd)" "''..'' \<notin> set rel"
  shows "clean_path fs (root @ rel)"
proof -
  have "\<not> is_link (entry_at fs q)" if q: "prefix q (root @ rel)" for q
  proof (cases "prefix q root")
    case True
    with assms(2) show ?thesis by (simp add: clean_path_def)
  next
    case False
    with q obtain k where k: "q = root @ k" "prefix k rel" using prefix_append by blast
    show ?thesis
    proof (cases "k = rel")
      case True
      with k assms(3,4) show ?thesis by simp
    next
      case False
      with k(2) obtain y where "rel = k @ y" "y \<noteq> []" by (metis append.right_neutral prefix_def)
      with wf_fs_ancestor [OF assms(1), of q y] assms(3) k(1) show ?thesis by simp
    qed
  qed
  with assms(2,5) show ?thesis by (simp add: clean_path_def)
qed

abbreviation never :: "'e \<Rightarrow> 'w \<Rightarrow> bool" where "never e w \<equiv> False"

lemma still_syscall:
  assumes "calm w0" "f (wfs w0) = Inr x"
  shows "triple (still w0) (syscall (\<lambda>fs t. (f fs, fs))) (\<lambda>y w. still w0 w \<and> y = x) never"
proof -
  have i: "inert (still w0)" by simp
  have k: "keeps (still w0) (syscall (\<lambda>fs t. (f fs, fs)))" by (rule inert_reads(1) [OF i])
  have r: "y = Inr x" if s: "still w0 w" and run: "syscall (\<lambda>fs t. (f fs, fs)) w = (y, w')" for w y w'
  proof -
    have q: "quiet w" "calm w" "wfs w = wfs w0"
      using s assms(1) same_env_quiet same_env_calm by (auto simp: still_def)
    from syscall_result [OF run q(1)] q assms(2) show ?thesis by auto
  qed
  show ?thesis by (rule tripleI) (use r k in \<open>auto elim: keepsD\<close>)
qed

lemma still_attempt:
  assumes "calm w0"
  shows "triple (still w0) (attempt (syscall (\<lambda>fs t. (f fs, fs))))
     (\<lambda>y w. still w0 w \<and> y = (case f (wfs w0) of Inl e \<Rightarrow> Inl (Io e) | Inr x \<Rightarrow> Inr x)) never"
proof -
  have i: "inert (still w0)" by simp
  have k: "keeps (still w0) (syscall (\<lambda>fs t. (f fs, fs)))" by (rule inert_reads(1) [OF i])
  have r: "y = (case f (wfs w0) of Inl e \<Rightarrow> Inl (Io e) | Inr x \<Rightarrow> Inr x)"
    if s: "still w0 w" and run: "syscall (\<lambda>fs t. (f fs, fs)) w = (y, w')" for w y w'
  proof -
    have q: "quiet w" "calm w" "wfs w = wfs w0"
      using s assms(1) same_env_quiet same_env_calm by (auto simp: still_def)
    from syscall_result [OF run q(1)] q show ?thesis by auto
  qed
  show ?thesis by (rule tripleI) (use r k in \<open>auto elim: keepsD\<close>)
qed

lemma tree_path:
  assumes "tree_ok root w0" "entries w0 (root @ rel) = Some nd" "\<not> is_link (Some nd)"
  shows "clean_path (wfs w0) (root @ rel)"
  using assms clean_below [of "wfs w0" root rel nd] by (auto simp: tree_ok_def no_dotdot_def entries_def)

lemma still_stat:
  assumes "tree_ok root w0" "entries w0 (root @ rel) = Some nd" "\<not> is_link (Some nd)"
  shows "triple (still w0) (p_symlink_metadata (root @ rel)) (\<lambda>x w. still w0 w \<and> x = nd) never"
  unfolding p_symlink_metadata_def
  by (rule still_syscall)
    (use assms tree_path [OF assms] in \<open>auto simp: tree_ok_def entries_def intro: fs_stat_clean\<close>)

lemma still_read:
  assumes "tree_ok root w0" "entries w0 (root @ rel) = Some (File d m t)"
  shows "triple (still w0) (p_read (root @ rel)) (\<lambda>x w. still w0 w \<and> x = d) never"
  unfolding p_read_def
  by (rule still_syscall)
    (use assms tree_path [OF assms] in \<open>auto simp: tree_ok_def entries_def fs_read_clean\<close>)

lemma still_walk:
  assumes "tree_ok root w0"
  shows "triple (still w0) (p_walk C b root) (\<lambda>x w. still w0 w \<and> x = walk_dir C b (wfs w0) root) never"
proof -
  have "wfs (tick w) = wfs w0" "still w0 (tick w)" if "still w0 w" for w
  proof -
    have q: "quiet w" using that same_env_quiet by (auto simp: still_def)
    show "wfs (tick w) = wfs w0" using that tick_quiet [OF q] by (simp add: still_def)
    then show "still w0 (tick w)" using that same_env_trans same_env_tick by (auto simp: still_def)
  qed
  then show ?thesis by (auto intro!: tripleI simp: p_walk_def Let_def)
qed

definition patterns_at :: "path \<Rightarrow> world \<Rightarrow> string list" where
  "patterns_at root w = parse_patterns
     (case fs_read True (wfs w) (root @ [''.fabricignore'']) of Inr s \<Rightarrow> if utf8_valid s then s else [] | Inl _ \<Rightarrow> [])"

text \<open>What the traversal of such a tree yields.\<close>

lemma walk_tree:
  assumes "walk_ok C" "tree_ok root w0"
  shows "WalkItem rel ft \<in> set (walk_dir C b (wfs w0) root) \<longleftrightarrow>
     (\<exists>nd. entries w0 (root @ rel) = Some nd \<and> ft = type_of_node nd)"
  using assms unfolding walk_ok_def tree_ok_def entries_def by blast

section \<open>A worktree with one file\<close>

definition demo_tree :: world where
  "demo_tree = fresh_world (([''a''], File ''hello'' 0x1A4 5) # demo_fs)"

lemma demo_tree_entries: "entries demo_tree p = (if p = [''a''] then Some (File ''hello'' 0x1A4 5) else entries demo p)"
  by (auto simp: demo_tree_def fresh_entries entry_at_def demo_entries)

lemma demo_tree_sound: "sound (fabric_dir []) demo_tree"
  unfolding demo_tree_def
  by (rule plain_fs_sound) (simp_all add: plain_fs_def demo_fs_def fabric_dir_def FABRIC_DIR_def)

lemma demo_tree_tree: "tree_ok [] demo_tree"
proof -
  have "no_dotdot [] demo_tree"
    by (auto simp: no_dotdot_def demo_tree_entries demo_entries demo_fs_def split: if_splits)
  moreover have "clean_path (wfs demo_tree) []" by (simp add: clean_path_def)
  moreover have "wf_fs (wfs demo_tree)" using demo_tree_sound by (simp add: sound_def)
  ultimately show ?thesis by (simp add: tree_ok_def entries_def) (simp add: demo_tree_def)
qed

lemma demo_tree_patterns: "patterns_at [] demo_tree = []"
  by (simp add: patterns_at_def demo_tree_def fresh_world_def demo_fs_def fs_read_def fs_stat_def lookup_path_def
      max_symlinks_def entry_at_def parse_patterns_def)

end
