(* ===== verification/Capture.thy ===== *)
theory Capture
  imports Tree_Reads
begin

text \<open>
  What \<open>create\<close> of \<open>src/snapshot.rs\<close> does to the store and what it records: the
  snapshot is compared with a pure reading of the worktree (\<open>entry_of\<close>), file by file.
  Shown: every outcome keeps the store and the worktree and moves HEAD only to a manifest
  that is stored; and a snapshot that succeeds is exactly the worktree, no purged file in it.
\<close>

section \<open>The store while a snapshot is taken\<close>

text \<open>\<open>store_has\<close>: the invariant of \<open>Store_Frame\<close>, and the objects of \<open>S\<close> are there.\<close>

definition store_has :: "'z sel \<Rightarrow> path set \<Rightarrow> world \<Rightarrow> hash set \<Rightarrow> world \<Rightarrow> bool" where
  "store_has c X w0 S w \<longleftrightarrow> store_inv c X w0 w \<and> (\<forall>h \<in> S. objects c w h \<noteq> None)"

lemma store_has_inv: "store_has c X w0 S w \<Longrightarrow> store_inv c X w0 w"
  by (simp add: store_has_def)

lemma store_has_mono: "store_has c X w0 S w \<Longrightarrow> T \<subseteq> S \<Longrightarrow> store_has c X w0 T w"
  by (auto simp: store_has_def)

lemma store_inv_objects_ok: "store_inv c X w0 w \<Longrightarrow> objects_ok c w"
  by (simp add: store_inv_def)

lemma store_has_sound: "store_has c X w0 S w \<Longrightarrow> sound (home c) w"
  unfolding store_has_def by (blast intro: store_kept_sound store_inv_kept)

lemma store_has_root: "store_has c X w0 S w \<Longrightarrow> ''..'' \<notin> set (snd c)"
  by (simp add: store_has_def store_inv_def store_kept_def store_base_def)

lemma framed_has [simp]:
  assumes "apart c X"
  shows "framed c X (store_has c X w0 S)"
  unfolding framed_def
proof (intro conjI allI impI)
  show "apart c X" by (rule assms)
  fix w
  show "store_has c X w0 S w \<Longrightarrow> sound (home c) w" by (rule store_has_sound)
  fix Y w'
  assume i: "store_has c X w0 S w" and Y: "Y \<subseteq> X" "evolves (home c) Y w w'" "sound (home c) w'"
  have inv: "store_inv c X w0 w" by (rule store_has_inv [OF i])
  have "\<And>h. object_at c h \<notin> Y" using Y(1) assms by (auto simp: apart_def blobs_iff)
  from objects_frame [OF store_inv_objects_ok [OF inv] Y(2,3) this] store_inv_frame [OF inv Y(2,3,1) assms] i
  show "store_has c X w0 S w'" by (simp add: store_has_def)
qed

lemma apart_none [simp]: "apart c {}"
  by (simp add: apart_def)

lemma store_has_put:
  assumes "store_has c X w0 S w" "object_fits d" "put_object (fst c) (snd c) d w = (r, w')"
  shows "store_has c X w0 S w'" "r = Inr h \<Longrightarrow> h = hash_bytes (fst c) d \<and> objects c w' h \<noteq> None"
proof -
  have i: "store_inv c X w0 w" using assms(1) by (simp add: store_has_def)
  have "store_inv c X w w" using i by (simp add: store_inv_def store_inv_refl [unfolded store_inv_def])
  from store_inv_put_object(1) [OF this assms(2,3)] store_inv_put_object [OF i assms(2,3)] assms(1)
  show "store_has c X w0 S w'" "r = Inr h \<Longrightarrow> h = hash_bytes (fst c) d \<and> objects c w' h \<noteq> None"
    by (auto simp: store_has_def store_inv_def)
qed

lemma triple_keeps: "keeps I m \<Longrightarrow> triple I m (\<lambda>_. I) (\<lambda>_. I)"
  by (auto intro!: tripleI elim: keepsD)

lemma chunker_pieces:
  assumes "cdc_ok C"
  shows "concat (chunker C d) = d" "list_all object_fits (chunker C d)"
proof -
  have "0 < CDC_MAX" by (simp add: CDC_MAX_def)
  with assms have c: "concat (chunker C d) = d \<and> (\<forall>p \<in> set (chunker C d). p \<noteq> [] \<and> length p \<le> CDC_MAX)"
    unfolding cdc_ok_def chunker_def by blast
  then show "concat (chunker C d) = d" "list_all object_fits (chunker C d)"
    by (auto simp: object_fits_def MAX_OBJECT_SIZE_def list_all_iff)
qed

section \<open>Files of the worktree\<close>

text \<open>
  \<open>seen_file c w0 rel d m t\<close>: at the start there is a regular file at \<open>rel\<close> below the
  root, outside \<open>.respawn\<close>. It stays as it is while the store is kept.
\<close>

definition seen_file :: "'z sel \<Rightarrow> world \<Rightarrow> path \<Rightarrow> bytes \<Rightarrow> 32 word \<Rightarrow> int \<Rightarrow> bool" where
  "seen_file c w0 rel d m t \<longleftrightarrow> entries w0 (snd c @ rel) = Some (File d m t) \<and> ''..'' \<notin> set rel
     \<and> \<not> excluded rel \<and> rel \<noteq> []"

lemma excluded_outside:
  assumes "\<not> excluded rel" "rel \<noteq> []"
  shows "\<not> prefix (home c) (snd c @ rel)" "\<not> prefix (snd c @ rel) (home c)"
  using assms by (cases rel; auto simp: home_def fabric_dir_def excluded_def)+

lemma seen_file_later:
  assumes "store_has c X w0 S w" "seen_file c w0 rel d m t"
  shows "entries w (snd c @ rel) = Some (File d m t)" "clean_path (wfs w) (snd c @ rel)"
proof -
  have x: "\<not> excluded rel" "rel \<noteq> []" "''..'' \<notin> set rel" using assms(2) by (simp_all add: seen_file_def)
  show e: "entries w (snd c @ rel) = Some (File d m t)"
    using store_kept_outside [OF store_inv_kept [OF store_has_inv [OF assms(1)]] excluded_outside [OF x(1,2)]] assms(2)
    by (simp add: seen_file_def)
  note s = store_has_sound [OF assms(1)]
  have r: "''..'' \<notin> set (snd c)" "\<And>q. prefix q (snd c) \<Longrightarrow> \<not> is_link (entry_at (wfs w) q)"
    using s by (auto simp: sound_def link_free_def home_def fabric_dir_def)
  have "clean_path (wfs w) (snd c)" using r by (simp add: clean_path_def)
  from clean_below [OF sound_facts(2) [OF s] this, of rel] e x(3)
  show "clean_path (wfs w) (snd c @ rel)" by (simp add: entries_def)
qed

lemma read_tree_file:
  assumes "seen_file c w0 rel d m t"
  shows "triple (store_has c {} w0 S) (p_symlink_metadata (snd c @ rel))
      (\<lambda>x w. store_has c {} w0 S w \<and> x = File d m t) (\<lambda>_. store_has c {} w0 S)"
    and "triple (store_has c {} w0 S) (p_read_nofollow (snd c @ rel))
      (\<lambda>x w. store_has c {} w0 S w \<and> x = d) (\<lambda>_. store_has c {} w0 S)"
proof -
  note k = framed_prims [OF framed_has [OF apart_none]]
  have *: "fs_stat False (wfs w) (snd c @ rel) = Inr (File d m t)" "fs_read False (wfs w) (snd c @ rel) = Inr d"
    if "store_has c {} w0 S w" for w
    using seen_file_later [OF that assms] sound_facts(2) [OF store_has_sound [OF that]]
    by (simp_all add: entries_def fs_stat_clean fs_read_clean)
  show "triple (store_has c {} w0 S) (p_symlink_metadata (snd c @ rel))
      (\<lambda>x w. store_has c {} w0 S w \<and> x = File d m t) (\<lambda>_. store_has c {} w0 S)"
  proof (rule tripleI)
    fix w x w'
    assume i: "store_has c {} w0 S w" and run: "p_symlink_metadata (snd c @ rel) w = (Inr x, w')"
    from syscall_read_sound(4) [OF store_has_sound [OF i] run [unfolded p_symlink_metadata_def]] *(1) [OF i]
      keepsD [OF k(8) i run]
    show "store_has c {} w0 S w' \<and> x = File d m t" by simp
  qed (erule (1) keepsD [OF k(8)])
  show "triple (store_has c {} w0 S) (p_read_nofollow (snd c @ rel))
      (\<lambda>x w. store_has c {} w0 S w \<and> x = d) (\<lambda>_. store_has c {} w0 S)"
  proof (rule tripleI)
    fix w x w'
    assume i: "store_has c {} w0 S w" and run: "p_read_nofollow (snd c @ rel) w = (Inr x, w')"
    from syscall_read_sound(4) [OF store_has_sound [OF i] run [unfolded p_read_nofollow_def]] *(2) [OF i]
      keepsD [OF k(5) i run]
    show "store_has c {} w0 S w' \<and> x = d" by simp
  qed (erule (1) keepsD [OF k(5)])
qed

text \<open>What is recorded of the bytes of a file.\<close>

definition chunks_of :: "('z) snap_crates_scheme \<Rightarrow> bytes \<Rightarrow> hash list" where
  "chunks_of C d = map (hash_bytes C) (chunker C d)"

definition reading :: "('z) snap_crates_scheme \<Rightarrow> bytes \<Rightarrow> hash \<times> hash list \<times> 64 word" where
  "reading C d = (hash_bytes C d, chunks_of C d, of_nat (length d))"

lemma chunk_file_reads:
  fixes c :: "('z) snap_crates_scheme \<times> path"
  assumes "cdc_ok (fst c)" "seen_file c w0 rel d m t"
  shows "triple (store_has c {} w0 S) (chunk_file (fst c) (snd c) (snd c @ rel))
     (\<lambda>cap w. store_has c {} w0 (S \<union> set (chunks_of (fst c) d)) w \<and> cap = reading (fst c) d) (\<lambda>_. store_has c {} w0 S)"
proof -
  let ?C = "fst c" and ?H = "hash_bytes (fst c)" and ?ds = "chunker (fst c) d"
  let ?step = "\<lambda>(fed, chunks, size) data.
         andThen (put_object ?C (snd c) data) (\<lambda>h.
         ok (fed @ data, chunks @ [h], size + of_nat (length data)))"
  let ?I = "\<lambda>pre (fed, chunks, size :: 64 word) w. store_has c {} w0 (S \<union> set chunks) w
     \<and> fed = concat pre \<and> chunks = map ?H pre \<and> size = of_nat (length fed)"
  note pieces = chunker_pieces [OF assms(1), of d]
  have loop: "triple (store_has c {} w0 S) (foldIO ?step ([], [], 0) ?ds) (?I ?ds) (\<lambda>_. store_has c {} w0 S)"
  proof (rule triple_conseq [OF triple_foldIO [where I = ?I and X = "\<lambda>_. store_has c {} w0 S"]])
    fix pre x rest and s :: "bytes \<times> hash list \<times> 64 word"
    assume ds: "?ds = pre @ x # rest"
    obtain fed chunks size where s: "s = (fed, chunks, size)" by (cases s)
    have x: "object_fits x" using pieces(2) ds by simp
    show "triple (?I pre s) (?step s x) (?I (pre @ [x])) (\<lambda>_. store_has c {} w0 S)"
    proof (rule tripleI)
      fix w y w'
      assume i: "?I pre s w" and run: "?step s x w = (Inr y, w')"
      then obtain h where put: "put_object ?C (snd c) x w = (Inr h, w')"
        and y: "y = (fed @ x, chunks @ [h], size + of_nat (length x))"
        by (auto simp: s andThen_Inr comp_eval)
      have sh: "store_has c {} w0 (S \<union> set chunks) w" using i unfolding s prod.case by blast
      note p = store_has_put [OF sh x put]
      from p i y show "?I (pre @ [x]) y w'" by (auto simp: s store_has_def)
    next
      fix w e w'
      assume i: "?I pre s w" and run: "?step s x w = (Inl e, w')"
      then have put: "put_object ?C (snd c) x w = (Inl e, w')" by (auto simp: s andThen_Inl comp_eval)
      have sh: "store_has c {} w0 (S \<union> set chunks) w" using i unfolding s prod.case by blast
      from store_has_put(1) [OF sh x put] show "store_has c {} w0 S w'" by (simp add: store_has_def)
    qed
  qed simp_all
  show ?thesis
    unfolding chunk_file_def
  proof (rule triple_value [OF read_tree_file(2) [OF assms(2)]], rule triple_andThen [OF loop])
    fix z :: "bytes \<times> hash list \<times> 64 word"
    obtain fed chunks size where z: "z = (fed, chunks, size)" by (cases z)
    show "triple (?I ?ds z) (case z of (fed, chunks, size) \<Rightarrow> ok (blake3 ?C fed, chunks, size))
       (\<lambda>cap w. store_has c {} w0 (S \<union> set (chunks_of ?C d)) w \<and> cap = reading ?C d) (\<lambda>_. store_has c {} w0 S)"
      unfolding z prod.case by (rule triple_ok) (auto simp add: reading_def chunks_of_def pieces(1) hash_bytes_def)
  qed
qed

lemma capture_reads:
  fixes c :: "('z) snap_crates_scheme \<times> path"
  assumes "cdc_ok (fst c)" "seen_file c w0 rel d m t"
  shows "triple (store_has c {} w0 S) (capture_loop n (fst c) (snd c) (snd c @ rel) unstable s)
     (\<lambda>r w. store_has c {} w0 (S \<union> set (chunks_of (fst c) d)) w \<and> r = (reading (fst c) d, unstable))
     (\<lambda>_. store_has c {} w0 S)"
proof -
  note stat = read_tree_file(1) [OF assms(2)]
  let ?T = "S \<union> set (chunks_of (fst c) d)"
  have last: "triple (store_has c {} w0 ?T) (p_symlink_metadata (snd c @ rel))
      (\<lambda>x w. store_has c {} w0 ?T w \<and> x = File d m t) (\<lambda>_. store_has c {} w0 S)"
    by (rule triple_conseq [OF stat [where S = ?T]]) (auto intro: store_has_mono)
  have "triple (store_has c {} w0 S) (andThen (p_symlink_metadata (snd c @ rel)) (\<lambda>m0.
      andThen (chunk_file (fst c) (snd c) (snd c @ rel)) (\<lambda>captured.
      andThen (p_symlink_metadata (snd c @ rel)) (\<lambda>m1. k m0 captured m1))))
     (\<lambda>r w. store_has c {} w0 ?T w \<and> r = (reading (fst c) d, unstable)) (\<lambda>_. store_has c {} w0 S)"
    if k: "k (File d m t) (reading (fst c) d) (File d m t) = ok (reading (fst c) d, unstable)" for k
    by (rule triple_value [OF stat], rule triple_value [OF chunk_file_reads [OF assms]],
        rule triple_value [OF last]) (simp add: k triple_ok)
  then show ?thesis by (cases n) simp_all
qed

section \<open>What a snapshot records\<close>

definition entry_of ::
    "('z) snap_crates_scheme \<Rightarrow> path \<Rightarrow> bytes \<Rightarrow> 32 word \<Rightarrow> int \<Rightarrow> file_entry" where
  "entry_of C rel d m t =
     (let (secs, nanos) = (case since_epoch t of Some x \<Rightarrow> x | None \<Rightarrow> (0, 0)) in
      \<lparr>fe_path = rel_string rel, fe_mode = and m 0x1FF, fe_size = of_nat (length d), fe_mtime_secs = secs,
       fe_mtime_nanos = nanos, fe_content = hash_bytes C d, fe_chunks = chunks_of C d\<rparr>)"

text \<open>The regular files that belong in a snapshot.\<close>

definition wanted_file ::
    "'z sel \<Rightarrow> world \<Rightarrow> string list \<Rightarrow> tombstone list \<Rightarrow> path \<Rightarrow> bytes \<Rightarrow> 32 word \<Rightarrow> int \<Rightarrow> bool" where
  "wanted_file c w0 pats tombs rel d m t \<longleftrightarrow> entries w0 (snd c @ rel) = Some (File d m t) \<and> \<not> excluded rel
     \<and> \<not> ignored pats (rel_string rel)
     \<and> (\<forall>x \<in> set tombs. t_path x \<noteq> rel_string rel \<and> t_content x \<noteq> hash_hex (fst c) (hash_bytes (fst c) d))"

definition record_item ::
    "'z snap_crates_scheme \<times> path \<Rightarrow> world \<Rightarrow> string list \<Rightarrow> tombstone list \<Rightarrow> walk_item \<Rightarrow> file_entry option" where
  "record_item c w0 pats tombs item =
     (case item of
        WalkItem rel FtFile \<Rightarrow>
          (case entries w0 (snd c @ rel) of
             Some (File d m t) \<Rightarrow>
               if wanted_file c w0 pats tombs rel d m t then Some (entry_of (fst c) rel d m t) else None
           | _ \<Rightarrow> None)
      | _ \<Rightarrow> None)"

definition walked :: "'z sel \<Rightarrow> world \<Rightarrow> walk_item list \<Rightarrow> bool" where
  "walked c w0 items \<longleftrightarrow> WalkItem [] FtFile \<notin> set items \<and>
     (\<forall>rel ft. rel \<noteq> [] \<longrightarrow> \<not> excluded rel \<longrightarrow> (WalkItem rel ft \<in> set items \<longleftrightarrow>
        (\<exists>nd. entries w0 (snd c @ rel) = Some nd \<and> ft = type_of_node nd)))"

lemma walked_file:
  assumes "walked c w0 items" "no_dotdot (snd c) w0" "WalkItem rel FtFile \<in> set items" "\<not> excluded rel"
  obtains d m t where "seen_file c w0 rel d m t"
proof -
  have "rel \<noteq> []" using assms(1,3) by (auto simp: walked_def)
  with assms obtain nd where nd: "entries w0 (snd c @ rel) = Some nd" "FtFile = type_of_node nd"
    unfolding walked_def by blast
  then obtain d m t where "nd = File d m t" using type_of_node_file by metis
  with nd \<open>rel \<noteq> []\<close> assms(2,4) have "seen_file c w0 rel d m t" by (simp add: seen_file_def no_dotdot_def)
  then show ?thesis by (rule that)
qed

lemma walk_triple:
  fixes c :: "('z) snap_crates_scheme \<times> path"
  assumes "walk_ok (fst c)" "entries w0 (snd c) = Some Dir"
  shows "triple (store_has c {} w0 S) (p_walk (fst c) b (snd c))
     (\<lambda>items w. store_has c {} w0 S w \<and> walked c w0 items) (\<lambda>_. store_has c {} w0 S)"
proof (rule tripleI)
  fix w items w'
  assume i: "store_has c {} w0 S w" and run: "p_walk (fst c) b (snd c) w = (Inr items, w')"
  note s = store_has_sound [OF i]
  have e: "wfs (tick w) = wfs w" by (rule tick_quiet [OF sound_quiet [OF s]])
  have it: "items = walk_dir (fst c) b (wfs w) (snd c)" "w' = tick w"
    using run e by (auto simp: p_walk_def Let_def)
  note kept = store_inv_kept [OF store_has_inv [OF i]]
  have ev: "evolves (home c) (blobs c) w0 w" using kept by (simp add: store_kept_def)
  have "entries w (snd c) = Some Dir"
    using evolves_node [OF ev, of "snd c"] assms(2)
    by (auto simp: node_evolves_def inside_def home_def fabric_dir_def prefix_def)
  then have root: "entry_at (wfs w) (snd c) = Some Dir" by (simp add: entries_def)
  have "clean_path (wfs w) (snd c)"
    using s by (auto simp: sound_def link_free_def clean_path_def home_def fabric_dir_def)
  then have walk: "WalkItem p ft \<in> set items \<longleftrightarrow> (\<exists>nd. entries w (snd c @ p) = Some nd \<and> ft = type_of_node nd)" for p ft
    using assms(1) sound_facts(2) [OF s] root unfolding walk_ok_def it entries_def by blast
  have "entries w (snd c @ rel) = entries w0 (snd c @ rel)" if "rel \<noteq> []" "\<not> excluded rel" for rel
    using store_kept_outside [OF kept excluded_outside [OF that(2,1)]] .
  with walk have "walked c w0 items" using root by (auto simp: walked_def entries_def)
  moreover have "store_has c {} w0 S w'"
    using framedD(3) [OF framed_has [OF apart_none] i, of "{}" w'] s e it(2)
    by (simp add: evolves_same sound_same)
  ultimately show "store_has c {} w0 S w' \<and> walked c w0 items" by blast
qed (auto simp: p_walk_def Let_def)

text \<open>One round of the loop.\<close>

definition scanned ::
    "('z) snap_crates_scheme \<times> path \<Rightarrow> world \<Rightarrow> string list \<Rightarrow> tombstone list \<Rightarrow> walk_item list \<Rightarrow> scan_state \<Rightarrow> world \<Rightarrow> bool" where
  "scanned c w0 pats tombs pre = (\<lambda>(files, unstable, purged) w.
     store_has c {} w0 (\<Union>f \<in> set files. set (fe_chunks f)) w \<and> unstable = []
     \<and> files = List.map_filter (record_item c w0 pats tombs) pre)"

lemma snap_entry_triple:
  fixes c :: "('z) snap_crates_scheme \<times> path"
  assumes "cdc_ok (fst c)" "walked c w0 items" "no_dotdot (snd c) w0" "item \<in> set items"
  shows "triple (scanned c w0 pats tombs pre st) (snap_entry (fst c) (snd c) (snd c) pats tombs st item)
     (scanned c w0 pats tombs (pre @ [item])) (\<lambda>_. store_has c {} w0 {})"
proof -
  obtain files unstable purged where st: "st = (files, unstable, purged)" by (cases st)
  let ?skip = "record_item c w0 pats tombs item = None"
  have skip: "triple (scanned c w0 pats tombs pre st) (ok (files, unstable, p'))
     (scanned c w0 pats tombs (pre @ [item])) (\<lambda>_. store_has c {} w0 {})" if ?skip for p'
    by (rule triple_ok) (auto simp: scanned_def st map_filter_snoc that)
  show ?thesis
  proof (cases item)
    case (WalkErr e)
    then show ?thesis using skip by (simp add: snap_entry_def st record_item_def)
  next
    case (WalkItem rel ft)
    let ?path_gone = "list_ex (\<lambda>t. t_path t = rel_string rel) tombs"
    show ?thesis
    proof (cases "ft \<noteq> FtFile \<or> excluded rel \<or> ignored pats (rel_string rel) \<or> ?path_gone")
      case True
      then have "?skip"
        by (auto simp: record_item_def WalkItem wanted_file_def list_ex_iff split: option.splits node.splits file_type.splits)
      from skip [OF this] True show ?thesis by (auto simp: snap_entry_def st WalkItem Let_def)
    next
      case False
      then have ft: "ft = FtFile" "\<not> excluded rel" by simp_all
      obtain d m t where f: "seen_file c w0 rel d m t"
        using walked_file [OF assms(2,3) _ ft(2)] assms(4) WalkItem ft(1) by metis
      have e: "entries w0 (snd c @ rel) = Some (File d m t)" using f by (simp add: seen_file_def)
      let ?S = "\<Union>f \<in> set files. set (fe_chunks f)"
      let ?C = "fst c"
      let ?P = "\<lambda>w. store_has c {} w0 ?S w \<and> unstable = [] \<and> files = List.map_filter (record_item c w0 pats tombs) pre"
      have cap: "triple (store_has c {} w0 ?S) (chunk_file_stable ?C (snd c) (snd c @ rel) unstable (rel_string rel))
         (\<lambda>r w. store_has c {} w0 (?S \<union> set (chunks_of ?C d)) w \<and> r = (reading ?C d, unstable)) (\<lambda>_. store_has c {} w0 {})"
        unfolding chunk_file_stable_def
        by (rule triple_conseq [OF capture_reads [OF assms(1) f, where S = ?S]]) (auto intro: store_has_mono)
      have stat: "triple (store_has c {} w0 ?S) (p_symlink_metadata (snd c @ rel))
         (\<lambda>x w. store_has c {} w0 ?S w \<and> x = File d m t) (\<lambda>_. store_has c {} w0 {})"
        by (rule triple_conseq [OF read_tree_file(1) [OF f, where S = ?S]]) (auto intro: store_has_mono)
      have lift: "triple (store_has c {} w0 ?S) (lift (sanitize_rel (rel_string rel)))
         (\<lambda>_. store_has c {} w0 ?S) (\<lambda>_. store_has c {} w0 {})"
        by (rule triple_lift) (auto intro: store_has_mono)
      have "triple (\<lambda>w. ?P w) (snap_entry ?C (snd c) (snd c) pats tombs st item)
         (scanned c w0 pats tombs (pre @ [item])) (\<lambda>_. store_has c {} w0 {})"
      proof (rule triple_pull)
        show "\<And>w. ?P w \<Longrightarrow> unstable = [] \<and> files = List.map_filter (record_item c w0 pats tombs) pre" by blast
        assume known: "unstable = [] \<and> files = List.map_filter (record_item c w0 pats tombs) pre"
        let ?gone = "list_ex (\<lambda>t. t_content t = hash_hex ?C (hash_bytes ?C d)) tombs"
        have item: "record_item c w0 pats tombs item = (if ?gone then None else Some (entry_of ?C rel d m t))"
          using False e by (auto simp: record_item_def WalkItem wanted_file_def list_ex_iff)
        have end_: "triple (store_has c {} w0 (?S \<union> set (chunks_of ?C d)))
           (if ?gone then ok (files, unstable, purged @ [rel_string rel])
            else ok (files @ [entry_of ?C rel d m t], unstable, purged))
           (scanned c w0 pats tombs (pre @ [item])) (\<lambda>_. store_has c {} w0 {})"
        proof (rule triple_if; rule triple_ok)
          fix w
          assume i: "store_has c {} w0 (?S \<union> set (chunks_of ?C d)) w"
          show "scanned c w0 pats tombs (pre @ [item]) (files, unstable, purged @ [rel_string rel]) w" if ?gone
            using known item that store_has_mono [OF i, of ?S] by (simp add: scanned_def map_filter_snoc)
          have "fe_chunks (entry_of ?C rel d m t) = chunks_of ?C d" by (simp add: entry_of_def split: prod.split)
          then show "scanned c w0 pats tombs (pre @ [item]) (files @ [entry_of ?C rel d m t], unstable, purged) w"
            if "\<not> ?gone"
            using known item that i by (simp add: scanned_def map_filter_snoc Un_commute)
        qed
        obtain secs nanos where sn: "(case since_epoch t of Some x \<Rightarrow> x | None \<Rightarrow> (0, 0)) = (secs, nanos)"
          by (metis prod.exhaust)
        let ?rest = "\<lambda>meta. andThen (chunk_file_stable ?C (snd c) (snd c @ rel) unstable (rel_string rel)) (\<lambda>((content, chunks, size), unstable).
             if list_ex (\<lambda>t. t_content t = hash_hex ?C content) tombs then ok (files, unstable, purged @ [rel_string rel])
             else (let (secs, nanos) = (case since_epoch (node_mtime meta) of Some d \<Rightarrow> d | None \<Rightarrow> (0, 0)) in
                ok (files @ [\<lparr>fe_path = rel_string rel, fe_mode = unix_mode meta, fe_size = size,
                              fe_mtime_secs = secs, fe_mtime_nanos = nanos, fe_content = content,
                              fe_chunks = chunks\<rparr>], unstable, purged)))"
        have run: "triple (store_has c {} w0 ?S)
           (andThen (lift (sanitize_rel (rel_string rel))) (\<lambda>_. andThen (p_symlink_metadata (snd c @ rel)) ?rest))
           (scanned c w0 pats tombs (pre @ [item])) (\<lambda>_. store_has c {} w0 {})"
          by (rule triple_andThen [OF lift], rule triple_value [OF stat], rule triple_value [OF cap])
            (use end_ in \<open>simp add: reading_def entry_of_def sn split: if_splits\<close>)
        have eq: "snap_entry ?C (snd c) (snd c) pats tombs st item
            = andThen (lift (sanitize_rel (rel_string rel))) (\<lambda>_. andThen (p_symlink_metadata (snd c @ rel)) ?rest)"
          using False by (simp add: snap_entry_def st WalkItem Let_def)
        show "triple (\<lambda>w. ?P w) (snap_entry ?C (snd c) (snd c) pats tombs st item)
           (scanned c w0 pats tombs (pre @ [item])) (\<lambda>_. store_has c {} w0 {})"
          unfolding eq by (rule triple_pre [OF run]) blast
      qed
      then show ?thesis by (simp add: scanned_def st)
    qed
  qed
qed

section \<open>The whole of a snapshot\<close>

definition purged_list :: "('z) snap_crates_scheme \<times> path \<Rightarrow> world \<Rightarrow> tombstone list \<Rightarrow> bool" where
  "purged_list c w ts \<longleftrightarrow> list_all tombstone_text ts \<and>
     (file_data (entries w (tombstone_path (snd c))) = Some (tomb_text (fst c) ts)
      \<or> ts = [] \<and> entries w (tombstone_path (snd c)) = None \<and> entries w (home c) = Some Dir)"

text \<open>The manifest \<open>m\<close> is what the worktree of \<open>w0\<close> gives.\<close>

definition taken ::
    "('z) snap_crates_scheme \<times> path \<Rightarrow> world \<Rightarrow> string \<Rightarrow> string option \<Rightarrow> string list \<Rightarrow> tombstone list \<Rightarrow> manifest \<Rightarrow> bool" where
  "taken c w0 msg actor pats tombs m \<longleftrightarrow> m_version m = MANIFEST_VERSION \<and> m_message m = msg \<and> m_actor m = actor
     \<and> m_unstable m = []
     \<and> (\<forall>fe. fe \<in> set (m_files m) \<longleftrightarrow>
          (\<exists>rel d mo t. wanted_file c w0 pats tombs rel d mo t \<and> fe = entry_of (fst c) rel d mo t))"

lemma record_item_Some:
  "record_item c w0 pats tombs item = Some fe \<longleftrightarrow>
   (\<exists>rel d m t. item = WalkItem rel FtFile \<and> wanted_file c w0 pats tombs rel d m t \<and> fe = entry_of (fst c) rel d m t)"
  by (auto simp: record_item_def wanted_file_def split: walk_item.splits file_type.splits option.splits node.splits)

lemma recorded_files:
  assumes "walked c w0 items" "entries w0 (snd c) = Some Dir"
  shows "fe \<in> set (List.map_filter (record_item c w0 pats tombs) items) \<longleftrightarrow>
    (\<exists>rel d mo t. wanted_file c w0 pats tombs rel d mo t \<and> fe = entry_of (fst c) rel d mo t)"
proof -
  have "WalkItem rel FtFile \<in> set items" if "wanted_file c w0 pats tombs rel d mo t" for rel d mo t
  proof -
    have "rel \<noteq> []" "\<not> excluded rel" using that assms(2) by (auto simp: wanted_file_def)
    with that assms(1) show ?thesis by (auto simp: walked_def wanted_file_def)
  qed
  then show ?thesis unfolding set_map_filter record_item_Some by blast
qed

lemma tomb_place: "inside (home c) (tombstone_path (snd c))" if "''..'' \<notin> set (snd c)" for c :: "'z sel"
  using that by (auto simp: inside_def tombstone_path_def TOMBSTONE_FILE_def home_def fabric_dir_def FABRIC_DIR_def)

lemma tomb_apart: "tombstone_path (snd c) \<notin> blobs c" "\<not> is_tmp (tombstone_path (snd c))" for c :: "'z sel"
  using blob_length [of "tombstone_path (snd c)" c]
  by (auto simp: tombstone_path_def TOMBSTONE_FILE_def home_def is_tmp_def)

text \<open>The tombstones a snapshot reads in a calm world.\<close>

lemma tombstones_read:
  fixes c :: "('z) snap_crates_scheme \<times> path"
  assumes "tombstone_json_ok (fst c)" "purged_list c w0 ts" "calm w0" "store_has c {} w0 S w"
    and "tombstones (fst c) (snd c) w = (r, w')"
  shows "r = Inr ts"
proof -
  let ?p = "tombstone_path (snd c)"
  note s = store_has_sound [OF assms(4)]
  note kept = store_inv_kept [OF store_has_inv [OF assms(4)]]
  have ev: "evolves (home c) (blobs c) w0 w" using kept by (simp add: store_kept_def)
  have cm: "calm w" using store_kept_calm [OF kept] assms(3) by simp
  have dd: "''..'' \<notin> set (snd c)" using kept by (simp add: store_kept_def store_base_def)
  have ts: "list_all tombstone_text ts" using assms(2) by (simp add: purged_list_def)
  have nd: "\<not> dir_place (home c) ?p"
    by (auto simp: dir_place_def tombstone_path_def TOMBSTONE_FILE_def home_def store_dirs_def prefix_def)
  have e: "entries w ?p = entries w0 ?p"
    using evolves_node [OF ev, of ?p] tomb_apart [of c] nd by (auto simp: node_evolves_def)
  have rd: "p_read_to_string ?p w = (q, w1) \<Longrightarrow>
      r = (case q of Inr s \<Rightarrow> tombstone_lines (fst c) 0 (text_lines s)
         | Inl e \<Rightarrow> if e = Io NotFound then Inr [] else Inl e)" for q w1
    using assms(5) by (auto simp: tombstones_def andThen_def attempt_def comp_eval split: sum.splits if_splits)
  obtain q w1 where q: "p_read_to_string ?p w = (q, w1)" by fastforce
  have utf: "utf8_valid (tomb_text (fst c) ts)"
    using ts tomb_line(5) [OF assms(1)]
    by (induction ts) (auto intro!: utf8_valid_append simp: code_def)
  from assms(2) consider (there) "file_data (entries w ?p) = Some (tomb_text (fst c) ts)"
    | (none) "ts = []" "entries w ?p = None" "entries w0 (home c) = Some Dir"
    unfolding purged_list_def by (auto simp: e)
  then show ?thesis
  proof cases
    case there
    from p_read_to_string_sound(5) [OF s tomb_place [OF dd] q cm there utf] rd [OF q] tomb_text_read [OF assms(1) ts]
    show ?thesis by simp
  next
    case none
    have h: "entries w (home c) = Some Dir"
      using evolves_file [OF ev, of "home c"] none(3) blob_length [of "home c" c]
      by (auto simp: home_def fabric_dir_def FABRIC_DIR_def is_tmp_def)
    have "entry_at (wfs w) x = None \<or> entry_at (wfs w) x = Some Dir" if "prefix x ?p" for x
    proof -
      from that have "prefix x (home c) \<or> x = ?p" by (auto simp: tombstone_path_def home_def prefix_one)
      moreover have "entry_at (wfs w) x = Some Dir" if "prefix x (home c)"
        using h wf_fs_ancestor [OF sound_facts(2) [OF s], of x] that
        by (metis append.right_neutral entries_def option.distinct(1) prefix_def)
      ultimately show ?thesis using none(2) by (auto simp: entries_def)
    qed
    then have "fs_stat True (wfs w) ?p = Inl NotFound"
      using none(2) by (intro fs_stat_not_found [OF sound_facts(2,3) [OF s] ])
        (auto simp: entries_def intro: tomb_place [OF dd])
    then have "q = Inl (Io NotFound)"
      using syscall_read_sound(5) [OF s q [unfolded p_read_to_string_def] cm] by (simp add: fs_read_def)
    with rd [OF q] none(1) show ?thesis by simp
  qed
qed

lemma patterns_triple:
  fixes c :: "('z) snap_crates_scheme \<times> path"
  assumes "objects_ok c w0" "manifests_ok c w0"
  shows "triple (\<lambda>w. w = w0) (ignore_patterns (snd c))
     (\<lambda>pats w. store_has c {} w0 {} w \<and> (calm w0 \<longrightarrow> pats = patterns_at (snd c) w0)) (\<lambda>_. store_has c {} w0 {})"
proof (rule tripleI)
  have i: "store_has c {} w0 {} w0" using store_inv_refl [OF assms] by (simp add: store_has_def)
  fix w pats w'
  assume w: "w = w0" and run: "ignore_patterns (snd c) w = (Inr pats, w')"
  obtain q w1 where q: "p_read_to_string (snd c @ [''.fabricignore'']) w0 = (q, w1)" by fastforce
  from run w q have p: "pats = parse_patterns (case q of Inr s \<Rightarrow> s | Inl _ \<Rightarrow> [])" "w' = w1"
    by (simp_all add: ignore_patterns_def andThen_def attempt_def comp_eval)
  have "store_has c {} w0 {} w1"
    by (rule keepsD [OF framed_prims(6) [OF framed_has [OF apart_none]] i q])
  moreover have "pats = patterns_at (snd c) w0" if "calm w0"
    using syscall_read_sound(5) [OF store_has_sound [OF i] q [unfolded p_read_to_string_def] that] p(1)
    by (auto simp: patterns_at_def split: sum.splits if_splits)
  ultimately show "store_has c {} w0 {} w' \<and> (calm w0 \<longrightarrow> pats = patterns_at (snd c) w0)" by (simp add: p(2))
next
  fix w e w'
  assume "ignore_patterns (snd c) w = (Inl e, w')"
  then show "store_has c {} w0 {} w'"
    by (auto simp: ignore_patterns_def andThen_def attempt_def comp_eval split: prod.splits)
qed

lemma tombs_triple:
  fixes c :: "('z) snap_crates_scheme \<times> path"
  assumes "tombstone_json_ok (fst c)"
  shows "triple (store_has c {} w0 S) (tombstones (fst c) (snd c))
     (\<lambda>tombs w. store_has c {} w0 S w \<and> (calm w0 \<longrightarrow> (\<forall>ts. purged_list c w0 ts \<longrightarrow> tombs = ts)))
     (\<lambda>_. store_has c {} w0 S)"
proof -
  have k: "keeps (store_has c {} w0 S) (tombstones (fst c) (snd c))"
    unfolding tombstones_def by (intro keeps_intros framed_prims [OF framed_has [OF apart_none]])
  show ?thesis
    using tombstones_read [OF assms] by (auto intro!: tripleI elim: keepsD [OF k] dest: tombstones_read [OF assms])
qed

lemma head_apart: "head_path (snd c) \<notin> blobs c" "\<not> is_tmp (head_path (snd c))" for c :: "'z sel"
  using blob_length [of "head_path (snd c)" c] by (auto simp: head_path_def home_def is_tmp_def)

lemma head_triple:
  fixes c :: "('z) snap_crates_scheme \<times> path"
  shows "triple (store_has c {} w0 S) (store_head (fst c) (snd c))
     (\<lambda>h w. store_has c {} w0 S w \<and> (calm w0 \<longrightarrow> (\<forall>s. file_data (entries w0 (head_path (snd c))) = Some s \<longrightarrow>
        utf8_valid s \<longrightarrow> parse_head (fst c) s = Inr h)))
     (\<lambda>_. store_has c {} w0 S)"
proof -
  have k: "keeps (store_has c {} w0 S) (store_head (fst c) (snd c))"
    by (intro framed_store_reads [OF framed_has [OF apart_none]])
  show ?thesis
  proof (rule tripleI)
    fix w h w'
    assume i: "store_has c {} w0 S w" and run: "store_head (fst c) (snd c) w = (Inr h, w')"
    note kept = store_inv_kept [OF store_has_inv [OF i]]
    have dd: "''..'' \<notin> set (snd c)" using kept by (simp add: store_kept_def store_base_def)
    show "store_has c {} w0 S w' \<and> (calm w0 \<longrightarrow> (\<forall>s. file_data (entries w0 (head_path (snd c))) = Some s \<longrightarrow>
        utf8_valid s \<longrightarrow> parse_head (fst c) s = Inr h))"
      using keepsD [OF k i run] store_head_reads [of "snd c" w _ "fst c"] store_has_sound [OF i] dd run
        store_kept_calm [OF kept] store_kept_data [OF kept _ head_apart]
      by (auto simp: home_def)
  qed (erule (1) keepsD [OF k])
qed

text \<open>Everything at once: success in the first, failure in the second postcondition.\<close>

definition snapshot_done ::
    "('z) snap_crates_scheme \<times> path \<Rightarrow> world \<Rightarrow> string \<Rightarrow> string option \<Rightarrow> hash \<Rightarrow> world \<Rightarrow> bool" where
  "snapshot_done c w0 msg actor id0 w \<longleftrightarrow> store_inv c {head_path (snd c)} w0 w
     \<and> file_data (entries w (head_path (snd c))) = Some (hash_hex (fst c) id0) \<and> manifests c w id0 \<noteq> None
     \<and> (\<exists>m b pats tombs. serialize (fst c) m = Inr b \<and> id0 = hash_bytes (fst c) b \<and> taken c w0 msg actor pats tombs m
        \<and> (\<forall>f \<in> set (m_files m). \<forall>h \<in> set (fe_chunks f). objects c w h \<noteq> None)
        \<and> (calm w0 \<longrightarrow> pats = patterns_at (snd c) w0 \<and> (\<forall>ts. purged_list c w0 ts \<longrightarrow> tombs = ts)
           \<and> (\<forall>s. file_data (entries w0 (head_path (snd c))) = Some s \<longrightarrow> utf8_valid s \<longrightarrow>
                parse_head (fst c) s = Inr (m_parent m))))"

lemma put_manifest_triple:
  fixes c :: "('z) snap_crates_scheme \<times> path"
  shows "triple (store_has c X w0 S) (put_manifest (fst c) (snd c) b)
     (\<lambda>h w. store_has c X w0 S w \<and> (h = hash_bytes (fst c) b \<and> manifests c w h \<noteq> None)) (\<lambda>_. store_has c X w0 S)"
proof -
  have kept: "store_has c X w0 S w'" if i: "store_has c X w0 S w" and run: "put_manifest (fst c) (snd c) b w = (r, w')" for w r w'
  proof -
    have "store_inv c X w w" using store_has_inv [OF i] by (simp add: store_inv_def store_inv_refl [unfolded store_inv_def])
    from store_inv_put_manifest(1) [OF this run] store_inv_put_manifest(1) [OF store_has_inv [OF i] run] i
    show ?thesis by (simp add: store_has_def store_inv_def)
  qed
  show ?thesis
    by (rule tripleI) (use kept store_inv_put_manifest(2) [OF store_has_inv] in blast)+
qed

lemma head_slot_apart: "''..'' \<notin> set (snd c) \<Longrightarrow> apart c {head_path (snd c)}" for c :: "'z sel"
  using slot_head [of "snd c"] head_apart(1) [of c] by (simp add: apart_def home_def)

lemma set_head_triple:
  fixes c :: "('z) snap_crates_scheme \<times> path"
  shows "triple (\<lambda>w. store_has c {} w0 S w \<and> manifests c w id0 \<noteq> None) (set_head (fst c) (snd c) (Some id0))
     (\<lambda>_ w. store_has c {head_path (snd c)} w0 S w \<and> manifests c w id0 \<noteq> None
        \<and> file_data (entries w (head_path (snd c))) = Some (hash_hex (fst c) id0))
     (\<lambda>_. store_has c {} w0 S)"
proof (rule tripleI)
  fix w u w'
  assume i: "store_has c {} w0 S w \<and> manifests c w id0 \<noteq> None" and run: "set_head (fst c) (snd c) (Some id0) w = (Inr u, w')"
  have j: "store_has c {} w0 S w" "store_inv c {} w0 w" using i store_has_inv by blast+
  have dd: "''..'' \<notin> set (snd c)" by (rule store_has_root [OF j(1)])
  note s = store_has_sound [OF j(1)]
  have "sound (fabric_dir (snd c)) w" using s by (simp add: home_def)
  from atomic_write_result [OF this slot_head [OF dd] run [unfolded set_head_def]]
  have a: "sound (home c) w'" "evolves (home c) {head_path (snd c)} w w'"
    "file_data (entries w' (head_path (snd c))) = Some (hash_hex (fst c) id0)" by (simp_all add: home_def)
  have w: "store_has c {head_path (snd c)} w0 S w"
    using j(1) by (auto simp: store_has_def store_inv_def store_kept_def intro: evolves_mono)
  have "store_has c {head_path (snd c)} w0 S w'"
    using framedD(3) [OF framed_has [OF head_slot_apart [OF dd]] w _ a(2,1)] by simp
  moreover have "store_inv c {head_path (snd c)} w w'"
    using store_inv_frame [OF store_inv_refl a(2,1) _ head_slot_apart [OF dd]] j(2) by (simp add: store_inv_def)
  ultimately show "store_has c {head_path (snd c)} w0 S w' \<and> manifests c w' id0 \<noteq> None
      \<and> file_data (entries w' (head_path (snd c))) = Some (hash_hex (fst c) id0)"
    using a(3) i by (auto simp: store_inv_def)
next
  fix w e w'
  assume i: "store_has c {} w0 S w \<and> manifests c w id0 \<noteq> None" and run: "set_head (fst c) (snd c) (Some id0) w = (Inl e, w')"
  have dd: "''..'' \<notin> set (snd c)" using i store_has_root by blast
  have "sound (home c) w" using i store_has_sound by blast
  then have "sound (fabric_dir (snd c)) w" by (simp add: home_def)
  from atomic_write_result [OF this slot_head [OF dd] run [unfolded set_head_def]]
  have "sound (home c) w'" "evolves (home c) {} w w'" by (simp_all add: home_def stays_def)
  then show "store_has c {} w0 S w'" using framedD(3) [OF framed_has [OF apart_none], of c w0 S w "{}" w'] i by simp
qed

lemma scan_triple:
  fixes c :: "('z) snap_crates_scheme \<times> path"
  assumes "cdc_ok (fst c)" "walked c w0 items" "no_dotdot (snd c) w0"
  shows "triple (store_has c {} w0 {}) (foldIO (snap_entry (fst c) (snd c) (snd c) pats tombs) ([], [], []) items)
     (scanned c w0 pats tombs items) (\<lambda>_. store_has c {} w0 {})"
proof -
  have "triple (scanned c w0 pats tombs [] ([], [], []))
     (foldIO (snap_entry (fst c) (snd c) (snd c) pats tombs) ([], [], []) items)
     (scanned c w0 pats tombs items) (\<lambda>_. store_has c {} w0 {})"
    by (rule triple_foldIO, rule snap_entry_triple [OF assms(1,2,3)]) simp
  then show ?thesis by (rule triple_pre) (simp add: scanned_def List.map_filter_def)
qed

text \<open>
  \<open>create_from_actor\<close> in two halves: up to the bytes of the manifest, and from there to HEAD.
\<close>

definition composing :: "('z) snap_crates_scheme \<Rightarrow> path \<Rightarrow> string \<Rightarrow> string option \<Rightarrow> (manifest \<times> bytes) io" where
  "composing C root msg actor =
     andThen (ignore_patterns root) (\<lambda>pats. andThen (tombstones C root) (\<lambda>tombs. andThen (p_walk C True root) (\<lambda>items.
     andThen (foldIO (snap_entry C root root pats tombs) ([], [], []) items) (\<lambda>(files, unstable, purged).
     andThen (store_head C root) (\<lambda>parent. andThen now_secs (\<lambda>t.
     let m = \<lparr>m_version = MANIFEST_VERSION, m_parent = parent, m_timestamp = t, m_message = msg, m_files = files,
        m_unstable = unstable, m_actor = actor\<rparr> in
     andThen (lift (serialize C m)) (\<lambda>b. ok (m, b))))))))"

definition committing :: "('z) snap_crates_scheme \<Rightarrow> path \<Rightarrow> bytes \<Rightarrow> hash io" where
  "committing C root b = andThen (put_manifest C root b) (\<lambda>id0. andThen (set_head C root (Some id0)) (\<lambda>_. ok id0))"

lemma create_halves:
  "create_from_actor C root root msg actor = andThen (composing C root msg actor) (\<lambda>(m, b). committing C root b)"
  by (auto simp: create_from_actor_def composing_def committing_def andThen_assoc Let_def prod.case_distrib [of "\<lambda>m. andThen m g" for g]
      intro!: andThen_cong arg_cong2 [where f = andThen])

abbreviation chunk_set :: "manifest \<Rightarrow> hash set" where
  "chunk_set m \<equiv> \<Union>f \<in> set (m_files m). set (fe_chunks f)"

definition composed ::
    "('z) snap_crates_scheme \<times> path \<Rightarrow> world \<Rightarrow> string \<Rightarrow> string option \<Rightarrow> manifest \<Rightarrow> bytes \<Rightarrow> bool" where
  "composed c w0 msg actor m b \<longleftrightarrow> serialize (fst c) m = Inr b \<and> (\<exists>pats tombs. taken c w0 msg actor pats tombs m
     \<and> (calm w0 \<longrightarrow> pats = patterns_at (snd c) w0 \<and> (\<forall>ts. purged_list c w0 ts \<longrightarrow> tombs = ts)
        \<and> (\<forall>s. file_data (entries w0 (head_path (snd c))) = Some s \<longrightarrow> utf8_valid s \<longrightarrow>
             parse_head (fst c) s = Inr (m_parent m))))"

lemma composing_triple:
  fixes c :: "('z) snap_crates_scheme \<times> path"
  assumes "cdc_ok (fst c)" "walk_ok (fst c)" "tombstone_json_ok (fst c)" "objects_ok c w0" "manifests_ok c w0"
    and "entries w0 (snd c) = Some Dir" "no_dotdot (snd c) w0"
  shows "triple (\<lambda>w. w = w0) (composing (fst c) (snd c) msg actor)
     (\<lambda>(m, b) w. store_has c {} w0 (chunk_set m) w \<and> composed c w0 msg actor m b) (\<lambda>_. store_has c {} w0 {})"
  unfolding composing_def
proof (rule triple_fact [OF patterns_triple [OF assms(4,5)]], rule triple_fact [OF tombs_triple [OF assms(3)]],
    rule triple_fact [OF walk_triple [OF assms(2,6)]], rule triple_andThen [OF scan_triple [OF assms(1) _ assms(7)]])
  fix pats tombs items and st :: scan_state
  assume p: "calm w0 \<longrightarrow> pats = patterns_at (snd c) w0"
    and t: "calm w0 \<longrightarrow> (\<forall>ts. purged_list c w0 ts \<longrightarrow> tombs = ts)" and wk: "walked c w0 items"
  show "walked c w0 items" by (rule wk)
  obtain files unstable purged where st: "st = (files, unstable, purged)" by (cases st)
  let ?S = "\<Union>f \<in> set files. set (fe_chunks f)"
  let ?X = "\<lambda>_. store_has c {} w0 {}"
  let ?known = "unstable = [] \<and> files = List.map_filter (record_item c w0 pats tombs) items"
  let ?man = "\<lambda>parent t. \<lparr>m_version = MANIFEST_VERSION, m_parent = parent, m_timestamp = t, m_message = msg,
      m_files = files, m_unstable = unstable, m_actor = actor\<rparr>"
  let ?post = "\<lambda>(m, b) w. store_has c {} w0 (chunk_set m) w \<and> composed c w0 msg actor m b"
  have weak: "triple (store_has c {} w0 ?S) n Q (\<lambda>_. store_has c {} w0 ?S) \<Longrightarrow> triple (store_has c {} w0 ?S) n Q ?X"
    for n :: "'b io" and Q by (erule triple_conseq) (auto intro: store_has_mono)
  have now: "triple (store_has c {} w0 ?S) now_secs (\<lambda>_. store_has c {} w0 ?S) ?X"
    by (rule weak [OF triple_keeps [OF framed_prims(12) [OF framed_has [OF apart_none]]]])
  have lift: "triple (store_has c {} w0 ?S) (lift r) (\<lambda>x w. store_has c {} w0 ?S w \<and> r = Inr x) ?X" for r :: "error + bytes"
    by (rule triple_lift) (auto intro: store_has_mono)
  show "triple (scanned c w0 pats tombs items st)
     (case st of (files, unstable, purged) \<Rightarrow> andThen (store_head (fst c) (snd c)) (\<lambda>parent. andThen now_secs (\<lambda>t.
        let m = \<lparr>m_version = MANIFEST_VERSION, m_parent = parent, m_timestamp = t, m_message = msg, m_files = files,
           m_unstable = unstable, m_actor = actor\<rparr> in
        andThen (lift (serialize (fst c) m)) (\<lambda>b. ok (m, b))))) ?post ?X"
    unfolding st prod.case scanned_def Let_def
  proof (rule triple_pull)
    show "\<And>w. store_has c {} w0 ?S w \<and> ?known \<Longrightarrow> ?known" by blast
    assume known: ?known
    have a: "taken c w0 msg actor pats tombs (?man parent t)" for parent t
      using recorded_files [OF wk assms(6)] known by (simp add: taken_def)
    show "triple (\<lambda>w. store_has c {} w0 ?S w \<and> ?known) (andThen (store_head (fst c) (snd c)) (\<lambda>parent. andThen now_secs (\<lambda>t.
        andThen (lift (serialize (fst c) (?man parent t))) (\<lambda>b. ok (?man parent t, b))))) ?post ?X"
      by (rule triple_pre [of "store_has c {} w0 ?S"], rule triple_fact [OF weak [OF head_triple]], rule triple_andThen [OF now],
          rule triple_fact [OF lift], rule triple_ok) (use a p t in \<open>auto simp: composed_def\<close>)
  qed
qed

lemma committing_triple:
  fixes c :: "('z) snap_crates_scheme \<times> path"
  assumes "composed c w0 msg actor m b"
  shows "triple (store_has c {} w0 (chunk_set m)) (committing (fst c) (snd c) b) (snapshot_done c w0 msg actor)
     (\<lambda>_. store_has c {} w0 (chunk_set m))"
  unfolding committing_def
proof (rule triple_andThen [OF put_manifest_triple], rule triple_pull)
  fix id0
  show "\<And>w. store_has c {} w0 (chunk_set m) w \<and> id0 = hash_bytes (fst c) b \<and> manifests c w id0 \<noteq> None \<Longrightarrow> id0 = hash_bytes (fst c) b"
    by blast
  assume id0: "id0 = hash_bytes (fst c) b"
  have "snapshot_done c w0 msg actor id0 w"
    if "store_has c {head_path (snd c)} w0 (chunk_set m) w" "manifests c w id0 \<noteq> None"
      "file_data (entries w (head_path (snd c))) = Some (hash_hex (fst c) id0)" for w
    using that assms id0 unfolding snapshot_done_def composed_def store_has_def by blast
  then show "triple (\<lambda>w. store_has c {} w0 (chunk_set m) w \<and> id0 = hash_bytes (fst c) b \<and> manifests c w id0 \<noteq> None)
     (andThen (set_head (fst c) (snd c) (Some id0)) (\<lambda>_. ok id0)) (snapshot_done c w0 msg actor)
     (\<lambda>_. store_has c {} w0 (chunk_set m))"
    by (intro triple_pre [OF triple_andThen [OF set_head_triple triple_ok]]) auto
qed

lemma create_triple:
  fixes c :: "('z) snap_crates_scheme \<times> path"
  assumes "cdc_ok (fst c)" "walk_ok (fst c)" "tombstone_json_ok (fst c)" "objects_ok c w0" "manifests_ok c w0"
    and "entries w0 (snd c) = Some Dir" "no_dotdot (snd c) w0"
  shows "triple (\<lambda>w. w = w0) (create_from_actor (fst c) (snd c) (snd c) msg actor)
     (snapshot_done c w0 msg actor) (\<lambda>_. store_has c {} w0 {})"
  unfolding create_halves
proof (rule triple_andThen [OF composing_triple [OF assms]])
  fix mb :: "manifest \<times> bytes"
  obtain m b where mb: "mb = (m, b)" by (cases mb)
  show "triple (case mb of (m, b) \<Rightarrow> \<lambda>w. store_has c {} w0 (chunk_set m) w \<and> composed c w0 msg actor m b)
     (case mb of (m, b) \<Rightarrow> committing (fst c) (snd c) b) (snapshot_done c w0 msg actor) (\<lambda>_. store_has c {} w0 {})"
    unfolding mb prod.case
    by (rule triple_pull [where b = "composed c w0 msg actor m b"], blast, rule triple_conseq [OF committing_triple])
      (auto intro: store_has_mono)
qed

section \<open>A worktree with one file\<close>

lemma demo_tree_ok: "objects_ok snap_sel demo_tree" "manifests_ok snap_sel demo_tree"
proof -
  have "store_base snap_sel demo_tree"
    using demo_tree_sound ref_snap_facts(1) by (simp add: store_base_def home_def)
  moreover have "entries demo_tree (object_at snap_sel h) = None" "entries demo_tree (manifest_at snap_sel h) = None" for h
    using demo_no_blob [of snap_sel h]
    by (auto simp: demo_tree_entries object_at_def manifest_at_def object_path_def manifest_path_def fabric_dir_def
        FABRIC_DIR_def Let_def)
  ultimately show "objects_ok snap_sel demo_tree" "manifests_ok snap_sel demo_tree"
    by (simp_all add: objects_ok_def manifests_ok_def)
qed

lemma demo_tree_facts:
  "entries demo_tree [] = Some Dir" "no_dotdot [] demo_tree" "calm demo_tree" "purged_list snap_sel demo_tree []"
proof -
  show "entries demo_tree [] = Some Dir" "no_dotdot [] demo_tree" "calm demo_tree"
    using demo_tree_tree by (simp_all add: tree_ok_def)
  show "purged_list snap_sel demo_tree []"
    by (simp add: purged_list_def demo_tree_entries demo_entries demo_fs_def tombstone_path_def TOMBSTONE_FILE_def
        home_def fabric_dir_def FABRIC_DIR_def)
qed

section \<open>Properties\<close>

text \<open>C3: A snapshot is the worktree: when \<open>create\<close> succeeds with no interference, HEAD names a stored
  manifest whose entries are exactly the regular files below the root that are not excluded,
  ignored or purged (by path or by content), each with the hash, size, mode and time of its
  bytes and with all its chunks in the store; its parent is the old HEAD. When it fails, HEAD
  says what it said before.\<close>

theorem snapshot_is_worktree:
  fixes c :: "('z) snap_crates_scheme \<times> path"
  assumes "cdc_ok (fst c)" "walk_ok (fst c)" "tombstone_json_ok (fst c)" "objects_ok c w" "manifests_ok c w"
    and "entries w (snd c) = Some Dir" "no_dotdot (snd c) w" "calm w" "purged_list c w ts"
    and "create_from_actor (fst c) (snd c) (snd c) msg actor w = (r, w')"
  shows "case r of
      Inl _ \<Rightarrow> file_data (entries w' (head_path (snd c))) = file_data (entries w (head_path (snd c)))
    | Inr id0 \<Rightarrow> file_data (entries w' (head_path (snd c))) = Some (hash_hex (fst c) id0) \<and> manifests c w' id0 \<noteq> None
       \<and> (\<exists>m b. serialize (fst c) m = Inr b \<and> id0 = hash_bytes (fst c) b
          \<and> (\<forall>s. file_data (entries w (head_path (snd c))) = Some s \<longrightarrow> utf8_valid s \<longrightarrow>
                parse_head (fst c) s = Inr (m_parent m))
          \<and> (\<forall>fe. fe \<in> set (m_files m) \<longleftrightarrow> (\<exists>rel d mode t.
                wanted_file c w (patterns_at (snd c) w) ts rel d mode t \<and> fe = entry_of (fst c) rel d mode t))
          \<and> (\<forall>fe \<in> set (m_files m). \<forall>h \<in> set (fe_chunks fe). objects c w' h \<noteq> None))"
proof (cases r)
  case (Inl e)
  with triple_Inl [OF create_triple [OF assms(1-7)] refl] assms(10) have "store_has c {} w {} w'" by blast
  from store_kept_data [OF store_inv_kept [OF store_has_inv [OF this]] _ head_apart] Inl show ?thesis by simp
next
  case (Inr id0)
  with triple_Inr [OF create_triple [OF assms(1-7)] refl] assms(10) have "snapshot_done c w msg actor id0 w'" by blast
  then obtain m b where "file_data (entries w' (head_path (snd c))) = Some (hash_hex (fst c) id0)" "manifests c w' id0 \<noteq> None"
      "serialize (fst c) m = Inr b" "id0 = hash_bytes (fst c) b"
      "taken c w msg actor (patterns_at (snd c) w) ts m"
      "\<forall>f \<in> set (m_files m). \<forall>h \<in> set (fe_chunks f). objects c w' h \<noteq> None"
      "\<forall>s. file_data (entries w (head_path (snd c))) = Some s \<longrightarrow> utf8_valid s \<longrightarrow> parse_head (fst c) s = Inr (m_parent m)"
    using assms(8,9) unfolding snapshot_done_def by blast
  with Inr show ?thesis
    by (simp only: sum.case, intro conjI exI [of _ m] exI [of _ b]) (simp_all add: taken_def)
qed

theorem snapshot_is_worktree_witness:
  "\<exists>r w'. create_from_actor ref_snap_crates [] [] ''m'' None demo_tree = (r, w') \<and> (case r of
      Inl _ \<Rightarrow> file_data (entries w' (head_path [])) = Some []
    | Inr id0 \<Rightarrow> (\<exists>m b. serialize ref_snap_crates m = Inr b \<and> id0 = hash_bytes ref_snap_crates b
          \<and> entry_of ref_snap_crates [''a''] ''hello'' 0x1A4 5 \<in> set (m_files m)))"
proof -
  obtain r w' where run: "create_from_actor ref_snap_crates [] [] ''m'' None demo_tree = (r, w')" by fastforce
  have "create_from_actor (fst snap_sel) (snd snap_sel) (snd snap_sel) ''m'' None demo_tree = (r, w')" using run by simp
  note * = snapshot_is_worktree [OF _ _ _ demo_tree_ok _ _ demo_tree_facts(3,4) this]
  have h: "file_data (entries demo_tree (head_path [])) = Some []"
    by (simp add: demo_tree_entries demo_entries demo_fs_def head_path_def fabric_dir_def FABRIC_DIR_def)
  have "wanted_file snap_sel demo_tree (patterns_at [] demo_tree) [] [''a''] ''hello'' 0x1A4 5"
    unfolding demo_tree_patterns
    by (simp add: wanted_file_def demo_tree_entries excluded_def FABRIC_DIR_def ignored_def)
  moreover have "case r of
      Inl _ \<Rightarrow> file_data (entries w' (head_path [])) = Some []
    | Inr id0 \<Rightarrow> (\<exists>m b. serialize ref_snap_crates m = Inr b \<and> id0 = hash_bytes ref_snap_crates b
        \<and> (\<forall>fe. fe \<in> set (m_files m) \<longleftrightarrow> (\<exists>rel d mode t.
                wanted_file snap_sel demo_tree (patterns_at [] demo_tree) [] rel d mode t
                \<and> fe = entry_of ref_snap_crates rel d mode t)))"
    using * by (cases r) (simp_all add: ref_snap_facts demo_tree_facts h, blast)
  ultimately show ?thesis using run by (intro exI [of _ r] exI [of _ w']) (cases r; simp; blast)
qed

text \<open>C4: Whatever fails or is interrupted while a snapshot is taken, the worktree is untouched, no object
  or manifest of the store is lost, everything stored carries its hash, and HEAD either says
  what it said before or names a manifest that is stored with all its chunks.\<close>

theorem snapshot_crash_safe:
  fixes c :: "('z) snap_crates_scheme \<times> path"
  assumes "cdc_ok (fst c)" "walk_ok (fst c)" "tombstone_json_ok (fst c)" "objects_ok c w" "manifests_ok c w"
    and "entries w (snd c) = Some Dir" "no_dotdot (snd c) w"
    and "create_from_actor (fst c) (snd c) (snd c) msg actor w = (r, w')"
  shows "(\<forall>p. \<not> prefix (home c) p \<longrightarrow> \<not> prefix p (home c) \<longrightarrow> entries w' p = entries w p)
    \<and> objects_ok c w' \<and> manifests_ok c w'
    \<and> (\<forall>h. objects c w h \<noteq> None \<longrightarrow> objects c w' h \<noteq> None)
    \<and> (\<forall>h. manifests c w h \<noteq> None \<longrightarrow> manifests c w' h \<noteq> None)
    \<and> (file_data (entries w' (head_path (snd c))) = file_data (entries w (head_path (snd c)))
       \<or> (\<exists>id0 m b. file_data (entries w' (head_path (snd c))) = Some (hash_hex (fst c) id0)
           \<and> serialize (fst c) m = Inr b \<and> hash_bytes (fst c) b = id0 \<and> manifests c w' id0 \<noteq> None
           \<and> (\<forall>fe \<in> set (m_files m). \<forall>h \<in> set (fe_chunks fe). objects c w' h \<noteq> None)))"
proof -
  have i: "store_inv c {head_path (snd c)} w w'
    \<and> (file_data (entries w' (head_path (snd c))) = file_data (entries w (head_path (snd c)))
       \<or> (\<exists>id0 m b. file_data (entries w' (head_path (snd c))) = Some (hash_hex (fst c) id0)
           \<and> serialize (fst c) m = Inr b \<and> hash_bytes (fst c) b = id0 \<and> manifests c w' id0 \<noteq> None
           \<and> (\<forall>fe \<in> set (m_files m). \<forall>h \<in> set (fe_chunks fe). objects c w' h \<noteq> None)))"
  proof (cases r)
    case (Inl e)
    with triple_Inl [OF create_triple [OF assms(1-7)] refl] assms(8) have "store_has c {} w {} w'" by blast
    then have s: "store_inv c {} w w'" by (rule store_has_inv)
    then have "store_inv c {head_path (snd c)} w w'"
      by (auto simp: store_inv_def store_kept_def intro: evolves_mono)
    with store_kept_data [OF store_inv_kept [OF s] _ head_apart] show ?thesis by simp
  next
    case (Inr id0)
    with triple_Inr [OF create_triple [OF assms(1-7)] refl] assms(8) have "snapshot_done c w msg actor id0 w'" by blast
    then show ?thesis unfolding snapshot_done_def by blast
  qed
  then have "store_inv c {head_path (snd c)} w w'" by blast
  note o = store_kept_outside [OF store_inv_kept [OF this]]
  from i o show ?thesis by (simp add: store_inv_def)
qed

theorem snapshot_crash_safe_witness:
  "\<exists>r w'. create_from_actor ref_snap_crates [] [] ''m'' None (demo_tree\<lparr>wfault := (\<lambda>n. if n = 9 then Some (NotFound, 2) else None)\<rparr>) = (r, w')
     \<and> objects_ok snap_sel w' \<and> entries w' [''a''] = Some (File ''hello'' 0x1A4 5)"
proof -
  let ?w = "demo_tree\<lparr>wfault := (\<lambda>n. if n = 9 then Some (NotFound, 2) else None)\<rparr>"
  obtain r w' where run: "create_from_actor (fst snap_sel) (snd snap_sel) (snd snap_sel) ''m'' None ?w = (r, w')" by fastforce
  have e: "entries ?w = entries demo_tree" by (simp add: entries_def fun_eq_iff)
  have "objects_ok snap_sel ?w" "manifests_ok snap_sel ?w"
    using demo_tree_ok
    by (simp_all add: objects_ok_def manifests_ok_def objects_def manifests_def store_base_def sound_def quiet_def entries_def)
  from snapshot_crash_safe [OF _ _ _ this _ _ run] show ?thesis
    using run demo_tree_facts by (auto simp: ref_snap_facts e no_dotdot_def home_def fabric_dir_def FABRIC_DIR_def demo_tree_entries)
qed

end
