(* ===== verification/Drift.thy ===== *)
theory Drift
  imports Tree_Reads
begin

text \<open>
  \<open>src/drift.rs\<close>: comparing the live worktree with a manifest. The loop over the
  traversal carries the set of paths seen and the report.
\<close>

section \<open>The report\<close>

record drift_report =
  dr_added :: "string list"
  dr_modified :: "string list"
  dr_deleted :: "string list"
  dr_touched :: "string list"

definition empty_drift :: drift_report where
  "empty_drift = \<lparr>dr_added = [], dr_modified = [], dr_deleted = [], dr_touched = []\<rparr>"

definition drift_clean :: "drift_report \<Rightarrow> bool" where
  "drift_clean r \<longleftrightarrow> dr_added r = [] \<and> dr_modified r = [] \<and> dr_deleted r = [] \<and> dr_touched r = []"

section \<open>Detection\<close>

definition file_hash :: "('z) snap_crates_scheme \<Rightarrow> path \<Rightarrow> hash io" where
  "file_hash C p = andThen (p_read p) (\<lambda>d. ok (blake3 C (fst (hash_loop [] 0 d))))"

definition drift_excluded :: "path \<Rightarrow> bool" where
  "drift_excluded rel \<longleftrightarrow> list_ex (\<lambda>c. c = FABRIC_DIR \<or> c = ''.git'' \<or> c = ''.DS_Store'') rel"

definition drift_patterns :: "path \<Rightarrow> string list io" where
  "drift_patterns root =
     andThen (attempt (p_read_to_string (root @ [''.fabricignore'']))) (\<lambda>r.
     ok (filter (\<lambda>l. l \<noteq> [] \<and> take 1 l \<noteq> ''#'')
           (map trim (text_lines (case r of Inr s \<Rightarrow> s | Inl _ \<Rightarrow> [])))))"

type_synonym drift_state = "string list \<times> drift_report"

definition drift_entry ::
    "('z) snap_crates_scheme \<Rightarrow> path \<Rightarrow> (string \<Rightarrow> file_entry option) \<Rightarrow> bool \<Rightarrow> string list
       \<Rightarrow> drift_state \<Rightarrow> walk_item \<Rightarrow> drift_state io" where
  "drift_entry C root expected full patterns st item =
     (case (st, item) of
        (_, WalkErr _) \<Rightarrow> ok st
      | ((seen, rep), WalkItem rel ft) \<Rightarrow>
          (let rel_str = rel_string rel; p = root @ rel in
           if ft \<noteq> FtFile then ok st
           else if drift_excluded rel then ok st
           else if ignored patterns rel_str then ok st
           else
             let seen = rel_str # seen in
             andThen (p_symlink_metadata p) (\<lambda>meta.
             case expected rel_str of
               None \<Rightarrow> ok (seen, rep\<lparr>dr_added := dr_added rep @ [rel_str]\<rparr>)
             | Some fe \<Rightarrow>
                 (let (secs, nanos) = (case since_epoch (node_mtime meta) of Some d \<Rightarrow> d | None \<Rightarrow> (0, 0)) in
                  if \<not> full \<and> of_nat (node_len meta) = fe_size fe \<and> secs = fe_mtime_secs fe
                      \<and> nanos = fe_mtime_nanos fe
                  then ok (seen, rep)
                  else
                    andThen (file_hash C p) (\<lambda>h.
                    if h \<noteq> fe_content fe then ok (seen, rep\<lparr>dr_modified := dr_modified rep @ [rel_str]\<rparr>)
                    else ok (seen, rep\<lparr>dr_touched := dr_touched rep @ [rel_str]\<rparr>))))))"

definition finish_drift :: "string list \<Rightarrow> string list \<Rightarrow> drift_report \<Rightarrow> drift_report" where
  "finish_drift keys seen rep =
     \<lparr>dr_added = sort (dr_added rep), dr_modified = sort (dr_modified rep),
      dr_deleted = sort (dr_deleted rep @ filter (\<lambda>p. p \<notin> set seen) keys),
      dr_touched = sort (dr_touched rep)\<rparr>"

definition detect :: "('z) snap_crates_scheme \<Rightarrow> path \<Rightarrow> manifest \<Rightarrow> bool \<Rightarrow> drift_report io" where
  "detect C root m full =
     andThen (drift_patterns root) (\<lambda>patterns.
     andThen (p_walk C True root) (\<lambda>items.
     andThen (foldIO (drift_entry C root (by_path (m_files m)) full patterns) ([], empty_drift) items) (\<lambda>(seen, rep).
     ok (finish_drift (paths (m_files m)) seen rep))))"

section \<open>The specification\<close>

text \<open>What is to be said of one entry of the worktree, its path first.\<close>

datatype change = Added | Modified | Touched | Unchanged

definition verdict ::
    "('z) snap_crates_scheme \<Rightarrow> (string \<Rightarrow> file_entry option) \<Rightarrow> bool \<Rightarrow> string \<Rightarrow> bytes \<Rightarrow> int \<Rightarrow> change" where
  "verdict C expected full p d t =
     (case expected p of
        None \<Rightarrow> Added
      | Some fe \<Rightarrow>
          if \<not> full \<and> of_nat (length d) = fe_size fe
             \<and> (case since_epoch t of Some x \<Rightarrow> x | None \<Rightarrow> (0, 0)) = (fe_mtime_secs fe, fe_mtime_nanos fe)
          then Unchanged
          else if hash_bytes C d = fe_content fe then Touched else Modified)"

definition judge ::
    "('z) snap_crates_scheme \<Rightarrow> path \<Rightarrow> world \<Rightarrow> (string \<Rightarrow> file_entry option) \<Rightarrow> bool \<Rightarrow> string list
       \<Rightarrow> walk_item \<Rightarrow> (string \<times> change) option" where
  "judge C root w expected full pats item =
     (case item of
        WalkItem rel FtFile \<Rightarrow>
          (case entries w (root @ rel) of
             Some (File d m t) \<Rightarrow>
               if drift_excluded rel \<or> ignored pats (rel_string rel) then None
               else Some (rel_string rel, verdict C expected full (rel_string rel) d t)
           | _ \<Rightarrow> None)
      | _ \<Rightarrow> None)"

definition drift_of :: "(string \<times> change) list \<Rightarrow> drift_report" where
  "drift_of js = (let f = (\<lambda>k. map fst (filter (\<lambda>j. snd j = k) js)) in
     \<lparr>dr_added = f Added, dr_modified = f Modified, dr_deleted = [], dr_touched = f Touched\<rparr>)"

definition drifted ::
    "('z) snap_crates_scheme \<Rightarrow> path \<Rightarrow> world \<Rightarrow> (string \<Rightarrow> file_entry option) \<Rightarrow> bool \<Rightarrow> string list
       \<Rightarrow> walk_item list \<Rightarrow> drift_state \<Rightarrow> bool" where
  "drifted C root w expected full pats pre st \<longleftrightarrow>
     (let js = List.map_filter (judge C root w expected full pats) pre in
      st = (rev (map fst js), drift_of js))"

lemma drift_of_snoc:
  "drift_of (js @ [(p, k)]) = (let rep = drift_of js in
     case k of Added \<Rightarrow> rep\<lparr>dr_added := dr_added rep @ [p]\<rparr>
       | Modified \<Rightarrow> rep\<lparr>dr_modified := dr_modified rep @ [p]\<rparr>
       | Touched \<Rightarrow> rep\<lparr>dr_touched := dr_touched rep @ [p]\<rparr>
       | Unchanged \<Rightarrow> rep)"
  by (cases k) (simp_all add: drift_of_def Let_def)

lemma drift_of_Nil [simp]: "drift_of [] = empty_drift"
  by (simp add: drift_of_def empty_drift_def Let_def)

lemma still_file_hash:
  assumes "tree_ok root w0" "entries w0 (root @ rel) = Some (File d m t)"
  shows "triple (still w0) (file_hash C (root @ rel)) (\<lambda>h w. still w0 w \<and> h = hash_bytes C d) never"
  unfolding file_hash_def
  by (rule triple_value [OF still_read [OF assms]]) (auto intro!: triple_ok simp: hash_loop_eq hash_bytes_def)

lemma drift_entry_triple:
  assumes "tree_ok root w0" "drifted C root w0 expected full pats pre st"
    and "\<And>rel. item = WalkItem rel FtFile \<Longrightarrow> \<exists>d m t. entries w0 (root @ rel) = Some (File d m t)"
  shows "triple (still w0) (drift_entry C root expected full pats st item)
     (\<lambda>st' w. still w0 w \<and> drifted C root w0 expected full pats (pre @ [item]) st') never"
proof -
  let ?js = "List.map_filter (judge C root w0 expected full pats) pre"
  have st: "st = (rev (map fst ?js), drift_of ?js)" using assms(2) by (simp add: drifted_def Let_def)
  show ?thesis
  proof (cases "judge C root w0 expected full pats item")
    case None
    then have "drifted C root w0 expected full pats (pre @ [item]) st" by (simp add: drifted_def map_filter_snoc st Let_def)
    moreover have "drift_entry C root expected full pats st item = ok st"
      using None assms(3)
      by (auto simp: drift_entry_def judge_def Let_def st split: walk_item.splits option.splits node.splits if_splits file_type.splits)
    ultimately show ?thesis by (auto intro: triple_ok)
  next
    case (Some j)
    then obtain rel d m t where f: "item = WalkItem rel FtFile" "entries w0 (root @ rel) = Some (File d m t)"
      "\<not> drift_excluded rel" "\<not> ignored pats (rel_string rel)"
      "j = (rel_string rel, verdict C expected full (rel_string rel) d t)"
      by (auto simp: judge_def split: walk_item.splits option.splits node.splits if_splits file_type.splits)
    obtain secs nanos where sn: "(case since_epoch t of Some x \<Rightarrow> x | None \<Rightarrow> (0, 0)) = (secs, nanos)"
      by (metis prod.exhaust)
    have goal: "drifted C root w0 expected full pats (pre @ [item]) (rel_string rel # rev (map fst ?js), rep)"
      if "rep = drift_of (?js @ [j])" for rep
      using that Some by (simp add: drifted_def map_filter_snoc f(5) Let_def)
    let ?next = "\<lambda>st' w. still w0 w \<and> drifted C root w0 expected full pats (pre @ [item]) st'"
    let ?seen = "rel_string rel # rev (map fst ?js)"
    have end_: "triple (still w0) (ok (?seen, rep)) ?next never" if "rep = drift_of (?js @ [j])" for rep
      using goal [OF that] by (auto intro: triple_ok)
    let ?tail = "\<lambda>meta. case expected (rel_string rel) of
        None \<Rightarrow> ok (?seen, (drift_of ?js)\<lparr>dr_added := dr_added (drift_of ?js) @ [rel_string rel]\<rparr>)
      | Some fe \<Rightarrow> (let (secs, nanos) = (case since_epoch (node_mtime meta) of Some d \<Rightarrow> d | None \<Rightarrow> (0, 0)) in
          if \<not> full \<and> of_nat (node_len meta) = fe_size fe \<and> secs = fe_mtime_secs fe \<and> nanos = fe_mtime_nanos fe
          then ok (?seen, drift_of ?js)
          else andThen (file_hash C (root @ rel)) (\<lambda>h.
            if h \<noteq> fe_content fe
            then ok (?seen, (drift_of ?js)\<lparr>dr_modified := dr_modified (drift_of ?js) @ [rel_string rel]\<rparr>)
            else ok (?seen, (drift_of ?js)\<lparr>dr_touched := dr_touched (drift_of ?js) @ [rel_string rel]\<rparr>)))"
    have eq: "drift_entry C root expected full pats st item = andThen (p_symlink_metadata (root @ rel)) ?tail"
      using f(3,4) by (simp add: drift_entry_def st f(1) Let_def)
    have tail: "triple (still w0) (?tail (File d m t)) ?next never"
    proof (cases "expected (rel_string rel)")
      case None
      then have "verdict C expected full (rel_string rel) d t = Added" by (simp add: verdict_def)
      then show ?thesis unfolding None option.case by (intro end_) (simp add: f(5) drift_of_snoc Let_def)
    next
      case (Some fe)
      let ?skip = "\<not> full \<and> of_nat (length d) = fe_size fe \<and> secs = fe_mtime_secs fe \<and> nanos = fe_mtime_nanos fe"
      show ?thesis
      proof (cases ?skip)
        case True
        with Some sn have "verdict C expected full (rel_string rel) d t = Unchanged" by (simp add: verdict_def)
        then have "drift_of (?js @ [j]) = drift_of ?js" by (simp add: f(5) drift_of_snoc Let_def)
        then have "triple (still w0) (ok (?seen, drift_of ?js)) ?next never" by (intro end_) simp
        then show ?thesis unfolding Some option.case Let_def node_mtime.simps sn prod.case node_len.simps if_P [OF True] .
      next
        case False
        have "triple (still w0) (andThen (file_hash C (root @ rel)) (\<lambda>h.
            if h \<noteq> fe_content fe
            then ok (?seen, (drift_of ?js)\<lparr>dr_modified := dr_modified (drift_of ?js) @ [rel_string rel]\<rparr>)
            else ok (?seen, (drift_of ?js)\<lparr>dr_touched := dr_touched (drift_of ?js) @ [rel_string rel]\<rparr>))) ?next never"
        proof (rule triple_value [OF still_file_hash [OF assms(1) f(2)]], rule triple_if; rule end_)
          assume "hash_bytes C d \<noteq> fe_content fe"
          with False Some sn have "verdict C expected full (rel_string rel) d t = Modified" by (auto simp: verdict_def)
          then show "(drift_of ?js)\<lparr>dr_modified := dr_modified (drift_of ?js) @ [rel_string rel]\<rparr> = drift_of (?js @ [j])"
            by (simp add: f(5) drift_of_snoc Let_def)
        next
          assume "\<not> hash_bytes C d \<noteq> fe_content fe"
          with False Some sn have "verdict C expected full (rel_string rel) d t = Touched" by (auto simp: verdict_def)
          then show "(drift_of ?js)\<lparr>dr_touched := dr_touched (drift_of ?js) @ [rel_string rel]\<rparr> = drift_of (?js @ [j])"
            by (simp add: f(5) drift_of_snoc Let_def)
        qed
        then show ?thesis unfolding Some option.case Let_def node_mtime.simps sn prod.case node_len.simps if_not_P [OF False] .
      qed
    qed
    have nl: "\<not> is_link (Some (File d m t))" by simp
    show ?thesis unfolding eq by (rule triple_value [OF still_stat [OF assms(1) f(2) nl]], rule tail)
  qed
qed

lemma drift_patterns_triple:
  assumes "calm w0"
  shows "triple (still w0) (drift_patterns root) (\<lambda>p w. still w0 w \<and> p = patterns_at root w0) never"
  unfolding drift_patterns_def p_read_to_string_def
  by (rule triple_value [OF still_attempt [OF assms]], rule triple_ok)
    (simp add: patterns_at_def parse_patterns_def split: sum.split)

text \<open>The files that drift is about.\<close>

definition tracked :: "path \<Rightarrow> world \<Rightarrow> path \<Rightarrow> bytes \<Rightarrow> 32 word \<Rightarrow> int \<Rightarrow> bool" where
  "tracked root w rel d mo t \<longleftrightarrow> entries w (root @ rel) = Some (File d mo t) \<and> \<not> drift_excluded rel
     \<and> \<not> ignored (patterns_at root w) (rel_string rel)"

lemma judged_tree:
  assumes "walk_ok C" "tree_ok root w"
  shows "(p, k) \<in> set (List.map_filter (judge C root w expected full (patterns_at root w)) (walk_dir C b (wfs w) root))
     \<longleftrightarrow> (\<exists>rel d mo t. tracked root w rel d mo t \<and> p = rel_string rel \<and> k = verdict C expected full p d t)"
proof -
  have "judge C root w expected full (patterns_at root w) item = Some (p, k) \<longleftrightarrow>
      (\<exists>rel d mo t. item = WalkItem rel FtFile \<and> tracked root w rel d mo t \<and> p = rel_string rel \<and> k = verdict C expected full p d t)" for item
    by (auto simp: judge_def tracked_def split: walk_item.splits file_type.splits option.splits node.splits)
  moreover have "WalkItem rel FtFile \<in> set (walk_dir C b (wfs w) root)" if "tracked root w rel d mo t" for rel d mo t
    using that by (simp add: walk_tree [OF assms] tracked_def)
  ultimately show ?thesis unfolding set_map_filter by blast
qed

section \<open>Properties\<close>

lemma detect_verdicts:
  fixes m :: manifest and full :: bool
  assumes "walk_ok C" "tree_ok root w"
  defines "found p k \<equiv> \<exists>rel d mo t. tracked root w rel d mo t \<and> p = rel_string rel
      \<and> k = verdict C (by_path (m_files m)) full p d t"
  shows "\<exists>rep w'. detect C root m full w = (Inr rep, w') \<and> wfs w' = wfs w
    \<and> (\<forall>p. p \<in> set (dr_added rep) \<longleftrightarrow> found p Added)
    \<and> (\<forall>p. p \<in> set (dr_modified rep) \<longleftrightarrow> found p Modified)
    \<and> (\<forall>p. p \<in> set (dr_touched rep) \<longleftrightarrow> found p Touched)
    \<and> (\<forall>p. p \<in> set (dr_deleted rep) \<longleftrightarrow> by_path (m_files m) p \<noteq> None \<and> (\<forall>k. \<not> found p k))
    \<and> sorted (dr_added rep) \<and> sorted (dr_modified rep) \<and> sorted (dr_touched rep) \<and> sorted (dr_deleted rep)"
proof -
  let ?items = "walk_dir C True (wfs w) root" and ?pats = "patterns_at root w" and ?by = "by_path (m_files m)"
  let ?js = "List.map_filter (judge C root w ?by full ?pats) ?items"
  let ?I = "\<lambda>pre st x. still w x \<and> drifted C root w ?by full ?pats pre st"
  have cm: "calm w" using assms(2) by (simp add: tree_ok_def)
  have loop: "triple (still w) (foldIO (drift_entry C root ?by full ?pats) ([], empty_drift) ?items)
      (\<lambda>st x. still w x \<and> st = (rev (map fst ?js), drift_of ?js)) never"
  proof (rule triple_conseq [OF triple_foldIO [where I = ?I and X = never]])
    fix pre item rest and st :: drift_state
    assume it: "?items = pre @ item # rest"
    show "triple (?I pre st) (drift_entry C root ?by full ?pats st item) (?I (pre @ [item])) never"
    proof (rule triple_pull)
      show "\<And>x. ?I pre st x \<Longrightarrow> drifted C root w ?by full ?pats pre st" by blast
      assume d: "drifted C root w ?by full ?pats pre st"
      have "\<exists>d m t. entries w (root @ rel) = Some (File d m t)" if "item = WalkItem rel FtFile" for rel
      proof -
        have "WalkItem rel FtFile \<in> set ?items" using that by (simp add: it)
        then show ?thesis using type_of_node_file by (metis walk_tree [OF assms(1,2)])
      qed
      from drift_entry_triple [OF assms(2) d this]
      show "triple (?I pre st) (drift_entry C root ?by full ?pats st item) (?I (pre @ [item])) never"
        by (rule triple_pre) auto
    qed
  qed (auto simp: drifted_def List.map_filter_def Let_def)
  have "triple (still w) (detect C root m full)
      (\<lambda>rep x. still w x \<and> rep = finish_drift (paths (m_files m)) (rev (map fst ?js)) (drift_of ?js)) never"
    unfolding detect_def
    by (rule triple_value [OF drift_patterns_triple [OF cm]], rule triple_value [OF still_walk [OF assms(2)]],
        rule triple_value [OF loop]) (simp add: triple_ok)
  moreover have "still w w" using cm by (simp add: still_def calm_quiet)
  moreover obtain r w' where run: "detect C root m full w = (r, w')" by fastforce
  ultimately obtain rep where rep: "r = Inr rep" "still w w'"
      "rep = finish_drift (paths (m_files m)) (rev (map fst ?js)) (drift_of ?js)"
    by (cases r) (auto dest: triple_Inl triple_Inr)
  have f: "(p, k) \<in> set ?js \<longleftrightarrow> found p k" for p k
    unfolding found_def by (rule judged_tree [OF assms(1,2)])
  then have g: "p \<in> fst ` {j \<in> set ?js. snd j = k} \<longleftrightarrow> found p k" for p k by force
  have h: "p \<in> fst ` set ?js \<longleftrightarrow> (\<exists>k. found p k)" for p using f by force
  show ?thesis
    using run rep(1,2) g h by_path_dom [of "m_files m"]
    by (intro exI [of _ rep] exI [of _ w']) (auto simp: rep(3) finish_drift_def drift_of_def Let_def still_def)
qed

text \<open>The recorded size and modification time are those of the file.\<close>

definition stamped :: "file_entry \<Rightarrow> bytes \<Rightarrow> int \<Rightarrow> bool" where
  "stamped fe d t \<longleftrightarrow> of_nat (length d) = fe_size fe
     \<and> (case since_epoch t of Some x \<Rightarrow> x | None \<Rightarrow> (0, 0)) = (fe_mtime_secs fe, fe_mtime_nanos fe)"

lemma verdict_cases:
  "verdict C by full p d t = Added \<longleftrightarrow> by p = None"
  "verdict C by full p d t = Modified \<longleftrightarrow>
     (\<exists>fe. by p = Some fe \<and> hash_bytes C d \<noteq> fe_content fe \<and> (full \<or> \<not> stamped fe d t))"
  "verdict C by full p d t = Touched \<longleftrightarrow>
     (\<exists>fe. by p = Some fe \<and> hash_bytes C d = fe_content fe \<and> (full \<or> \<not> stamped fe d t))"
  by (auto simp: verdict_def stamped_def split: option.splits)

text \<open>C9: In a worktree at rest \<open>detect\<close> succeeds, changes nothing and reports the drift. For the regular
  files that are neither excluded nor ignored: a path is added exactly when the manifest does not
  have it, and deleted exactly when the manifest has it and there is no such file. With \<open>full\<close> a
  path is modified exactly when the content differs from the recorded one, whatever the size and
  time say; without it, when they differ too. A touched path always has the recorded content, and
  without \<open>full\<close> the touched ones are exactly those whose size or time, but not content, has changed.
  (Which further files of unchanged content \<open>full\<close> lists as touched is left open.) Every list is
  sorted.\<close>

theorem detect_exact:
  fixes m :: manifest and full :: bool
  assumes "walk_ok C" "tree_ok root w"
  defines "has p d t \<equiv> \<exists>rel mo. tracked root w rel d mo t \<and> p = rel_string rel"
    and "same d fe \<equiv> hash_bytes C d = fe_content fe"
  shows "\<exists>rep w'. detect C root m full w = (Inr rep, w') \<and> wfs w' = wfs w
    \<and> (\<forall>p. p \<in> set (dr_added rep) \<longleftrightarrow> (\<exists>d t. has p d t) \<and> by_path (m_files m) p = None)
    \<and> (\<forall>p. p \<in> set (dr_deleted rep) \<longleftrightarrow> by_path (m_files m) p \<noteq> None \<and> \<not> (\<exists>d t. has p d t))
    \<and> (\<forall>p. p \<in> set (dr_modified rep) \<longleftrightarrow>
          (\<exists>d t fe. has p d t \<and> by_path (m_files m) p = Some fe \<and> \<not> same d fe \<and> (full \<or> \<not> stamped fe d t)))
    \<and> (\<forall>p. p \<in> set (dr_touched rep) \<longrightarrow> (\<exists>d t fe. has p d t \<and> by_path (m_files m) p = Some fe \<and> same d fe))
    \<and> (\<not> full \<longrightarrow> (\<forall>p. p \<in> set (dr_touched rep) \<longleftrightarrow>
          (\<exists>d t fe. has p d t \<and> by_path (m_files m) p = Some fe \<and> same d fe \<and> \<not> stamped fe d t)))
    \<and> sorted (dr_added rep) \<and> sorted (dr_modified rep) \<and> sorted (dr_touched rep) \<and> sorted (dr_deleted rep)"
proof -
  let ?f = "\<lambda>p k. \<exists>rel d mo t. tracked root w rel d mo t \<and> p = rel_string rel
      \<and> k = verdict C (by_path (m_files m)) full p d t"
  have f: "?f p k \<longleftrightarrow> (\<exists>d t. has p d t \<and> verdict C (by_path (m_files m)) full p d t = k)" for p k
    unfolding has_def by blast
  obtain rep w' where d: "detect C root m full w = (Inr rep, w')" "wfs w' = wfs w"
    "\<forall>p. p \<in> set (dr_added rep) \<longleftrightarrow> ?f p Added" "\<forall>p. p \<in> set (dr_modified rep) \<longleftrightarrow> ?f p Modified"
    "\<forall>p. p \<in> set (dr_touched rep) \<longleftrightarrow> ?f p Touched"
    "\<forall>p. p \<in> set (dr_deleted rep) \<longleftrightarrow> by_path (m_files m) p \<noteq> None \<and> (\<forall>k. \<not> ?f p k)"
    "sorted (dr_added rep)" "sorted (dr_modified rep)" "sorted (dr_touched rep)" "sorted (dr_deleted rep)"
    using detect_verdicts [OF assms(1,2), of m full] by (elim exE conjE) (rule that; assumption)
  have ad: "p \<in> set (dr_added rep) \<longleftrightarrow> (\<exists>d t. has p d t) \<and> by_path (m_files m) p = None" for p
    unfolding d(3) [rule_format] f verdict_cases by simp
  have mo: "p \<in> set (dr_modified rep) \<longleftrightarrow>
      (\<exists>d t fe. has p d t \<and> by_path (m_files m) p = Some fe \<and> \<not> same d fe \<and> (full \<or> \<not> stamped fe d t))" for p
    unfolding d(4) [rule_format] f verdict_cases same_def by simp
  have to: "p \<in> set (dr_touched rep) \<longleftrightarrow>
      (\<exists>d t fe. has p d t \<and> by_path (m_files m) p = Some fe \<and> same d fe \<and> (full \<or> \<not> stamped fe d t))" for p
    unfolding d(5) [rule_format] f verdict_cases same_def by simp
  have de: "p \<in> set (dr_deleted rep) \<longleftrightarrow> by_path (m_files m) p \<noteq> None \<and> \<not> (\<exists>d t. has p d t)" for p
    unfolding d(6) [rule_format] f by blast
  show ?thesis
  proof (intro exI [of _ rep] exI [of _ w'] conjI allI impI)
    show "detect C root m full w = (Inr rep, w')" "wfs w' = wfs w" by (fact d)+
    show "sorted (dr_added rep)" "sorted (dr_modified rep)" "sorted (dr_touched rep)" "sorted (dr_deleted rep)" by (fact d)+
    fix p
    show "p \<in> set (dr_added rep) \<longleftrightarrow> (\<exists>d t. has p d t) \<and> by_path (m_files m) p = None" by (rule ad)
    show "p \<in> set (dr_deleted rep) \<longleftrightarrow> by_path (m_files m) p \<noteq> None \<and> \<not> (\<exists>d t. has p d t)" by (rule de)
    show "p \<in> set (dr_modified rep) \<longleftrightarrow>
        (\<exists>d t fe. has p d t \<and> by_path (m_files m) p = Some fe \<and> \<not> same d fe \<and> (full \<or> \<not> stamped fe d t))" by (rule mo)
    show "\<exists>d t fe. has p d t \<and> by_path (m_files m) p = Some fe \<and> same d fe" if "p \<in> set (dr_touched rep)"
      using that unfolding to by blast
    show "p \<in> set (dr_touched rep) \<longleftrightarrow>
        (\<exists>d t fe. has p d t \<and> by_path (m_files m) p = Some fe \<and> same d fe \<and> \<not> stamped fe d t)" if "\<not> full"
      using that unfolding to by blast
  qed
qed

theorem detect_exact_witness:
  "\<exists>rep w'. detect ref_snap_crates [] (demo_manifest [demo_file ''b'' []]) True demo_tree = (Inr rep, w')
     \<and> ''a'' \<in> set (dr_added rep) \<and> ''b'' \<in> set (dr_deleted rep)"
proof -
  let ?m = "demo_manifest [demo_file ''b'' []]"
  let ?has = "\<lambda>p d t. \<exists>rel mo. tracked [] demo_tree rel d mo t \<and> p = rel_string rel"
  have by_p: "by_path (m_files ?m) ''a'' = None" "by_path (m_files ?m) ''b'' \<noteq> None"
    by (simp_all add: by_path_def demo_manifest_def demo_file_def)
  have a: "rel_string [''a''] = ''a''" by (simp add: rel_string_def replace_char_def)
  have t: "rel = [''a'']" if "tracked [] demo_tree rel d mo t" for rel d mo t
    using that by (auto simp: tracked_def demo_tree_entries demo_entries demo_fs_def split: if_splits)
      (auto simp: drift_excluded_def FABRIC_DIR_def)
  have t': "tracked [] demo_tree [''a''] ''hello'' 0x1A4 5"
    by (simp add: tracked_def demo_tree_entries demo_tree_patterns drift_excluded_def FABRIC_DIR_def ignored_def)
  obtain rep w' where run: "detect ref_snap_crates [] ?m True demo_tree = (Inr rep, w')"
    and ad: "\<forall>p. p \<in> set (dr_added rep) \<longleftrightarrow> (\<exists>d t. ?has p d t) \<and> by_path (m_files ?m) p = None"
    and de: "\<forall>p. p \<in> set (dr_deleted rep) \<longleftrightarrow> by_path (m_files ?m) p \<noteq> None \<and> \<not> (\<exists>d t. ?has p d t)"
    using detect_exact [OF ref_snap_facts(5) demo_tree_tree, of ?m True] by (elim exE conjE) (rule that; assumption)
  have "\<exists>d t. ?has ''a'' d t" using t' a by metis
  then have "''a'' \<in> set (dr_added rep)" using ad by_p(1) by simp
  moreover have "\<not> (\<exists>d t. ?has ''b'' d t)" using t a by fastforce
  then have "''b'' \<in> set (dr_deleted rep)" using de by_p(2) by simp
  ultimately show ?thesis using run by blast
qed

end
