(* ===== verification/Revert.thy ===== *)
theory Revert
  imports Drift
begin

text \<open>
  \<open>src/revert.rs\<close>: materializing a manifest into the worktree, the gate that refuses to
  destroy unsaved work, and the manifest that undoes one actor.
\<close>

section \<open>The report\<close>

record revert_report =
  rr_restored :: "string list"
  rr_removed :: "string list"
  rr_skipped_extra :: "string list"

definition empty_revert :: revert_report where
  "empty_revert = \<lparr>rr_restored = [], rr_removed = [], rr_skipped_extra = []\<rparr>"

definition revert_excluded :: "path \<Rightarrow> bool" where
  "revert_excluded rel \<longleftrightarrow> list_ex (\<lambda>c. c = FABRIC_DIR \<or> c = ''.git'' \<or> c = ''.DS_Store'') rel"

definition set_mode :: "path \<Rightarrow> 32 word \<Rightarrow> unit io" where
  "set_mode p mode = p_set_mode p (and mode 0x1FF)"

section \<open>The destination of a path\<close>

text \<open>\<open>Path::display\<close> of an absolute path.\<close>

definition path_string :: "path \<Rightarrow> string" where
  "path_string p = slash # join_with [slash] p"

fun check_ancestors :: "string \<Rightarrow> path \<Rightarrow> string list \<Rightarrow> unit io" where
  "check_ancestors rel cur [] = ok ()"
| "check_ancestors rel cur [c] = ok ()"
| "check_ancestors rel cur (c # d # cs) =
     (let cur = cur @ [c] in
      andThen (attempt (p_symlink_metadata cur)) (\<lambda>r.
      case r of
        Inr (Symlink _ _) \<Rightarrow> fail (UnsafePath (rel @ '' passes through symlink '' @ path_string cur))
      | Inr Dir \<Rightarrow> check_ancestors rel cur (d # cs)
      | Inr (File _ _ _) \<Rightarrow> fail (UnsafePath (rel @ '' blocked by non-directory '' @ path_string cur))
      | Inl e \<Rightarrow> if e = Io NotFound then check_ancestors rel cur (d # cs) else fail e))"

definition resolve_dest :: "path \<Rightarrow> string \<Rightarrow> path io" where
  "resolve_dest root rel =
     andThen (lift (sanitize_rel rel)) (\<lambda>comps.
     andThen (check_ancestors rel root comps) (\<lambda>_.
     ok (root @ comps)))"

section \<open>Materializing\<close>

definition drift_file_hash :: "('z) snap_crates_scheme \<Rightarrow> path \<Rightarrow> hash io" where
  "drift_file_hash C p = andThen (p_read p) (\<lambda>d. ok (blake3 C d))"

definition needs_write :: "('z) snap_crates_scheme \<Rightarrow> path \<Rightarrow> hash \<Rightarrow> bool io" where
  "needs_write C dest content =
     andThen (attempt (p_symlink_metadata dest)) (\<lambda>r.
     case r of
       Inr (File _ _ _) \<Rightarrow> andThen (drift_file_hash C dest) (\<lambda>h. ok (h \<noteq> content))
     | _ \<Rightarrow> ok True)"

definition write_chunks :: "('z) snap_crates_scheme \<Rightarrow> path \<Rightarrow> path \<Rightarrow> hash list \<Rightarrow> bytes io" where
  "write_chunks C root out chunks =
     foldIO (\<lambda>fed ch.
       andThen (get_object C root ch) (\<lambda>data.
       andThen (p_write_all out data) (\<lambda>_.
       ok (fed @ data)))) [] chunks"

text \<open>Staging a file next to the objects and moving it to its place.\<close>

definition place_file ::
    "('z) snap_crates_scheme \<Rightarrow> path \<Rightarrow> path \<Rightarrow> revert_report \<Rightarrow> file_entry \<Rightarrow> path \<Rightarrow> revert_report io" where
  "place_file C store_root dest rep fe tmp =
     andThen (p_create_new 0x1A4 tmp) (\<lambda>out.
     andThen (write_chunks C store_root out (fe_chunks fe)) (\<lambda>fed.
     if blake3 C fed \<noteq> fe_content fe then
       andThen (attempt (p_remove_file tmp)) (\<lambda>_.
       fail (Corrupt (''reconstructed content mismatch for '' @ fe_path fe)))
     else
       andThen (p_sync_all out) (\<lambda>_.
       andThen (p_rename tmp dest) (\<lambda>_.
       andThen (set_mode dest (fe_mode fe)) (\<lambda>_.
       ok (rep\<lparr>rr_restored := rr_restored rep @ [fe_path fe]\<rparr>))))))"

definition restore_file :: "('z) snap_crates_scheme \<Rightarrow> path \<Rightarrow> path \<Rightarrow> revert_report \<Rightarrow> file_entry \<Rightarrow> revert_report io" where
  "restore_file C store_root root rep fe =
     andThen (resolve_dest root (fe_path fe)) (\<lambda>dest.
     andThen (p_create_dir_all (butlast dest)) (\<lambda>_.
     andThen (needs_write C dest (fe_content fe)) (\<lambda>needed.
     if \<not> needed then ok rep
     else
       andThen (tmp_path (fabric_dir store_root @ [''tmp'']) ''revert'') (\<lambda>tmp.
       place_file C store_root dest rep fe tmp))))"

definition extra_entry :: "path \<Rightarrow> string set \<Rightarrow> bool \<Rightarrow> revert_report \<Rightarrow> walk_item \<Rightarrow> revert_report io" where
  "extra_entry root wanted keep_extra rep item =
     (case item of
        WalkErr _ \<Rightarrow> ok rep
      | WalkItem rel ft \<Rightarrow>
          (let rel_str = rel_string rel in
           if ft = FtDir then ok rep
           else if revert_excluded rel then ok rep
           else if rel_str \<in> wanted then ok rep
           else if keep_extra then ok (rep\<lparr>rr_skipped_extra := rr_skipped_extra rep @ [rel_str]\<rparr>)
           else
             andThen (p_remove_file (root @ rel)) (\<lambda>_.
             ok (rep\<lparr>rr_removed := rr_removed rep @ [rel_str]\<rparr>))))"

definition prune_empty_dirs :: "('z) snap_crates_scheme \<Rightarrow> path \<Rightarrow> unit io" where
  "prune_empty_dirs C root =
     andThen (p_walk C False root) (\<lambda>items.
     (let dirs = [rel. WalkItem rel ft \<leftarrow> items, ft = FtDir, rel \<noteq> []] in
      foldIO (\<lambda>_ rel.
        if revert_excluded rel then ok ()
        else andThen (attempt (p_remove_dir (root @ rel))) (\<lambda>_. ok ()))
        () (sort_key (\<lambda>rel. - int (length rel)) dirs)))"

definition purged_entry :: "('z) snap_crates_scheme \<Rightarrow> tombstone list \<Rightarrow> file_entry \<Rightarrow> bool" where
  "purged_entry C tombs fe \<longleftrightarrow>
     list_ex (\<lambda>t. t_path t = fe_path fe \<or> t_content t = hash_hex C (fe_content fe)) tombs"

definition refuse_purged :: "('z) snap_crates_scheme \<Rightarrow> tombstone list \<Rightarrow> file_entry list \<Rightarrow> error + unit" where
  "refuse_purged C tombs fs =
     (case List.find (purged_entry C tombs) fs of
        Some fe \<Rightarrow> Inl (Corrupt (''manifest contains purged content ('' @ fe_path fe @ '') '' @ emdash
                      @ '' erasure cannot be reverted''))
      | None \<Rightarrow> Inr ())"

definition revert_apply ::
    "('z) snap_crates_scheme \<Rightarrow> path \<Rightarrow> path \<Rightarrow> manifest \<Rightarrow> bool \<Rightarrow> revert_report io" where
  "revert_apply C store_root root m keep_extra =
     andThen (lift (validate m)) (\<lambda>_.
     andThen (tombstones C store_root) (\<lambda>tombs.
     andThen (lift (refuse_purged C tombs (m_files m))) (\<lambda>_.
     andThen (p_create_dir_all (fabric_dir store_root @ [''tmp''])) (\<lambda>_.
     andThen (foldIO (restore_file C store_root root) empty_revert (m_files m)) (\<lambda>rep.
     andThen (p_walk C True root) (\<lambda>items.
     andThen (foldIO (extra_entry root (fe_path ` set (m_files m)) keep_extra) rep items) (\<lambda>rep.
     andThen (prune_empty_dirs C root) (\<lambda>_.
     ok rep))))))))"

section \<open>The gate\<close>

definition empty_manifest :: manifest where
  "empty_manifest = \<lparr>m_version = MANIFEST_VERSION, m_parent = None, m_timestamp = 0, m_message = [],
     m_files = [], m_unstable = [], m_actor = None\<rparr>"

definition check_then_apply ::
    "('z) snap_crates_scheme \<Rightarrow> path \<Rightarrow> path \<Rightarrow> manifest \<Rightarrow> bool \<Rightarrow> bool
       \<Rightarrow> (drift_report \<times> revert_report option) io" where
  "check_then_apply C store_root root m keep_extra force =
     andThen (store_head C store_root) (\<lambda>head.
     andThen (case head of
         Some h \<Rightarrow> andThen (load C store_root h) (\<lambda>cur. detect C root cur True)
       | None \<Rightarrow> detect C root empty_manifest False) (\<lambda>report.
     let dirty = (dr_added report \<noteq> [] \<or> dr_modified report \<noteq> [] \<or> dr_deleted report \<noteq> []) in
     if dirty \<and> \<not> force then ok (report, None)
     else andThen (revert_apply C store_root root m keep_extra) (\<lambda>r. ok (report, Some r))))"

end
