(* ===== verification/Tree_Writes.thy ===== *)
theory Tree_Writes
  imports Drift
begin

text \<open>
  Changing a worktree that may hold symbolic links, next to a fabric that holds none. A \<open>lane\<close> is
  a path whose last component is reached through directories only; the calls that do not follow a
  link in the last place act on the entry the lane names. \<open>sound F\<close> is kept by all of them.
\<close>

section \<open>Lanes\<close>

definition lane :: "fs \<Rightarrow> path \<Rightarrow> bool" where
  "lane fs p \<longleftrightarrow> p \<noteq> [] \<and> last p \<noteq> ''..'' \<and> clean_path fs (butlast p)"

lemma lane_snoc [simp]: "lane fs (q @ [c]) \<longleftrightarrow> c \<noteq> ''..'' \<and> clean_path fs q"
  by (auto simp: lane_def)

lemma lane_clean: "lane fs p \<Longrightarrow> \<not> is_link (entry_at fs p) \<Longrightarrow> clean_path fs p"
  by (cases p rule: rev_cases) (auto simp: lane_def clean_path_def prefix_snoc)

lemma resolve_lane:
  assumes "wf_fs fs" "clean_path fs (cur @ cs)" "entry_at fs cur = Some Dir" "c \<noteq> ''..''"
  shows "if entry_at fs (cur @ cs) = Some Dir then resolve n fs False cur (cs @ [c]) = Inr (cur @ cs @ [c])
     else \<exists>e. resolve n fs False cur (cs @ [c]) = Inl e"
  using assms(2,3)
proof (induction cs arbitrary: cur)
  case Nil
  with assms(4) show ?case by (auto split: option.splits node.splits)
next
  case (Cons d ds)
  note c = clean_path_Cons [OF Cons.prems(1)]
  show ?case
  proof (cases "entry_at fs (cur @ [d]) = Some Dir")
    case True
    from Cons.IH [OF c(3) True] c(1) True show ?thesis by simp
  next
    case False
    then have "entry_at fs (cur @ d # ds) \<noteq> Some Dir"
      using wf_fs_below_non_dir [OF assms(1) False, of ds] by (cases "ds = []") auto
    moreover have "\<exists>e. resolve n fs False cur (d # ds @ [c]) = Inl e"
      using False c(1,2) by (cases "entry_at fs (cur @ [d])" rule: is_link.cases) auto
    ultimately show ?thesis by simp
  qed
qed

lemma lookup_lane:
  assumes "wf_fs fs" "lane fs p"
  shows "lookup_path False fs p = Inr q \<longleftrightarrow> q = p \<and> entry_at fs (butlast p) = Some Dir"
proof -
  obtain cs c where p: "p = cs @ [c]" "c \<noteq> ''..''" "clean_path fs cs"
    using assms(2) by (cases p rule: rev_cases) (auto simp: lane_def)
  have l: "lookup_path False fs p = resolve max_symlinks fs False [] (cs @ [c])" by (simp add: lookup_path_def p(1))
  note r = resolve_lane [OF assms(1), of "[]" cs c max_symlinks, simplified, OF p(3,2)]
  have b: "butlast p = cs" by (simp add: p(1))
  show ?thesis
  proof (cases "entry_at fs cs = Some Dir")
    case True
    then show ?thesis using r unfolding l b by (auto simp: p(1))
  next
    case False
    with r obtain e where "resolve max_symlinks fs False [] (cs @ [c]) = Inl e" by auto
    then show ?thesis using False unfolding l b by simp
  qed
qed

lemma fs_rename_lane:
  assumes "wf_fs fs" "clean_path fs p" "entry_at fs p = Some (File d m t)" "lane fs q" "p \<noteq> q" "fs_rename fs p q = (r, fs')"
  shows "r = Inr () \<and> entry_at fs q \<noteq> Some Dir \<and> entry_at fs (butlast q) = Some Dir
      \<and> fs' = put_node q (File d m t) (drop_node p fs) \<or> (\<exists>e. r = Inl e) \<and> fs' = fs"
proof -
  have lp: "lookup_path False fs p = Inr p"
    by (rule lookup_clean_present [OF assms(1,2)]) (simp add: assms(3))
  show ?thesis
  proof (cases "lookup_path False fs q")
    case (Inl e)
    with assms(6) lp show ?thesis by (auto simp: fs_rename_def)
  next
    case (Inr x)
    with lookup_lane [OF assms(1,4)] have "x = q" "entry_at fs (butlast q) = Some Dir" by auto
    with assms(3,5,6) lp Inr show ?thesis by (auto simp: fs_rename_def split: if_splits)
  qed
qed

lemma fs_rmdir_lane:
  assumes "wf_fs fs" "lane fs p" "fs_rmdir fs p = (r, fs')"
  shows "fs' = fs \<or> p \<noteq> [] \<and> entry_at fs p = Some Dir \<and> children fs p = [] \<and> fs' = drop_node p fs"
proof (cases "lookup_path False fs p")
  case (Inl e)
  with assms(3) show ?thesis by (simp add: fs_rmdir_def)
next
  case (Inr x)
  with lookup_lane [OF assms(1,2)] have "x = p" by auto
  with assms(3) Inr show ?thesis by (auto simp: fs_rmdir_def split: if_splits)
qed

lemma lane_stat:
  assumes "wf_fs fs" "lane fs p"
  shows "fs_stat False fs p = Inr nd \<longleftrightarrow> entry_at fs p = Some nd"
proof (cases "entry_at fs (butlast p) = Some Dir")
  case True
  then have "lookup_path False fs p = Inr p" by (simp add: lookup_lane [OF assms])
  then show ?thesis by (simp add: fs_stat_def split: option.split)
next
  case False
  then have "entry_at fs p = None" using assms by (auto simp: wf_fs_def)
  moreover obtain e where "lookup_path False fs p = Inl e"
    using False lookup_lane [OF assms] by (cases "lookup_path False fs p") auto
  ultimately show ?thesis by (simp add: fs_stat_def)
qed

lemma clean_drop: "clean_path fs p \<Longrightarrow> clean_path (drop_node q fs) p"
  by (auto simp: clean_path_def entry_at_drop)

section \<open>The calls, one by one\<close>

text \<open>An entry that becomes a file, or none, or a directory where nothing was.\<close>

lemma sound_change:
  assumes "sound F w" "same_env w w'" "wf_fs (wfs w')"
    and "\<And>p. is_link (entries w' p) \<Longrightarrow> is_link (entries w p)"
  shows "sound F w'"
  using assms by (auto simp: sound_def link_free_def same_env_quiet entries_def)

lemma p_mkdirs_lane:
  assumes "sound F w" "clean_path (wfs w) p" "p_create_dir_all p w = (r, w')"
  shows "sound F w'" "same_env w w'" "dirs_added p (wfs w) (wfs w')"
    and "r = Inr () \<Longrightarrow> prefix q p \<Longrightarrow> entries w' q = Some Dir"
proof -
  note wf = sound_facts(2) [OF assms(1)]
  note s = syscall_result [OF assms(3) [unfolded p_create_dir_all_def] sound_quiet [OF assms(1)]]
  show env: "same_env w w'" using s by simp
  have d: "wf_fs (wfs w') \<and> dirs_added p (wfs w) (wfs w')"
    using s fs_create_dir_all_clean [OF wf assms(2)] wf by auto
  then show "dirs_added p (wfs w) (wfs w')" by blast
  show "sound F w'"
    by (rule sound_change [OF assms(1) env]) (use d dirs_added_link in \<open>auto simp: entries_def\<close>)
  show "entries w' q = Some Dir" if "r = Inr ()" "prefix q p"
    using that s fs_create_dir_all_clean(3) [OF wf assms(2) _ refl that(2)] by (auto simp: entries_def)
qed

text \<open>Renaming a regular file over whatever the lane ends in, a directory apart.\<close>

lemma p_rename_lane:
  assumes "sound F w" "clean_path (wfs w) p" "lane (wfs w) q" "p \<noteq> q"
    and "entries w p = Some (File d m t)" "p_rename p q w = (r, w')"
  shows "sound F w'" "same_env w w'"
    and "entries w' = (if r = Inr () then (entries w)(p := None, q := Some (File d m t)) else entries w)"
    and "r = Inr () \<Longrightarrow> entries w q \<noteq> Some Dir"
proof -
  note wf = sound_facts(2) [OF assms(1)]
  note s = syscall_result [OF assms(6) [unfolded p_rename_def] sound_quiet [OF assms(1)]]
  show env: "same_env w w'" using s by simp
  have pq: "p \<noteq> []" "q \<noteq> []" using assms(3,5) by (auto simp: entries_def lane_def)
  have *: "r = Inr () \<and> entries w q \<noteq> Some Dir \<and> entries w (butlast q) = Some Dir
      \<and> wfs w' = put_node q (File d m t) (drop_node p (wfs w))
    \<or> (\<exists>e. r = Inl e) \<and> wfs w' = wfs w"
    using s by (auto simp: entries_def dest!: fs_rename_lane [OF wf assms(2) assms(5) [unfolded entries_def] assms(3,4)])
  have e: "entries w' = (entries w)(p := None, q := Some (File d m t))" if "r = Inr ()"
    using * that pq by (auto simp: entries_def entry_at_put entry_at_drop fun_eq_iff)
  show "entries w' = (if r = Inr () then (entries w)(p := None, q := Some (File d m t)) else entries w)"
    using * e by (auto simp: entries_def)
  show "r = Inr () \<Longrightarrow> entries w q \<noteq> Some Dir" using * by auto
  show "sound F w'"
  proof (rule sound_change [OF assms(1) env])
    show "wf_fs (wfs w')"
    proof (cases "r = Inr ()")
      case True
      have "p \<noteq> butlast q" using * True assms(5) by auto
      then show ?thesis
        using * True pq wf assms(4,5)
        by (auto simp: entries_def entry_at_drop intro!: wf_fs_put wf_fs_drop)
    qed (use * wf in auto)
    show "is_link (entries w x)" if "is_link (entries w' x)" for x
      using that e * by (cases "r = Inr ()") (auto simp: entries_def split: if_splits)
  qed
qed

lemma p_unlink_lane:
  assumes "sound F w" "lane (wfs w) p" "p_remove_file p w = (r, w')"
  shows "sound F w'" "same_env w w'"
    and "entries w' = (if r = Inr () then (entries w)(p := None) else entries w)"
    and "r = Inr () \<Longrightarrow> entries w p \<noteq> Some Dir"
proof -
  note wf = sound_facts(2) [OF assms(1)]
  note s = syscall_result [OF assms(3) [unfolded p_remove_file_def] sound_quiet [OF assms(1)]]
  show env: "same_env w w'" using s by simp
  have ne: "p \<noteq> []" using assms(2) by (simp add: lane_def)
  have *: "r = Inr () \<and> entries w p \<noteq> Some Dir \<and> wfs w' = drop_node p (wfs w) \<or> (\<exists>e. r = Inl e) \<and> wfs w' = wfs w"
  proof (cases r)
    case (Inl e)
    with s fs_unlink_result [of "wfs w" p "Inl _" "wfs w'"] show ?thesis by auto
  next
    case (Inr u)
    with s have "fs_unlink (wfs w) p = (Inr u, wfs w')" by auto
    from fs_unlink_result [OF this] Inr lookup_lane [OF wf assms(2)] show ?thesis by (auto simp: entries_def)
  qed
  then show e: "entries w' = (if r = Inr () then (entries w)(p := None) else entries w)"
    using ne by (auto simp: entries_def entry_at_drop fun_eq_iff)
  show "r = Inr () \<Longrightarrow> entries w p \<noteq> Some Dir" using * by auto
  show "sound F w'"
    by (rule sound_change [OF assms(1) env])
      (use * e wf in \<open>auto simp: entries_def intro: wf_fs_drop split: if_splits\<close>)
qed

text \<open>An empty directory goes, nothing else does.\<close>

lemma p_rmdir_lane:
  assumes "sound F w" "lane (wfs w) p" "p_remove_dir p w = (r, w')"
  shows "sound F w'" "same_env w w'"
    and "entries w' = entries w \<or> entries w p = Some Dir \<and> entries w' = (entries w)(p := None)"
proof -
  note wf = sound_facts(2) [OF assms(1)]
  note s = syscall_result [OF assms(3) [unfolded p_remove_dir_def] sound_quiet [OF assms(1)]]
  show env: "same_env w w'" using s by simp
  have *: "wfs w' = wfs w \<or> p \<noteq> [] \<and> entries w p = Some Dir \<and> children (wfs w) p = [] \<and> wfs w' = drop_node p (wfs w)"
    using s by (auto simp: entries_def dest!: fs_rmdir_lane [OF wf assms(2)])
  then show e: "entries w' = entries w \<or> entries w p = Some Dir \<and> entries w' = (entries w)(p := None)"
    by (auto simp: entries_def entry_at_drop fun_eq_iff)
  show "sound F w'"
  proof (rule sound_change [OF assms(1) env])
    show "wf_fs (wfs w')"
    proof (cases "wfs w' = wfs w")
      case False
      with * have d: "p \<noteq> []" "children (wfs w) p = []" "wfs w' = drop_node p (wfs w)" by auto
      have "butlast q \<noteq> p" if "entry_at (wfs w) q \<noteq> None" "q \<noteq> []" for q
      proof
        assume b: "butlast q = p"
        from that obtain nd where "(q, nd) \<in> set (wfs w)" by (auto simp: entry_at_def dest: map_of_SomeD)
        with b that(2) have "last q \<in> set (children (wfs w) p)" by (force simp: children_def)
        with d(2) show False by simp
      qed
      note par = this
      show ?thesis
        unfolding wf_fs_def
      proof (intro allI impI)
        fix q
        assume "entry_at (wfs w') q \<noteq> None"
        then have q: "entry_at (wfs w) q \<noteq> None" using d by (auto simp: entry_at_drop split: if_splits)
        then have "entry_at (wfs w) (butlast q) = Some Dir" using wf by (simp add: wf_fs_def)
        moreover have "butlast q \<noteq> p" using par [OF q] d(1) by (cases "q = []") auto
        ultimately show "entry_at (wfs w') (butlast q) = Some Dir" using d(3) by (simp add: entry_at_drop)
      qed
    qed (use wf in simp)
    show "is_link (entries w x)" if "is_link (entries w' x)" for x
      using that e by (auto split: if_splits)
  qed
qed

lemma p_chmod_clean:
  assumes "sound F w" "clean_path (wfs w) p" "p_set_mode p m w = (r, w')"
  shows "sound F w'" "same_env w w'"
    and "entries w' = entries w \<or> (\<exists>d m0 t. entries w p = Some (File d m0 t) \<and> entries w' = (entries w)(p := Some (File d m t)))"
proof -
  note wf = sound_facts(2) [OF assms(1)]
  note s = syscall_result [OF assms(3) [unfolded p_set_mode_def] sound_quiet [OF assms(1)]]
  show env: "same_env w w'" using s by simp
  have *: "wfs w' = wfs w \<or> (\<exists>d m0 t. entries w p = Some (File d m0 t) \<and> wfs w' = put_node p (File d m t) (wfs w))"
  proof (cases r)
    case (Inl e)
    with s fs_chmod_result [of m "wfs w" p "Inl _" "wfs w'"] show ?thesis by auto
  next
    case (Inr u)
    with s have "fs_chmod m (wfs w) p = (Inr u, wfs w')" by auto
    from fs_chmod_result [OF this] obtain q where q: "lookup_path True (wfs w) p = Inr q"
      "wfs w' = wfs w \<or> (\<exists>d m0 t. entry_at (wfs w) q = Some (File d m0 t) \<and> wfs w' = put_node q (File d m t) (wfs w))"
      by auto
    from wf assms(2) have "q = p" by (cases rule: lookup_clean_cases [where fl = True]) (use q(1) in simp_all)
    with q(2) show ?thesis by (auto simp: entries_def)
  qed
  have ne: "p \<noteq> []" if "entries w p = Some (File d m0 t)" for d m0 t using that by (auto simp: entries_def)
  from * ne show e: "entries w' = entries w \<or> (\<exists>d m0 t. entries w p = Some (File d m0 t) \<and> entries w' = (entries w)(p := Some (File d m t)))"
    by (auto simp: entries_def entry_at_put fun_eq_iff)
  show "sound F w'"
  proof (rule sound_change [OF assms(1) env])
    show "wf_fs (wfs w')"
      using *
    proof (elim disjE exE conjE)
      fix d m0 t
      assume f: "entries w p = Some (File d m0 t)" "wfs w' = put_node p (File d m t) (wfs w)"
      then have "entry_at (wfs w) (butlast p) = Some Dir" using wf by (auto simp: wf_fs_def entries_def)
      with f ne [OF f(1)] wf show ?thesis by (simp add: entries_def wf_fs_put)
    qed (use wf in simp)
    show "is_link (entries w x)" if "is_link (entries w' x)" for x
      using that e by (auto split: if_splits)
  qed
qed

section \<open>Computations that change no file\<close>

lemma inert_tmp_path: "inert I \<Longrightarrow> keeps I (tmp_path dir tag)"
  by (auto simp: keeps_def tmp_path_def inert_def same_env_def)

lemma inert_load: "inert I \<Longrightarrow> keeps I (load C root h)"
  unfolding load_def by (intro keeps_intros inert_store_reads)

lemma inert_tombstones: "inert I \<Longrightarrow> keeps I (tombstones C root)"
  unfolding tombstones_def by (intro keeps_intros inert_prims)

lemma keeps_list:
  "(xs = [] \<Longrightarrow> keeps I n) \<Longrightarrow> (\<And>y ys. xs = y # ys \<Longrightarrow> keeps I (f y ys)) \<Longrightarrow> keeps I (case xs of [] \<Rightarrow> n | y # ys \<Rightarrow> f y ys)"
  by (cases xs) simp_all

lemma keeps_node:
  "(\<And>d m t. nd = File d m t \<Longrightarrow> keeps I (f d m t)) \<Longrightarrow> (nd = Dir \<Longrightarrow> keeps I g) \<Longrightarrow> (\<And>b p. nd = Symlink b p \<Longrightarrow> keeps I (h b p))
    \<Longrightarrow> keeps I (case nd of File d m t \<Rightarrow> f d m t | Dir \<Rightarrow> g | Symlink b p \<Rightarrow> h b p)"
  by (cases nd) simp_all

lemma keeps_walk_item:
  "(\<And>e. it = WalkErr e \<Longrightarrow> keeps I (f e)) \<Longrightarrow> (\<And>rel ft. it = WalkItem rel ft \<Longrightarrow> keeps I (g rel ft))
    \<Longrightarrow> keeps I (case it of WalkErr e \<Rightarrow> f e | WalkItem rel ft \<Rightarrow> g rel ft)"
  by (cases it) simp_all

lemma inert_walk: "inert I \<Longrightarrow> keeps I (p_walk C b root)"
  using inert_reads(4) [where h = "\<lambda>w. walk_dir C b (wfs w) root"] by (simp add: p_walk_def [abs_def] Let_def)

lemma inert_detect: "inert I \<Longrightarrow> keeps I (detect C root m full)"
  unfolding detect_def drift_patterns_def drift_entry_def file_hash_def Let_def
  by (intro keeps_intros keeps_walk_item inert_prims inert_walk | assumption)+

text \<open>No call reports a missing entry that is there.\<close>

definition honest :: "world \<Rightarrow> bool" where
  "honest w \<longleftrightarrow> (\<forall>n e k. wfault w n = Some (e, k) \<longrightarrow> e \<noteq> NotFound)"

lemma honest_env: "same_env w w' \<Longrightarrow> honest w' \<longleftrightarrow> honest w"
  by (simp add: honest_def same_env_def)

lemma syscall_honest:
  assumes "syscall f w = (r, w')" "quiet w" "honest w"
  shows "r = Inl (Io NotFound) \<Longrightarrow> fst (f (wfs w) (wtime w (wtick w))) = Inl NotFound"
proof (cases "wfault w (wtick w)")
  case None
  obtain y g where "f (wfs w) (wtime w (wtick w)) = (y, g)" by fastforce
  moreover assume "r = Inl (Io NotFound)"
  ultimately show ?thesis using None assms(1,2) by (cases y) (auto simp: syscall_def Let_def tick_quiet)
next
  case (Some a)
  then have "fst a \<noteq> NotFound" using assms(3) unfolding honest_def by (cases a) auto
  moreover assume "r = Inl (Io NotFound)"
  ultimately show ?thesis using Some assms(1,2) by (cases a) (auto simp: syscall_def Let_def tick_quiet)
qed

lemma attempt_run:
  obtains x w' where "attempt m w = (Inr x, w')"
  by (cases "m w") (simp add: attempt_def)

text \<open>What a look at the entry at the end of a lane says.\<close>

lemma lane_look:
  assumes "quiet w" "wf_fs (wfs w)" "honest w" "lane (wfs w) p" "attempt (p_symlink_metadata p) w = (Inr r, w')"
  shows "same_env w w'" "wfs w' = wfs w" "r = Inr nd \<Longrightarrow> entries w p = Some nd"
    "r = Inl (Io NotFound) \<Longrightarrow> entries w p = None"
proof -
  have run: "p_symlink_metadata p w = (r, w')"
    using assms(5) by (auto simp: attempt_def split: prod.splits)
  note s = syscall_result [OF run [unfolded p_symlink_metadata_def] assms(1)]
  show "same_env w w'" using s by simp
  show "wfs w' = wfs w" using s by auto
  show "entries w p = Some nd" if "r = Inr nd"
  proof -
    have "fs_stat False (wfs w) p = Inr nd" using s that by auto
    then show ?thesis by (simp add: lane_stat [OF assms(2,4)] entries_def)
  qed
  show "entries w p = None" if "r = Inl (Io NotFound)"
  proof -
    from syscall_honest [OF run [unfolded p_symlink_metadata_def] assms(1,3) that]
    have "fs_stat False (wfs w) p = Inl NotFound" by simp
    moreover have "fs_stat False (wfs w) p = Inr nd" if "entry_at (wfs w) p = Some nd" for nd
      using that by (simp add: lane_stat [OF assms(2,4)])
    ultimately show ?thesis by (cases "entry_at (wfs w) p") (auto simp: entries_def)
  qed
qed

end
