(* ===== verification/Revert_Facts.thy ===== *)
theory Revert_Facts
  imports Revert Tree_Writes
begin

text \<open>
  What \<open>src/revert.rs\<close> does to a worktree: it stays inside it, whatever symbolic links are planted
  there and wherever it stops; every file is either as it was, or as the manifest says, or gone
  because the manifest does not have it; and when it reports success the worktree is the manifest.
\<close>

section \<open>What may have changed\<close>

definition no_file :: "node option \<Rightarrow> bool" where
  "no_file n \<longleftrightarrow> n = None \<or> n = Some Dir"

definition tmp_area :: "path \<Rightarrow> path \<Rightarrow> bool" where
  "tmp_area root p \<longleftrightarrow> prefix (fabric_dir root @ [''tmp'']) p"

text \<open>The node is a file with the content an entry of the manifest gives for this path.\<close>

definition as_recorded :: "('z) crates_scheme \<Rightarrow> path \<Rightarrow> file_entry list \<Rightarrow> path \<Rightarrow> node option \<Rightarrow> bool" where
  "as_recorded C root fes p n \<longleftrightarrow> (\<exists>fe \<in> set fes. \<exists>comps d md t.
     sanitize_rel (fe_path fe) = Inr comps \<and> p = root @ comps \<and> n = Some (File d md t) \<and> blake3 C d = fe_content fe)"

text \<open>The path is not in the manifest, nor left alone.\<close>

definition unwanted :: "path \<Rightarrow> file_entry list \<Rightarrow> path \<Rightarrow> bool" where
  "unwanted root fes p \<longleftrightarrow> (\<exists>rel. p = root @ rel \<and> \<not> revert_excluded rel \<and> rel_string rel \<notin> fe_path ` set fes)"

definition moved ::
    "('z) crates_scheme \<Rightarrow> path \<Rightarrow> file_entry list \<Rightarrow> bool \<Rightarrow> path \<Rightarrow> node option \<Rightarrow> node option \<Rightarrow> bool" where
  "moved C root fes keep p n n' \<longleftrightarrow> n' = n \<or> prefix root p \<and>
     (no_file n \<and> no_file n' \<or> tmp_area root p \<or> as_recorded C root fes p n'
      \<or> no_file n' \<and> \<not> keep \<and> unwanted root fes p)"

lemma moved_refl [simp]: "moved C root fes keep p n n"
  by (simp add: moved_def)

lemma moved_trans:
  "moved C root fes keep p n n1 \<Longrightarrow> moved C root fes keep p n1 n2 \<Longrightarrow> moved C root fes keep p n n2"
  by (auto simp: moved_def as_recorded_def no_file_def)

definition reverting ::
    "('z) crates_scheme \<Rightarrow> path \<Rightarrow> file_entry list \<Rightarrow> bool \<Rightarrow> world \<Rightarrow> world \<Rightarrow> bool" where
  "reverting C root fes keep w0 w \<longleftrightarrow> sound (fabric_dir root) w \<and> same_env w0 w \<and> honest w0
     \<and> no_dotdot root w \<and> entries w root = Some Dir \<and> (\<forall>p. moved C root fes keep p (entries w0 p) (entries w p))"

lemma revertingD:
  assumes "reverting C root fes keep w0 w"
  shows "sound (fabric_dir root) w" "quiet w" "wf_fs (wfs w)" "honest w" "clean_path (wfs w) root"
    "no_dotdot root w" "entries w root = Some Dir" "moved C root fes keep p (entries w0 p) (entries w p)"
    "''..'' \<notin> set root"
proof -
  show s: "sound (fabric_dir root) w" using assms by (simp add: reverting_def)
  then show "quiet w" "wf_fs (wfs w)" by (simp_all add: sound_def)
  show "''..'' \<notin> set root" using s by (auto simp: sound_def link_free_def fabric_dir_def)
  with s show "clean_path (wfs w) root"
    by (auto simp: sound_def link_free_def clean_path_def fabric_dir_def)
  show "honest w" "no_dotdot root w" "entries w root = Some Dir" "moved C root fes keep p (entries w0 p) (entries w p)"
    using assms by (auto simp: reverting_def honest_env)
qed

lemma reverting_step:
  assumes "reverting C root fes keep w0 w" "sound (fabric_dir root) w'" "same_env w w'" "entries w' root = Some Dir"
    and "\<And>p. moved C root fes keep p (entries w p) (entries w' p)"
    and "\<And>rel. entries w (root @ rel) = None \<Longrightarrow> entries w' (root @ rel) \<noteq> None \<Longrightarrow> ''..'' \<notin> set rel"
  shows "reverting C root fes keep w0 w'"
proof -
  have "no_dotdot root w'" using assms(1,6) unfolding no_dotdot_def reverting_def by blast
  moreover have "moved C root fes keep p (entries w0 p) (entries w' p)" for p
    using assms(1) moved_trans [OF _ assms(5)] by (simp add: reverting_def)
  ultimately show ?thesis using assms same_env_trans unfolding reverting_def by blast
qed

lemma inert_reverting [simp]: "inert (reverting C root fes keep w0)"
  unfolding inert_def
proof (intro allI impI conjI)
  fix w w'
  assume r: "reverting C root fes keep w0 w"
  then show "quiet w" by (rule revertingD(2))
  assume "same_env w w'" "wfs w' = wfs w"
  with r show "reverting C root fes keep w0 w'"
    using sound_same same_env_trans unfolding reverting_def no_dotdot_def entries_def by metis
qed

text \<open>Changes within the staging directory of the fabric are not looked at.\<close>

lemma tmp_area_below:
  assumes "tmp_area root p"
  shows "prefix root p" "p \<noteq> root"
proof -
  from assms obtain k where k: "p = root @ [FABRIC_DIR, ''tmp''] @ k" by (auto simp: tmp_area_def fabric_dir_def prefix_def)
  then show "prefix root p" "p \<noteq> root" by simp_all
qed

lemma reverting_tmp:
  assumes "reverting C root fes keep w0 w" "sound (fabric_dir root) w'" "same_env w w'"
    and "\<And>q. q \<noteq> p \<Longrightarrow> entries w' q = entries w q" "tmp_area root p" "''..'' \<notin> set p"
  shows "reverting C root fes keep w0 w'"
proof (rule reverting_step [OF assms(1-3)])
  note b = tmp_area_below [OF assms(5)]
  show "entries w' root = Some Dir" using assms(4) b(2) revertingD(7) [OF assms(1)] by metis
  show "moved C root fes keep q (entries w q) (entries w' q)" for q
    by (cases "q = p") (use assms(4,5) b in \<open>auto simp: moved_def\<close>)
  show "''..'' \<notin> set rel" if "entries w (root @ rel) = None" "entries w' (root @ rel) \<noteq> None" for rel
    using that assms(4) [of "root @ rel"] assms(6) by (cases "root @ rel = p") auto
qed

text \<open>Making directories in the worktree.\<close>

lemma reverting_mkdirs:
  assumes "reverting C root fes keep w0 w" "clean_path (wfs w) p" "prefix root p" "p_create_dir_all p w = (r, w')"
  shows "reverting C root fes keep w0 w'" "dirs_added p (wfs w) (wfs w')"
    "r = Inr () \<Longrightarrow> prefix q p \<Longrightarrow> entries w' q = Some Dir"
proof -
  note m = p_mkdirs_lane [OF revertingD(1) [OF assms(1)] assms(2,4)]
  show d: "dirs_added p (wfs w) (wfs w')" by (rule m(3))
  show "r = Inr () \<Longrightarrow> prefix q p \<Longrightarrow> entries w' q = Some Dir" by (rule m(4))
  have ch: "entries w' q = entries w q \<or> entries w q = None \<and> entries w' q = Some Dir \<and> prefix q p" for q
    using d by (auto simp: dirs_added_def entries_def)
  have up: "entries w q = Some Dir" if "prefix q root" for q
    using that revertingD(3,7) [OF assms(1)] wf_fs_ancestor [of "wfs w" q] by (auto simp: prefix_def entries_def) (metis append_Nil2 option.distinct(1))
  have below: "prefix root q" if "entries w q = None" "prefix q p" for q
    using that up [of q] assms(3) by (metis option.distinct(1) prefix_same_cases)
  show "reverting C root fes keep w0 w'"
  proof (rule reverting_step [OF assms(1) m(1,2)])
    show "entries w' root = Some Dir" using ch [of root] revertingD(7) [OF assms(1)] by auto
    show "moved C root fes keep q (entries w q) (entries w' q)" for q
      using ch [of q] below [of q] by (auto simp: moved_def no_file_def)
    show "''..'' \<notin> set rel" if "entries w (root @ rel) = None" "entries w' (root @ rel) \<noteq> None" for rel
    proof -
      have "prefix (root @ rel) p" using that ch [of "root @ rel"] by auto
      then have "set (root @ rel) \<subseteq> set p" by (rule set_mono_prefix)
      with assms(2) show ?thesis by (auto simp: clean_path_def)
    qed
  qed
qed

section \<open>The destination\<close>

lemma clean_snoc: "clean_path fs (p @ [c]) \<longleftrightarrow> clean_path fs p \<and> c \<noteq> ''..'' \<and> \<not> is_link (entry_at fs (p @ [c]))"
  by (auto simp: clean_path_def prefix_snoc)

lemma check_ancestors_result:
  assumes "quiet w" "wf_fs (wfs w)" "honest w" "clean_path (wfs w) cur" "''..'' \<notin> set comps" "comps \<noteq> []"
    and "check_ancestors rel cur comps w = (r, w')"
  shows "same_env w w' \<and> wfs w' = wfs w \<and> (r = Inr () \<longrightarrow> lane (wfs w) (cur @ comps))"
  using assms
proof (induction rel cur comps arbitrary: w rule: check_ancestors.induct)
  case (1 rel cur)
  then show ?case by simp
next
  case (2 rel cur c)
  then show ?case by (auto simp: comp_eval)
next
  case (3 rel cur c d cs)
  let ?p = "cur @ [c]"
  have l: "lane (wfs w) ?p" using "3.prems"(4,5) by auto
  obtain x w1 where look: "attempt (p_symlink_metadata ?p) w = (Inr x, w1)" by (rule attempt_run)
  note k = lane_look [OF "3.prems"(1-3) l look]
  have step: "?case" if x: "x = Inr Dir \<or> x = Inl (Io NotFound)"
  proof -
    have "\<not> is_link (entries w ?p)" using x k(3,4) by auto
    then have c: "clean_path (wfs w1) ?p" using "3.prems"(4,5) k(2) by (auto simp: clean_snoc entries_def)
    have w1: "quiet w1" "wf_fs (wfs w1)" "honest w1"
      using "3.prems"(1-3) k(1,2) by (simp_all add: same_env_quiet honest_env)
    have run: "check_ancestors rel ?p (d # cs) w1 = (r, w')"
      using "3.prems"(7) look x by (auto simp: Let_def comp_eval)
    have dd: "''..'' \<notin> set (d # cs)" using "3.prems"(5) by simp
    have "same_env w1 w' \<and> wfs w' = wfs w1 \<and> (r = Inr () \<longrightarrow> lane (wfs w1) (?p @ d # cs))"
      using x
    proof
      assume "x = Inr Dir"
      from "3.IH"(2) [OF refl look this refl w1 c dd _ run] show ?thesis by simp
    next
      assume "x = Inl (Io NotFound)"
      from "3.IH"(1) [OF refl look this refl w1 c dd _ run] show ?thesis by simp
    qed
    with k(1,2) show ?thesis by (auto intro: same_env_trans)
  qed
  consider "x = Inr Dir \<or> x = Inl (Io NotFound)" | e where "x = Inl e" "e \<noteq> Io NotFound" | nd where "x = Inr nd" "nd \<noteq> Dir"
    by (cases x) auto
  then show ?case
  proof cases
    case 1
    then show ?thesis by (rule step)
  next
    case (2 e)
    with "3.prems"(7) look k(1,2) show ?thesis by (auto simp: Let_def comp_eval)
  next
    case (3 nd)
    with "3.prems"(7) look k(1,2) show ?thesis by (cases nd) (auto simp: Let_def comp_eval)
  qed
qed

lemma resolve_dest_result:
  assumes "reverting C root fes keep w0 w" "resolve_dest root rel w = (r, w')"
  shows "same_env w w'" "wfs w' = wfs w"
    "r = Inr dest \<Longrightarrow> \<exists>comps. sanitize_rel rel = Inr comps \<and> dest = root @ comps \<and> comps \<noteq> [] \<and> ''..'' \<notin> set comps
       \<and> lane (wfs w) dest"
proof -
  have "same_env w w' \<and> wfs w' = wfs w \<and> (r = Inr dest \<longrightarrow> (\<exists>comps. sanitize_rel rel = Inr comps \<and> dest = root @ comps
      \<and> comps \<noteq> [] \<and> ''..'' \<notin> set comps \<and> lane (wfs w) dest))" for dest
  proof (cases "sanitize_rel rel")
    case (Inl e)
    then have "resolve_dest root rel w = (Inl e, w)" by (simp add: resolve_dest_def comp_eval)
    with assms(2) show ?thesis by auto
  next
    case (Inr comps)
    obtain x w1 where c: "check_ancestors rel root comps w = (x, w1)" by fastforce
    note d = sanitize_rel_no_dotdot [OF Inr] sanitize_rel_plain [OF Inr]
    from check_ancestors_result [OF revertingD(2-5) [OF assms(1)] d(1) _ c] d(2)
    have "same_env w w1 \<and> wfs w1 = wfs w \<and> (x = Inr () \<longrightarrow> lane (wfs w) (root @ comps))" by simp
    with assms(2) Inr c d show ?thesis by (cases x) (auto simp: resolve_dest_def comp_eval)
  qed
  then show "same_env w w'" "wfs w' = wfs w"
    "r = Inr dest \<Longrightarrow> \<exists>comps. sanitize_rel rel = Inr comps \<and> dest = root @ comps \<and> comps \<noteq> [] \<and> ''..'' \<notin> set comps
       \<and> lane (wfs w) dest" by blast+
qed

section \<open>One file\<close>

lemma needs_write_result:
  assumes "reverting C root fes keep w0 w" "lane (wfs w) p" "needs_write C p c w = (r, w')"
  shows "same_env w w'" "wfs w' = wfs w"
    "r = Inr False \<Longrightarrow> \<exists>d md t. entries w p = Some (File d md t) \<and> blake3 C d = c"
proof -
  obtain x w1 where look: "attempt (p_symlink_metadata p) w = (Inr x, w1)" by (rule attempt_run)
  note k = lane_look [OF revertingD(2-4) [OF assms(1)] assms(2) look]
  have "same_env w w' \<and> wfs w' = wfs w \<and> (r = Inr False \<longrightarrow> (\<exists>d md t. entries w p = Some (File d md t) \<and> blake3 C d = c))"
  proof (cases "\<exists>d md t. x = Inr (File d md t)")
    case True
    then obtain d md t where x: "x = Inr (File d md t)" by blast
    have e: "entries w p = Some (File d md t)" by (rule k(3) [OF x])
    have cl: "clean_path (wfs w) p" by (rule lane_clean [OF assms(2)]) (use e in \<open>simp add: entries_def\<close>)
    obtain y w2 where rd: "p_read p w1 = (y, w2)" by fastforce
    have q1: "quiet w1" using k(1) revertingD(2) [OF assms(1)] by (simp add: same_env_quiet)
    note s = syscall_result [OF rd [unfolded p_read_def] q1]
    have "y = Inr z \<Longrightarrow> z = d" for z
      using s fs_read_clean [OF revertingD(3) [OF assms(1)] cl] e k(2) by (auto simp: entries_def)
    then show ?thesis
      using assms(3) look x rd s e k(1,2) same_env_trans
      by (cases y) (auto simp: needs_write_def drift_file_hash_def comp_eval)
  next
    case False
    then have "r = Inr True \<and> w' = w1"
      using assms(3) look by (auto simp: needs_write_def comp_eval split: sum.splits node.splits)
    with k(1,2) show ?thesis by simp
  qed
  then show "same_env w w'" "wfs w' = wfs w"
    "r = Inr False \<Longrightarrow> \<exists>d md t. entries w p = Some (File d md t) \<and> blake3 C d = c" by auto
qed

text \<open>The staged file while the chunks are written to it: \<open>fed\<close> so far.\<close>

definition staging :: "path \<Rightarrow> bytes \<Rightarrow> world \<Rightarrow> bool" where
  "staging tmp fed w \<longleftrightarrow> (\<exists>t. entries w tmp = Some (File fed 0x1A4 t))"

lemma write_chunks_result:
  assumes "reverting C root fes keep w0 w" "inside (fabric_dir root) tmp" "tmp_area root tmp" "staging tmp [] w"
    and "write_chunks C root tmp chunks w = (r, w')"
  shows "reverting C root fes keep w0 w'" "r = Inr fed \<Longrightarrow> staging tmp fed w'"
    "\<And>q. q \<noteq> tmp \<Longrightarrow> entries w' q = entries w q"
proof -
  let ?R = "\<lambda>x. reverting C root fes keep w0 x \<and> (\<forall>q. q \<noteq> tmp \<longrightarrow> entries x q = entries w q)"
  have ne: "tmp \<noteq> []" and dd: "''..'' \<notin> set tmp"
    using assms(2,3) by (auto simp: tmp_area_def inside_def)
  have i: "inert (\<lambda>x. ?R x \<and> staging tmp f x)" for f
    unfolding inert_def
  proof (intro allI impI)
    fix x
    assume x: "?R x \<and> staging tmp f x"
    then have R: "reverting C root fes keep w0 x" by blast
    have "?R x' \<and> staging tmp f x'" if "same_env x x'" "wfs x' = wfs x" for x'
    proof -
      have "reverting C root fes keep w0 x'"
        using inert_reverting [unfolded inert_def, rule_format, OF R] that by blast
      moreover have "entries x' = entries x" using that(2) by (simp add: entries_def)
      ultimately show ?thesis using x by (simp add: staging_def)
    qed
    with revertingD(2) [OF R] show "quiet x \<and> (\<forall>x'. same_env x x' \<longrightarrow> wfs x' = wfs x \<longrightarrow> ?R x' \<and> staging tmp f x')"
      by blast
  qed
  have step: "triple (\<lambda>x. ?R x \<and> staging tmp f x)
      (andThen (get_object C root ch) (\<lambda>data. andThen (p_write_all tmp data) (\<lambda>_. ok (f @ data))))
      (\<lambda>f' x. ?R x \<and> staging tmp f' x) (\<lambda>_ x. ?R x)" for f ch
  proof (rule triple_andThen [where R = "\<lambda>_ x. ?R x \<and> staging tmp f x"])
    have k: "?R x' \<and> staging tmp f x'" if "?R x \<and> staging tmp f x" "get_object C root ch x = (y, x')" for x y x'
      by (rule keepsD [OF inert_store_reads(1) [OF i] that])
    show "triple (\<lambda>x. ?R x \<and> staging tmp f x) (get_object C root ch) (\<lambda>_ x. ?R x \<and> staging tmp f x) (\<lambda>_ x. ?R x)"
      by (rule tripleI, erule (1) k, rule k [THEN conjunct1])
    show "triple (\<lambda>x. ?R x \<and> staging tmp f x) (andThen (p_write_all tmp data) (\<lambda>_. ok (f @ data)))
        (\<lambda>f' x. ?R x \<and> staging tmp f' x) (\<lambda>_ x. ?R x)" for data
    proof -
      have "?R x' \<and> (y = Inr () \<longrightarrow> staging tmp (f @ data) x')" if r: "?R x \<and> staging tmp f x" and run: "p_write_all tmp data x = (y, x')" for x y x'
      proof -
        from r obtain t where e: "entries x tmp = Some (File f 0x1A4 t)" by (auto simp: staging_def)
        note a = p_write_all_sound [OF revertingD(1) assms(2) run e ne]
        from r have R: "reverting C root fes keep w0 x" by blast
        obtain k t' where k: "wfs x' = put_node tmp (File (f @ take k data) 0x1A4 t') (wfs x)" "y = Inr () \<longrightarrow> length data \<le> k"
          using a(3) [OF R] by blast
        have o: "q \<noteq> tmp \<Longrightarrow> entries x' q = entries x q" for q using k(1) ne by (simp add: entries_def entry_at_put)
        have "reverting C root fes keep w0 x'" by (rule reverting_tmp [OF R a(1,2) [OF R] o assms(3) dd])
        with r o k ne show ?thesis by (auto simp: staging_def entries_def entry_at_put)
      qed
      note wr = this
      show ?thesis
      proof (rule triple_andThen [where R = "\<lambda>_ x. ?R x \<and> staging tmp (f @ data) x"])
        show "triple (\<lambda>x. ?R x \<and> staging tmp f x) (p_write_all tmp data) (\<lambda>_ x. ?R x \<and> staging tmp (f @ data) x) (\<lambda>_ x. ?R x)"
        proof (rule tripleI)
          fix x y x'
          assume a: "?R x \<and> staging tmp f x" and run: "p_write_all tmp data x = (Inr y, x')"
          show "?R x' \<and> staging tmp (f @ data) x'"
            by (rule conjI [OF wr [OF a run, THEN conjunct1] wr [OF a run, THEN conjunct2, rule_format]]) simp
        next
          fix x e x'
          assume a: "?R x \<and> staging tmp f x" and run: "p_write_all tmp data x = (Inl e, x')"
          show "?R x'" by (rule wr [OF a run, THEN conjunct1])
        qed
        show "triple (\<lambda>x. ?R x \<and> staging tmp (f @ data) x) (ok (f @ data)) (\<lambda>f' x. ?R x \<and> staging tmp f' x) (\<lambda>_ x. ?R x)"
          by (rule triple_ok)
      qed
    qed
  qed
  have "triple (\<lambda>x. ?R x \<and> staging tmp [] x) (write_chunks C root tmp chunks) (\<lambda>f x. ?R x \<and> staging tmp f x) (\<lambda>_ x. ?R x)"
    unfolding write_chunks_def by (rule triple_foldIO [where I = "\<lambda>_ f x. ?R x \<and> staging tmp f x"]) (rule step)
  note t = this [unfolded triple_def, rule_format, of w, unfolded assms(5) prod.case]
  have "?R w' \<and> (\<forall>f. r = Inr f \<longrightarrow> staging tmp f w')"
    using t assms(1,4) by (cases r) simp_all
  then show "reverting C root fes keep w0 w'" "r = Inr fed \<Longrightarrow> staging tmp fed w'"
    "\<And>q. q \<noteq> tmp \<Longrightarrow> entries w' q = entries w q" by auto
qed

lemma lane_keep:
  assumes "lane (wfs w) p" "\<And>q. is_link (entries w' q) \<Longrightarrow> is_link (entries w q)"
  shows "lane (wfs w') p"
  using assms by (auto simp: lane_def clean_path_def entries_def)

lemma p_rename_self:
  assumes "sound F w" "clean_path (wfs w) p" "entries w p = Some (File d m t)" "p_rename p p w = (r, w')"
  shows "same_env w w'" "wfs w' = wfs w"
proof -
  note s = syscall_result [OF assms(4) [unfolded p_rename_def] sound_quiet [OF assms(1)]]
  have "lookup_path False (wfs w) p = Inr p"
    by (rule lookup_clean_present [OF sound_facts(2) [OF assms(1)] assms(2)]) (use assms(3) in \<open>simp add: entries_def\<close>)
  then have "snd (fs_rename (wfs w) p p) = wfs w" using assms(3) by (simp add: fs_rename_def entries_def)
  with s show "same_env w w'" "wfs w' = wfs w" by auto
qed

text \<open>The staged file takes the place of what the lane ends in.\<close>

lemma reverting_rename:
  assumes "reverting C root fes keep w0 w" "inside (fabric_dir root) tmp" "tmp_area root tmp" "staging tmp d w"
    and "lane (wfs w) (root @ comps)" "''..'' \<notin> set comps" "comps \<noteq> []" "fe \<in> set fes"
      "sanitize_rel (fe_path fe) = Inr comps" "blake3 C d = fe_content fe"
    and "p_rename tmp (root @ comps) w = (r, w')"
  shows "reverting C root fes keep w0 w'" "r = Inr () \<Longrightarrow> \<exists>t. entries w' (root @ comps) = Some (File d 0x1A4 t)"
proof -
  let ?p = "root @ comps"
  note R = revertingD [OF assms(1)]
  obtain t where t: "entries w tmp = Some (File d 0x1A4 t)" using assms(4) by (auto simp: staging_def)
  have cl: "clean_path (wfs w) tmp" by (rule sound_facts(3) [OF R(1) assms(2)])
  have "reverting C root fes keep w0 w' \<and> (r = Inr () \<longrightarrow> (\<exists>t. entries w' ?p = Some (File d 0x1A4 t)))"
  proof (cases "tmp = ?p")
    case True
    note e = p_rename_self [OF R(1) cl t assms(11) [folded True]]
    have "reverting C root fes keep w0 w'"
      using inert_reverting [unfolded inert_def, rule_format, OF assms(1)] e by blast
    moreover have "entries w' = entries w" using e(2) by (simp add: entries_def)
    ultimately show ?thesis using t True by simp
  next
    case False
    note n = p_rename_lane [OF R(1) cl assms(5) False t assms(11)]
    note b = tmp_area_below [OF assms(3)]
    show ?thesis
    proof (cases "r = Inr ()")
      case True
      then have e: "entries w' = (entries w)(tmp := None, ?p := Some (File d 0x1A4 t))" using n(3) by simp
      have "as_recorded C root fes ?p (Some (File d 0x1A4 t))"
        using assms(8-10) unfolding as_recorded_def by blast
      then have mv: "moved C root fes keep q (entries w q) (entries w' q)" for q
        unfolding e using b(1) assms(3) False by (cases "q = ?p"; cases "q = tmp") (auto simp: moved_def)
      have "reverting C root fes keep w0 w'"
      proof (rule reverting_step [OF assms(1) n(1,2) _ mv])
        show "entries w' root = Some Dir" using R(7) b(2) assms(7) unfolding e by auto
        show "''..'' \<notin> set rel" if "entries w (root @ rel) = None" "entries w' (root @ rel) \<noteq> None" for rel
          using that assms(6) unfolding e by (auto split: if_splits)
      qed
      with e show ?thesis by simp
    next
      case False
      then have "entries w' = entries w" using n(3) by simp
      with False reverting_step [OF assms(1) n(1,2)] R(7) show ?thesis by simp
    qed
  qed
  then show "reverting C root fes keep w0 w'" "r = Inr () \<Longrightarrow> \<exists>t. entries w' ?p = Some (File d 0x1A4 t)" by blast+
qed

lemma reverting_chmod:
  assumes "reverting C root fes keep w0 w" "lane (wfs w) p" "entries w p = Some (File d md t)"
    "prefix root p" "p \<noteq> root" "as_recorded C root fes p (Some (File d md t))" "set_mode p m w = (r, w')"
  shows "reverting C root fes keep w0 w' \<and> (\<exists>md'. entries w' p = Some (File d md' t))"
proof -
  note R = revertingD [OF assms(1)]
  have cl: "clean_path (wfs w) p" by (rule lane_clean [OF assms(2)]) (use assms(3) in \<open>simp add: entries_def\<close>)
  note c = p_chmod_clean [OF R(1) cl assms(7) [unfolded set_mode_def]]
  obtain md' where e: "entries w' = (entries w)(p := Some (File d md' t))"
    using c(3) assms(3) by (metis fun_upd_triv node.inject(1) option.inject)
  have "as_recorded C root fes p (Some (File d md' t))"
    using assms(6) unfolding as_recorded_def by blast
  then have mv: "moved C root fes keep q (entries w q) (entries w' q)" for q
    unfolding e using assms(4) by (auto simp: moved_def)
  have "reverting C root fes keep w0 w'"
    by (rule reverting_step [OF assms(1) c(1,2) _ mv]) (use R(7) assms(3,5) in \<open>auto simp: e split: if_splits\<close>)
  with e show ?thesis by simp
qed

lemma reverting_create_tmp:
  assumes "reverting C root fes keep w0 w" "inside (fabric_dir root) tmp" "tmp_area root tmp"
    and "p_create_new 0x1A4 tmp w = (r, w')"
  shows "reverting C root fes keep w0 w'" "\<And>q. q \<noteq> tmp \<Longrightarrow> entries w' q = entries w q"
    "r = Inr q \<Longrightarrow> q = tmp \<and> staging tmp [] w'" "is_link (entries w' q) \<Longrightarrow> is_link (entries w q)"
proof -
  note c = p_create_new_sound [OF revertingD(1) [OF assms(1)] assms(2,4)]
  have e: "(r = Inr tmp \<and> tmp \<noteq> [] \<and> (\<exists>t. entries w' = (entries w)(tmp := Some (File [] 0x1A4 t)))) \<or> entries w' = entries w \<and> (\<exists>e. r = Inl e)"
  proof (cases r)
    case (Inl e)
    with c(2) show ?thesis by (simp add: entries_def)
  next
    case (Inr x)
    from c(4) [OF this] Inr show ?thesis by (auto simp: entries_def entry_at_put fun_eq_iff)
  qed
  show o: "\<And>q. q \<noteq> tmp \<Longrightarrow> entries w' q = entries w q" using e by auto
  have dd: "''..'' \<notin> set tmp" using assms(2) by (simp add: inside_def)
  show "reverting C root fes keep w0 w'" by (rule reverting_tmp [OF assms(1) c(1,3) o assms(3) dd])
  show "r = Inr q \<Longrightarrow> q = tmp \<and> staging tmp [] w'" using e by (auto simp: staging_def)
  show "is_link (entries w' q) \<Longrightarrow> is_link (entries w q)" using e by (auto split: if_splits)
qed

lemma reverting_same:
  "reverting C root fes keep w0 w \<Longrightarrow> same_env w w' \<Longrightarrow> wfs w' = wfs w \<Longrightarrow> reverting C root fes keep w0 w'"
  using inert_reverting [unfolded inert_def, rule_format] by blast

lemma place_file_result:
  assumes "reverting C root fes keep w0 w" "inside (fabric_dir root) tmp" "tmp_area root tmp"
    and "lane (wfs w) (root @ comps)" "''..'' \<notin> set comps" "comps \<noteq> []" "fe \<in> set fes" "sanitize_rel (fe_path fe) = Inr comps"
    and "place_file C root (root @ comps) rep fe tmp w = (r, w')"
  shows "reverting C root fes keep w0 w' \<and> (\<forall>rep'. r = Inr rep' \<longrightarrow>
    (\<exists>d md t. entries w' (root @ comps) = Some (File d md t) \<and> blake3 C d = fe_content fe))"
proof -
  let ?p = "root @ comps"
  obtain x w1 where c: "p_create_new 0x1A4 tmp w = (x, w1)" by fastforce
  note cr = reverting_create_tmp [OF assms(1-3) c]
  show ?thesis
  proof (cases x)
    case (Inl e)
    with assms(9) c have "w' = w1" "r = Inl e" by (simp_all add: place_file_def comp_eval)
    with cr(1) show ?thesis by simp
  next
    case (Inr out)
    with cr(3) have out: "out = tmp" "staging tmp [] w1" by auto
    have l1: "lane (wfs w1) ?p" by (rule lane_keep [OF assms(4) cr(4)])
    obtain y w2 where wc: "write_chunks C root tmp (fe_chunks fe) w1 = (y, w2)" by fastforce
    note ch = write_chunks_result [OF cr(1) assms(2,3) out(2) wc]
    show ?thesis
    proof (cases y)
      case (Inl e)
      with assms(9) c Inr out wc have "w' = w2" "r = Inl e" by (simp_all add: place_file_def comp_eval)
      with ch(1) show ?thesis by simp
    next
      case y: (Inr fed)
      note st = ch(2) [OF y]
      have l2: "lane (wfs w2) ?p"
      proof (rule lane_keep [OF l1])
        show "is_link (entries w1 q)" if "is_link (entries w2 q)" for q
          using that st ch(3) [of q] by (cases "q = tmp") (auto simp: staging_def)
      qed
      show ?thesis
      proof (cases "blake3 C fed = fe_content fe")
        case False
        obtain z w3 where rm: "p_remove_file tmp w2 = (z, w3)" by fastforce
        have "lane (wfs w2) tmp"
          using sound_facts(3) [OF revertingD(1) [OF ch(1)] assms(2)] assms(3)
          by (cases tmp rule: rev_cases) (auto simp: clean_snoc tmp_area_def)
        note u = p_unlink_lane [OF revertingD(1) [OF ch(1)] this rm]
        have "reverting C root fes keep w0 w3"
          by (rule reverting_tmp [OF ch(1) u(1,2) _ assms(3)]) (use u(3) assms(2) in \<open>auto simp: inside_def\<close>)
        moreover have "w' = w3" "\<exists>e. r = Inl e"
          using assms(9) c Inr out wc y False rm by (auto simp: place_file_def comp_eval attempt_def)
        ultimately show ?thesis by auto
      next
        case True
        obtain z w3 where sy: "p_sync_all tmp w2 = (z, w3)" by fastforce
        note ss = syscall_result [OF sy [unfolded p_sync_all_def] revertingD(2) [OF ch(1)]]
        have s3: "same_env w2 w3" "wfs w3 = wfs w2" using ss by auto
        have r3: "reverting C root fes keep w0 w3" by (rule reverting_same [OF ch(1) s3])
        have t3: "staging tmp fed w3" "lane (wfs w3) ?p" using st l2 s3 by (simp_all add: staging_def entries_def)
        show ?thesis
        proof (cases z)
          case (Inl e)
          with assms(9) c Inr out wc y True sy have "w' = w3" "r = Inl e" by (simp_all add: place_file_def comp_eval)
          with r3 show ?thesis by simp
        next
          case z: (Inr u)
          obtain v w4 where rn: "p_rename tmp ?p w3 = (v, w4)" by fastforce
          note re = reverting_rename [OF r3 assms(2,3) t3 assms(5-8) True rn]
          show ?thesis
          proof (cases v)
            case (Inl e)
            with assms(9) c Inr out wc y True sy z rn have "w' = w4" "r = Inl e"
              by (simp_all add: place_file_def comp_eval)
            with re(1) show ?thesis by simp
          next
            case v: (Inr a)
            then obtain t where t: "entries w4 ?p = Some (File fed 0x1A4 t)" using re(2) by auto
            have l4: "lane (wfs w4) ?p"
            proof (cases "tmp = ?p")
              case True
              with p_rename_self(2) [OF revertingD(1) [OF r3] _ _ rn [folded True]] t3 sound_facts(3) [OF revertingD(1) [OF r3] assms(2)]
              show ?thesis by (auto simp: staging_def)
            next
              case False
              from t3(1) obtain tt where tt: "entries w3 tmp = Some (File fed 0x1A4 tt)" by (auto simp: staging_def)
              note pr = p_rename_lane [OF revertingD(1) [OF r3] sound_facts(3) [OF revertingD(1) [OF r3] assms(2)] t3(2) False tt rn]
              show ?thesis by (rule lane_keep [OF t3(2)]) (use pr(3) v in \<open>auto split: if_splits\<close>)
            qed
            have rec: "as_recorded C root fes ?p (Some (File fed 0x1A4 t))"
              using assms(7,8) True unfolding as_recorded_def by blast
            obtain b w5 where sm: "set_mode ?p (fe_mode fe) w4 = (b, w5)" by fastforce
            have "prefix root ?p" "?p \<noteq> root" using assms(6) by simp_all
            note m = reverting_chmod [OF re(1) l4 t this rec sm]
            have "w' = w5"
              using assms(9) c Inr out wc y True sy z rn v sm by (cases b) (simp_all add: place_file_def comp_eval)
            with m True show ?thesis by auto
          qed
        qed
      qed
    qed
  qed
qed

lemma tmp_path_inside:
  assumes "''..'' \<notin> set root" "tmp_path (fabric_dir root @ [''tmp'']) tag w = (r, w')"
  shows "\<exists>tmp. r = Inr tmp \<and> inside (fabric_dir root) tmp \<and> tmp_area root tmp" "same_env w w'" "wfs w' = wfs w"
  using assms by (auto simp: tmp_path_def inside_def tmp_area_def fabric_dir_def FABRIC_DIR_def same_env_def tmp_name_def)

lemma restore_file_result:
  assumes "reverting C root fes keep w0 w" "fe \<in> set fes" "restore_file C root root rep fe w = (r, w')"
  shows "reverting C root fes keep w0 w'"
    and "r = Inr rep' \<Longrightarrow> \<exists>comps d md t. sanitize_rel (fe_path fe) = Inr comps
      \<and> entries w' (root @ comps) = Some (File d md t) \<and> blake3 C d = fe_content fe"
proof -
  have "reverting C root fes keep w0 w' \<and> (\<forall>rep'. r = Inr rep' \<longrightarrow> (\<exists>comps d md t. sanitize_rel (fe_path fe) = Inr comps
      \<and> entries w' (root @ comps) = Some (File d md t) \<and> blake3 C d = fe_content fe))"
  proof -
    obtain x w1 where rd: "resolve_dest root (fe_path fe) w = (x, w1)" by fastforce
    note d = resolve_dest_result [OF assms(1) rd]
    have r1: "reverting C root fes keep w0 w1" by (rule reverting_same [OF assms(1) d(1,2)])
    show ?thesis
    proof (cases x)
      case (Inl e)
      with assms(3) rd have "w' = w1" "r = Inl e" by (simp_all add: restore_file_def comp_eval)
      with r1 show ?thesis by simp
    next
      case (Inr dest)
      from d(3) [OF this] obtain comps where c: "sanitize_rel (fe_path fe) = Inr comps" "dest = root @ comps" "comps \<noteq> []"
        "''..'' \<notin> set comps" "lane (wfs w) dest" by blast
      have l1: "lane (wfs w1) dest" using c(5) d(2) by simp
      have b: "prefix root (butlast dest)" "clean_path (wfs w1) (butlast dest)"
        using c(2,3) l1 by (simp_all add: butlast_append lane_def)
      obtain y w2 where mk: "p_create_dir_all (butlast dest) w1 = (y, w2)" by fastforce
      note m = reverting_mkdirs [OF r1 b(2,1) mk]
      have l2: "lane (wfs w2) dest" using l1 dirs_added_clean [OF m(2)] by (simp add: lane_def)
      show ?thesis
      proof (cases y)
        case (Inl e)
        with assms(3) rd Inr mk have "w' = w2" "r = Inl e" by (simp_all add: restore_file_def comp_eval)
        with m(1) show ?thesis by simp
      next
        case y: (Inr u)
        obtain z w3 where nw: "needs_write C dest (fe_content fe) w2 = (z, w3)" by fastforce
        note n = needs_write_result [OF m(1) l2 nw]
        have r3: "reverting C root fes keep w0 w3" by (rule reverting_same [OF m(1) n(1,2)])
        have l3: "lane (wfs w3) dest" using l2 n(2) by simp
        show ?thesis
        proof (cases z)
          case (Inl e)
          with assms(3) rd Inr mk y nw have "w' = w3" "r = Inl e" by (simp_all add: restore_file_def comp_eval)
          with r3 show ?thesis by simp
        next
          case z: (Inr needed)
          show ?thesis
          proof (cases needed)
            case False
            with assms(3) rd Inr mk y nw z have "w' = w3" by (simp add: restore_file_def comp_eval)
            with r3 n c False z show ?thesis by (auto simp: entries_def)
          next
            case True
            obtain v w4 where tp: "tmp_path (fabric_dir root @ [''tmp'']) ''revert'' w3 = (v, w4)" by fastforce
            note t = tmp_path_inside [OF revertingD(9) [OF r3] tp]
            obtain tmp where tmp: "v = Inr tmp" "inside (fabric_dir root) tmp" "tmp_area root tmp" using t(1) by blast
            have r4: "reverting C root fes keep w0 w4" by (rule reverting_same [OF r3 t(2,3)])
            have run: "place_file C root (root @ comps) rep fe tmp w4 = (r, w')"
              using assms(3) rd Inr mk y nw z True tp tmp(1) c(2) by (simp add: restore_file_def comp_eval)
            from place_file_result [OF r4 tmp(2,3) _ c(4,3) assms(2) c(1) run] l3 t(3) c(1,2) show ?thesis by auto
          qed
        qed
      qed
    qed
  qed
  then show "reverting C root fes keep w0 w'"
    "r = Inr rep' \<Longrightarrow> \<exists>comps d md t. sanitize_rel (fe_path fe) = Inr comps
      \<and> entries w' (root @ comps) = Some (File d md t) \<and> blake3 C d = fe_content fe" by auto
qed

section \<open>All files\<close>

lemma reverting_mono:
  assumes "reverting C root fes keep w1 w2" "reverting C root fes2 keep2 w0 w1" "set fes \<subseteq> set fes2" "keep"
  shows "reverting C root fes2 keep2 w0 w2"
proof -
  have "moved C root fes2 keep2 p (entries w1 p) (entries w2 p)" for p
    using revertingD(8) [OF assms(1), of p] assms(3,4) unfolding moved_def as_recorded_def by blast
  moreover have "moved C root fes2 keep2 p (entries w0 p) (entries w1 p)" for p
    by (rule revertingD(8) [OF assms(2)])
  ultimately have "moved C root fes2 keep2 p (entries w0 p) (entries w2 p)" for p using moved_trans by blast
  with assms(1,2) show ?thesis using same_env_trans unfolding reverting_def by blast
qed

lemma reverting_refl: "reverting C root fes keep w0 w \<Longrightarrow> reverting C root fes2 keep2 w w"
  using revertingD(4) [of C root fes keep w0 w] by (simp add: reverting_def)

text \<open>The path of an entry is spelled as a traversal spells it, and is not in the staging directory.\<close>

definition plain_paths :: "path \<Rightarrow> file_entry list \<Rightarrow> bool" where
  "plain_paths root fes \<longleftrightarrow> (\<forall>fe \<in> set fes. \<forall>comps. sanitize_rel (fe_path fe) = Inr comps \<longrightarrow>
     rel_string comps = fe_path fe \<and> \<not> tmp_area root (root @ comps))"

text \<open>The worktree has the content that the last entry of each path gives.\<close>

definition has_files :: "('z) crates_scheme \<Rightarrow> path \<Rightarrow> file_entry list \<Rightarrow> world \<Rightarrow> bool" where
  "has_files C root fes w \<longleftrightarrow> (\<forall>p fe. by_path fes p = Some fe \<longrightarrow>
     (\<exists>comps d md t. sanitize_rel p = Inr comps \<and> entries w (root @ comps) = Some (File d md t) \<and> blake3 C d = fe_content fe))"

lemma by_path_snoc: "by_path (fes @ [fe]) = (by_path fes)(fe_path fe \<mapsto> fe)"
  by (simp add: by_path_def)

lemma restore_next:
  assumes "reverting C root fes keep w0 w" "fe \<in> set fes" "plain_paths root fes" "set done \<subseteq> set fes" "has_files C root done w"
    and "restore_file C root root rep fe w = (Inr rep', w')"
  shows "has_files C root (done @ [fe]) w'"
  unfolding has_files_def
proof (intro allI impI)
  fix p g
  assume g: "by_path (done @ [fe]) p = Some g"
  have new: "\<exists>comps d md t. sanitize_rel (fe_path fe) = Inr comps \<and> entries w' (root @ comps) = Some (File d md t) \<and> blake3 C d = fe_content fe"
    by (rule restore_file_result(2) [OF assms(1,2,6) refl])
  show "\<exists>comps d md t. sanitize_rel p = Inr comps \<and> entries w' (root @ comps) = Some (File d md t) \<and> blake3 C d = fe_content g"
  proof (cases "p = fe_path fe")
    case True
    with g new show ?thesis by (simp add: by_path_snoc)
  next
    case False
    with g have o: "by_path done p = Some g" by (simp add: by_path_snoc)
    with assms(5) obtain comps d md t where c: "sanitize_rel p = Inr comps" "entries w (root @ comps) = Some (File d md t)"
      "blake3 C d = fe_content g" unfolding has_files_def by blast
    from by_path_Some [OF o] assms(4) have gp: "g \<in> set fes" "fe_path g = p" by auto
    with assms(3) c(1) have pl: "rel_string comps = p" "\<not> tmp_area root (root @ comps)" unfolding plain_paths_def by auto
    have r: "reverting C root [fe] True w w'"
      by (rule restore_file_result(1) [OF reverting_refl [OF assms(1)] _ assms(6)]) simp
    have "\<not> as_recorded C root [fe] (root @ comps) n" for n
      using assms(2,3) pl(1) False unfolding as_recorded_def plain_paths_def by auto
    with revertingD(8) [OF r, of "root @ comps"] c(2) pl(2)
    have "entries w' (root @ comps) = entries w (root @ comps)" by (auto simp: moved_def no_file_def)
    with c show ?thesis by auto
  qed
qed

lemma restore_all:
  assumes "reverting C root fes keep w0 w" "set xs \<subseteq> set fes" "set done \<subseteq> set fes"
    and "foldIO (restore_file C root root) rep xs w = (r, w')"
  shows "reverting C root fes keep w0 w'"
    and "plain_paths root fes \<Longrightarrow> has_files C root done w \<Longrightarrow> r = Inr rep' \<Longrightarrow> has_files C root (done @ xs) w'"
proof -
  have "reverting C root fes keep w0 w' \<and> (plain_paths root fes \<longrightarrow> has_files C root done w \<longrightarrow>
      (\<exists>x. r = Inr x) \<longrightarrow> has_files C root (done @ xs) w')"
    using assms
  proof (induction xs arbitrary: w rep "done")
    case Nil
    then show ?case by (simp add: comp_eval)
  next
    case (Cons fe xs)
    obtain y w1 where rf: "restore_file C root root rep fe w = (y, w1)" by fastforce
    have fe: "fe \<in> set fes" using Cons.prems(2) by simp
    note r1 = restore_file_result(1) [OF Cons.prems(1) fe rf]
    show ?case
    proof (cases y)
      case (Inl e)
      with Cons.prems(4) rf r1 show ?thesis by (auto simp: comp_eval)
    next
      case (Inr rep2)
      with Cons.prems(4) rf have run: "foldIO (restore_file C root root) rep2 xs w1 = (r, w')" by (simp add: comp_eval)
      have "set (done @ [fe]) \<subseteq> set fes" "set xs \<subseteq> set fes" using Cons.prems(2,3) by auto
      from Cons.IH [OF r1 this(2,1) run] restore_next [OF Cons.prems(1) fe _ Cons.prems(3) _ rf [unfolded Inr]]
      show ?thesis by auto
    qed
  qed
  then show "reverting C root fes keep w0 w'"
    "plain_paths root fes \<Longrightarrow> has_files C root done w \<Longrightarrow> r = Inr rep' \<Longrightarrow> has_files C root (done @ xs) w'" by auto
qed

section \<open>The rest of the worktree\<close>

text \<open>From \<open>w1\<close> on, entries only disappear: those the manifest does not have.\<close>

definition trimmed :: "path \<Rightarrow> file_entry list \<Rightarrow> bool \<Rightarrow> world \<Rightarrow> world \<Rightarrow> bool" where
  "trimmed root fes keep w1 w \<longleftrightarrow> (\<forall>p. entries w p = entries w1 p
     \<or> entries w p = None \<and> entries w1 p \<noteq> Some Dir \<and> \<not> keep \<and> unwanted root fes p)"

lemma lane_listed:
  assumes "reverting C root fes keep w0 w1" "entries w1 (root @ rel) \<noteq> None" "rel \<noteq> []"
    and "\<And>q. is_link (entries w q) \<Longrightarrow> is_link (entries w1 q)"
  shows "lane (wfs w) (root @ rel)"
proof -
  note R = revertingD [OF assms(1)]
  obtain ys y where rel: "rel = ys @ [y]" using assms(3) by (metis rev_exhaust)
  have dd: "''..'' \<notin> set rel" using R(6) assms(2) by (simp add: no_dotdot_def)
  have "entry_at (wfs w1) (root @ ys) = Some Dir"
    using wf_fs_parent [OF R(3), of "root @ ys" y] assms(2) by (simp add: rel entries_def)
  from clean_below [OF R(3,5) this] dd rel have "clean_path (wfs w1) (root @ ys)" by auto
  then have "lane (wfs w1) (root @ rel)" using dd by (auto simp: rel lane_def butlast_append)
  then show ?thesis by (rule lane_keep [OF _ assms(4)])
qed

lemma extra_entry_result:
  assumes "reverting C root fes keep w0 w1" "reverting C root fes keep w0 w" "trimmed root fes keep w1 w"
    and "item = WalkItem rel ft" "entries w1 (root @ rel) = Some nd" "ft = type_of_node nd"
    and "extra_entry root (fe_path ` set fes) keep rep item w = (r, w')"
  shows "reverting C root fes keep w0 w' \<and> trimmed root fes keep w1 w'
    \<and> (\<forall>p. entries w p = None \<longrightarrow> entries w' p = None)
    \<and> (\<forall>rep'. r = Inr rep' \<longrightarrow> \<not> keep \<longrightarrow> nd \<noteq> Dir \<longrightarrow> unwanted root fes (root @ rel) \<longrightarrow> entries w' (root @ rel) = None)"
proof (cases "ft = FtDir \<or> revert_excluded rel \<or> rel_string rel \<in> fe_path ` set fes \<or> keep")
  case True
  then have "w' = w" using assms(4,7) by (auto simp: extra_entry_def Let_def comp_eval split: if_splits)
  with True assms(2,3,6) show ?thesis by (cases nd) (auto simp: unwanted_def)
next
  case False
  obtain x w2 where rm: "p_remove_file (root @ rel) w = (x, w2)" by fastforce
  have w': "w' = w2" "(\<exists>rep'. r = Inr rep') \<longleftrightarrow> x = Inr ()"
    using False assms(4,7) rm by (cases x; auto simp: extra_entry_def Let_def comp_eval)+
  have nd: "nd \<noteq> Dir" using False assms(6) by auto
  have rel: "rel \<noteq> []" using nd assms(5) revertingD(7) [OF assms(1)] by auto
  have "is_link (entries w1 q)" if "is_link (entries w q)" for q
    using that assms(3) unfolding trimmed_def by (metis is_link.simps(2))
  then have l: "lane (wfs w) (root @ rel)" using lane_listed [OF assms(1) _ rel] assms(5) by simp
  note u = p_unlink_lane [OF revertingD(1) [OF assms(2)] l rm]
  have un: "unwanted root fes (root @ rel)" using False unfolding unwanted_def by blast
  have ch: "entries w2 p = entries w p \<or> p = root @ rel \<and> entries w2 p = None" for p using u(3) by auto
  have "reverting C root fes keep w0 w2"
  proof (rule reverting_step [OF assms(2) u(1,2)])
    show "entries w2 root = Some Dir" using ch [of root] revertingD(7) [OF assms(2)] rel by auto
    show "moved C root fes keep p (entries w p) (entries w2 p)" for p
      using ch [of p] un False by (auto simp: moved_def no_file_def)
    show "''..'' \<notin> set q" if "entries w (root @ q) = None" "entries w2 (root @ q) \<noteq> None" for q
      using that ch [of "root @ q"] by auto
  qed
  moreover have "trimmed root fes keep w1 w2"
    unfolding trimmed_def
  proof
    fix p
    show "entries w2 p = entries w1 p \<or> entries w2 p = None \<and> entries w1 p \<noteq> Some Dir \<and> \<not> keep \<and> unwanted root fes p"
      using ch [of p]
    proof
      assume "entries w2 p = entries w p"
      with assms(3) show ?thesis unfolding trimmed_def by metis
    next
      assume "p = root @ rel \<and> entries w2 p = None"
      with assms(5) un False nd show ?thesis by auto
    qed
  qed
  moreover have "entries w2 p = None" if "entries w p = None" for p using that ch [of p] by auto
  ultimately show ?thesis using w' u(3) by auto
qed

text \<open>The whole pass over the listing.\<close>

lemma extras_result:
  assumes "reverting C root fes keep w0 w1" "reverting C root fes keep w0 w" "trimmed root fes keep w1 w"
    and "\<And>item. item \<in> set items \<Longrightarrow> \<exists>rel nd. item = WalkItem rel (type_of_node nd) \<and> entries w1 (root @ rel) = Some nd"
    and "foldIO (extra_entry root (fe_path ` set fes) keep) rep items w = (r, w')"
  shows "reverting C root fes keep w0 w' \<and> trimmed root fes keep w1 w'
    \<and> (\<forall>p. entries w p = None \<longrightarrow> entries w' p = None)
    \<and> (\<forall>rep'. r = Inr rep' \<longrightarrow> \<not> keep \<longrightarrow> (\<forall>rel nd. WalkItem rel (type_of_node nd) \<in> set items \<longrightarrow> nd \<noteq> Dir
          \<longrightarrow> unwanted root fes (root @ rel) \<longrightarrow> entries w' (root @ rel) = None))"
  using assms(2-5)
proof (induction items arbitrary: w rep)
  case Nil
  then show ?case by (simp add: comp_eval)
next
  case (Cons item items)
  obtain y w2 where ex: "extra_entry root (fe_path ` set fes) keep rep item w = (y, w2)" by fastforce
  from Cons.prems(3) [of item] obtain rel nd where i: "item = WalkItem rel (type_of_node nd)" "entries w1 (root @ rel) = Some nd"
    by auto
  note e = extra_entry_result [OF assms(1) Cons.prems(1,2) i refl ex]
  show ?case
  proof (cases y)
    case (Inl x)
    with Cons.prems(4) ex e show ?thesis by (auto simp: comp_eval)
  next
    case (Inr rep2)
    with Cons.prems(4) ex have run: "foldIO (extra_entry root (fe_path ` set fes) keep) rep2 items w2 = (r, w')"
      by (simp add: comp_eval)
    have "\<exists>rel nd. it = WalkItem rel (type_of_node nd) \<and> entries w1 (root @ rel) = Some nd" if "it \<in> set items" for it
      using Cons.prems(3) that by simp
    from Cons.IH [OF _ _ this run] e
    have ih: "reverting C root fes keep w0 w' \<and> trimmed root fes keep w1 w'
      \<and> (\<forall>p. entries w2 p = None \<longrightarrow> entries w' p = None)
      \<and> (\<forall>rep'. r = Inr rep' \<longrightarrow> \<not> keep \<longrightarrow> (\<forall>rel nd. WalkItem rel (type_of_node nd) \<in> set items \<longrightarrow> nd \<noteq> Dir
          \<longrightarrow> unwanted root fes (root @ rel) \<longrightarrow> entries w' (root @ rel) = None))" by blast
    have first: "entries w' (root @ rel) = None" if "\<not> keep" "nd2 \<noteq> Dir" "unwanted root fes (root @ rel)"
      "type_of_node nd2 = type_of_node nd" for nd2
    proof -
      have "nd \<noteq> Dir" using that(2,4) by (cases nd2; cases nd) auto
      with e Inr that ih show ?thesis by blast
    qed
    show ?thesis
      using ih e first by (auto simp: i(1))
  qed
qed

text \<open>Pruning: empty directories may go, nothing else changes.\<close>

lemma prune_result:
  assumes "walk_ok C" "reverting C root fes keep w0 w1" "prune_empty_dirs C root w1 = (r, w')"
  shows "reverting C root fes keep w0 w' \<and> (\<forall>p. entries w' p = entries w1 p \<or> entries w1 p = Some Dir \<and> entries w' p = None)"
proof -
  let ?P = "\<lambda>w. reverting C root fes keep w0 w \<and> (\<forall>p. entries w p = entries w1 p \<or> entries w1 p = Some Dir \<and> entries w p = None)"
  note R = revertingD [OF assms(2)]
  have t: "same_env w1 (tick w1)" "wfs (tick w1) = wfs w1" using tick_quiet [OF R(2)] by simp_all
  let ?dirs = "sort_key (\<lambda>rel. - int (length rel)) [rel. WalkItem rel ft \<leftarrow> walk_dir C False (wfs w1) root, ft = FtDir, rel \<noteq> []]"
  have ds: "entries w1 (root @ rel) = Some Dir \<and> rel \<noteq> []" if "rel \<in> set ?dirs" for rel
  proof -
    from that have "WalkItem rel FtDir \<in> set (walk_dir C False (wfs w1) root)" "rel \<noteq> []" by (auto split: walk_item.splits)
    moreover have "WalkItem rel FtDir \<in> set (walk_dir C False (wfs w1) root) \<longleftrightarrow>
        (\<exists>nd. entry_at (wfs w1) (root @ rel) = Some nd \<and> FtDir = type_of_node nd)"
      using assms(1) R(3,5,7) unfolding walk_ok_def entries_def by blast
    ultimately show ?thesis by (auto simp: entries_def) (metis type_of_node.elims file_type.distinct)
  qed
  have step: "keeps ?P (if revert_excluded rel then ok () else andThen (attempt (p_remove_dir (root @ rel))) (\<lambda>_. ok ()))"
    if "rel \<in> set ?dirs" for rel
  proof (rule keepsI)
    fix w x w2
    assume P: "?P w" and run: "(if revert_excluded rel then ok () else andThen (attempt (p_remove_dir (root @ rel))) (\<lambda>_. ok ())) w = (x, w2)"
    show "?P w2"
    proof (cases "revert_excluded rel")
      case True
      with run P show ?thesis by (simp add: comp_eval)
    next
      case False
      obtain y w3 where rm: "p_remove_dir (root @ rel) w = (y, w3)" by fastforce
      with run False have w2: "w2 = w3" by (simp add: comp_eval attempt_def)
      have rw: "reverting C root fes keep w0 w" using P by blast
      have "is_link (entries w1 q)" if "is_link (entries w q)" for q
        using that P by (metis is_link.simps(2))
      then have l: "lane (wfs w) (root @ rel)" using lane_listed [OF assms(2)] ds [OF that] by simp
      note u = p_rmdir_lane [OF revertingD(1) [OF rw] l rm]
      have ch: "entries w3 p = entries w p \<or> p = root @ rel \<and> entries w p = Some Dir \<and> entries w3 p = None" for p
        using u(3) by (cases "p = root @ rel") auto
      have "reverting C root fes keep w0 w3"
      proof (rule reverting_step [OF rw u(1,2)])
        show "entries w3 root = Some Dir" using ch [of root] revertingD(7) [OF rw] ds [OF that] by auto
        show "moved C root fes keep p (entries w p) (entries w3 p)" for p
          using ch [of p] by (auto simp: moved_def no_file_def)
        show "''..'' \<notin> set q" if "entries w (root @ q) = None" "entries w3 (root @ q) \<noteq> None" for q
          using that ch [of "root @ q"] by auto
      qed
      moreover have "entries w3 p = entries w1 p \<or> entries w1 p = Some Dir \<and> entries w3 p = None" for p
        using ch [of p] P by metis
      ultimately show ?thesis using w2 by simp
    qed
  qed
  have "keeps ?P (foldIO (\<lambda>_ rel. if revert_excluded rel then ok () else andThen (attempt (p_remove_dir (root @ rel))) (\<lambda>_. ok ())) () ?dirs)"
    by (rule keeps_foldIO) (rule step)
  moreover have "?P (tick w1)" using reverting_same [OF assms(2) t] t(2) by (simp add: entries_def)
  moreover have "foldIO (\<lambda>_ rel. if revert_excluded rel then ok () else andThen (attempt (p_remove_dir (root @ rel))) (\<lambda>_. ok ())) () ?dirs
      (tick w1) = (r, w')"
    using assms(3) t(2) by (simp add: prune_empty_dirs_def p_walk_def Let_def comp_eval)
  ultimately show ?thesis by (rule keepsD)
qed

section \<open>Properties\<close>

lemma reverting_start:
  assumes "sound (fabric_dir root) w" "honest w" "no_dotdot root w" "entries w root = Some Dir"
  shows "reverting C root fes keep w w"
  using assms by (simp add: reverting_def)

lemma listed:
  assumes "walk_ok C" "reverting C root fes keep w0 w1" "item \<in> set (walk_dir C b (wfs w1) root)"
  shows "\<exists>rel nd. item = WalkItem rel (type_of_node nd) \<and> entries w1 (root @ rel) = Some nd"
proof (cases item)
  case (WalkErr e)
  with assms revertingD(3,5,7) [OF assms(2)] show ?thesis unfolding walk_ok_def entries_def by metis
next
  case (WalkItem rel ft)
  with assms revertingD(3,5,7) [OF assms(2)] show ?thesis unfolding walk_ok_def entries_def by metis
qed

lemma unlisted:
  assumes "walk_ok C" "reverting C root fes keep w0 w1" "entries w1 (root @ rel) = Some nd"
  shows "WalkItem rel (type_of_node nd) \<in> set (walk_dir C b (wfs w1) root)"
  using assms revertingD(3,5,7) [OF assms(2)] unfolding walk_ok_def entries_def by metis

lemma revert_apply_run:
  assumes "walk_ok C" "sound (fabric_dir root) w" "honest w" "no_dotdot root w" "entries w root = Some Dir"
    and "revert_apply C root root m keep w = (r, w')"
  shows "reverting C root (m_files m) keep w w'"
    and "r = Inr rep \<Longrightarrow> plain_paths root (m_files m) \<Longrightarrow> has_files C root (m_files m) w'
      \<and> (\<not> keep \<longrightarrow> (\<forall>rel nd. entries w' (root @ rel) = Some nd \<longrightarrow> nd \<noteq> Dir \<longrightarrow> \<not> unwanted root (m_files m) (root @ rel)))"
proof -
  let ?fes = "m_files m" and ?T = "fabric_dir root @ [''tmp'']"
  let ?R = "reverting C root ?fes keep w"
  have r0: "?R w" by (rule reverting_start [OF assms(2-5)])
  have "?R w' \<and> ((\<exists>rep. r = Inr rep) \<longrightarrow> plain_paths root ?fes \<longrightarrow> has_files C root ?fes w'
      \<and> (\<not> keep \<longrightarrow> (\<forall>rel nd. entries w' (root @ rel) = Some nd \<longrightarrow> nd \<noteq> Dir \<longrightarrow> \<not> unwanted root ?fes (root @ rel))))"
  proof (cases "validate m")
    case (Inl e)
    with assms(6) r0 show ?thesis by (auto simp: revert_apply_def comp_eval)
  next
    case (Inr u)
    obtain x w1 where ts: "tombstones C root w = (x, w1)" by fastforce
    have r1: "?R w1" by (rule keepsD [OF inert_tombstones [OF inert_reverting] r0 ts])
    show ?thesis
    proof (cases "\<exists>ts u. x = Inr ts \<and> refuse_purged C ts ?fes = Inr u")
      case False
      have "w' = w1 \<and> (\<exists>e. r = Inl e)"
      proof (cases x)
        case (Inl e)
        with assms(6) Inr ts show ?thesis by (auto simp: revert_apply_def comp_eval)
      next
        case x: (Inr t)
        with False obtain e where "refuse_purged C t ?fes = Inl e" by (cases "refuse_purged C t ?fes") auto
        with assms(6) Inr ts x show ?thesis by (auto simp: revert_apply_def comp_eval)
      qed
      with r1 show ?thesis by auto
    next
      case True
      then obtain t a where t: "x = Inr t" "refuse_purged C t ?fes = Inr a" by blast
      obtain y w2 where mk: "p_create_dir_all ?T w1 = (y, w2)" by fastforce
      have "inside (fabric_dir root) ?T" using revertingD(9) [OF r0] by (auto simp: inside_def fabric_dir_def FABRIC_DIR_def)
      then have "clean_path (wfs w1) ?T" by (rule sound_facts(3) [OF revertingD(1) [OF r1]])
      from reverting_mkdirs(1) [OF r1 this _ mk] have r2: "?R w2" by (simp add: fabric_dir_def)
      show ?thesis
      proof (cases y)
        case (Inl e)
        with assms(6) Inr ts t mk r2 show ?thesis by (auto simp: revert_apply_def comp_eval)
      next
        case y: (Inr b)
        obtain z w3 where fo: "foldIO (restore_file C root root) empty_revert ?fes w2 = (z, w3)" by fastforce
        note all = restore_all [OF r2 subset_refl _ fo, of "[]"]
        have r3: "?R w3" using all(1) by simp
        show ?thesis
        proof (cases z)
          case (Inl e)
          with assms(6) Inr ts t mk y fo r3 show ?thesis by (auto simp: revert_apply_def comp_eval)
        next
          case z: (Inr rep3)
          have tk: "same_env w3 (tick w3)" "wfs (tick w3) = wfs w3" using tick_quiet [OF revertingD(2) [OF r3]] by simp_all
          have r4: "?R (tick w3)" by (rule reverting_same [OF r3 tk])
          have e4: "entries (tick w3) = entries w3" using tk(2) by (simp add: entries_def)
          obtain v w5 where ex: "foldIO (extra_entry root (fe_path ` set ?fes) keep) rep3 (walk_dir C True (wfs w3) root) (tick w3) = (v, w5)"
            by fastforce
          have tr: "trimmed root ?fes keep w3 (tick w3)" using e4 by (simp add: trimmed_def)
          note xs = extras_result [OF r3 r4 tr listed [OF assms(1) r3, where b = True] ex, simplified]
          have e5: "?R w5" "trimmed root ?fes keep w3 w5" using xs by blast+
          have gone: "entries w5 (root @ rel) = None" if "v = Inr rep5" "\<not> keep" "entries w3 (root @ rel) = Some nd" "nd \<noteq> Dir"
              "unwanted root ?fes (root @ rel)" for rep5 rel nd
            using xs that unlisted [OF assms(1) r3 that(3), of True] by blast
          show ?thesis
          proof (cases v)
            case (Inl e)
            with assms(6) Inr ts t mk y fo z ex tk(2) e5 show ?thesis
              by (auto simp: revert_apply_def comp_eval p_walk_def Let_def)
          next
            case v: (Inr rep5)
            obtain p w6 where pr: "prune_empty_dirs C root w5 = (p, w6)" by fastforce
            note q = prune_result [OF assms(1) e5(1) pr]
            have w': "w' = w6"
              using assms(6) Inr ts t mk y fo z ex v pr tk(2)
              by (cases p; auto simp: revert_apply_def comp_eval p_walk_def Let_def)
            have "has_files C root ?fes w6" if pp: "plain_paths root ?fes"
            proof -
              have "has_files C root [] w2" by (simp add: has_files_def by_path_def)
              with all(2) [OF _ pp _ z] have h3: "has_files C root ?fes w3" by simp
              show ?thesis
                unfolding has_files_def
              proof (intro allI impI)
                fix pa fe
                assume b: "by_path ?fes pa = Some fe"
                with h3 obtain comps d md tt where c: "sanitize_rel pa = Inr comps"
                  "entries w3 (root @ comps) = Some (File d md tt)" "blake3 C d = fe_content fe"
                  unfolding has_files_def by blast
                from by_path_Some [OF b] have f: "fe \<in> set ?fes" "fe_path fe = pa" by auto
                with pp c(1) have "rel_string comps = pa" unfolding plain_paths_def by auto
                with f have "\<not> unwanted root ?fes (root @ comps)" unfolding unwanted_def by auto
                with e5(2) c(2) have "entries w5 (root @ comps) = entries w3 (root @ comps)" unfolding trimmed_def by metis
                with q c(2) have "entries w6 (root @ comps) = Some (File d md tt)" by (metis node.distinct(1) option.inject)
                with c show "\<exists>comps d md t. sanitize_rel pa = Inr comps \<and> entries w6 (root @ comps) = Some (File d md t)
                    \<and> blake3 C d = fe_content fe" by blast
              qed
            qed
            moreover have "\<not> unwanted root ?fes (root @ rel)"
              if k: "\<not> keep" and e: "entries w6 (root @ rel) = Some nd" "nd \<noteq> Dir" for rel nd
            proof
              assume un: "unwanted root ?fes (root @ rel)"
              have "entries w5 (root @ rel) = Some nd" using q e by (metis option.distinct(1))
              moreover from this e5(2) have "entries w3 (root @ rel) = Some nd" unfolding trimmed_def by (metis option.distinct(1))
              ultimately show False using gone [OF v k _ e(2) un] by simp
            qed
            ultimately show ?thesis using w' q by blast
          qed
        qed
      qed
    qed
  qed
  then show "?R w'"
    "r = Inr rep \<Longrightarrow> plain_paths root ?fes \<Longrightarrow> has_files C root ?fes w'
      \<and> (\<not> keep \<longrightarrow> (\<forall>rel nd. entries w' (root @ rel) = Some nd \<longrightarrow> nd \<noteq> Dir \<longrightarrow> \<not> unwanted root ?fes (root @ rel)))"
    by blast+
qed

text \<open>C5: A revert stays in the worktree and loses nothing. Whatever the manifest holds, whatever
  symbolic links lie in the worktree, and wherever the run stops, with an error or not: nothing
  outside the worktree has changed; and in it every entry is as it was, or a directory made or
  pruned, or staging, or a file whose content hashes to what the manifest records for that path, or
  an entry the manifest does not have, which is gone and only when extra files are not kept.\<close>

theorem revert_confined:
  assumes "walk_ok C" "sound (fabric_dir root) w" "honest w" "no_dotdot root w" "entries w root = Some Dir"
    and "revert_apply C root root m keep w = (r, w')"
  shows "(\<forall>p. \<not> prefix root p \<longrightarrow> entries w' p = entries w p)
    \<and> (\<forall>p. entries w' p = entries w p \<or> no_file (entries w p) \<and> no_file (entries w' p) \<or> tmp_area root p
        \<or> as_recorded C root (m_files m) p (entries w' p)
        \<or> no_file (entries w' p) \<and> \<not> keep \<and> unwanted root (m_files m) p)"
  using revertingD(8) [OF revert_apply_run(1) [OF assms]] unfolding moved_def by blast

text \<open>C6: A revert that succeeds restores the snapshot. For a manifest with paths as a snapshot spells
  them, each path of it then is a regular file whose content hashes to what its last entry records,
  and, unless extra files are kept, every file or link of the worktree that is not under
  \<open>.respawn\<close>, \<open>.git\<close> or \<open>.DS_Store\<close> is one of the manifest.\<close>

theorem revert_restores:
  assumes "walk_ok C" "sound (fabric_dir root) w" "honest w" "no_dotdot root w" "entries w root = Some Dir"
    and "plain_paths root (m_files m)" "revert_apply C root root m keep w = (Inr rep, w')"
  shows "(\<forall>p fe. by_path (m_files m) p = Some fe \<longrightarrow> (\<exists>comps d md t. sanitize_rel p = Inr comps
        \<and> entries w' (root @ comps) = Some (File d md t) \<and> blake3 C d = fe_content fe))
    \<and> (\<not> keep \<longrightarrow> (\<forall>rel nd. entries w' (root @ rel) = Some nd \<longrightarrow> nd \<noteq> Dir \<longrightarrow> \<not> revert_excluded rel
        \<longrightarrow> by_path (m_files m) (rel_string rel) \<noteq> None))"
proof -
  note r = revert_apply_run(2) [OF assms(1-5,7) refl assms(6)]
  have "by_path (m_files m) (rel_string rel) \<noteq> None"
    if "\<not> keep" "entries w' (root @ rel) = Some nd" "nd \<noteq> Dir" "\<not> revert_excluded rel" for rel nd
  proof -
    have "rel_string rel \<in> fe_path ` set (m_files m)" using r that by (auto simp: unwanted_def)
    then show ?thesis by (simp only: by_path_dom)
  qed
  with r show ?thesis unfolding has_files_def by blast
qed

section \<open>Concrete worktrees\<close>

lemma fresh_honest: "honest (fresh_world fs)"
  by (simp add: honest_def fresh_world_def)

lemma ref_walk: "walk_dir ref_snap_crates = ref_walk_dir" "walk_ok ref_snap_crates"
  by (simp_all add: ref_snap_crates_def audit_crates.defs ref_walk_ok)

text \<open>A worktree with the files \<open>a\<close> and \<open>b\<close>, and a manifest that has \<open>a\<close>.\<close>

definition two_files :: world where
  "two_files = fresh_world (([''b''], File ''x'' 0x1A4 5) # ([''a''], File ''hello'' 0x1A4 5) # demo_fs)"

definition kept_entry :: file_entry where
  "kept_entry = \<lparr>fe_path = ''a'', fe_mode = 0x1A4, fe_size = 5, fe_mtime_secs = 0, fe_mtime_nanos = 0,
     fe_content = blake3 ref_snap_crates ''hello'', fe_chunks = [blake3 ref_snap_crates ''hello'']\<rparr>"

definition one_file :: manifest where
  "one_file = empty_manifest\<lparr>m_files := [kept_entry]\<rparr>"

lemma sanitize_a: "sanitize_rel ''a'' = Inr [''a'']"
  by code_simp

lemma two_files_revert:
  obtains rep w' where "revert_apply ref_snap_crates [] [] one_file False two_files = (Inr rep, w')"
proof -
  have "fst (revert_apply ref_snap_crates [] [] one_file False two_files)
      = Inr \<lparr>rr_restored = [], rr_removed = [''b''], rr_skipped_extra = []\<rparr>"
    by (simp add: revert_apply_def comp_eval andThen_eval_bool one_file_def kept_entry_def empty_manifest_def validate_def MANIFEST_VERSION_def
      MIN_MANIFEST_VERSION_def MAX_MANIFEST_FILES_def MAX_MANIFEST_CHUNKS_def sanitize_a
      tombstones_def p_read_to_string_def syscall_def Let_def two_files_def fresh_world_def tick_def attempt_def
      fs_read_def fs_stat_def lookup_path_def max_symlinks_def entry_at_def demo_fs_def tombstone_path_def
      TOMBSTONE_FILE_def fabric_dir_def FABRIC_DIR_def purged_entry_def
      refuse_purged_def p_create_dir_all_def fs_create_dir_all_def fs_is_dir_def put_node_def
      restore_file_def resolve_dest_def needs_write_def p_symlink_metadata_def drift_file_hash_def p_read_def
      p_walk_def ref_walk ref_walk_dir_def
      extra_entry_def rel_string_def replace_char_def revert_excluded_def empty_revert_def p_remove_file_def fs_unlink_def
      drop_node_def prune_empty_dirs_def p_remove_dir_def fs_rmdir_def)
  then show ?thesis using that by (metis fst_conv prod.exhaust)
qed

lemma two_files_entries:
  "entries two_files p = (if p = [''b''] then Some (File ''x'' 0x1A4 5) else if p = [''a''] then Some (File ''hello'' 0x1A4 5)
     else entries demo p)"
  by (auto simp: two_files_def fresh_entries entry_at_def demo_entries)

lemma two_files_facts: "sound (fabric_dir []) two_files" "honest two_files" "no_dotdot [] two_files" "entries two_files [] = Some Dir"
proof -
  show "sound (fabric_dir []) two_files"
    unfolding two_files_def by (rule plain_fs_sound) (simp_all add: plain_fs_def demo_fs_def fabric_dir_def FABRIC_DIR_def)
  show "honest two_files" by (simp add: two_files_def fresh_honest)
  show "no_dotdot [] two_files" by (auto simp: no_dotdot_def two_files_entries demo_entries demo_fs_def split: if_splits)
  show "entries two_files [] = Some Dir" by (simp add: entries_def)
qed

theorem revert_restores_witness:
  "\<exists>rep w'. revert_apply ref_snap_crates [] [] one_file False two_files = (Inr rep, w')
     \<and> is_file_node (entries w' [''a'']) \<and> \<not> is_file_node (entries w' [''b''])"
proof -
  obtain rep w' where run: "revert_apply ref_snap_crates [] [] one_file False two_files = (Inr rep, w')"
    by (rule two_files_revert)
  have fs: "m_files one_file = [kept_entry]" "fe_path kept_entry = ''a''" by (simp_all add: one_file_def kept_entry_def)
  have pp: "plain_paths [] (m_files one_file)"
    by (simp add: plain_paths_def fs sanitize_a tmp_area_def fabric_dir_def FABRIC_DIR_def rel_string_def replace_char_def)
  note r = revert_restores [OF ref_walk(2) two_files_facts pp run]
  have "by_path (m_files one_file) ''a'' = Some kept_entry" by (simp add: by_path_def fs)
  then obtain comps d md t where "sanitize_rel ''a'' = Inr comps" "entries w' ([] @ comps) = Some (File d md t)"
    using r by blast
  then have "is_file_node (entries w' [''a''])" by (auto simp: sanitize_a is_file_node_iff)
  moreover have "\<not> is_file_node (entries w' [''b''])"
  proof -
    have "by_path (m_files one_file) (rel_string [''b'']) = None"
      by (simp add: by_path_def fs rel_string_def replace_char_def)
    moreover have "\<not> revert_excluded [''b'']" by (simp add: revert_excluded_def FABRIC_DIR_def)
    moreover from r have "entries w' ([] @ rel) = Some nd \<longrightarrow> nd \<noteq> Dir \<longrightarrow> \<not> revert_excluded rel
      \<longrightarrow> by_path (m_files one_file) (rel_string rel) \<noteq> None" for rel nd by blast
    ultimately have "entries w' [''b''] \<noteq> Some (File d md t)" for d md t by (metis append_Nil node.distinct(1))
    then show ?thesis by (auto simp: is_file_node_iff)
  qed
  ultimately show ?thesis using run by blast
qed

text \<open>A link out of the worktree, and a manifest with a path through it.\<close>

definition linked :: world where
  "linked = fresh_world [([''r''], Dir), ([''r'', ''.respawn''], Dir), ([''r'', ''link''], Symlink True [''etc'']),
     ([''etc''], Dir), ([''etc'', ''a''], File ''s'' 0x1A4 5)]"

definition through_link :: manifest where
  "through_link = empty_manifest\<lparr>m_files := [kept_entry\<lparr>fe_path := ''link/a''\<rparr>]\<rparr>"

lemma linked_facts: "sound (fabric_dir [''r'']) linked" "honest linked" "no_dotdot [''r''] linked" "entries linked [''r''] = Some Dir"
proof -
  let ?fs = "[([''r''], Dir), ([''r'', ''.respawn''], Dir), ([''r'', ''link''], Symlink True [''etc'']),
     ([''etc''], Dir), ([''etc'', ''a''], File ''s'' 0x1A4 5)]"
  have "wf_fs ?fs" by (auto simp: wf_fs_def entry_at_def split: if_splits)
  moreover have "link_free (fabric_dir [''r'']) ?fs"
    by (auto simp: link_free_def fabric_dir_def FABRIC_DIR_def entry_at_def prefix_Cons split: if_splits)
  ultimately show "sound (fabric_dir [''r'']) linked" unfolding linked_def by (rule fresh_sound)
  show "honest linked" by (simp add: linked_def fresh_honest)
  show "no_dotdot [''r''] linked" by (auto simp: no_dotdot_def linked_def fresh_entries entry_at_def split: if_splits)
  show "entries linked [''r''] = Some Dir" by (simp add: linked_def fresh_entries entry_at_def)
qed

theorem revert_confined_witness:
  "\<exists>r w'. revert_apply ref_snap_crates [''r''] [''r''] through_link False linked = (r, w')
     \<and> entries w' [''etc'', ''a''] = Some (File ''s'' 0x1A4 5)"
proof -
  obtain r w' where run: "revert_apply ref_snap_crates [''r''] [''r''] through_link False linked = (r, w')" by fastforce
  from revert_confined [OF ref_walk(2) linked_facts run]
  have "entries w' [''etc'', ''a''] = entries linked [''etc'', ''a'']" by auto
  with run show ?thesis by (simp add: linked_def fresh_entries entry_at_def)
qed

end
