(* ===== verification/Guard.thy ===== *)
theory Guard
  imports Revert
begin

text \<open>
  \<open>src/guard.rs\<close>: a snapshot, a command run in the worktree, a report of what it changed, and
  the way back if the policy asks for it, all under the lock of the fabric. The command is a
  parameter: any change of the world, or a failure to start.
\<close>

section \<open>Policy and report\<close>

datatype revert_policy = Never | OnFail | Always

text \<open>\<open>std::process::ExitStatus\<close> on Unix: \<open>code()\<close> and \<open>signal()\<close>.\<close>

record exit_status =
  es_code :: "32 word option"
  es_signal :: "32 word option"

record guard_report =
  gr_snapshot :: hash
  gr_exit_code :: "32 word option"
  gr_signal :: "32 word option"
  gr_drift :: drift_report
  gr_reverted :: bool

definition process_exit_code :: "guard_report \<Rightarrow> 32 word" where
  "process_exit_code rep =
     (case (gr_exit_code rep, gr_signal rep) of
        (Some c, _) \<Rightarrow> c
      | (None, Some sig) \<Rightarrow> 128 + sig
      | (None, None) \<Rightarrow> 1)"

definition exit_success :: "exit_status \<Rightarrow> bool" where
  "exit_success st \<longleftrightarrow> es_code st = Some 0"

definition status_parts :: "exit_status \<Rightarrow> 32 word option \<times> 32 word option" where
  "status_parts st = (es_code st, es_signal st)"

text \<open>\<open>i32\<close> as \<open>format!\<close> prints it.\<close>

definition sdec :: "32 word \<Rightarrow> string" where
  "sdec w = (if sint w < 0 then CHR ''-'' # dec (nat (- sint w)) else dec (nat (sint w)))"

section \<open>The lock\<close>

text \<open>
  \<open>let _lock = store.try_lock()?;\<close> and the rest of the function: the lock is dropped on every
  way out of it.
\<close>

definition with_lock :: "path \<Rightarrow> 'a io \<Rightarrow> 'a io" where
  "with_lock root m w =
     (case try_lock root w of
        (Inl e, w1) \<Rightarrow> (Inl e, w1)
      | (Inr _, w1) \<Rightarrow> (case m w1 of (r, w2) \<Rightarrow> (r, unlock w2)))"

section \<open>Running the command\<close>

text \<open>\<open>Command::status\<close> with the worktree as working directory.\<close>

type_synonym spawner = "string list \<Rightarrow> path \<Rightarrow> world \<Rightarrow> (ioerr + exit_status) \<times> world"

definition spawned :: "spawner \<Rightarrow> string list \<Rightarrow> path \<Rightarrow> (ioerr + exit_status) io" where
  "spawned sp argv root w = (case sp argv root w of (r, w1) \<Rightarrow> (Inr r, w1))"

definition should_revert :: "revert_policy \<Rightarrow> bool \<Rightarrow> bool" where
  "should_revert policy failed = (case policy of Always \<Rightarrow> True | OnFail \<Rightarrow> failed | Never \<Rightarrow> False)"

definition guard_detail :: "string \<Rightarrow> 32 word option \<Rightarrow> drift_report \<Rightarrow> bool \<Rightarrow> string" where
  "guard_detail cmd exit_code report reverted =
     cmd @ '' exit '' @ sdec (case exit_code of Some c \<Rightarrow> c | None \<Rightarrow> -1)
       @ '' drift +'' @ dec (length (dr_added report)) @ '' ~'' @ dec (length (dr_modified report))
       @ '' -'' @ dec (length (dr_deleted report)) @ (if reverted then '' reverted'' else [])"

definition guard_revert ::
    "('z) snap_crates_scheme \<Rightarrow> path \<Rightarrow> path \<Rightarrow> hash \<Rightarrow> manifest \<Rightarrow> bool \<Rightarrow> bool io" where
  "guard_revert C store_root root snap m wanted =
     (if wanted then
        andThen (revert_apply C store_root root m False) (\<lambda>_.
        andThen (set_head C store_root (Some snap)) (\<lambda>_.
        ok True))
      else ok False)"

text \<open>After the command has ended.\<close>

definition guard_after ::
    "('z) snap_crates_scheme \<Rightarrow> path \<Rightarrow> path \<Rightarrow> string \<Rightarrow> revert_policy \<Rightarrow> bool \<Rightarrow> hash \<Rightarrow> exit_status
       \<Rightarrow> guard_report io" where
  "guard_after C store_root root cmd policy full_drift snap st =
     andThen (load C store_root snap) (\<lambda>m.
     andThen (detect C root m full_drift) (\<lambda>report.
     andThen (guard_revert C store_root root snap m (should_revert policy (\<not> exit_success st))) (\<lambda>reverted.
     let (exit_code, sig) = status_parts st in
     andThen (audit_record C store_root ''guard'' (guard_detail cmd exit_code report reverted)) (\<lambda>_.
     ok \<lparr>gr_snapshot = snap, gr_exit_code = exit_code, gr_signal = sig, gr_drift = report,
         gr_reverted = reverted\<rparr>))))"

definition guard_body ::
    "('z) snap_crates_scheme \<Rightarrow> spawner \<Rightarrow> path \<Rightarrow> path \<Rightarrow> string list \<Rightarrow> revert_policy \<Rightarrow> bool
       \<Rightarrow> guard_report io" where
  "guard_body C sp store_root root argv policy full_drift =
     (let cmd = join_with '' '' argv in
      andThen (store_head C store_root) (\<lambda>prev_head.
      andThen (create C store_root root (''guard: '' @ cmd)) (\<lambda>snap.
      andThen (spawned sp argv root) (\<lambda>r.
      case r of
        Inl e \<Rightarrow> andThen (set_head C store_root prev_head) (\<lambda>_. fail (Io e))
      | Inr st \<Rightarrow> guard_after C store_root root cmd policy full_drift snap st))))"

definition guard_run ::
    "('z) snap_crates_scheme \<Rightarrow> spawner \<Rightarrow> path \<Rightarrow> path \<Rightarrow> string list \<Rightarrow> revert_policy \<Rightarrow> bool
       \<Rightarrow> guard_report io" where
  "guard_run C sp store_root root argv policy full_drift =
     (if argv = [] then fail (Corrupt ''guard requires a command'')
      else with_lock store_root (guard_body C sp store_root root argv policy full_drift))"

end
