(* ===== verification/Guarded_Run.thy ===== *)
theory Guarded_Run
  imports Capture Revert_Facts Guard
begin

text \<open>
  A guarded run from end to end on a small worktree: a file \<open>a\<close>, and a command that overwrites it and
  leaves a file \<open>b\<close>. The run is evaluated step by step in a world where nothing fails and the clock
  stands still; the hashes stay symbolic.
\<close>

section \<open>The world and its steps\<close>

definition bench :: "fs \<Rightarrow> nat \<Rightarrow> 64 word \<Rightarrow> bool \<Rightarrow> world" where
  "bench fs n k l = \<lparr>wfs = fs, wtick = n, wtime = (\<lambda>n. 5), wfault = (\<lambda>n. None), winterf = (\<lambda>n f. f),
     wrand = (\<lambda>n k. replicate k (CHR 0x07)), wenv = (\<lambda>v. None), wlock = l, wtmp = k, wpid = 1\<rparr>"

definition overwrite :: "path \<Rightarrow> bytes \<Rightarrow> fs \<Rightarrow> fs" where
  "overwrite p d fs = (if entry_at fs p = Some Dir then fs else put_node p (File d 0x1A4 9) fs)"

definition unruly :: spawner where
  "unruly argv root w = (Inr \<lparr>es_code = Some 1, es_signal = None\<rparr>,
     w\<lparr>wfs := overwrite (root @ [''a'']) ''gone'' (overwrite (root @ [''b'']) ''new'' (wfs w))\<rparr>)"

lemma bench_steps:
  "syscall f (bench fs n k l) = (case f fs 5 of
     (Inl e, g) \<Rightarrow> (Inl (Io e), bench g (n + 1) k l) | (Inr x, g) \<Rightarrow> (Inr x, bench g (n + 1) k l))"
  "query q (bench fs n k l) = (Inr (q fs), bench fs (n + 1) k l)"
  "p_write_all p d (bench fs n k l) = (Inr (), bench (fs_append 5 fs p d) (n + 1) k l)"
  "p_walk C b root (bench fs n k l) = (Inr (walk_dir C b fs root), bench fs (n + 1) k l)"
  "now_secs (bench fs n k l) = (Inr 0, bench fs (n + 1) k l)"
  "tmp_path dir tag (bench fs n k l) = (Inr (dir @ [tmp_name (bench fs n k l) tag]), bench fs n (k + 1) l)"
  "tmp_name (bench fs n k l) tag = ''.tmp-'' @ dec 1 @ ''-'' @ dec (unat k) @ ''-'' @ tag"
  "wlock (bench fs n k l) = l" "(bench fs n k l)\<lparr>wlock := b\<rparr> = bench fs n k b"
  "unruly argv root (bench fs n k l) = (Inr \<lparr>es_code = Some 1, es_signal = None\<rparr>,
     bench (overwrite (root @ [''a'']) ''gone'' (overwrite (root @ [''b'']) ''new'' fs)) n k l)"
  "env_actor (bench fs n k l) = (Inr None, bench fs n k l)"
  by (auto simp: bench_def syscall_def query_def p_write_all_def p_walk_def now_secs_def tmp_path_def tmp_name_def
      tick_def Let_def unruly_def env_actor_def comp_eval split: prod.splits sum.splits)

lemmas fs_eval = fs_open_append_def fs_read_def fs_stat_def fs_exists_def fs_create_new_def fs_create_dir_all_def
  fs_is_dir_def fs_append_def fs_rename_def fs_chmod_def fs_unlink_def fs_rmdir_def put_node_def drop_node_def
  lookup_path_def max_symlinks_def entry_at_def

lemmas prim_eval = p_open_append_def p_read_def p_read_nofollow_def p_read_to_string_def p_exists_def
  p_create_dir_all_def p_create_new_def p_sync_all_def p_rename_def p_symlink_metadata_def p_remove_file_def
  p_remove_dir_def p_set_mode_def

lemmas place_eval = fabric_dir_def FABRIC_DIR_def head_path_def tombstone_path_def TOMBSTONE_FILE_def audit_path_def

lemmas run_eval = comp_eval andThen_eval_bool attempt_def Let_def bench_steps prim_eval fs_eval place_eval
  ref_walk(1) ref_walk_dir_def rel_string_def replace_char_def sanitize_a

section \<open>The snapshot\<close>

definition start_fs :: fs where
  "start_fs = [([''.respawn'', ''lock''], File [] 0x1A4 5), ([''.respawn''], Dir), ([''.respawn'', ''objects''], Dir),
     ([''.respawn'', ''manifests''], Dir), ([''.respawn'', ''HEAD''], File [] 0x1A4 0), ([''a''], File ''hello'' 0x1A4 5)]"

definition hello_hash :: hash where "hello_hash = hash_bytes ref_snap_crates ''hello''"

definition fan :: "hash \<Rightarrow> string" where "fan k = take 2 (hash_hex ref_snap_crates k)"
definition leaf :: "hash \<Rightarrow> string" where "leaf k = drop 2 (hash_hex ref_snap_crates k)"

lemma blob_places:
  "manifest_path ref_snap_crates [] k = [''.respawn'', ''manifests'', fan k, leaf k]"
  "object_path ref_snap_crates [] k = [''.respawn'', ''objects'', fan k, leaf k]"
  by (simp_all add: manifest_path_def object_path_def Let_def fan_def leaf_def place_eval)

lemma dotless: "lower_hex s \<Longrightarrow> s \<noteq> CHR ''.'' # x" "lower_hex s \<Longrightarrow> CHR ''.'' # x \<noteq> s"
  by (auto simp: lower_hex_def is_hexdigit_def digit_def code_def)

lemma blob_names:
  "leaf k \<noteq> CHR ''.'' # x" "CHR ''.'' # x \<noteq> leaf k" "fan k \<noteq> CHR ''.'' # x" "CHR ''.'' # x \<noteq> fan k"
proof -
  have "lower_hex (hash_hex ref_snap_crates k)"
    using hash_hex_facts(2) ref_snap_facts(1) by (auto simp: crates_ok_def)
  then have "lower_hex (fan k)" "lower_hex (leaf k)" using lower_hex_take_drop by (auto simp: fan_def leaf_def)
  then show "leaf k \<noteq> CHR ''.'' # x" "CHR ''.'' # x \<noteq> leaf k" "fan k \<noteq> CHR ''.'' # x" "CHR ''.'' # x \<noteq> fan k"
    using dotless by blast+
qed

definition hello_entry :: file_entry where
  "hello_entry = \<lparr>fe_path = ''a'', fe_mode = 0x1A4, fe_size = 5, fe_mtime_secs = 0, fe_mtime_nanos = 5,
     fe_content = hello_hash, fe_chunks = [hello_hash]\<rparr>"

definition hello_manifest :: manifest where
  "hello_manifest = \<lparr>m_version = MANIFEST_VERSION, m_parent = None, m_timestamp = 0, m_message = ''guard: c'',
     m_files = [hello_entry], m_unstable = [], m_actor = None\<rparr>"

definition hello_bytes :: bytes where
  "hello_bytes = (case json_manifest ref_snap_crates hello_manifest of Inr b \<Rightarrow> b | Inl _ \<Rightarrow> [])"

definition hello_id :: hash where "hello_id = hash_bytes ref_snap_crates hello_bytes"

lemma hello_json: "json_manifest ref_snap_crates hello_manifest = Inr hello_bytes"
  by (simp add: hello_bytes_def ref_snap_crates_def audit_crates.extend_def ref_json_manifest_def)

lemma hello_chunks: "chunker ref_snap_crates ''hello'' = [''hello'']"
  by (simp add: chunker_def ref_snap_crates_def audit_crates.extend_def ref_cdc_stream_def ref_cdc_points_def
      ref_points.simps CDC_MAX_def)

lemma hash_fold: "blake3 C d = hash_bytes C d"
  by (simp add: hash_bytes_def)

definition object_fs :: fs where
  "object_fs = start_fs @ [([''.respawn'', ''objects'', fan hello_hash], Dir),
     ([''.respawn'', ''objects'', fan hello_hash, leaf hello_hash], File ''hello'' 0x1A4 5)]"

lemma run_begin:
  "try_lock [] (bench start_fs 10 0 False) = (Inr (), bench start_fs 11 0 True)"
  "store_head ref_snap_crates [] (bench start_fs 11 0 True) = (Inr None, bench start_fs 12 0 True)"
  by (simp_all add: try_lock_def store_head_def run_eval start_fs_def parse_head_empty)

lemma run_composing:
  "composing ref_snap_crates [] ''guard: c'' None (bench start_fs 12 0 True) = (Inr (hello_manifest, hello_bytes), bench object_fs 28 1 True)"
  by (simp add: composing_def run_eval start_fs_def object_fs_def parse_head_empty ignore_patterns_def tombstones_def
      parse_patterns_def snap_entry_def excluded_def store_head_def serialize_def ignored_def chunk_file_stable_def
      QUIESCE_RETRIES_def numeral_3_eq_3 chunk_file_def hello_chunks put_object_def hello_hash_def [symmetric] blob_places
      blob_names ref_snap_facts(8) atomic_write_def since_epoch_def file_stamp_def hash_fold
      hello_entry_def [symmetric] hello_manifest_def [symmetric] hello_json)

definition snapped_fs :: "bytes \<Rightarrow> fs \<Rightarrow> fs" where
  "snapped_fs d ys = [([''.respawn'', ''lock''], File [] 0x1A4 5), ([''.respawn''], Dir), ([''.respawn'', ''objects''], Dir),
     ([''.respawn'', ''manifests''], Dir), ([''.respawn'', ''HEAD''], File (hash_hex ref_snap_crates hello_id) 0x1A4 5),
     ([''a''], File d 0x1A4 5),
     ([''.respawn'', ''objects'', fan hello_hash], Dir),
     ([''.respawn'', ''objects'', fan hello_hash, leaf hello_hash], File ''hello'' 0x1A4 5),
     ([''.respawn'', ''manifests'', fan hello_id], Dir),
     ([''.respawn'', ''manifests'', fan hello_id, leaf hello_id], File hello_bytes 0x1A4 5)] @ ys"

lemma run_committing:
  "committing ref_snap_crates [] hello_bytes (bench object_fs 28 1 True) = (Inr hello_id, bench (snapped_fs ''hello'' []) 40 3 True)"
  by (simp add: committing_def set_head_def put_manifest_def hello_id_def [symmetric] blob_places blob_names run_eval
      atomic_write_def object_fs_def start_fs_def snapped_fs_def)

section \<open>The command and the way back\<close>

definition wrecked_fs :: fs where
  "wrecked_fs = put_node [''a''] (File ''gone'' 0x1A4 9) (put_node [''b''] (File ''new'' 0x1A4 9) (snapped_fs ''hello'' []))"

lemma hello_typed: "typed hello_manifest"
proof -
  have "length hello_hash = 32" using ref_snap_facts(1) by (simp add: hello_hash_def crates_ok_def)
  then show ?thesis by (simp add: typed_def hello_manifest_def entry_typed_def hello_entry_def code_def)
qed

lemma hello_short: "length hello_bytes \<le> 256 * 1024 * 1024"
proof -
  have "length hello_hash = 32" using ref_snap_facts(1) by (simp add: hello_hash_def crates_ok_def)
  then show ?thesis
    by (simp add: hello_bytes_def ref_snap_crates_def audit_crates.extend_def ref_json_manifest_def hello_manifest_def ref_write_def
      ref_hex_length half_field_def MANIFEST_VERSION_def enc_opt_def word_field_def enc_list_def enc_entry_def hello_entry_def)
qed

lemma hello_reads: "deserialize ref_snap_crates hello_bytes = Inr hello_manifest"
proof -
  obtain s where "json_manifest ref_snap_crates hello_manifest = Inr s" "read_manifest ref_snap_crates s = Inr hello_manifest"
    using ref_snap_facts(2) hello_typed unfolding manifest_json_ok_def by blast
  then have "read_manifest ref_snap_crates hello_bytes = Inr hello_manifest" using hello_json by simp
  with hello_short show ?thesis unfolding deserialize_def by simp
qed

lemma hello_fields [simp]:
  "m_files hello_manifest = [hello_entry]" "fe_path hello_entry = ''a''" "fe_content hello_entry = hello_hash"
  "fe_chunks hello_entry = [hello_hash]" "fe_mode hello_entry = 0x1A4"
  by (simp_all add: hello_manifest_def hello_entry_def)

lemma hello_valid: "validate hello_manifest = Inr ()"
  by (simp add: validate_def hello_manifest_def hello_entry_def MANIFEST_VERSION_def MIN_MANIFEST_VERSION_def
      MAX_MANIFEST_FILES_def MAX_MANIFEST_CHUNKS_def sanitize_a)

lemma run_load:
  "load ref_snap_crates [] hello_id (bench wrecked_fs 40 3 True) = (Inr hello_manifest, bench wrecked_fs 41 3 True)"
  by (simp add: load_def get_manifest_bytes_def map_err_def blob_places blob_names run_eval wrecked_fs_def snapped_fs_def
      hello_reads hello_valid)

lemma gone_hash: "hash_bytes ref_snap_crates ''gone'' \<noteq> hello_hash"
proof
  have first: "ref_blake3 d ! 0 = char_of (weigh 0 7 d)" for d
    unfolding ref_blake3_def by (subst nth_map) simp_all
  assume "hash_bytes ref_snap_crates ''gone'' = hello_hash"
  then have "code (char_of (weigh 0 7 ''gone'')) = code (char_of (weigh 0 7 ''hello''))"
    using first by (metis hello_hash_def ref_snap_facts(7))
  then show False by (simp add: code_def)
qed

lemma run_detect:
  "\<exists>rep. detect ref_snap_crates [] hello_manifest True (bench wrecked_fs 41 3 True) = (Inr rep, bench wrecked_fs 46 3 True)"
  by (simp add: detect_def drift_patterns_def run_eval drift_entry_def drift_excluded_def blob_names file_hash_def
      wrecked_fs_def snapped_fs_def by_path_def ignored_def hash_fold gone_hash since_epoch_def hash_loop_eq
      del: hash_loop.simps)

lemma hello_object: "decode_object ref_snap_crates hello_hash ''hello'' = Inr ''hello''"
  unfolding hello_hash_def
  by (rule decode_encoded) (use ref_snap_facts(1,8) in \<open>simp_all add: crates_ok_def MAX_OBJECT_SIZE_def CDC_MAX_def\<close>)

lemma run_revert:
  "\<exists>rep. revert_apply ref_snap_crates [] [] hello_manifest False (bench wrecked_fs 46 3 True)
     = (Inr rep, bench (snapped_fs ''hello'' [([''.respawn'', ''tmp''], Dir)]) 60 4 True)"
  by (simp add: revert_apply_def hello_valid run_eval tombstones_def refuse_purged_def purged_entry_def extra_entry_def
      prune_empty_dirs_def revert_excluded_def empty_revert_def wrecked_fs_def snapped_fs_def
      restore_file_def resolve_dest_def needs_write_def drift_file_hash_def place_file_def write_chunks_def get_object_def
      blob_places blob_names hash_fold gone_hash hello_object set_mode_def hello_hash_def [symmetric])

lemma line_of_audit: "json_audit ref_snap_crates e = Inr (line_of ref_snap_crates e)"
  by (simp add: line_of_def ref_snap_crates_def ref_audit_crates_def audit_crates.extend_def crates.extend_def
      ref_json_audit_def)

lemma run_end:
  "\<exists>w. set_head ref_snap_crates [] (Some hello_id) (bench (snapped_fs ''hello'' [([''.respawn'', ''tmp''], Dir)]) 60 4 True) = (Inr (), w)
    \<and> (\<exists>w'. audit_record ref_snap_crates [] ev det w = (Inr (), w'))"
  by (simp add: set_head_def audit_record_def run_eval blob_names atomic_write_def snapped_fs_def line_of_audit)

lemma guarded_run:
  "\<exists>rep w'. guard_run ref_snap_crates unruly [] [] [''c''] Always True (bench start_fs 10 0 False) = (Inr rep, w')
     \<and> gr_reverted rep \<and> gr_snapshot rep = hello_id"
proof -
  obtain dr where d: "detect ref_snap_crates [] hello_manifest True (bench wrecked_fs 41 3 True) = (Inr dr, bench wrecked_fs 46 3 True)"
    using run_detect by blast
  obtain rr where r: "revert_apply ref_snap_crates [] [] hello_manifest False (bench wrecked_fs 46 3 True)
     = (Inr rr, bench (snapped_fs ''hello'' [([''.respawn'', ''tmp''], Dir)]) 60 4 True)"
    using run_revert by blast
  let ?det = "guard_detail ''c'' (Some 1) dr True"
  obtain w1 w2 where e: "set_head ref_snap_crates [] (Some hello_id) (bench (snapped_fs ''hello'' [([''.respawn'', ''tmp''], Dir)]) 60 4 True) = (Inr (), w1)"
    "audit_record ref_snap_crates [] ''guard'' ?det w1 = (Inr (), w2)"
    using run_end by blast
  have c: "create ref_snap_crates [] [] ''guard: c'' (bench start_fs 12 0 True) = (Inr hello_id, bench (snapped_fs ''hello'' []) 40 3 True)"
    by (simp add: create_def create_from_def bench_steps create_halves run_composing run_committing)
  have s: "spawned unruly [''c''] [] (bench (snapped_fs ''hello'' []) 40 3 True)
      = (Inr (Inr \<lparr>es_code = Some 1, es_signal = None\<rparr>), bench wrecked_fs 40 3 True)"
    by (simp add: spawned_def bench_steps wrecked_fs_def overwrite_def) (simp add: snapped_fs_def put_node_def entry_at_def)
  show ?thesis
    using run_begin c s run_load d r e
    by (simp add: guard_run_def with_lock_def guard_body_def guard_after_def guard_revert_def should_revert_def status_parts_def comp_eval Let_def)
qed

section \<open>The start is in order\<close>

abbreviation bench_start :: world where "bench_start \<equiv> bench start_fs 10 0 False"

lemma start_entries: "entries bench_start p = (if p = [] then Some Dir else map_of start_fs p)"
  by (simp add: entries_def bench_def entry_at_def)

lemma start_facts:
  "sound (fabric_dir []) bench_start" "calm bench_start" "objects_ok snap_sel bench_start" "manifests_ok snap_sel bench_start"
  "no_dotdot [] bench_start" "purged_list snap_sel bench_start []" "manifests snap_sel bench_start k = None"
proof -
  have "sound (fabric_dir []) (fresh_world start_fs)"
    by (rule plain_fs_sound) (simp_all add: plain_fs_def start_fs_def fabric_dir_def FABRIC_DIR_def)
  then show s: "sound (fabric_dir []) bench_start" by (simp add: sound_def quiet_def bench_def fresh_world_def)
  show "calm bench_start" by (simp add: calm_def quiet_def bench_def)
  have b: "store_base snap_sel bench_start" using s ref_snap_facts(1) by (simp add: store_base_def home_def)
  have e: "entries bench_start (object_at snap_sel h) = None" "entries bench_start (manifest_at snap_sel h) = None" for h
    unfolding start_entries
    by (simp_all add: start_fs_def object_at_def manifest_at_def object_path_def manifest_path_def
        fabric_dir_def FABRIC_DIR_def Let_def)
  with b show "objects_ok snap_sel bench_start" "manifests_ok snap_sel bench_start"
    by (simp_all add: objects_ok_def manifests_ok_def)
  show "manifests snap_sel bench_start k = None" by (simp add: manifests_def e)
  show "no_dotdot [] bench_start" unfolding no_dotdot_def start_entries by (auto simp: start_fs_def split: if_splits)
  show "purged_list snap_sel bench_start []"
    unfolding purged_list_def start_entries
    by (simp add: start_fs_def tombstone_path_def TOMBSTONE_FILE_def
        home_def fabric_dir_def FABRIC_DIR_def)
qed

lemma overwrite_sound:
  assumes "wf_fs fs" "link_free F fs" "\<not> prefix F p" "\<not> prefix p F" "p \<noteq> []" "entry_at fs (butlast p) = Some Dir"
  shows "wf_fs (overwrite p d fs)" "link_free F (overwrite p d fs)"
  using assms by (auto simp: overwrite_def link_free_def entry_at_put intro: wf_fs_put)

end
