(* ===== verification/Keys.thy ===== *)
theory Keys
  imports Revert
begin

text \<open>
  The identity of a fabric (\<open>fabric_id\<close> of \<open>src/anchor.rs\<close>) and the storage of the
  signing key (\<open>src/keychain.rs\<close>): the login Keychain of macOS where it answers, a file of
  mode 0600 elsewhere. Both platforms are covered: the target the binary was built for is part
  of the state. Shown: the key that was stored is the key that is loaded, on every path
  through the two stores, and the file never has a wider mode.
\<close>

section \<open>The Keychain\<close>

text \<open>
  The state of the operating system's Keychain, next to the world: the target of the build,
  the items of the service \<open>com.respawn.anchor\<close> by account, and which call fails with
  which code and message.
\<close>

record vault =
  vt_macos :: bool
  vt_items :: "string \<Rightarrow> bytes option"
  vt_calls :: nat
  vt_fault :: "nat \<Rightarrow> (int \<times> string) option"

type_synonym 'a key_io = "(world \<times> vault, error, 'a) comp"

definition on_disk :: "'a io \<Rightarrow> 'a key_io" where
  "on_disk m = (\<lambda>(w, v). case m w of (r, w') \<Rightarrow> (r, w', v))"

definition ERR_ITEM_NOT_FOUND :: int where "ERR_ITEM_NOT_FOUND = -25300"

definition kc_get :: "string \<Rightarrow> (string + bytes option) key_io" where
  "kc_get account = (\<lambda>(w, v).
     (Inr (case vt_fault v (vt_calls v) of
        Some (c, msg) \<Rightarrow> if c = ERR_ITEM_NOT_FOUND then Inr None else Inl msg
      | None \<Rightarrow> (case vt_items v account of
          None \<Rightarrow> Inr None
        | Some b \<Rightarrow> if length b = 32 then Inr (Some b) else Inl ''Keychain anchor item is not 32 bytes'')),
      w, v\<lparr>vt_calls := Suc (vt_calls v)\<rparr>))"

definition kc_set :: "string \<Rightarrow> bytes \<Rightarrow> (string + unit) key_io" where
  "kc_set account raw = (\<lambda>(w, v).
     case vt_fault v (vt_calls v) of
       Some (_, msg) \<Rightarrow> (Inr (Inl msg), w, v\<lparr>vt_calls := Suc (vt_calls v)\<rparr>)
     | None \<Rightarrow> (Inr (Inr ()), w,
         v\<lparr>vt_calls := Suc (vt_calls v), vt_items := (vt_items v)(account := Some raw)\<rparr>))"

definition is_macos :: "bool key_io" where
  "is_macos = gets (\<lambda>(w, v). vt_macos v)"

definition keychain_disabled :: "bool key_io" where
  "keychain_disabled = gets (\<lambda>(w, v). wenv w ''RESPAWN_NO_KEYCHAIN'' \<noteq> None)"

section \<open>The fabric's identity\<close>

text \<open>\<open>getrandom\<close> fills a buffer or fails.\<close>

definition p_random :: "nat \<Rightarrow> bytes io" where
  "p_random n w =
     (let w1 = tick w in
      case wfault w (wtick w) of
        Some (e, _) \<Rightarrow> (Inl (Io e), w1)
      | None \<Rightarrow> (Inr (take n (wrand w (wtick w) n @ replicate n (CHR 0x00))), w1))"

definition FABRIC_ID_FILE :: string where "FABRIC_ID_FILE = ''fabric_id''"

definition fabric_id_path :: "path \<Rightarrow> path" where
  "fabric_id_path root = fabric_dir root @ [FABRIC_ID_FILE]"

definition random_hex32 :: "('z) crates_scheme \<Rightarrow> string io" where
  "random_hex32 C = andThen (p_random 32) (\<lambda>b. ok (hex_encode C b))"

text \<open>The private \<open>atomic_write\<close> of \<open>anchor.rs\<close>.\<close>

definition anchor_write :: "path \<Rightarrow> bytes \<Rightarrow> unit io" where
  "anchor_write path data =
     (let dir = butlast path in
      andThen (p_create_dir_all dir) (\<lambda>_.
      andThen (tmp_path dir ''anchor'') (\<lambda>tmp.
      andThen (p_create_new 0x1A4 tmp) (\<lambda>f.
      andThen (p_write_all f data) (\<lambda>_.
      andThen (p_sync_all f) (\<lambda>_.
      p_rename tmp path))))))"

definition fabric_id :: "('z) crates_scheme \<Rightarrow> path \<Rightarrow> string io" where
  "fabric_id C root =
     (let path = fabric_id_path root in
      andThen (attempt (p_read_to_string path)) (\<lambda>r.
      case r of
        Inr s \<Rightarrow> ok (trim s)
      | Inl e \<Rightarrow>
          if e = Io NotFound then
            andThen (random_hex32 C) (\<lambda>i.
            andThen (anchor_write path i) (\<lambda>_.
            ok i))
          else fail e))"

section \<open>The secret\<close>

datatype placement = InKeychain | InFile

definition SECRET_FILE :: string where "SECRET_FILE = ''anchor.secret''"

definition secret_path :: "path \<Rightarrow> path" where
  "secret_path root = fabric_dir root @ [SECRET_FILE]"

definition write_secret_file :: "path \<Rightarrow> bytes \<Rightarrow> unit io" where
  "write_secret_file path data =
     (let dir = butlast path in
      andThen (p_create_dir_all dir) (\<lambda>_.
      andThen (tmp_path dir ''secret'') (\<lambda>tmp.
      andThen (p_create_new 0x180 tmp) (\<lambda>f.
      andThen (p_write_all f data) (\<lambda>_.
      andThen (p_sync_all f) (\<lambda>_.
      p_rename tmp path))))))"

definition read_secret_file :: "('z) crates_scheme \<Rightarrow> path \<Rightarrow> bytes option io" where
  "read_secret_file C root =
     andThen (attempt (p_read_to_string (secret_path root))) (\<lambda>r.
     case r of
       Inl e \<Rightarrow> if e = Io NotFound then ok None else fail e
     | Inr s \<Rightarrow>
         (case hex_decode C (trim s) of
            None \<Rightarrow> fail (Corrupt ''anchor secret is not hex'')
          | Some raw \<Rightarrow>
              if length raw = 32 then ok (Some raw)
              else fail (Corrupt ''anchor secret is not 32 bytes'')))"

definition key_exists :: "('z) crates_scheme \<Rightarrow> path \<Rightarrow> bool key_io" where
  "key_exists C root =
     andThen (on_disk (p_exists (secret_path root))) (\<lambda>b.
     if b then ok True
     else
       andThen is_macos (\<lambda>mac.
       andThen keychain_disabled (\<lambda>off.
       if mac \<and> \<not> off then
         andThen (attempt (on_disk (fabric_id C root))) (\<lambda>r.
         case r of
           Inl _ \<Rightarrow> ok False
         | Inr i \<Rightarrow> andThen (kc_get i) (\<lambda>g.
             ok (case g of Inr (Some _) \<Rightarrow> True | _ \<Rightarrow> False)))
       else ok False)))"

definition key_put :: "('z) crates_scheme \<Rightarrow> path \<Rightarrow> bytes \<Rightarrow> (placement \<times> string option) key_io" where
  "key_put C root raw =
     andThen is_macos (\<lambda>mac.
     if mac then
       andThen keychain_disabled (\<lambda>off.
       if off then
         andThen (on_disk (write_secret_file (secret_path root) (hex_encode C raw))) (\<lambda>_.
         ok (InFile, None))
       else
         andThen (on_disk (fabric_id C root)) (\<lambda>i.
         andThen (kc_set i raw) (\<lambda>s.
         case s of
           Inr _ \<Rightarrow> ok (InKeychain, None)
         | Inl e \<Rightarrow>
             andThen (on_disk (write_secret_file (secret_path root) (hex_encode C raw))) (\<lambda>_.
             ok (InFile, Some (''Keychain unavailable ('' @ e @ '') '' @ emdash @ '' key stored in ''
                 @ path_string (secret_path root) @ '' (0600)''))))))
     else
       andThen (on_disk (write_secret_file (secret_path root) (hex_encode C raw))) (\<lambda>_.
       ok (InFile, None)))"

definition no_anchor_key :: error where
  "no_anchor_key = Corrupt (''no anchor key '' @ emdash @ '' run `respawn anchor keygen`'')"

definition key_from_file :: "('z) crates_scheme \<Rightarrow> path \<Rightarrow> (bytes \<times> placement \<times> string option) key_io" where
  "key_from_file C root =
     andThen (on_disk (read_secret_file C root)) (\<lambda>r.
     case r of
       Some raw \<Rightarrow> ok (raw, InFile, None)
     | None \<Rightarrow> fail no_anchor_key)"

text \<open>A Keychain miss: the file, moved into the Keychain if that works.\<close>

definition key_migrate ::
    "('z) crates_scheme \<Rightarrow> path \<Rightarrow> string \<Rightarrow> string option \<Rightarrow> (bytes \<times> placement \<times> string option) key_io" where
  "key_migrate C root i kc_err =
     andThen (on_disk (read_secret_file C root)) (\<lambda>r.
     case r of
       Some raw \<Rightarrow>
         andThen (kc_set i raw) (\<lambda>s.
         case s of
           Inr _ \<Rightarrow>
             andThen (attempt (on_disk (p_remove_file (secret_path root)))) (\<lambda>_.
             ok (raw, InKeychain,
               Some ''migrated anchor key from .respawn/anchor.secret into login Keychain''))
         | Inl e \<Rightarrow> ok (raw, InFile,
             Some (''Keychain unavailable ('' @ e @ '') '' @ emdash @ '' using key file'')))
     | None \<Rightarrow>
         (case kc_err of
            Some e \<Rightarrow> fail (Corrupt (''anchor key lookup failed ('' @ e @ '') and no key file '' @ emdash
              @ '' if the key lives in Keychain, this session cannot reach it ''
              @ ''(locked keychain or no GUI session)''))
          | None \<Rightarrow> fail no_anchor_key))"

definition key_get :: "('z) crates_scheme \<Rightarrow> path \<Rightarrow> (bytes \<times> placement \<times> string option) key_io" where
  "key_get C root =
     andThen is_macos (\<lambda>mac.
     if mac then
       andThen keychain_disabled (\<lambda>off.
       if off then key_from_file C root
       else
         andThen (on_disk (fabric_id C root)) (\<lambda>i.
         andThen (kc_get i) (\<lambda>g.
         case g of
           Inr (Some raw) \<Rightarrow>
             andThen (attempt (on_disk (p_remove_file (secret_path root)))) (\<lambda>_.
             ok (raw, InKeychain, None))
         | Inr None \<Rightarrow> key_migrate C root i None
         | Inl e \<Rightarrow> key_migrate C root i (Some e))))
     else key_from_file C root)"

section \<open>Identity and secret in a calm world\<close>

lemma p_random_result:
  assumes "p_random n w = (r, w')" "quiet w"
  shows "same_env w w'" "wfs w' = wfs w" "r = Inr b \<Longrightarrow> length b = n" "calm w \<Longrightarrow> \<exists>b. r = Inr b"
  using assms by (auto simp: p_random_def Let_def tick_quiet calm_def split: option.splits prod.splits)

lemma anchor_write_as: "anchor_write p d = write_as 0x1A4 ''anchor'' p d"
  by (simp add: anchor_write_def write_as_def Let_def)

lemma write_secret_as: "write_secret_file p d = write_as 0x180 ''secret'' p d"
  by (simp add: write_secret_file_def write_as_def Let_def)

lemma hex_text:
  assumes "hex_ok C"
  shows "utf8_valid (hex_encode C b)" "trim (hex_encode C b) = hex_encode C b"
  using hash_hex_facts(2) [OF assms, of b]
  by (simp_all add: hash_hex_def lower_hex_trim lower_hex_ascii ascii_utf8_valid)

lemma key_slots:
  assumes "''..'' \<notin> set root"
  shows "slot (fabric_dir root) (fabric_id_path root)" "slot (fabric_dir root) (secret_path root)"
    "secret_path root \<noteq> fabric_id_path root"
  using assms by (auto simp: fabric_id_path_def secret_path_def FABRIC_ID_FILE_def SECRET_FILE_def
      intro!: slot_fabric_file)

text \<open>The fabric has the identity \<open>i\<close>.\<close>

definition identified :: "path \<Rightarrow> string \<Rightarrow> world \<Rightarrow> bool" where
  "identified root i w \<longleftrightarrow>
     (\<exists>d. file_data (entries w (fabric_id_path root)) = Some d \<and> utf8_valid d \<and> trim d = i)"

definition keeper :: "path \<Rightarrow> world \<Rightarrow> bool" where
  "keeper root w \<longleftrightarrow> sound (fabric_dir root) w \<and> calm w \<and> ''..'' \<notin> set root"

lemma keeperD: "keeper root w \<Longrightarrow> sound (fabric_dir root) w" "keeper root w \<Longrightarrow> calm w"
    "keeper root w \<Longrightarrow> ''..'' \<notin> set root"
  by (simp_all add: keeper_def)

lemma keeper_step: "keeper root w \<Longrightarrow> same_env w w' \<Longrightarrow> wfs w' = wfs w \<Longrightarrow> keeper root w'"
  using sound_same same_env_calm by (auto simp: keeper_def)

lemma keeper_evolves: "keeper root w \<Longrightarrow> sound (fabric_dir root) w' \<Longrightarrow> evolves (fabric_dir root) X w w' \<Longrightarrow> keeper root w'"
  using evolves_calm by (auto simp: keeper_def)

lemma fabric_id_known:
  assumes "keeper root w" "identified root i w"
  shows "\<exists>w'. fabric_id C root w = (Inr i, w') \<and> same_env w w' \<and> wfs w' = wfs w"
proof -
  note k = keeperD [OF assms(1)]
  from assms(2) obtain d where d: "file_data (entries w (fabric_id_path root)) = Some d" "utf8_valid d" "trim d = i"
    by (auto simp: identified_def)
  obtain r w' where run: "p_read_to_string (fabric_id_path root) w = (r, w')" by fastforce
  note p = p_read_to_string_sound [OF k(1) slot_facts(1) [OF key_slots(1) [OF k(3)]] run]
  have "same_env w w'" using p(2) [of "{}"] by (rule evolves_env)
  with p(3) p(5) [OF k(2) d(1,2)] run d(3) show ?thesis
    by (auto simp: fabric_id_def Let_def attempt_def comp_eval)
qed

lemma fabric_id_result:
  assumes "keeper root w" "hex_ok C" "fabric_id C root w = (r, w')"
  shows "keeper root w'" "evolves (fabric_dir root) {fabric_id_path root} w w'"
    and "r = Inr i \<Longrightarrow> identified root i w'"
proof -
  let ?F = "fabric_dir root" and ?p = "fabric_id_path root"
  note k = keeperD [OF assms(1)]
  note sl = key_slots(1) [OF k(3)]
  obtain q w1 where rd: "p_read_to_string ?p w = (q, w1)" by fastforce
  note p = p_read_to_string_sound [OF k(1) slot_facts(1) [OF sl] rd]
  have ev1: "evolves ?F {?p} w w1" by (rule p(2))
  have k1: "keeper root w1" by (rule keeper_evolves [OF assms(1) p(1) ev1])
  have "keeper root w' \<and> evolves ?F {?p} w w' \<and> (\<forall>i. r = Inr i \<longrightarrow> identified root i w')"
  proof (cases "q = Inl (Io NotFound)")
    case False
    then have "w' = w1 \<and> (\<forall>i. r = Inr i \<longrightarrow> (\<exists>d. q = Inr d \<and> i = trim d))"
      using assms(3) rd
      by (cases q) (auto simp: fabric_id_def Let_def attempt_def comp_eval)
    with k1 ev1 p(3,4) show ?thesis by (auto simp: identified_def entries_def)
  next
    case True
    obtain b w2 where rnd: "p_random 32 w1 = (b, w2)" by fastforce
    note rn = p_random_result [OF rnd sound_quiet [OF p(1)]]
    obtain bs where b: "b = Inr bs" using rn(4) keeperD(2) [OF k1] by blast
    have k2: "keeper root w2" by (rule keeper_step [OF k1 rn(1,2)])
    obtain u w3 where wr: "anchor_write ?p (hex_encode C bs) w2 = (u, w3)" by fastforce
    have run: "r = (case u of Inl e \<Rightarrow> Inl e | Inr _ \<Rightarrow> Inr (hex_encode C bs))" "w' = w3"
      using assms(3) rd rnd b wr True
      by (cases u; auto simp: fabric_id_def Let_def attempt_def comp_eval random_hex32_def)+
    note a = write_as_result [OF keeperD(1) [OF k2] sl wr [unfolded anchor_write_as]]
    have ev2: "evolves ?F {?p} w w2"
      by (rule evolves_trans [OF ev1 evolves_same [OF rn(1,2)]])
    show ?thesis
    proof (cases u)
      case (Inl e)
      with a have "sound ?F w3" "evolves ?F {} w2 w3" by (auto simp: stays_def)
      with ev2 evolves_mono [of ?F "{}" w2 w3 "{?p}"] have "evolves ?F {?p} w w3" by (auto intro: evolves_trans)
      with \<open>sound ?F w3\<close> run Inl keeper_evolves [OF assms(1)] show ?thesis by auto
    next
      case (Inr x)
      with a obtain t where f: "entries w3 ?p = Some (File (hex_encode C bs) 0x1A4 t)" "sound ?F w3" "evolves ?F {?p} w2 w3" by auto
      then have "identified root (hex_encode C bs) w3" by (simp add: identified_def hex_text [OF assms(2)])
      with f ev2 run Inr keeper_evolves [OF assms(1) f(2)] show ?thesis by (auto intro: evolves_trans)
    qed
  qed
  then show "keeper root w'" "evolves ?F {?p} w w'" "r = Inr i \<Longrightarrow> identified root i w'" by auto
qed

text \<open>The secret file as it is written, and as it is read.\<close>

definition secret_in_file :: "('z) crates_scheme \<Rightarrow> path \<Rightarrow> bytes \<Rightarrow> world \<Rightarrow> bool" where
  "secret_in_file C root raw w \<longleftrightarrow>
     (\<exists>t. entries w (secret_path root) = Some (File (hex_encode C raw) 0x180 t))"

lemma write_secret_result:
  assumes "keeper root w" "write_secret_file (secret_path root) (hex_encode C raw) w = (r, w')"
  shows "keeper root w'" "evolves (fabric_dir root) {secret_path root} w w'"
    and "r = Inr u \<Longrightarrow> secret_in_file C root raw w'"
proof -
  note k = keeperD [OF assms(1)]
  note a = write_as_result [OF k(1) key_slots(2) [OF k(3)] assms(2) [unfolded write_secret_as]]
  have *: "sound (fabric_dir root) w' \<and> evolves (fabric_dir root) {secret_path root} w w'"
    using a evolves_mono [of _ "{}" w w' "{secret_path root}"] by (cases r) (auto simp: stays_def)
  then show "keeper root w'" using keeper_evolves [OF assms(1)] by blast
  show "evolves (fabric_dir root) {secret_path root} w w'" using * by blast
  show "r = Inr u \<Longrightarrow> secret_in_file C root raw w'" using a by (simp add: secret_in_file_def)
qed

lemma read_secret_calm:
  assumes "keeper root w" "hex_ok C" "secret_in_file C root raw w" "length raw = 32"
  shows "\<exists>w'. read_secret_file C root w = (Inr (Some raw), w') \<and> keeper root w'"
proof -
  note k = keeperD [OF assms(1)]
  obtain r w' where run: "p_read_to_string (secret_path root) w = (r, w')" by fastforce
  note p = p_read_to_string_sound [OF k(1) slot_facts(1) [OF key_slots(2) [OF k(3)]] run]
  have "file_data (entries w (secret_path root)) = Some (hex_encode C raw)"
    using assms(3) by (auto simp: secret_in_file_def)
  from p(5) [OF k(2) this hex_text(1) [OF assms(2)]] have "r = Inr (hex_encode C raw)" .
  moreover have "hex_decode C (hex_encode C raw) = Some raw" using assms(2) by (simp add: hex_ok_def)
  moreover have "keeper root w'" using keeper_evolves [OF assms(1) p(1) p(2) [of "{}"]] .
  ultimately show ?thesis
    using run assms(4) by (auto simp: read_secret_file_def attempt_def comp_eval hex_text [OF assms(2)])
qed

section \<open>Both stores together\<close>

definition uses_keychain :: "world \<Rightarrow> vault \<Rightarrow> bool" where
  "uses_keychain w v \<longleftrightarrow> vt_macos v \<and> wenv w ''RESPAWN_NO_KEYCHAIN'' = None"

text \<open>Where the key is after it was put at the place \<open>pl\<close>.\<close>

fun placed :: "('z) crates_scheme \<Rightarrow> path \<Rightarrow> bytes \<Rightarrow> world \<Rightarrow> vault \<Rightarrow> placement \<Rightarrow> world \<Rightarrow> vault \<Rightarrow> bool" where
  "placed C root raw w v InFile w1 v1 \<longleftrightarrow> secret_in_file C root raw w1 \<and> vt_items v1 = vt_items v
     \<and> (uses_keychain w1 v1 \<longrightarrow> (\<exists>i. identified root i w1))"
| "placed C root raw w v InKeychain w1 v1 \<longleftrightarrow> uses_keychain w1 v1
     \<and> file_data (entries w1 (secret_path root)) = file_data (entries w (secret_path root))
     \<and> (\<exists>i. identified root i w1 \<and> vt_items v1 = (vt_items v)(i \<mapsto> raw))"

lemma target_eval [simp]:
  "andThen is_macos f (w, v) = f (vt_macos v) (w, v)"
  "andThen keychain_disabled g (w, v) = g (wenv w ''RESPAWN_NO_KEYCHAIN'' \<noteq> None) (w, v)"
  by (simp_all add: is_macos_def keychain_disabled_def comp_eval)

lemma on_disk_eval:
  "m w = (Inr x, w') \<Longrightarrow> andThen (on_disk m) f (w, v) = f x (w', v)"
  "m w = (Inl e, w') \<Longrightarrow> andThen (on_disk m) f (w, v) = (Inl e, w', v)"
  "andThen (attempt (on_disk m)) (\<lambda>_. ok y) (w, v) = (Inr y, snd (m w), v)"
  by (auto simp: on_disk_def comp_eval andThen_def attempt_def split: prod.splits)

lemma kc_eval:
  "kc_set i raw (w, v) = (Inr s, w', v') \<Longrightarrow> andThen (kc_set i raw) f (w, v) = f s (w', v')"
  "kc_get i (w, v) = (Inr g, w', v') \<Longrightarrow> andThen (kc_get i) h (w, v) = h g (w', v')"
  by simp_all

lemma kc_set_cases:
  obtains (set) "kc_set i raw (w, v) = (Inr (Inr ()), w,
      v\<lparr>vt_calls := Suc (vt_calls v), vt_items := (vt_items v)(i \<mapsto> raw)\<rparr>)"
  | (refused) e where "kc_set i raw (w, v) = (Inr (Inl e), w, v\<lparr>vt_calls := Suc (vt_calls v)\<rparr>)"
  by (cases "vt_fault v (vt_calls v)") (auto simp: kc_set_def)

lemma evolves_wenv: "evolves F X w w' \<Longrightarrow> wenv w' = wenv w"
  by (simp add: evolves_def same_env_def)

lemma identified_kept:
  assumes "identified root i w" "evolves (fabric_dir root) {secret_path root} w w'" "''..'' \<notin> set root"
  shows "identified root i w'"
  using assms(1) evolves_data [OF assms(2), of "fabric_id_path root"] key_slots [OF assms(3)]
    slot_facts(3) [OF key_slots(1) [OF assms(3)]]
  by (simp add: identified_def)

lemma key_put_result:
  assumes "keeper root w" "hex_ok C" "key_put C root raw (w, v) = (Inr (pl, note), w1, v1)"
  shows "keeper root w1 \<and> evolves (fabric_dir root) {fabric_id_path root, secret_path root} w w1
    \<and> placed C root raw w v pl w1 v1"
proof (cases "uses_keychain w v")
  case False
  then have run: "write_secret_file (secret_path root) (hex_encode C raw) w = (Inr (), w1)" "v1 = v" "pl = InFile"
    using assms(3)
    by (auto simp: key_put_def uses_keychain_def andThen_Inr comp_eval
        on_disk_def split: if_splits prod.splits)
  note w = write_secret_result [OF assms(1) run(1)]
  have "\<not> uses_keychain w1 v" using False evolves_wenv [OF w(2)] by (simp add: uses_keychain_def)
  then show ?thesis
    using w run(2,3) evolves_mono [OF w(2), of "{fabric_id_path root, secret_path root}"] by simp
next
  case True
  from True assms(3) obtain i w2 where fid: "fabric_id C root w = (Inr i, w2)"
    by (auto simp: key_put_def uses_keychain_def andThen_Inr comp_eval
        on_disk_def split: if_splits prod.splits)
  note f = fabric_id_result [OF assms(1,2) fid]
  have uk: "uses_keychain w2 v" using True evolves_wenv [OF f(2)] by (simp add: uses_keychain_def)
  have ev: "evolves (fabric_dir root) {fabric_id_path root, secret_path root} w w2"
    using evolves_mono [OF f(2), of "{fabric_id_path root, secret_path root}"] by simp
  show ?thesis
  proof (rule kc_set_cases [of i raw w2 v])
    assume "kc_set i raw (w2, v) = (Inr (Inr ()), w2,
      v\<lparr>vt_calls := Suc (vt_calls v), vt_items := (vt_items v)(i \<mapsto> raw)\<rparr>)"
    with assms(3) True fid have r: "w1 = w2" "pl = InKeychain"
      "v1 = v\<lparr>vt_calls := Suc (vt_calls v), vt_items := (vt_items v)(i \<mapsto> raw)\<rparr>"
      by (auto simp: key_put_def uses_keychain_def comp_eval on_disk_def)
    then have "uses_keychain w1 v1" "vt_items v1 = (vt_items v)(i \<mapsto> raw)"
      using uk by (simp_all add: uses_keychain_def)
    moreover have "file_data (entries w2 (secret_path root)) = file_data (entries w (secret_path root))"
      using f(2) key_slots(3) slot_facts(3) [OF key_slots(2)] keeperD(3) [OF assms(1)]
      by (intro evolves_data [OF f(2)]) auto
    ultimately show ?thesis using r f(1,3) ev by auto
  next
    fix e
    assume "kc_set i raw (w2, v) = (Inr (Inl e), w2, v\<lparr>vt_calls := Suc (vt_calls v)\<rparr>)"
    with assms(3) True fid have r: "write_secret_file (secret_path root) (hex_encode C raw) w2 = (Inr (), w1)"
      "v1 = v\<lparr>vt_calls := Suc (vt_calls v)\<rparr>" "pl = InFile"
      by (auto simp: key_put_def uses_keychain_def andThen_Inr comp_eval
        on_disk_def split: prod.splits)
    note w = write_secret_result [OF f(1) r(1)]
    have "identified root i w1" by (rule identified_kept [OF f(3) [OF refl] w(2) keeperD(3) [OF f(1)]])
    moreover have "evolves (fabric_dir root) {fabric_id_path root, secret_path root} w w1"
      by (rule evolves_trans [OF ev evolves_mono [OF w(2)]]) simp
    ultimately show ?thesis using w r(2,3) by auto
  qed
qed

definition loaded :: "path \<Rightarrow> bytes \<Rightarrow> vault \<Rightarrow> error + (bytes \<times> placement \<times> string option) \<Rightarrow> bool" where
  "loaded root raw v r \<longleftrightarrow>
     (case r of Inr (raw', _) \<Rightarrow> raw' = raw | Inl _ \<Rightarrow> vt_fault v (vt_calls v) \<noteq> None)"

lemma key_from_file_loads:
  assumes "keeper root w" "hex_ok C" "secret_in_file C root raw w" "length raw = 32"
  shows "\<exists>pl note. fst (key_from_file C root (w, v)) = Inr (raw, pl, note)"
proof -
  obtain w' where r: "read_secret_file C root w = (Inr (Some raw), w')" using read_secret_calm [OF assms] by blast
  show ?thesis by (simp add: key_from_file_def on_disk_eval(1) r comp_eval)
qed

lemma key_migrate_loads:
  assumes "keeper root w" "hex_ok C" "secret_in_file C root raw w" "length raw = 32"
  shows "\<exists>pl note. fst (key_migrate C root i e (w, v)) = Inr (raw, pl, note)"
proof -
  obtain w' where r: "read_secret_file C root w = (Inr (Some raw), w')" using read_secret_calm [OF assms] by blast
  show ?thesis
  proof (rule kc_set_cases [of i raw w' v])
    assume k: "kc_set i raw (w', v) = (Inr (Inr ()), w',
      v\<lparr>vt_calls := Suc (vt_calls v), vt_items := (vt_items v)(i \<mapsto> raw)\<rparr>)"
    show ?thesis by (simp add: key_migrate_def on_disk_eval(1) r on_disk_eval(3) kc_eval(1) [OF k])
  next
    fix e
    assume k: "kc_set i raw (w', v) = (Inr (Inl e), w', v\<lparr>vt_calls := Suc (vt_calls v)\<rparr>)"
    show ?thesis by (simp add: key_migrate_def on_disk_eval(1) r comp_eval kc_eval(1) [OF k])
  qed
qed

lemma key_migrate_no_file:
  assumes "keeper root w" "file_data (entries w (secret_path root)) = None"
  shows "\<exists>e'. fst (key_migrate C root i e (w, v)) = Inl e'"
proof -
  note k = keeperD [OF assms(1)]
  obtain r w' where run: "p_read_to_string (secret_path root) w = (r, w')" by fastforce
  note p = p_read_to_string_sound [OF k(1) slot_facts(1) [OF key_slots(2) [OF k(3)]] run]
  from p(4) assms(2) obtain e0 where "r = Inl e0" by (cases r) auto
  with run have "read_secret_file C root w = (Inr None, w') \<or> read_secret_file C root w = (Inl e0, w')"
    by (simp add: read_secret_file_def attempt_def comp_eval)
  then show ?thesis
  proof
    assume r: "read_secret_file C root w = (Inr None, w')"
    show ?thesis by (cases e) (simp_all add: key_migrate_def on_disk_eval(1) r comp_eval)
  next
    assume r: "read_secret_file C root w = (Inl e0, w')"
    show ?thesis by (simp add: key_migrate_def on_disk_eval(2) r)
  qed
qed

lemma key_get_run:
  assumes "uses_keychain w1 v1" "fabric_id C root w1 = (Inr i, w2)"
  shows "\<exists>g. kc_get i (w2, v1) = (Inr g, w2, v1\<lparr>vt_calls := Suc (vt_calls v1)\<rparr>)
    \<and> key_get C root (w1, v1) = (let v2 = v1\<lparr>vt_calls := Suc (vt_calls v1)\<rparr> in case g of
       Inr (Some raw) \<Rightarrow> (Inr (raw, InKeychain, None), snd (p_remove_file (secret_path root) w2), v2)
     | Inr None \<Rightarrow> key_migrate C root i None (w2, v2)
     | Inl e \<Rightarrow> key_migrate C root i (Some e) (w2, v2))"
proof -
  obtain g where g: "kc_get i (w2, v1) = (Inr g, w2, v1\<lparr>vt_calls := Suc (vt_calls v1)\<rparr>)" by (simp add: kc_get_def)
  then show ?thesis
    using assms(1) unfolding key_get_def uses_keychain_def
    by (intro exI [of _ g])
      (simp add: on_disk_eval(1) assms(2) kc_eval(2) [OF g] on_disk_eval(3) split: sum.split option.split)
qed

lemma key_get_plain: "\<not> uses_keychain w v \<Longrightarrow> key_get C root (w, v) = key_from_file C root (w, v)"
  by (simp add: key_get_def uses_keychain_def)

lemma key_get_file:
  assumes "keeper root w1" "hex_ok C" "secret_in_file C root raw w1" "length raw = 32"
    and "uses_keychain w1 v1 \<Longrightarrow> \<exists>i. identified root i w1 \<and> vt_items v1 i = None"
  shows "\<exists>pl note. fst (key_get C root (w1, v1)) = Inr (raw, pl, note)"
proof (cases "uses_keychain w1 v1")
  case False
  with key_from_file_loads [OF assms(1-4), of v1] show ?thesis by (simp add: key_get_plain)
next
  case True
  with assms(5) obtain i where i: "identified root i w1" "vt_items v1 i = None" by blast
  obtain w2 where f: "fabric_id C root w1 = (Inr i, w2)" "same_env w1 w2" "wfs w2 = wfs w1"
    using fabric_id_known [OF assms(1) i(1)] by blast
  from key_get_run [OF True f(1)] obtain g where
    g: "kc_get i (w2, v1) = (Inr g, w2, v1\<lparr>vt_calls := Suc (vt_calls v1)\<rparr>)" and
    run: "key_get C root (w1, v1) = (let v2 = v1\<lparr>vt_calls := Suc (vt_calls v1)\<rparr> in case g of
       Inr (Some raw) \<Rightarrow> (Inr (raw, InKeychain, None), snd (p_remove_file (secret_path root) w2), v2)
     | Inr None \<Rightarrow> key_migrate C root i None (w2, v2)
     | Inl e \<Rightarrow> key_migrate C root i (Some e) (w2, v2))" by blast
  have s: "secret_in_file C root raw w2" using assms(3) f(3) by (simp add: secret_in_file_def entries_def)
  have "g = Inr None \<or> (\<exists>e. g = Inl e)"
    using g i(2) by (auto simp: kc_get_def split: option.splits if_splits)
  with key_migrate_loads [OF keeper_step [OF assms(1) f(2,3)] assms(2) s assms(4)] show ?thesis
    by (auto simp: run Let_def)
qed

lemma key_get_loads:
  assumes "keeper root w1" "hex_ok C" "placed C root raw w v pl w1 v1" "length raw = 32"
    and "\<And>i. vt_items v i = None" "file_data (entries w (secret_path root)) = None"
  shows "loaded root raw v1 (fst (key_get C root (w1, v1)))"
proof (cases pl)
  case InFile
  with key_get_file [OF assms(1,2) _ assms(4), of v1] assms(3,5) show ?thesis
    by (auto simp: loaded_def)
next
  case InKeychain
  with assms(3) obtain i where u: "uses_keychain w1 v1" and i: "identified root i w1" "vt_items v1 = (vt_items v)(i \<mapsto> raw)"
    by auto
  obtain w2 where f: "fabric_id C root w1 = (Inr i, w2)" "same_env w1 w2" "wfs w2 = wfs w1"
    using fabric_id_known [OF assms(1) i(1)] by blast
  let ?v2 = "v1\<lparr>vt_calls := Suc (vt_calls v1)\<rparr>"
  from key_get_run [OF u f(1)] obtain g where g: "kc_get i (w2, v1) = (Inr g, w2, ?v2)" and
    run: "key_get C root (w1, v1) = (let v2 = ?v2 in case g of
       Inr (Some raw) \<Rightarrow> (Inr (raw, InKeychain, None), snd (p_remove_file (secret_path root) w2), v2)
     | Inr None \<Rightarrow> key_migrate C root i None (w2, v2)
     | Inl e \<Rightarrow> key_migrate C root i (Some e) (w2, v2))" by blast
  have g': "g = Inr (Some raw) \<or> vt_fault v1 (vt_calls v1) \<noteq> None \<and> (g = Inr None \<or> (\<exists>e. g = Inl e))"
    using g i(2) assms(4) by (auto simp: kc_get_def split: option.splits if_splits)
  have n: "file_data (entries w2 (secret_path root)) = None"
    using assms(3,6) InKeychain f(3) by (simp add: entries_def)
  have "loaded root raw v1 (fst (key_migrate C root i e (w2, ?v2)))" if "vt_fault v1 (vt_calls v1) \<noteq> None" for e
    using key_migrate_no_file [OF keeper_step [OF assms(1) f(2,3)] n, of C i e ?v2] that by (auto simp: loaded_def)
  with g' show ?thesis by (auto simp: run Let_def loaded_def)
qed

section \<open>Properties\<close>

text \<open>Whatever is new or changed since \<open>w0\<close> is a directory, is gone, or is a file of mode \<open>m\<close>.\<close>

definition only_mode :: "32 word \<Rightarrow> world \<Rightarrow> world \<Rightarrow> bool" where
  "only_mode m w0 w \<longleftrightarrow> (\<forall>q. entries w q = entries w0 q \<or> entries w q = None \<or> entries w q = Some Dir
     \<or> (\<exists>d t. entries w q = Some (File d m t)))"

lemma only_mode_put:
  assumes "only_mode m w0 w" "wfs w' = put_node p (File d m t) (wfs w)" "p \<noteq> []"
  shows "only_mode m w0 w'"
  using assms by (auto simp: only_mode_def entries_def entry_at_put)

lemma only_mode_same: "only_mode m w0 w \<Longrightarrow> wfs w' = wfs w \<Longrightarrow> only_mode m w0 w'"
  by (simp add: only_mode_def entries_def)

text \<open>Filling a new file and renaming it.\<close>

lemma only_mode_fill:
  assumes "sound F w3" "inside F tmp" "inside F p" "tmp \<noteq> p" "tmp \<noteq> []" "p \<noteq> []"
    and e3: "entries w3 tmp = Some (File [] m t3)" and o3: "only_mode m w w3"
    and "andThen (p_write_all tmp data) (\<lambda>_. andThen (p_sync_all tmp) (\<lambda>_. p_rename tmp p)) w3 = (r, w')"
  shows "only_mode m w w'"
proof -
  obtain q4 w4 where wr: "p_write_all tmp data w3 = (q4, w4)" by fastforce
  note wf = p_write_all_sound [OF assms(1,2) wr e3 assms(5)]
  obtain k t4 where k: "wfs w4 = put_node tmp (File (take k data) m t4) (wfs w3)" using wf(3) by auto
  have o4: "only_mode m w w4" by (rule only_mode_put [OF o3 k assms(5)])
  have e4: "entries w4 tmp = Some (File (take k data) m t4)" using k assms(5) by (simp add: entries_def entry_at_put)
  obtain q5 w5 where sy: "p_sync_all tmp w4 = (q5, w5)" by fastforce
  note sf = syscall_read_sound [OF wf(1) sy [unfolded p_sync_all_def]]
  have o5: "only_mode m w w5" by (rule only_mode_same [OF o4 sf(3)])
  have e5: "entries w5 tmp = Some (File (take k data) m t4)" using e4 sf(3) by (simp add: entries_def)
  obtain q6 w6 where re: "p_rename tmp p w5 = (q6, w6)" by fastforce
  note rf = p_rename_sound [OF sf(1) assms(2-4,6) e5 re]
  have o6: "only_mode m w w6"
  proof (cases q6)
    case (Inl e)
    then show ?thesis using only_mode_same [OF o5] rf(3) by blast
  next
    case (Inr v)
    then have "entries w6 = (entries w5)(tmp := None, p := Some (File (take k data) m t4))" using rf(4) by simp
    with o5 show ?thesis by (simp add: only_mode_def)
  qed
  have "w' = w4 \<or> w' = w5 \<or> w' = w6"
    using assms(9) by (cases q4; cases q5) (simp_all add: wr sy re)
  with o4 o5 o6 show ?thesis by blast
qed

text \<open>C30: The secret is private from birth. Whichever call of \<open>write_secret_file\<close> fails, a write after any
  number of bytes included, and wherever a crash cuts it short, every entry that is new or
  different afterwards is a directory or a file of mode 0600: no copy of the key, temporary files
  included, is ever readable by anybody else.\<close>

theorem secret_private:
  assumes "sound (fabric_dir root) w" "''..'' \<notin> set root" "write_secret_file (secret_path root) data w = (r, w')"
  shows "only_mode 0x180 w w'"
proof -
  let ?F = "fabric_dir root" and ?p = "secret_path root"
  have pl1: "butlast ?p = ?F" by (simp add: secret_path_def butlast_append)
  note pl = pl1 slot_facts(2) [OF key_slots(2) [OF assms(2)], unfolded pl1] slot_facts(4,1) [OF key_slots(2) [OF assms(2)]]
  obtain q1 w1 where m: "p_create_dir_all ?F w = (q1, w1)" by fastforce
  note mf = p_create_dir_all_sound [OF assms(1) pl(2) m]
  have o1: "only_mode 0x180 w w1" unfolding only_mode_def using mf(6) by metis
  obtain tmp w2 where t: "tmp_path ?F ''secret'' w1 = (Inr tmp, w2)" "wfs w2 = wfs w1" "same_env w1 w2"
    "inside ?F tmp" "tmp \<noteq> ?p" "tmp \<noteq> []"
    using pl(2) by (auto simp: tmp_path_def tmp_name_def inside_def same_env_def secret_path_def SECRET_FILE_def)
  have s2: "sound ?F w2" by (rule sound_same [OF mf(1) t(3,2)])
  have o2: "only_mode 0x180 w w2" by (rule only_mode_same [OF o1 t(2)])
  obtain q3 w3 where c: "p_create_new 0x180 tmp w2 = (q3, w3)" by fastforce
  note cf = p_create_new_sound [OF s2 t(4) c]
  have run: "write_secret_file ?p data w = (case q1 of Inl e \<Rightarrow> (Inl e, w1) | Inr _ \<Rightarrow> (case q3 of Inl e \<Rightarrow> (Inl e, w3)
      | Inr f \<Rightarrow> andThen (p_write_all f data) (\<lambda>_. andThen (p_sync_all f) (\<lambda>_. p_rename tmp ?p)) w3))"
    using m t(1) c by (cases q1; cases q3) (simp_all add: write_secret_file_def pl(1) Let_def)
  show ?thesis
  proof (cases "\<exists>u f. q1 = Inr u \<and> q3 = Inr f")
    case False
    then consider e where "q1 = Inl e" | u e where "q1 = Inr u" "q3 = Inl e" by (cases q1; cases q3) auto
    then show ?thesis
    proof cases
      case 1
      with run assms(3) o1 show ?thesis by simp
    next
      case 2
      with run assms(3) have "w' = w3" by simp
      moreover have "wfs w3 = wfs w2" using cf(2) 2(2) by simp
      ultimately show ?thesis using only_mode_same [OF o2] by simp
    qed
  next
    case True
    then obtain u f where q: "q1 = Inr u" "q3 = Inr f" by blast
    from cf(4) [OF q(2)] obtain t3 where f: "f = tmp" "wfs w3 = put_node tmp (File [] 0x180 t3) (wfs w2)" by blast
    have o3: "only_mode 0x180 w w3" by (rule only_mode_put [OF o2 f(2) t(6)])
    have e3: "entries w3 tmp = Some (File [] 0x180 t3)" using f(2) t(6) by (simp add: entries_def entry_at_put)
    have "andThen (p_write_all tmp data) (\<lambda>_. andThen (p_sync_all tmp) (\<lambda>_. p_rename tmp ?p)) w3 = (r, w')"
      using assms(3) run q f(1) by simp
    from only_mode_fill [OF cf(1) t(4) pl(4) t(5,6) pl(3) e3 o3 this] show ?thesis .
  qed
qed

text \<open>The disk is full after three bytes of the key.\<close>

theorem secret_private_witness:
  "\<exists>r w'. write_secret_file (secret_path []) ''00112233'' (demo\<lparr>wfault := \<lambda>n. if n = 2 then Some (OtherIo ''full'', 3) else None\<rparr>) = (r, w')
     \<and> only_mode 0x180 demo w'"
proof -
  let ?w = "demo\<lparr>wfault := \<lambda>n. if n = 2 then Some (OtherIo ''full'', 3) else None\<rparr>"
  obtain r w' where run: "write_secret_file (secret_path []) ''00112233'' ?w = (r, w')" by fastforce
  have "sound (fabric_dir []) ?w" using demo_sound by (simp add: sound_def quiet_def)
  from secret_private [OF this _ run] have "only_mode 0x180 ?w w'" by simp
  with run show ?thesis by (auto simp: only_mode_def entries_def)
qed

text \<open>C29: A stored signing key is the key that is loaded. When no key exists yet and storing succeeds,
  on macOS or elsewhere, whatever the Keychain refused, then the next load either gives the same
  32 bytes or fails because the Keychain that holds them does not answer; a key in the file ends
  up with mode 0600, and nothing but the identity and the secret file has changed.\<close>

theorem key_put_then_get:
  assumes "keeper root w" "hex_ok C" "length raw = 32" "\<And>i. vt_items v i = None"
    and "file_data (entries w (secret_path root)) = None"
    and "key_put C root raw (w, v) = (Inr (pl, note), w1, v1)"
  shows "(case fst (key_get C root (w1, v1)) of
            Inr (raw', _) \<Rightarrow> raw' = raw
          | Inl _ \<Rightarrow> pl = InKeychain \<and> vt_fault v1 (vt_calls v1) \<noteq> None)
    \<and> (pl = InFile \<longrightarrow> (\<exists>t. entries w1 (secret_path root) = Some (File (hex_encode C raw) 0x180 t)))
    \<and> evolves (fabric_dir root) {fabric_id_path root, secret_path root} w w1"
proof -
  note p = key_put_result [OF assms(1,2,6)]
  have l: "loaded root raw v1 (fst (key_get C root (w1, v1)))"
    using key_get_loads [OF _ assms(2) _ assms(3,4,5)] p by blast
  have f: "\<exists>pl note. fst (key_get C root (w1, v1)) = Inr (raw, pl, note)" if "pl = InFile"
  proof (rule key_get_file [OF _ assms(2) _ assms(3)])
    show "keeper root w1" using p by blast
    show "secret_in_file C root raw w1" "uses_keychain w1 v1 \<Longrightarrow> \<exists>i. identified root i w1 \<and> vt_items v1 i = None"
      using p that assms(4) by auto
  qed
  show ?thesis
    using l f p by (cases pl) (auto simp: loaded_def secret_in_file_def split: sum.splits)
qed

lemma demo_keeper: "keeper [] demo"
  using demo_sound by (simp add: keeper_def demo_def)

lemma key_put_file_total:
  assumes "keeper root w" "\<not> uses_keychain w v" "writable_as ''secret'' (secret_path root) w"
  shows "\<exists>w1. key_put C root raw (w, v) = (Inr (InFile, None), w1, v)"
proof -
  note k = keeperD [OF assms(1)]
  obtain r w1 where run: "write_secret_file (secret_path root) (hex_encode C raw) w = (r, w1)" by fastforce
  with write_as_result [OF k(1) key_slots(2) [OF k(3)] run [unfolded write_secret_as]] assms(3)
  have "r = Inr ()" by (cases r) auto
  with run assms(2) show ?thesis by (simp add: key_put_def uses_keychain_def on_disk_eval(1) ok_def)
qed

definition no_vault :: vault where
  "no_vault = \<lparr>vt_macos = False, vt_items = (\<lambda>_. None), vt_calls = 0, vt_fault = (\<lambda>_. None)\<rparr>"

lemma no_vault: "\<not> uses_keychain w no_vault" "vt_items no_vault i = None"
  by (simp_all add: uses_keychain_def no_vault_def)

lemma demo_room:
  assumes "entries demo [''.respawn'', name] = None"
  shows "writable_as tg [''.respawn'', name] demo"
proof -
  have "entries demo q = Some Dir" if "prefix q [''.respawn'']" for q
    using that by (auto simp: demo_entries demo_fs_def prefix_Cons)
  moreover have "entries demo [''.respawn'', tmp_name demo tg] = None"
    by (simp add: demo_entries demo_fs_def tmp_name_def)
  ultimately show ?thesis using assms by (simp add: writable_as_def) (simp add: demo_def)
qed

lemma demo_secret: "secret_path [] = [''.respawn'', ''anchor.secret'']"
  by (simp add: secret_path_def SECRET_FILE_def fabric_dir_def FABRIC_DIR_def)

theorem key_put_then_get_witness:
  "\<exists>w1. key_put ref_crates [] (replicate 32 CHR ''k'') (demo, no_vault) = (Inr (InFile, None), w1, no_vault)
     \<and> (case fst (key_get ref_crates [] (w1, no_vault)) of
          Inr (raw', _) \<Rightarrow> raw' = replicate 32 CHR ''k'' | Inl _ \<Rightarrow> False)"
proof -
  obtain w1 where run: "key_put ref_crates [] (replicate 32 CHR ''k'') (demo, no_vault) = (Inr (InFile, None), w1, no_vault)"
    using key_put_file_total [OF demo_keeper no_vault(1) demo_room [of "''anchor.secret''", folded demo_secret]]
    by (fastforce simp: demo_entries demo_fs_def demo_secret)
  have "hex_ok ref_crates" using ref_crates_ok by (simp add: crates_ok_def)
  from key_put_then_get [OF demo_keeper this _ no_vault(2) _ run] run show ?thesis
    by (auto simp: demo_entries demo_fs_def demo_secret split: sum.splits)
qed

end
