(* ===== verification/Anchor_Facts.thy ===== *)
theory Anchor_Facts
  imports Anchors
begin

text \<open>
  What minting and verifying an anchor do (\<open>src/anchor.rs\<close>): where an anchor lands, what it
  records, that an accepted one pins the history, and that an honest one stays accepted while
  the log grows. The last section instantiates the parameters and runs the operations.
\<close>

section \<open>Where an anchor lands\<close>

lemma link_free_clean: "link_free D fs \<Longrightarrow> prefix p D \<Longrightarrow> clean_path fs p"
  unfolding link_free_def clean_path_def by (meson prefix_order.trans set_mono_prefix subsetD)

lemma canonicalize_clean:
  assumes "sound D w" "prefix p D" "p_canonicalize p w = (r, w')"
  shows "sound D w'" "same_env w w'" "wfs w' = wfs w" "r = Inr b \<Longrightarrow> b = p" "r = Inl e \<Longrightarrow> \<exists>x. e = Io x"
proof -
  note s = syscall_result [OF assms(3) [unfolded p_canonicalize_def] sound_quiet [OF assms(1)]]
  have wc: "wf_fs (wfs w)" "clean_path (wfs w) p"
    using assms(1,2) link_free_clean by (auto simp: sound_def)
  show "same_env w w'" "wfs w' = wfs w" "r = Inl e \<Longrightarrow> \<exists>x. e = Io x" using s by auto
  then show "sound D w'" using sound_same [OF assms(1)] by blast
  show "b = p" if "r = Inr b"
    using wc
  proof (cases rule: lookup_clean_cases [where fl = True])
    case found
    with s that show ?thesis by (auto simp: fs_canonicalize_def split: option.splits)
  next
    case (missing e)
    with s that show ?thesis by (auto simp: fs_canonicalize_def)
  qed
qed

lemma file_name_names: "''..'' \<notin> set ps \<Longrightarrow> ''.'' \<notin> set ps \<Longrightarrow> ps \<noteq> [] \<Longrightarrow> file_name (ab, ps) = [last ps]"
  by (simp add: file_name_def) (metis last_in_set)

lemma deepest_result:
  "deepest cwd True anc tail w = (r, w') \<Longrightarrow> sound D w \<Longrightarrow> prefix anc D \<Longrightarrow> ''..'' \<notin> set D \<Longrightarrow> ''.'' \<notin> set D \<Longrightarrow>
   sound D w' \<and> same_env w w' \<and> wfs w' = wfs w \<and> (\<exists>a t. r = Inr (a, t) \<and> a @ t = anc @ tail \<and> prefix a D)"
proof (induction cwd True anc tail arbitrary: w rule: deepest.induct)
  case (1 cwd anc tail)
  obtain q w1 where q: "p_canonicalize anc w = (q, w1)" by fastforce
  note c = canonicalize_clean [OF 1(3,4) q]
  have names: "''..'' \<notin> set anc" "''.'' \<notin> set anc" using 1(4-6) by (auto simp: prefix_def)
  have run: "deepest cwd True anc tail w = (case q of Inr _ \<Rightarrow> ok (anc, tail)
     | Inl _ \<Rightarrow> if file_name (True, anc) = [] then ok (anc, tail) else deepest cwd True (butlast anc) (last anc # tail)) w1"
    by (subst deepest.simps) (simp add: q)
  show ?case
  proof (cases "(\<exists>b. q = Inr b) \<or> anc = []")
    case True
    then have "deepest cwd True anc tail w = ok (anc, tail) w1" using run by (cases q) (auto simp: file_name_def)
    with 1(2,4) c(1-3) show ?thesis by (auto simp: comp_eval)
  next
    case False
    then obtain e where e: "q = Inl e" "anc \<noteq> []" by (cases q) auto
    have fn: "file_name (True, anc) \<noteq> []" using file_name_names [OF names e(2)] by simp
    with e run 1(2) have "deepest cwd True (butlast anc) (last anc # tail) w1 = (r, w')" by simp
    moreover have "prefix (butlast anc) D" using 1(4) prefixeq_butlast prefix_order.trans by blast
    moreover have "attempt (canon cwd (True, anc)) w = (Inr (Inl e), w1)" using q e(1) by simp
    ultimately have "sound D w' \<and> same_env w1 w' \<and> wfs w' = wfs w1 \<and>
        (\<exists>a t. r = Inr (a, t) \<and> a @ t = butlast anc @ last anc # tail \<and> prefix a D)"
      using 1(1) [OF _ refl fn _ c(1) _ 1(5,6)] by blast
    moreover have "butlast anc @ last anc # tail = anc @ tail"
      using e(2) by (metis append.assoc append_Cons append_Nil append_butlast_last_id)
    ultimately show ?thesis using c(2,3) by (auto intro: same_env_trans)
  qed
qed

lemma normalize_plain: "''..'' \<notin> set p \<Longrightarrow> ''.'' \<notin> set p \<Longrightarrow> normalize (ab, p) = (ab, p)"
proof -
  have "''..'' \<notin> set p \<Longrightarrow> ''.'' \<notin> set p \<Longrightarrow>
      foldl (\<lambda>out x. if x = ''.'' then out else if x = ''..'' then butlast out else out @ [x]) acc p = acc @ p" for acc
    by (induction p arbitrary: acc) auto
  from this [of "[]"] show "''..'' \<notin> set p \<Longrightarrow> ''.'' \<notin> set p \<Longrightarrow> normalize (ab, p) = (ab, p)" by (simp add: normalize_def)
qed

text \<open>Without links on the way the check of an absolute path is exact.\<close>

lemma anchor_outside_result:
  assumes "sound (butlast out) w" "keeper root w" "out \<noteq> []" "''..'' \<notin> set out" "''.'' \<notin> set out"
    and "anchor_outside cwd root (True, out) w = (r, w')"
  shows "r = Inr (\<not> prefix (fabric_dir root) out) \<and> same_env w w' \<and> wfs w' = wfs w"
proof -
  let ?D = "butlast out" and ?F = "fabric_dir root"
  have dd: "''..'' \<notin> set ?D" "''.'' \<notin> set ?D" using assms(4,5) by (auto dest: in_set_butlastD)
  obtain q w1 where q: "deepest cwd True ?D [] w = (q, w1)" by fastforce
  from deepest_result [OF q assms(1) prefix_order.refl dd] obtain a t where d: "sound ?D w1" "same_env w w1" "wfs w1 = wfs w"
    "q = Inr (a, t)" "a @ t = ?D" "prefix a ?D" by auto
  obtain b w2 where b: "p_canonicalize a w1 = (b, w2)" by fastforce
  note c = canonicalize_clean [OF d(1,6) b]
  have res: "(case b of Inr base \<Rightarrow> (True, base @ t) | Inl _ \<Rightarrow> (True, ?D)) = (True, ?D)" using c(4) d(5) by (cases b) auto
  have "?D @ file_name (True, out) = out"
    using assms(3) by (simp add: file_name_names [OF assms(4,5,3)])
  then have "normalize (True, ?D @ file_name (True, out)) = (True, out)"
    by (simp add: normalize_plain [OF assms(4,5)])
  moreover have "normalize (parent_or_here (True, out)) = (True, ?D)"
    using assms(3) by (simp add: parent_or_here_def parent_comps_def normalize_plain [OF dd])
  ultimately have cand: "anchor_candidate cwd (True, out) w = (Inr (True, out), w2)"
    using q d(4) b res by (simp add: anchor_candidate_def attempt_def comp_eval Let_def)
  obtain f w3 where f: "p_canonicalize ?F w2 = (f, w3)" by fastforce
  have "sound ?F w2"
    using sound_same [OF keeperD(1) [OF assms(2)]] same_env_trans [OF d(2) c(2)] c(3) d(3) by simp
  note cf = canonicalize_clean [OF this prefix_order.refl f]
  have "(case f of Inr g \<Rightarrow> g | Inl _ \<Rightarrow> ?F) = ?F" using cf(4) by (cases f) auto
  with assms(6) cand f have "r = Inr (\<not> prefix ?F out)" "w' = w3"
    by (auto simp: anchor_outside_def attempt_def comp_eval Let_def)
  with cf c d show ?thesis by (auto intro: same_env_trans)
qed

text \<open>Two link-free regions of one sound tree.\<close>

lemma sound_elsewhere:
  assumes "sound D w" "sound F w'" "evolves F X w w'"
  shows "sound D w'"
proof -
  have "\<not> is_link (entries w' p)" if "prefix p D \<or> prefix D p" for p
  proof (cases "prefix F p")
    case True
    with assms(2) show ?thesis by (simp add: sound_def link_free_def entries_def)
  next
    case False
    with evolves_node [OF assms(3), of p] have "entries w' p = entries w p \<or> entries w' p = Some Dir"
      by (auto simp: node_evolves_def inside_def)
    moreover have "\<not> is_link (entries w p)" using assms(1) that by (auto simp: sound_def link_free_def entries_def)
    ultimately show ?thesis by auto
  qed
  with assms show ?thesis by (auto simp: sound_def link_free_def entries_def)
qed

lemma audit_log_kept:
  assumes "audit_log C root w es" "sound (fabric_dir root) w'" "evolves (fabric_dir root) X w w'" "audit_path root \<notin> X"
  shows "audit_log C root w' es"
proof -
  have dd: "''..'' \<notin> set root" using assms(1) by (simp add: audit_log_def)
  have nt: "\<not> is_tmp (audit_path root)" using slot_facts(3) [OF slot_audit [OF dd]] .
  have np: "\<not> dir_place (fabric_dir root) (audit_path root)"
    using slot_facts(7) [OF slot_audit [OF dd]]
    by (auto simp: dir_place_def audit_path_def store_dirs_def fabric_dir_def)
  have "entries w' (audit_path root) = entries w (audit_path root)"
    using evolves_node [OF assms(3), of "audit_path root"] nt np assms(4) by (auto simp: node_evolves_def)
  with assms show ?thesis by (simp add: audit_log_def)
qed

lemma audit_tip_calm:
  assumes "audit_log C root w es" "calm w" "audit_json_ok C"
  shows "fst (audit_tip C root w) = Inr (of_nat (length es), snd (after (0, []) es))"
proof -
  have s: "sound (fabric_dir root) w" "''..'' \<notin> set root" "list_all entry_text es" "chain C (0, []) es"
    using assms(1) by (simp_all add: audit_log_def)
  obtain r w' where run: "audit_tip C root w = (r, w')" by fastforce
  note rl = read_log [OF s(1,2) run [unfolded audit_tip_def Let_def]]
  have a: "after (0, []) es = (of_nat (length es), snd (after (0, []) es))"
    using after_seq [OF s(4)] by (simp add: prod_eq_iff)
  consider "file_data (entries w (audit_path root)) = Some (render C es)" | "es = []" "entries w (audit_path root) = None"
    using assms(1) by (auto simp: audit_log_def)
  then show ?thesis
  proof cases
    case 1
    from rl(2) [OF assms(2) this] have "r = Inr (after (0, []) es)"
      using render_lines [OF assms(3) s(3)] tip_lines_render [OF assms(3) s(3)] by simp
    with run a show ?thesis by simp
  next
    case 2
    with rl(3) [OF assms(2)] run show ?thesis by simp
  qed
qed

section \<open>Minting\<close>

lemma signed_anchor_attested:
  assumes "ed_ok C" "hex_ok C" "anchor_json_ok C" "length sk = 32" "payload_text q"
    and "ap_kind q = ''respawn-anchor''" "ap_version q = ANCHOR_VERSION"
  shows "\<exists>d f. signed_anchor C sk q = Inr d \<and> attested C d f q \<and> af_pubkey f = hex_encode C (ed_public C sk)"
proof -
  obtain s where s: "json_anchor C q = Inr s" "read_anchor C s = Inr q" "utf8_valid s"
    using assms(3,5) by (auto simp: anchor_json_ok_def)
  let ?f = "\<lparr>af_format = ''respawn-anchor/v1'', af_pubkey = hex_encode C (ed_public C sk),
             af_payload = s, af_sig = hex_encode C (ed_sign C sk s)\<rparr>"
  have "utf8_valid ''respawn-anchor/v1''" by (simp add: code_def)
  then have "doc_text ?f" by (simp add: doc_text_def hex_text [OF assms(2)] s(3) del: utf8_valid.simps)
  then obtain d where d: "json_anchor_doc C ?f = Inr d" "read_anchor_doc C d = Inr ?f"
    using assms(3) by (auto simp: anchor_json_ok_def)
  note e = assms(1) [unfolded ed_ok_def, rule_format, OF assms(4), of s]
  have h: "hex_decode C (hex_encode C b) = Some b" for b using assms(2) by (simp add: hex_ok_def)
  have "attested C d ?f q"
    unfolding attested_def using d(2) s(2) e h assms(6,7) by simp
  with d s(1) show ?thesis by (intro exI [of _ d] exI [of _ ?f]) (simp add: signed_anchor_def)
qed

lemma last_anchor_slot: "''..'' \<notin> set root \<Longrightarrow> slot (fabric_dir root) (last_anchor_path root)"
  by (auto simp: last_anchor_path_def LAST_ANCHOR_FILE_def intro!: slot_fabric_file)

lemma anchor_statement_result:
  assumes "keeper root w" "hex_ok C" "anchor_statement C root len tip prev w = (Inr q, w')"
  shows "held root {fabric_id_path root} w w'" "identified root (ap_fabric_id q) w'"
    and "ap_kind q = ''respawn-anchor''" "ap_version q = ANCHOR_VERSION" "ap_audit_len q = len"
      "ap_audit_tip q = tip" "ap_prev q = prev" "case ap_head q of None \<Rightarrow> True | Some s \<Rightarrow> utf8_valid s"
proof -
  from assms(3) obtain i w1 h w2 t where run: "fabric_id C root w = (Inr i, w1)" "store_head C root w1 = (Inr h, w2)"
    "now_secs w2 = (Inr t, w')" and q: "q = \<lparr>ap_kind = ''respawn-anchor'', ap_version = ANCHOR_VERSION, ap_fabric_id = i,
         ap_audit_len = len, ap_audit_tip = tip, ap_head = map_option (hex_encode C) h, ap_prev = prev, ap_ts = t\<rparr>"
    by (auto simp: anchor_statement_def andThen_Inr comp_eval)
  note f = fabric_id_result [OF assms(1,2) run(1)]
  have h1: "held root {fabric_id_path root} w w1" using f by (simp add: held_def)
  have h2: "still w1 w1" using keeperD(2) [OF f(1)] by (simp add: still_def calm_quiet)
  have "keeps (still w1) (store_head C root)"
    unfolding store_head_def by (intro keeps_intros inert_prims inert_still)
  from keepsD [OF this h2 run(2)] have "still w1 w2" .
  from keepsD [OF inert_prims(12) [OF inert_still] this run(3)] have s: "still w1 w'" .
  have i: "inert (held root {fabric_id_path root} w)" by simp
  show "held root {fabric_id_path root} w w'"
    using i h1 s unfolding inert_def still_def by blast
  show "identified root (ap_fabric_id q) w'"
    using f(3) [OF refl] s by (simp add: q identified_def still_def entries_def)
  show "ap_kind q = ''respawn-anchor''" "ap_version q = ANCHOR_VERSION" "ap_audit_len q = len"
      "ap_audit_tip q = tip" "ap_prev q = prev" "case ap_head q of None \<Rightarrow> True | Some s \<Rightarrow> utf8_valid s"
    by (simp_all add: q hex_text [OF assms(2)] split: option.splits)
qed

text \<open>The link the next anchor will sign: what \<open>last_anchor\<close> holds.\<close>

definition link_at :: "path \<Rightarrow> world \<Rightarrow> string option" where
  "link_at root w =
     (case file_data (entries w (last_anchor_path root)) of
        Some s \<Rightarrow> if utf8_valid s then Some (trim s) else None
      | None \<Rightarrow> None)"

lemma read_last_anchor_result:
  assumes "keeper root w" "read_last_anchor root w = (r, w')"
  shows "r = Inr (link_at root w)" "still w w'"
proof -
  note k = keeperD [OF assms(1)]
  obtain q w1 where q: "p_read_to_string (last_anchor_path root) w = (q, w1)" by fastforce
  note p = p_read_to_string_sound [OF k(1) slot_facts(1) [OF last_anchor_slot [OF k(3)]] q]
  have run: "r = Inr (case q of Inr s \<Rightarrow> Some (trim s) | Inl _ \<Rightarrow> None)" "w' = w1"
    using assms(2) q by (auto simp: read_last_anchor_def attempt_def comp_eval)
  show "r = Inr (link_at root w)"
  proof (cases q)
    case (Inr s)
    from p(4) [OF this] run(1) Inr show ?thesis by (simp add: link_at_def)
  next
    case (Inl e)
    have "\<not> utf8_valid d" if "file_data (entries w (last_anchor_path root)) = Some d" for d
      using p(5) [OF k(2) that] Inl by auto
    with run(1) Inl show ?thesis by (simp add: link_at_def split: option.splits)
  qed
  show "still w w'" using run(2) p(3) evolves_env [OF p(2)] k(2) by (simp add: still_def calm_quiet)
qed

lemma still_keeper: "keeper root w \<Longrightarrow> still w w' \<Longrightarrow> keeper root w'"
  using keeper_step by (simp add: still_def)


lemma on_disk_Inr: "on_disk m (w, v) = (Inr x, s) \<longleftrightarrow> (\<exists>w'. m w = (Inr x, w') \<and> s = (w', v))"
  by (auto simp: on_disk_def split: prod.splits)

lemma anchor_create_run:
  assumes "anchor_create cwd C root out (w, v) = (Inr oc, w', v')"
  obtains w1 sk pl msg w2 v2 len tip w3 prev w4 q w5 d w6 where
    "anchor_outside cwd root (typed_path out) w = (Inr True, w1)" "key_get C root (w1, v) = (Inr (sk, pl, msg), w2, v2)"
    "audit_tip C root w2 = (Inr (len, tip), w3)" "read_last_anchor root w3 = (Inr prev, w4)"
    "anchor_statement C root len tip prev w4 = (Inr q, w5)" "signed_anchor C sk q = Inr d"
    "write_out cwd (typed_path out) d w5 = (Inr (), w6)"
    "anchor_write (last_anchor_path root) (hex_encode C (hash_bytes C d)) w6 = (Inr (), w')"
  using assms
  by (auto simp: anchor_create_def load_key_def andThen_Inr comp_eval on_disk_Inr split: prod.splits if_splits)

text \<open>A file beside the fabric changes nothing in it.\<close>

lemma audit_log_beside:
  assumes "audit_log C root w es" "sound (fabric_dir root) w'" "evolves (butlast out) {out} w w'"
    and "\<not> prefix (fabric_dir root) out" "out \<noteq> []"
  shows "audit_log C root w' es"
proof -
  let ?a = "audit_path root"
  have dd: "''..'' \<notin> set root" using assms(1) by (simp add: audit_log_def)
  have pa: "prefix (fabric_dir root) ?a" by (simp add: audit_path_def)
  have "\<not> prefix ?a (butlast out)"
    using assms(4) pa by (meson prefix_order.trans prefixeq_butlast)
  moreover have "butlast out @ [x] \<noteq> ?a" "butlast out @ [x, y] \<noteq> ?a" if "x \<in> set store_dirs" for x y
    using that by (auto simp: audit_path_def fabric_dir_def FABRIC_DIR_def store_dirs_def)
  ultimately have "\<not> dir_place (butlast out) ?a" unfolding dir_place_def by metis
  moreover have "?a \<noteq> out" using assms(4) pa by auto
  ultimately have "entries w' ?a = entries w ?a"
    using evolves_node [OF assms(3), of ?a] slot_facts(3) [OF slot_audit [OF dd]] by (auto simp: node_evolves_def)
  with assms(1,2) show ?thesis by (simp add: audit_log_def)
qed

lemma payload_textI:
  assumes "hex_ok C" "identified root (ap_fabric_id q) w" "ap_kind q = ''respawn-anchor''"
    and "ap_audit_tip q = snd (after (0, []) es)" "list_all entry_text es" "ap_prev q = link_at root w0"
    and "case ap_head q of None \<Rightarrow> True | Some s \<Rightarrow> utf8_valid s"
  shows "payload_text q"
proof -
  have "utf8_valid (ap_fabric_id q)" using assms(2) utf8_valid_trim unfolding identified_def by metis
  moreover have "utf8_valid (snd (after (0, []) es))" using after_text [OF assms(5), of "(0, [])"] by simp
  moreover have "case link_at root w0 of None \<Rightarrow> True | Some s \<Rightarrow> utf8_valid s"
    using utf8_valid_trim by (auto simp: link_at_def split: option.splits)
  moreover have "utf8_valid ''respawn-anchor''" by (simp add: code_def)
  ultimately show ?thesis using assms by (simp add: payload_text_def del: utf8_valid.simps)
qed


lemma still_run:
  assumes "keeps (still w) m" "keeper root w" "m w = (r, w')"
  shows "keeper root w'" "wfs w' = wfs w"
proof -
  have "still w w" using keeperD(2) [OF assms(2)] by (simp add: still_def calm_quiet)
  from keepsD [OF assms(1) this assms(3)] have s: "still w w'" .
  show "keeper root w'" by (rule still_keeper [OF assms(2) s])
  show "wfs w' = wfs w" using s by (simp add: still_def)
qed

lemma read_anchor_file_calm:
  assumes "keeper root w" "fs_read True (wfs w) p = Inr d" "length d \<le> MAX_ANCHOR_BYTES"
  shows "\<exists>w'. read_anchor_file p w = (Inr d, w') \<and> keeper root w' \<and> wfs w' = wfs w"
proof -
  from assms(2) obtain m t where st: "fs_stat True (wfs w) p = Inr (File d m t)"
    by (auto simp: fs_read_def split: sum.splits node.splits)
  obtain r w1 where r: "p_metadata p w = (r, w1)" by fastforce
  note ms = syscall_read_sound [OF keeperD(1) [OF assms(1)] r [unfolded p_metadata_def]]
  note k1 = still_run [OF inert_prims(7) [OF inert_still] assms(1) r]
  have "r = Inr (File d m t)" using ms(5) [OF keeperD(2) [OF assms(1)]] st by simp
  moreover obtain g w2 where g: "p_read p w1 = (g, w2)" by fastforce
  note gs = syscall_read_sound [OF keeperD(1) [OF k1(1)] g [unfolded p_read_def]]
  note k2 = still_run [OF inert_prims(4) [OF inert_still] k1(1) g]
  have "g = Inr d" using gs(5) [OF keeperD(2) [OF k1(1)]] assms(2) k1(2) by simp
  ultimately show ?thesis using r g k1 k2 assms(3) by (simp add: read_anchor_file_def)
qed

lemma expected_signer_ok:
  assumes "pin = None \<or> (\<exists>want. pin = Some want \<and> map lower_char want = map lower_char (af_pubkey f))"
  shows "expected_signer f pin = Inr ()"
  using assms by (auto simp: expected_signer_def)


lemma anchor_accepts:
  assumes "audit_json_ok C" "keeper root w" "audit_log C root w (es @ fs)" "attested C d f q" "records C q es"
    and "identified root (ap_fabric_id q) w" "fs_read True (wfs w) p = Inr d" "length d \<le> MAX_ANCHOR_BYTES"
    and "pin = None \<or> (\<exists>want. pin = Some want \<and> map lower_char want = map lower_char (af_pubkey f))"
    and "file_data (entries w (head_path root)) = Some s" "utf8_valid s" "parse_head C s = Inr h"
  shows "\<exists>vo w'. anchor_verify C root p pin w = (Inr vo, w') \<and> vo_signer_pubkey vo = af_pubkey f
    \<and> vo_audit_len vo = of_nat (length es) \<and> vo_current_head vo = map_option (hex_encode C) h \<and> wfs w' = wfs w"
proof -
  obtain w1 where r: "read_anchor_file p w = (Inr d, w1)" "keeper root w1" "wfs w1 = wfs w"
    using read_anchor_file_calm [OF assms(2,7,8)] by blast
  have e1: "entries w1 = entries w" using r(3) by (simp add: entries_def)
  obtain w2 where i: "fabric_id C root w1 = (Inr (ap_fabric_id q), w2)" "keeper root w2" "wfs w2 = wfs w"
  proof -
    have "identified root (ap_fabric_id q) w1" using assms(6) e1 by (simp add: identified_def)
    from fabric_id_known [OF r(2) this, of C] obtain w2 where
      "fabric_id C root w1 = (Inr (ap_fabric_id q), w2)" "same_env w1 w2" "wfs w2 = wfs w1" by blast
    with that [of w2] keeper_step [OF r(2)] r(3) show thesis by simp
  qed
  have e2: "entries w2 = entries w" using i(3) by (simp add: entries_def)
  have al: "audit_log C root w2 (es @ fs)" using assms(3) e2 keeperD(1) [OF i(2)] by (simp add: audit_log_def)
  obtain t w3 where t: "tip_is_prefix C root (ap_audit_len q) (ap_audit_tip q) w2 = (t, w3)" by fastforce
  have "t = Inr ()"
    using tip_prefix_holds [OF al keeperD(2) [OF i(2)] assms(1)] assms(5) t by (simp add: records_def)
  have "keeps (still w2) (tip_is_prefix C root (ap_audit_len q) (ap_audit_tip q))"
    unfolding tip_is_prefix_def Let_def by (intro keeps_intros inert_prims inert_still)
  note k3 = still_run [OF this i(2) t]
  have e3: "entries w3 = entries w" using k3(2) i(3) by (simp add: entries_def)
  obtain g w4 where g: "store_head C root w3 = (g, w4)" by fastforce
  have "keeps (still w3) (store_head C root)"
    unfolding store_head_def by (intro keeps_intros inert_prims inert_still)
  note k4 = still_run [OF this k3(1) g]
  have "g = Inr h"
    using store_head_reads [OF keeperD(1) [OF k3(1)] keeperD(3) [OF k3(1)] keeperD(2) [OF k3(1)], of s C] assms(10,11,12) e3 g by simp
  with r i t \<open>t = Inr ()\<close> g k3(2) k4(2) expected_signer_ok [OF assms(9)] assms(4,5) show ?thesis
    by (simp add: anchor_verify_def checked_anchor_iff [symmetric] comp_eval records_def)
qed

section \<open>Minting succeeds\<close>

text \<open>Room for a file: its directory exists and no temporary name is taken in it.\<close>

definition room :: "path \<Rightarrow> world \<Rightarrow> bool" where
  "room p w \<longleftrightarrow> (\<forall>q. prefix q (butlast p) \<longrightarrow> entries w q = Some Dir) \<and> entries w p \<noteq> Some Dir
     \<and> (\<forall>x. take 5 x = ''.tmp-'' \<longrightarrow> entries w (butlast p @ [x]) = None)"

lemma room_writable: "room p w \<Longrightarrow> calm w \<Longrightarrow> writable_as tg p w"
  by (simp add: room_def writable_as_def tmp_name_def)

lemma write_as_total:
  assumes "sound F w" "calm w" "slot F p" "room p w"
  shows "\<exists>w'. write_as m tg p d w = (Inr (), w') \<and> sound F w' \<and> evolves F {p} w w'"
proof -
  obtain r w' where run: "write_as m tg p d w = (r, w')" by fastforce
  from write_as_result [OF assms(1,3) run] room_writable [OF assms(4,2)] run show ?thesis by (cases r) auto
qed

lemma key_from_file_still:
  assumes "keeper root w" "hex_ok C" "secret_in_file C root raw w" "length raw = 32" "\<not> uses_keychain w v"
  shows "\<exists>w' pl msg. key_get C root (w, v) = (Inr (raw, pl, msg), w', v) \<and> keeper root w' \<and> wfs w' = wfs w"
proof -
  obtain w' where r: "read_secret_file C root w = (Inr (Some raw), w')" using read_secret_calm [OF assms(1-4)] by blast
  have "keeps (still w) (read_secret_file C root)"
    unfolding read_secret_file_def by (intro keeps_intros inert_prims inert_still)
  note k = still_run [OF this assms(1) r]
  have "key_from_file C root (w, v) = (Inr (raw, InFile, None), w', v)"
    by (simp add: key_from_file_def on_disk_eval(1) r comp_eval)
  with k assms(5) show ?thesis by (auto simp: key_get_plain)
qed

lemma statement_total:
  assumes "keeper root w" "identified root i w" "file_data (entries w (head_path root)) = Some s" "utf8_valid s"
    "parse_head C s = Inr h"
  shows "\<exists>q w'. anchor_statement C root len tip prev w = (Inr q, w') \<and> keeper root w' \<and> wfs w' = wfs w"
proof -
  obtain w2 where i: "fabric_id C root w = (Inr i, w2)" "same_env w w2" "wfs w2 = wfs w"
    using fabric_id_known [OF assms(1,2)] by blast
  have k2: "keeper root w2" by (rule keeper_step [OF assms(1) i(2,3)])
  obtain g w3 where g: "store_head C root w2 = (g, w3)" by fastforce
  have "keeps (still w2) (store_head C root)"
    unfolding store_head_def by (intro keeps_intros inert_prims inert_still)
  note k3 = still_run [OF this k2 g]
  have "g = Inr h"
    using store_head_reads [OF keeperD(1,3,2) [OF k2], of s C] assms(3-5) i(3) g by (simp add: entries_def)
  obtain t w4 where t: "now_secs w3 = (Inr t, w4)" by (simp add: now_secs_def)
  note k4 = still_run [OF inert_prims(12) [OF inert_still] k3(1) t]
  from i g \<open>g = Inr h\<close> t k4 k3(2) show ?thesis by (simp add: anchor_statement_def comp_eval)
qed

lemma anchor_create_total:
  assumes "audit_json_ok C" "hex_ok C" "ed_ok C" "anchor_json_ok C" "keeper root w" "audit_log C root w es"
    and "sound (butlast out) w" "slot (butlast out) out" "\<not> prefix (fabric_dir root) out"
    and "secret_in_file C root raw w" "length raw = 32" "\<not> uses_keychain w v" "identified root i w"
    and "file_data (entries w (head_path root)) = Some s" "utf8_valid s" "parse_head C s = Inr h"
    and "room out w" "room (last_anchor_path root) w" "\<not> prefix (butlast out) (fabric_dir root)"
      "\<not> prefix (fabric_dir root) (butlast out)" and "typed_path txt = (True, out)"
  shows "\<exists>oc w' v'. anchor_create cwd C root txt (w, v) = (Inr oc, w', v')"
proof -
  note dot = typed_path_abs [OF assms(21)]
  let ?F = "fabric_dir root" and ?D = "butlast out" and ?l = "last_anchor_path root"
  have dd: "''..'' \<notin> set root" "''..'' \<notin> set out" "out \<noteq> []"
    using keeperD(3) [OF assms(5)] assms(8) by (auto simp: slot_def inside_def)
  obtain b w1 where o: "anchor_outside cwd root (True, out) w = (b, w1)" by fastforce
  from anchor_outside_result [OF assms(7,5) dd(3,2) dot o] assms(9)
  have b: "b = Inr True" "same_env w w1" "wfs w1 = wfs w" by auto
  have k1: "keeper root w1" by (rule keeper_step [OF assms(5) b(2,3)])
  have e1: "entries w1 = entries w" using b(3) by (simp add: entries_def)
  have "\<not> uses_keychain w1 v" using assms(12) b(2) by (simp add: uses_keychain_def same_env_def)
  moreover have "secret_in_file C root raw w1" using assms(10) e1 by (simp add: secret_in_file_def)
  ultimately obtain w2 pl msg where g: "key_get C root (w1, v) = (Inr (raw, pl, msg), w2, v)" "keeper root w2" "wfs w2 = wfs w1"
    using key_from_file_still [OF k1 assms(2) _ assms(11)] by blast
  have e2: "entries w2 = entries w" using g(3) b(3) by (simp add: entries_def)
  have al: "audit_log C root w2 es" using assms(6) e2 keeperD(1) [OF g(2)] by (simp add: audit_log_def)
  obtain w3 where t: "audit_tip C root w2 = (Inr (of_nat (length es), snd (after (0, []) es)), w3)"
    using audit_tip_calm [OF al keeperD(2) [OF g(2)] assms(1)] by (metis prod.collapse)
  have "keeps (still w2) (audit_tip C root)"
    unfolding audit_tip_def Let_def by (intro keeps_intros inert_prims inert_still)
  note k3 = still_run [OF this g(2) t]
  obtain lr w4 where l: "read_last_anchor root w3 = (lr, w4)" by fastforce
  note la = read_last_anchor_result [OF k3(1) l]
  have k4: "keeper root w4" "wfs w4 = wfs w" using still_keeper [OF k3(1) la(2)] la(2) k3(2) g(3) b(3) by (simp_all add: still_def)
  have e4: "entries w4 = entries w" using k4(2) by (simp add: entries_def)
  obtain q w5 where st: "anchor_statement C root (of_nat (length es)) (snd (after (0, []) es)) (link_at root w3) w4 = (Inr q, w5)"
    "keeper root w5" "wfs w5 = wfs w4"
  proof -
    have "identified root i w4" "file_data (entries w4 (head_path root)) = Some s"
      using assms(13,14) e4 by (simp_all add: identified_def)
    from statement_total [OF k4(1) this assms(15,16)] show thesis using that by blast
  qed
  note sr = anchor_statement_result [OF k4(1) assms(2) st(1)]
  have "list_all entry_text es" using assms(6) by (simp add: audit_log_def)
  from payload_textI [OF assms(2) sr(2,3,6) this sr(7,8)] signed_anchor_attested [OF assms(3,2,4,11) _ sr(3,4)]
  obtain d where d: "signed_anchor C raw q = Inr d" by blast
  have e5: "entries w5 = entries w" using st(3) k4(2) by (simp add: entries_def)
  have "sound ?D w5"
    using assms(7) st(2,3) k4(2) by (simp add: sound_def keeper_def)
  moreover have "room out w5" "calm w5" using assms(17) e5 keeperD(2) [OF st(2)] by (simp_all add: room_def)
  ultimately obtain w6 where wo: "write_as 0x1A4 ''anchor'' out d w5 = (Inr (), w6)" "sound ?D w6" "evolves ?D {out} w5 w6"
    using write_as_total [OF _ _ assms(8)] by blast
  have k6: "keeper root w6"
    using sound_elsewhere [OF keeperD(1) [OF st(2)] wo(2,3)] st(2) evolves_calm [OF wo(3)] by (simp add: keeper_def)
  have same: "entries w6 p = entries w p" if "prefix ?F p \<or> prefix p ?F" for p
  proof -
    have "\<not> prefix ?D p" using that assms(19,20) by (meson prefix_order.trans prefix_same_cases)
    moreover have "entries w5 p = Some Dir" if "prefix p ?D"
      using that assms(17) e5 by (simp add: room_def)
    ultimately show ?thesis
      using evolves_node [OF wo(3), of p] e5 unfolding node_evolves_def dir_place_def by (auto simp: inside_def prefix_def)
  qed
  have "room ?l w6"
    using assms(18) same by (simp add: room_def last_anchor_path_def)
  then obtain w' where "write_as 0x1A4 ''anchor'' ?l (hex_encode C (hash_bytes C d)) w6 = (Inr (), w')"
    using write_as_total [OF keeperD(1,2) [OF k6] last_anchor_slot [OF dd(1)]] by blast
  with o b(1) g(1) t l la(1) st(1) d wo(1) show ?thesis
    by (simp add: anchor_create_def load_key_def assms(21) write_out_abs [OF dd(3)] anchor_write_as on_disk_eval(1) comp_eval)
qed

section \<open>A concrete signature scheme\<close>

definition ref_sign :: "bytes \<Rightarrow> string \<Rightarrow> bytes" where
  "ref_sign seed m = seed @ ref_blake3 m"

definition ref_json_anchor :: "anchor_payload \<Rightarrow> string + string" where
  "ref_json_anchor p = Inr (ref_write [ap_kind p, half_field (ap_version p), ap_fabric_id p,
     word_field (ap_audit_len p), ap_audit_tip p, enc_opt (ap_head p), enc_opt (ap_prev p), word_field (ap_ts p)])"

definition ref_read_anchor :: "string \<Rightarrow> string + anchor_payload" where
  "ref_read_anchor s =
     (case ref_read s of
        Some [k, v, i, l, t, h, pr, ts] \<Rightarrow>
          (case (dec_opt h, dec_opt pr) of
             (Some h', Some pr') \<Rightarrow>
               (let p = \<lparr>ap_kind = k, ap_version = field_half v, ap_fabric_id = i, ap_audit_len = field_word l,
                         ap_audit_tip = t, ap_head = h', ap_prev = pr', ap_ts = field_word ts\<rparr>
                in if payload_text p then Inr p else Inl ''encoding'')
           | _ \<Rightarrow> Inl ''syntax'')
      | _ \<Rightarrow> Inl ''syntax'')"

definition ref_json_doc :: "anchor_file \<Rightarrow> string + bytes" where
  "ref_json_doc f = Inr (ref_write [af_format f, af_pubkey f, af_payload f, af_sig f])"

definition ref_read_doc :: "bytes \<Rightarrow> string + anchor_file" where
  "ref_read_doc d =
     (case ref_read d of
        Some [f, k, p, s] \<Rightarrow> Inr \<lparr>af_format = f, af_pubkey = k, af_payload = p, af_sig = s\<rparr>
      | _ \<Rightarrow> Inl ''syntax'')"

definition ref_sign_crates :: sign_crates where
  "ref_sign_crates = snap_crates.extend ref_snap_crates
     \<lparr>ed_public = id, ed_sign = ref_sign, ed_key = (\<lambda>_. True), ed_verify = (\<lambda>pk m sg. sg = ref_sign pk m),
      json_anchor = ref_json_anchor, read_anchor = ref_read_anchor,
      json_anchor_doc = ref_json_doc, read_anchor_doc = ref_read_doc\<rparr>"

lemma ref_ed_ok:
  assumes "ed_public C = id" "ed_sign C = ref_sign" "ed_key C = (\<lambda>_. True)"
    "ed_verify C = (\<lambda>pk m sg. sg = ref_sign pk m)"
  shows "ed_ok C"
  using ref_crates_ok by (simp add: ed_ok_def assms ref_sign_def crates_ok_def blake3_ok_def ref_crates_def)

lemma ref_anchor_json_ok:
  assumes "json_anchor C = ref_json_anchor" "read_anchor C = ref_read_anchor"
    "json_anchor_doc C = ref_json_doc" "read_anchor_doc C = ref_read_doc"
  shows "anchor_json_ok C"
proof -
  have 1: "ref_read_anchor (ref_write [ap_kind p, half_field (ap_version p), ap_fabric_id p,
     word_field (ap_audit_len p), ap_audit_tip p, enc_opt (ap_head p), enc_opt (ap_prev p), word_field (ap_ts p)]) = Inr p"
    if "payload_text p" for p
    using that by (simp add: ref_read_anchor_def ref_read_write Let_def payload_text_def)
  have 2: "payload_text p" if "ref_read_anchor s = Inr p" for s p
    using that by (auto simp: ref_read_anchor_def Let_def split: option.splits list.splits if_splits)
  have 3: "\<exists>d. ref_json_doc f = Inr d \<and> ref_read_doc d = Inr f" for f
    by (simp add: ref_json_doc_def ref_read_doc_def ref_read_write)
  show ?thesis
    unfolding anchor_json_ok_def assms using 1 2 3 by (auto simp: ref_json_anchor_def ref_write_line(3))
qed

lemma ref_sign_facts:
  "crates_ok ref_sign_crates" "audit_json_ok ref_sign_crates" "manifest_json_ok ref_sign_crates"
  "tombstone_json_ok ref_sign_crates" "cdc_ok ref_sign_crates" "walk_ok ref_sign_crates"
  "ed_ok ref_sign_crates" "anchor_json_ok ref_sign_crates"
  "hash_hex ref_sign_crates = ref_hex_encode" "hash_bytes ref_sign_crates = ref_blake3"
  "hex_encode ref_sign_crates = ref_hex_encode" "hex_ok ref_sign_crates"
proof -
  have e: "blake3 ref_sign_crates = blake3 ref_crates" "hex_encode ref_sign_crates = hex_encode ref_crates"
    "hex_decode ref_sign_crates = hex_decode ref_crates" "zstd_encode ref_sign_crates = zstd_encode ref_crates"
    "zstd_read ref_sign_crates = zstd_read ref_crates"
    by (simp_all add: ref_sign_crates_def ref_snap_crates_def ref_audit_crates_def ref_crates_def
        crates.defs audit_crates.defs snap_crates.defs)
  then show c: "crates_ok ref_sign_crates"
    using ref_crates_ok by (simp add: crates_ok_def blake3_ok_def hex_ok_def zstd_ok_def)
  then show "hex_ok ref_sign_crates" by (simp add: crates_ok_def)
  show "hash_hex ref_sign_crates = ref_hex_encode" "hash_bytes ref_sign_crates = ref_blake3"
    "hex_encode ref_sign_crates = ref_hex_encode"
    by (simp_all add: fun_eq_iff hash_hex_def hash_bytes_def e) (simp_all add: ref_crates_def)
  show "audit_json_ok ref_sign_crates" "manifest_json_ok ref_sign_crates" "tombstone_json_ok ref_sign_crates"
      "cdc_ok ref_sign_crates" "walk_ok ref_sign_crates" "ed_ok ref_sign_crates" "anchor_json_ok ref_sign_crates"
    by (simp_all add: ref_audit_ok ref_manifest_ok ref_tombstone_ok ref_cdc_ok ref_walk_ok ref_ed_ok
        ref_anchor_json_ok ref_sign_crates_def ref_snap_crates_def ref_audit_crates_def audit_crates.defs snap_crates.defs crates.defs)
qed

section \<open>A concrete fabric\<close>

definition seed :: bytes where
  "seed = replicate 32 CHR ''k''"

definition first_entry :: audit_entry where
  "first_entry = next_entry ref_sign_crates (0, []) 7 ''init'' ''v1''"

definition vault_fs :: fs where
  "vault_fs =
     [([''r''], Dir), ([''r'', ''.respawn''], Dir), ([''r'', ''.respawn'', ''objects''], Dir),
      ([''r'', ''.respawn'', ''manifests''], Dir), ([''r'', ''.respawn'', ''HEAD''], File [] 0x1A4 0),
      ([''r'', ''.respawn'', ''fabric_id''], File ''f1'' 0x1A4 0),
      ([''r'', ''.respawn'', ''anchor.secret''], File (hex_encode ref_sign_crates seed) 0x180 0),
      ([''r'', ''.respawn'', ''audit.jsonl''], File (render ref_sign_crates [first_entry]) 0x1A4 0),
      ([''o''], Dir)]"

definition first_payload :: anchor_payload where
  "first_payload = \<lparr>ap_kind = ''respawn-anchor'', ap_version = 1, ap_fabric_id = ''f1'', ap_audit_len = 1,
     ap_audit_tip = ae_hash first_entry, ap_head = None, ap_prev = None, ap_ts = 7\<rparr>"

definition first_doc :: bytes where
  "first_doc = (case signed_anchor ref_sign_crates seed first_payload of Inr d \<Rightarrow> d | Inl _ \<Rightarrow> [])"

definition vault_world :: "fs \<Rightarrow> world" where
  "vault_world extra = fresh_world (vault_fs @ extra)"

definition doc_node :: "path \<times> node" where
  "doc_node = ([''o'', ''a.json''], File first_doc 0x1A4 0)"

lemma vault_sound:
  assumes "extra = [] \<or> extra = [doc_node]" "''..'' \<notin> set F"
  shows "sound F (vault_world extra)"
  unfolding vault_world_def
  by (rule plain_fs_sound [OF _ assms(2)]) (use assms(1) in \<open>auto simp: plain_fs_def vault_fs_def doc_node_def\<close>)

lemma vault_keeper: "extra = [] \<or> extra = [doc_node] \<Longrightarrow> keeper [''r''] (vault_world extra)"
  using vault_sound [of extra "fabric_dir [''r'']"]
  by (simp add: keeper_def fabric_dir_def FABRIC_DIR_def) (simp add: vault_world_def)

lemma vault_entries: "entries (vault_world extra) p = (if p = [] then Some Dir else map_of (vault_fs @ extra) p)"
  by (simp add: vault_world_def fresh_entries entry_at_def)

lemma first_entry_ok: "chain ref_sign_crates (0, []) [first_entry]" "list_all entry_text [first_entry]"
proof -
  show "chain ref_sign_crates (0, []) [first_entry]" by (simp add: first_entry_def next_entry_linked)
  have "utf8_valid ''init''" "utf8_valid ''v1''" "utf8_valid ([]::string)" by (simp_all add: code_def)
  then show "list_all entry_text [first_entry]"
    by (simp add: first_entry_def next_entry_text [OF ref_sign_facts(12)] del: utf8_valid.simps(2))
qed

lemma vault_facts:
  assumes "extra = [] \<or> extra = [doc_node]"
  shows "audit_log ref_sign_crates [''r''] (vault_world extra) [first_entry]"
    "secret_in_file ref_sign_crates [''r''] seed (vault_world extra)"
    "identified [''r''] ''f1'' (vault_world extra)"
    "file_data (entries (vault_world extra) (head_path [''r''])) = Some []"
proof -
  have "utf8_valid ''f1''" "trim ''f1'' = ''f1''"
    by (simp add: code_def, rule trim_graphic) (simp add: graphic_def code_def)
  then show "identified [''r''] ''f1'' (vault_world extra)"
    by (simp add: identified_def vault_entries vault_fs_def fabric_id_path_def FABRIC_ID_FILE_def
        fabric_dir_def FABRIC_DIR_def del: utf8_valid.simps)
  show "audit_log ref_sign_crates [''r''] (vault_world extra) [first_entry]"
    using first_entry_ok keeperD(1) [OF vault_keeper [OF assms]]
    by (simp add: audit_log_def vault_entries vault_fs_def audit_path_def fabric_dir_def FABRIC_DIR_def)
  show "secret_in_file ref_sign_crates [''r''] seed (vault_world extra)"
    "file_data (entries (vault_world extra) (head_path [''r''])) = Some []"
    by (simp_all add: secret_in_file_def vault_entries vault_fs_def secret_path_def SECRET_FILE_def
        fabric_dir_def FABRIC_DIR_def head_path_def)
qed

lemma first_payload_ok: "payload_text first_payload" "records ref_sign_crates first_payload [first_entry]"
proof -
  have "utf8_valid ''respawn-anchor''" "utf8_valid ''f1''" by (simp_all add: code_def)
  moreover have "utf8_valid (ae_hash first_entry)" using first_entry_ok(2) by (simp add: entry_text_def)
  ultimately show "payload_text first_payload" by (simp add: payload_text_def first_payload_def del: utf8_valid.simps)
  show "records ref_sign_crates first_payload [first_entry]"
    using first_entry_ok by (simp add: records_def first_payload_def)
qed

lemma first_doc:
  obtains f where "attested ref_sign_crates first_doc f first_payload"
    "signed_anchor ref_sign_crates seed first_payload = Inr first_doc"
proof -
  have "length seed = 32" "ap_kind first_payload = ''respawn-anchor''" "ap_version first_payload = ANCHOR_VERSION"
    by (simp_all add: seed_def first_payload_def ANCHOR_VERSION_def)
  from signed_anchor_attested [OF ref_sign_facts(7,12,8) this(1) first_payload_ok(1) this(2,3)]
  obtain d f where d: "signed_anchor ref_sign_crates seed first_payload = Inr d" "attested ref_sign_crates d f first_payload"
    by blast
  then have "first_doc = d" by (simp add: first_doc_def)
  with d that [of f] show thesis by simp
qed

lemma vault_read: "fs_read True (wfs (vault_world [doc_node])) [''o'', ''a.json''] = Inr first_doc"
proof -
  let ?w = "vault_world [doc_node]" and ?p = "[''o'', ''a.json'']"
  have "sound ?p ?w" by (rule vault_sound) simp_all
  then have "wf_fs (wfs ?w)" "clean_path (wfs ?w) ?p" by (auto simp: sound_def intro: link_free_clean)
  moreover have "file_data (entries ?w ?p) = Some first_doc"
    by (simp add: vault_entries vault_fs_def doc_node_def)
  ultimately show ?thesis using fs_read_clean by (simp add: entries_def)
qed

lemma length_ref_write: "length (ref_write fs) = 1 + sum_list (map (\<lambda>f. 2 * length f + 1) fs)"
  by (induction fs) (simp_all add: ref_write_def ref_hex_length)

lemma first_doc_short: "length first_doc \<le> MAX_ANCHOR_BYTES"
proof -
  have "length (ae_hash first_entry) = 64"
    using hash_hex_facts(1) [OF ref_sign_facts(12)] ref_sign_facts(1)
    by (simp add: first_entry_def next_entry_def entry_hash_def ref_sign_facts(11) ref_hex_length crates_ok_def)
  moreover have "length (ref_blake3 d) = 32" for d
    using ref_crates_ok by (simp add: crates_ok_def blake3_ok_def ref_crates_def)
  ultimately show ?thesis
    by (simp add: first_doc_def signed_anchor_def ref_sign_crates_def snap_crates.defs ref_json_anchor_def
        ref_json_doc_def length_ref_write first_payload_def ref_hex_length MAX_ANCHOR_BYTES_def
        ref_sign_def seed_def word_field_def half_field_def enc_opt_def ref_snap_crates_def
        audit_crates.defs ref_audit_crates_def crates.defs ref_crates_def)
qed

section \<open>Properties\<close>

text \<open>C25: An anchor that verifies is signed and pins the log: the document carries a valid signature by
  the key it names (the pinned one, if one was given), its payload names this fabric, and for
  every history that the payload records, the log as it is now starts with exactly those
  entries, whatever was done to the files since, unless two entry bodies at hand collide.\<close>

theorem anchor_verify_sound:
  assumes "audit_json_ok C" "hex_ok C" "keeper root w" "fs_read True (wfs w) p = Inr d"
    and "anchor_verify C root p pin w = (Inr vo, w')"
  shows "\<exists>f q. attested C d f q \<and> vo_signer_pubkey vo = af_pubkey f \<and> vo_audit_len vo = ap_audit_len q
    \<and> (\<forall>want pk. pin = Some want \<longrightarrow> hex_decode C (af_pubkey f) = Some pk \<longrightarrow> map lower_char want = hex_encode C pk)
    \<and> (\<forall>i. identified root i w \<longrightarrow> ap_fabric_id q = i)
    \<and> (\<forall>es. records C q es \<longrightarrow>
         inj_on (hash_bytes C) (body_strings C es \<union> body_strings C (parsed C (text_lines (data_at w (audit_path root))))) \<longrightarrow>
         take (length es) (parsed C (text_lines (data_at w (audit_path root)))) = es)"
proof (rule anchor_verify_run [OF assms(5)])
  fix d' w1 f q i w2 u w3
  assume rd: "read_anchor_file p w = (Inr d', w1)" and at: "attested C d' f q"
    and pn: "expected_signer f pin = Inr ()" and fi: "fabric_id C root w1 = (Inr i, w2)" and iq: "ap_fabric_id q = i"
    and tp: "tip_is_prefix C root (ap_audit_len q) (ap_audit_tip q) w2 = (Inr u, w3)"
    and vo: "vo_signer_pubkey vo = af_pubkey f" "vo_audit_len vo = ap_audit_len q"
  note r = read_anchor_file_result [OF assms(3) rd]
  note g = fabric_id_result [OF r(2) assms(2) fi]
  have d: "d' = d" using r(1) assms(4) by simp
  have dd: "''..'' \<notin> set root" by (rule keeperD(3) [OF assms(3)])
  have ne: "audit_path root \<noteq> fabric_id_path root" by (simp add: audit_path_def fabric_id_path_def FABRIC_ID_FILE_def)
  have "file_data (entries w2 (audit_path root)) = file_data (entries w1 (audit_path root))"
    using ne slot_facts(3) [OF slot_audit [OF dd]] by (intro evolves_data [OF g(2)]) simp_all
  then have data: "data_at w2 (audit_path root) = data_at w (audit_path root)"
    using r(3) by (simp add: data_at_def entries_def)
  have "ap_fabric_id q = j" if j: "identified root j w" for j
  proof -
    have "identified root j w1" using j r(3) by (simp add: identified_def entries_def)
    from fabric_id_known [OF r(2) this, of C] fi iq show ?thesis by auto
  qed
  moreover have "map lower_char want = hex_encode C pk" if "pin = Some want" "hex_decode C (af_pubkey f) = Some pk" for want pk
    using expected_signer_pin [OF assms(2)] pn that by simp
  moreover have "take (length es) (parsed C (text_lines (data_at w (audit_path root)))) = es"
    if "records C q es" "inj_on (hash_bytes C) (body_strings C es \<union> body_strings C (parsed C (text_lines (data_at w (audit_path root)))))" for es
    using anchored_prefix [OF assms(1,2) _ _ _ _ keeperD(1) [OF g(1)] dd, of es u w3] that tp
    by (simp add: records_def data)
  ultimately show ?thesis
    using at [unfolded d] vo by (intro exI [of _ f] exI [of _ q] conjI allI impI)
qed

text \<open>C26: Minting an anchor at an absolute path: when it succeeds, the file at the destination is a
  document with a valid signature whose payload names the fabric and records the length and tip
  of the log; it signs the hash of the previous anchor and becomes the next link itself; the log
  is untouched and the destination lies outside the fabric. Relative destinations are not covered: the code's check
  does not hold for them.\<close>

theorem anchor_mint:
  assumes "audit_json_ok C" "hex_ok C" "ed_ok C" "anchor_json_ok C" "keeper root w" "audit_log C root w es"
    and "sound (butlast out) w" "slot (butlast out) out"
    and "typed_path txt = (True, out)" "anchor_create cwd C root txt (w, v) = (Inr oc, w', v')"
  shows "\<exists>d f q. file_data (entries w' out) = Some d \<and> attested C d f q
    \<and> ap_audit_len q = of_nat (length es) \<and> ap_audit_tip q = snd (after (0, []) es)
    \<and> identified root (ap_fabric_id q) w' \<and> ap_prev q = link_at root w
    \<and> link_at root w' = Some (hex_encode C (hash_bytes C d))
    \<and> audit_log C root w' es \<and> \<not> prefix (fabric_dir root) out"
proof (rule anchor_create_run [OF assms(10)])
  fix w1 sk pl msg w2 v2 len tip w3 prev w4 q w5 d w6
  assume run: "anchor_outside cwd root (typed_path txt) w = (Inr True, w1)" "key_get C root (w1, v) = (Inr (sk, pl, msg), w2, v2)"
    "audit_tip C root w2 = (Inr (len, tip), w3)" "read_last_anchor root w3 = (Inr prev, w4)"
    "anchor_statement C root len tip prev w4 = (Inr q, w5)" "signed_anchor C sk q = Inr d"
    "write_out cwd (typed_path txt) d w5 = (Inr (), w6)"
    "anchor_write (last_anchor_path root) (hex_encode C (hash_bytes C d)) w6 = (Inr (), w')"
  let ?F = "fabric_dir root" and ?D = "butlast out" and ?X = "{fabric_id_path root, secret_path root}"
    and ?l = "last_anchor_path root"
  have dd: "''..'' \<notin> set root" "''..'' \<notin> set out" "out \<noteq> []" and nt: "\<not> is_tmp out"
    using keeperD(3) [OF assms(5)] assms(8) by (auto simp: slot_def inside_def)
  note o = anchor_outside_result [OF assms(7,5) dd(3,2) typed_path_abs [OF assms(9)] run(1) [unfolded assms(9)]]
  have np: "\<not> prefix ?F out" using o by simp
  have h1: "held root ?X w w1"
    using o inert_held [of root ?X w] held_refl [OF assms(5), of ?X] unfolding inert_def by blast
  have h2: "held root ?X w w2"
    using keepsD [OF held_key_get [OF assms(2) dd(1), of ?X w] _ run(2)] h1 by simp
  have "held root ?X w w3" by (rule keepsD [OF held_reads(1) h2 run(3)])
  note h3 = this
  have k: "keeper root w2" "keeper root w3" using h2 h3 by (simp_all add: held_def)
  note la = read_last_anchor_result [OF k(2) run(4)]
  have h4: "held root ?X w w4" by (rule keepsD [OF held_reads(2) h3 run(4)])
  then have k4: "keeper root w4" by (simp add: held_def)
  note st = anchor_statement_result [OF k4 assms(2) run(5)]
  have h5: "held root ?X w w5"
    using st(1) held_step [OF h4, of w5 "{fabric_id_path root}"] keeperD(1) by (auto simp: held_def)
  have k5: "keeper root w5" and ev5: "evolves ?F ?X w w5" using h5 by (simp_all add: held_def)
  have al: "audit_log C root w2 es"
    using audit_log_kept [OF assms(6)] h2 keeperD(1) by (auto simp: held_def audit_path_def fabric_id_path_def
        secret_path_def FABRIC_ID_FILE_def SECRET_FILE_def)
  have lt: "len = of_nat (length es)" "tip = snd (after (0, []) es)"
    using audit_tip_calm [OF al keeperD(2) [OF k(1)] assms(1)] run(3) by auto
  have "file_data (entries w3 ?l) = file_data (entries w ?l)"
    using h3 slot_facts(3) [OF last_anchor_slot [OF dd(1)]]
    by (intro evolves_data [of ?F ?X]) (auto simp: held_def last_anchor_path_def LAST_ANCHOR_FILE_def
        fabric_id_path_def secret_path_def FABRIC_ID_FILE_def SECRET_FILE_def)
  then have pv: "prev = link_at root w" using la(1) by (simp add: link_at_def)
  have len: "length sk = 32" using yieldsD [OF yields_key_get run(2)] by simp
  have "list_all entry_text es" using assms(6) by (simp add: audit_log_def)
  from payload_textI [OF assms(2) st(2,3) _ this _ st(8)] st(6,7) lt(2) pv have "payload_text q" by simp
  from signed_anchor_attested [OF assms(3,2,4) len this st(3,4)] run(6) obtain f where
    at: "attested C d f q" by auto
  have sD: "sound ?D w5" by (rule sound_elsewhere [OF assms(7) keeperD(1) [OF k5] ev5])
  note wo = write_as_result [OF sD assms(8) run(7) [unfolded assms(9) write_out_abs [OF dd(3)] anchor_write_as]]
  then obtain t where wo: "sound ?D w6" "evolves ?D {out} w5 w6" "entries w6 out = Some (File d 0x1A4 t)" by auto
  have k6: "keeper root w6"
    using sound_elsewhere [OF keeperD(1) [OF k5] wo(1,2)] k5 evolves_calm [OF wo(2)] by (simp add: keeper_def)
  from write_as_result [OF keeperD(1) [OF k6] last_anchor_slot [OF dd(1)] run(8) [unfolded anchor_write_as]]
  obtain t' where wl: "sound ?F w'" "evolves ?F {?l} w6 w'"
    "entries w' ?l = Some (File (hex_encode C (hash_bytes C d)) 0x1A4 t')" by auto
  have pl: "prefix ?F ?l" "prefix ?F (fabric_id_path root)" by (simp_all add: last_anchor_path_def fabric_id_path_def)
  have d: "file_data (entries w' out) = Some d"
    using evolves_data [OF wl(2), of out] np nt wo(3) pl(1) by auto
  have "fabric_id_path root \<noteq> out" using np pl(2) by auto
  then have "file_data (entries w' (fabric_id_path root)) = file_data (entries w5 (fabric_id_path root))"
    using evolves_data [OF wl(2), of "fabric_id_path root"] evolves_data [OF wo(2), of "fabric_id_path root"]
      slot_facts(3) [OF key_slots(1) [OF dd(1)]] np pl(2)
    by (auto simp: last_anchor_path_def fabric_id_path_def LAST_ANCHOR_FILE_def FABRIC_ID_FILE_def)
  then have "identified root (ap_fabric_id q) w'" using st(2) by (simp add: identified_def)
  moreover have "audit_log C root w' es"
  proof -
    have "audit_log C root w5 es"
      using audit_log_kept [OF assms(6) keeperD(1) [OF k5] ev5] by (simp add: audit_path_def fabric_id_path_def
        secret_path_def FABRIC_ID_FILE_def SECRET_FILE_def)
    from audit_log_beside [OF this keeperD(1) [OF k6] wo(2) np dd(3)]
    show ?thesis
      using audit_log_kept [OF _ wl(1,2)] by (simp add: audit_path_def last_anchor_path_def LAST_ANCHOR_FILE_def)
  qed
  moreover have "link_at root w' = Some (hex_encode C (hash_bytes C d))"
    using wl(3) by (simp add: link_at_def hex_text [OF assms(2)])
  ultimately show ?thesis using d at st(5,6,7) lt pv np by blast
qed


text \<open>C28: An honest anchor never turns into a false alarm: whatever further events the log has recorded
  since, verification of the anchor in the fabric it was minted for succeeds, reports its signer
  and length, and changes no file.\<close>

theorem anchor_accepts_extension:
  assumes "audit_json_ok C" "keeper root w" "audit_log C root w (es @ fs)" "attested C d f q" "records C q es"
    and "identified root (ap_fabric_id q) w" "fs_read True (wfs w) p = Inr d" "length d \<le> MAX_ANCHOR_BYTES"
    and "pin = None \<or> (\<exists>want. pin = Some want \<and> map lower_char want = map lower_char (af_pubkey f))"
    and "file_data (entries w (head_path root)) = Some s" "utf8_valid s" "parse_head C s = Inr h"
  shows "\<exists>vo w'. anchor_verify C root p pin w = (Inr vo, w') \<and> vo_signer_pubkey vo = af_pubkey f
    \<and> vo_audit_len vo = of_nat (length es) \<and> vo_current_head vo = map_option (hex_encode C) h \<and> wfs w' = wfs w"
  by (rule anchor_accepts [OF assms])

text \<open>The anchor of \<open>vault_fs\<close> is accepted.\<close>

lemma vault_accepts:
  "\<exists>vo w' f. anchor_verify ref_sign_crates [''r''] [''o'', ''a.json''] None (vault_world [doc_node]) = (Inr vo, w')
     \<and> attested ref_sign_crates first_doc f first_payload \<and> vo_signer_pubkey vo = af_pubkey f \<and> vo_audit_len vo = 1"
proof -
  obtain f where f: "attested ref_sign_crates first_doc f first_payload" using first_doc by blast
  have "audit_log ref_sign_crates [''r''] (vault_world [doc_node]) ([first_entry] @ [])"
    using vault_facts(1) [of "[doc_node]"] by simp
  moreover have "identified [''r''] (ap_fabric_id first_payload) (vault_world [doc_node])"
    using vault_facts(3) [of "[doc_node]"] by (simp add: first_payload_def)
  ultimately show ?thesis
    using anchor_accepts [OF ref_sign_facts(2) vault_keeper _ f first_payload_ok(2) _ vault_read first_doc_short _
      vault_facts(4) _ parse_head_empty, of "[]" None] f by fastforce
qed

lemma vault_parsed:
  "parsed ref_sign_crates (text_lines (data_at (vault_world [doc_node]) (audit_path [''r'']))) = [first_entry]"
proof -
  have "data_at (vault_world [doc_node]) (audit_path [''r'']) = render ref_sign_crates [first_entry]"
    by (simp add: data_at_def vault_entries vault_fs_def audit_path_def fabric_dir_def FABRIC_DIR_def)
  then show ?thesis
    using render_lines [OF ref_sign_facts(2) first_entry_ok(2)] parsed_lines [OF ref_sign_facts(2) first_entry_ok(2)] by simp
qed

theorem anchor_verify_sound_witness:
  "\<exists>vo w'. anchor_verify ref_sign_crates [''r''] [''o'', ''a.json''] None (vault_world [doc_node]) = (Inr vo, w')
     \<and> (\<exists>f q. attested ref_sign_crates first_doc f q \<and> vo_signer_pubkey vo = af_pubkey f \<and> ap_fabric_id q = ''f1'')"
proof -
  obtain vo w' where run: "anchor_verify ref_sign_crates [''r''] [''o'', ''a.json''] None (vault_world [doc_node]) = (Inr vo, w')"
    using vault_accepts by blast
  have k: "keeper [''r''] (vault_world [doc_node])" by (rule vault_keeper) simp
  from anchor_verify_sound [OF ref_sign_facts(2,12) k vault_read run] vault_facts(3) [of "[doc_node]"]
  obtain f q where "attested ref_sign_crates first_doc f q" "vo_signer_pubkey vo = af_pubkey f" "ap_fabric_id q = ''f1''" by blast
  with run show ?thesis by blast
qed

theorem anchor_accepts_extension_witness:
  "\<exists>vo w'. anchor_verify ref_sign_crates [''r''] [''o'', ''a.json''] None (vault_world [doc_node]) = (Inr vo, w')
     \<and> vo_audit_len vo = 1 \<and> vo_current_head vo = None"
proof -
  obtain f where f: "attested ref_sign_crates first_doc f first_payload" using first_doc by blast
  have "audit_log ref_sign_crates [''r''] (vault_world [doc_node]) ([first_entry] @ [])"
    using vault_facts(1) [of "[doc_node]"] by simp
  moreover have "identified [''r''] (ap_fabric_id first_payload) (vault_world [doc_node])"
    using vault_facts(3) [of "[doc_node]"] by (simp add: first_payload_def)
  ultimately show ?thesis
    using anchor_accepts_extension [OF ref_sign_facts(2) vault_keeper _ f first_payload_ok(2) _ vault_read first_doc_short _
      vault_facts(4) _ parse_head_empty, of "[]" None] by fastforce
qed

theorem anchor_mint_witness:
  "\<exists>oc w' v'. anchor_create [] ref_sign_crates [''r''] ''/o/a.json'' (vault_world [], no_vault) = (Inr oc, w', v')
     \<and> (\<exists>d f q. file_data (entries w' [''o'', ''a.json'']) = Some d \<and> attested ref_sign_crates d f q
          \<and> ap_audit_len q = 1 \<and> ap_prev q = None)"
proof -
  let ?w = "vault_world []" and ?out = "[''o'', ''a.json'']" and ?C = ref_sign_crates
  have k: "keeper [''r''] ?w" by (rule vault_keeper) simp
  have sD: "sound (butlast ?out) ?w" by (rule vault_sound) simp_all
  have sl: "slot (butlast ?out) ?out" by (simp add: slot_def inside_def is_tmp_def dir_place_def)
  have np: "\<not> prefix (fabric_dir [''r'']) ?out" "\<not> prefix (butlast ?out) (fabric_dir [''r''])"
    "\<not> prefix (fabric_dir [''r'']) (butlast ?out)" by (simp_all add: fabric_dir_def)
  have rm: "room ?out ?w" "room (last_anchor_path [''r'']) ?w"
    by (auto simp: room_def vault_entries vault_fs_def last_anchor_path_def LAST_ANCHOR_FILE_def fabric_dir_def
        FABRIC_DIR_def prefix_Cons)
  have len: "length seed = 32" by (simp add: seed_def)
  note vf = vault_facts [of "[]", simplified]
  have ty: "typed_path ''/o/a.json'' = (True, ?out)" by (simp add: typed_path_def is_absolute_def components_def Let_def)
  obtain oc w' v' where run: "anchor_create [] ?C [''r''] ''/o/a.json'' (?w, no_vault) = (Inr oc, w', v')"
    using anchor_create_total [where cwd = "[]", OF ref_sign_facts(2,12,7,8) k vf(1) sD sl np(1) vf(2) len no_vault(1) vf(3,4) _
        parse_head_empty rm np(2,3) ty] by auto
  have "link_at [''r''] ?w = None"
    by (simp add: link_at_def vault_entries vault_fs_def last_anchor_path_def LAST_ANCHOR_FILE_def fabric_dir_def FABRIC_DIR_def)
  with anchor_mint [OF ref_sign_facts(2,12,7,8) k vf(1) sD sl ty run] run show ?thesis by fastforce
qed

end
