(* ===== verification/Purge.thy ===== *)
theory Purge
  imports Anchor_Facts Tree_Writes
begin

text \<open>
  The write side of \<open>src/purge.rs\<close>: erasing a path with everything only it refers to, the
  tombstone that keeps it dead, and the signed certificate. Shown: what a purge removes, what it
  must leave alone whether it succeeds or not, and that a signed certificate passes the checks of
  its reader. Whole runs are in \<open>Certified\<close>.
\<close>

section \<open>The documents\<close>

record purge_payload =
  pp_kind :: string
  pp_version :: "32 word"
  pp_fabric_id :: string
  pp_path :: string
  pp_content :: string
  pp_chunks_removed :: "64 word"
  pp_chunks_retained_shared :: "64 word"
  pp_manifests_touched :: "64 word"
  pp_audit_len :: "64 word"
  pp_audit_tip :: string
  pp_ts :: "64 word"

record purge_cert =
  pc_format :: string
  pc_pubkey :: string
  pc_payload :: string
  pc_sig :: string

text \<open>\<open>serde_json\<close> on them.\<close>

record purge_crates = sign_crates +
  json_purge :: "purge_payload \<Rightarrow> string + string"
  read_purge :: "string \<Rightarrow> string + purge_payload"
  json_cert :: "purge_cert \<Rightarrow> string + bytes"
  read_cert :: "bytes \<Rightarrow> string + purge_cert"

definition purge_text :: "purge_payload \<Rightarrow> bool" where
  "purge_text p \<longleftrightarrow> utf8_valid (pp_kind p) \<and> utf8_valid (pp_fabric_id p) \<and> utf8_valid (pp_path p)
     \<and> utf8_valid (pp_content p) \<and> utf8_valid (pp_audit_tip p)"

definition cert_text :: "purge_cert \<Rightarrow> bool" where
  "cert_text c \<longleftrightarrow> utf8_valid (pc_format c) \<and> utf8_valid (pc_pubkey c) \<and> utf8_valid (pc_payload c)
     \<and> utf8_valid (pc_sig c)"

text \<open>Both documents read back as they were written.\<close>

definition purge_json_ok :: "('z) purge_crates_scheme \<Rightarrow> bool" where
  "purge_json_ok C \<longleftrightarrow>
     (\<forall>p. purge_text p \<longrightarrow> (\<exists>s. json_purge C p = Inr s \<and> read_purge C s = Inr p \<and> utf8_valid s))
     \<and> (\<forall>c. cert_text c \<longrightarrow> (\<exists>d. json_cert C c = Inr d \<and> read_cert C d = Inr c))"

definition PURGE_DIR :: string where "PURGE_DIR = ''purges''"

record purge_report =
  pr_cert_path :: path
  pr_chunks_removed :: "64 word"
  pr_chunks_retained_shared :: "64 word"
  pr_manifests_touched :: "64 word"
  pr_live_removed :: bool
  pr_note :: "string option"

section \<open>What the history says of the path\<close>

text \<open>The hash sets are lists without repetition; no statement depends on their order.\<close>

record purge_scan =
  ps_content :: "hash option"
  ps_touched :: "64 word"
  ps_chunks :: "hash list"
  ps_elsewhere :: "hash list"

definition scan_file :: "string \<Rightarrow> bool \<times> purge_scan \<Rightarrow> file_entry \<Rightarrow> bool \<times> purge_scan" where
  "scan_file rel st fe =
     (case st of (hit, s) \<Rightarrow>
        if fe_path fe = rel then
          (True, s\<lparr>ps_content := (case ps_content s of None \<Rightarrow> Some (fe_content fe) | Some c \<Rightarrow> Some c),
                   ps_chunks := fold List.insert (fe_chunks fe) (ps_chunks s)\<rparr>)
        else (hit, s\<lparr>ps_elsewhere := fold List.insert (fe_chunks fe) (ps_elsewhere s)\<rparr>))"

definition scan_manifest :: "string \<Rightarrow> purge_scan \<Rightarrow> manifest \<Rightarrow> purge_scan" where
  "scan_manifest rel s m =
     (case foldl (scan_file rel) (False, s) (m_files m) of (hit, s') \<Rightarrow>
        if hit then s'\<lparr>ps_touched := ps_touched s' + 1\<rparr> else s')"

definition scan_history :: "string \<Rightarrow> hash option \<Rightarrow> manifest list \<Rightarrow> purge_scan" where
  "scan_history rel live_content ms =
     foldl (scan_manifest rel) \<lparr>ps_content = live_content, ps_touched = 0, ps_chunks = [], ps_elsewhere = []\<rparr> ms"

section \<open>Erasing\<close>

definition live_content :: "('z) crates_scheme \<Rightarrow> path \<Rightarrow> hash option io" where
  "live_content C live =
     andThen (p_is_file live) (\<lambda>b.
     if b then andThen (p_read live) (\<lambda>d. ok (Some (fst (hash_reader C d)))) else ok None)"

text \<open>One chunk of the path: (removed, retained).\<close>

definition purge_chunk ::
    "('z) crates_scheme \<Rightarrow> path \<Rightarrow> hash list \<Rightarrow> 64 word \<times> 64 word \<Rightarrow> hash \<Rightarrow> (64 word \<times> 64 word) io" where
  "purge_chunk C root elsewhere st ch =
     (case st of (removed, retained) \<Rightarrow>
        if ch \<in> set elsewhere then ok (removed, retained + 1)
        else
          let obj = object_path C root ch in
          andThen (p_exists obj) (\<lambda>ex.
          if ex then andThen (p_remove_file obj) (\<lambda>_. ok (removed + 1, retained))
          else ok (removed, retained)))"

definition purge_id_of :: "('z) crates_scheme \<Rightarrow> string \<Rightarrow> hash \<Rightarrow> string" where
  "purge_id_of C rel content =
     hash_hex C (hash_bytes C (rel @ '':'' @ hash_hex C content))"

definition record_tombstone :: "('z) snap_crates_scheme \<Rightarrow> path \<Rightarrow> tombstone \<Rightarrow> unit io" where
  "record_tombstone C root tomb =
     (let tpath = tombstone_path root in
      andThen (p_create_dir_all (butlast tpath)) (\<lambda>_.
      andThen (p_open_append tpath) (\<lambda>f.
      andThen (lift (map_sum json_err id (json_tombstone C tomb))) (\<lambda>s.
      andThen (p_write_all f s) (\<lambda>_.
      p_write_all f [newline])))))"

definition remove_live :: "path \<Rightarrow> bool io" where
  "remove_live live =
     andThen (p_is_file live) (\<lambda>b.
     if b then andThen (p_remove_file live) (\<lambda>_. ok True) else ok False)"

section \<open>Certifying\<close>

definition signed_cert :: "('z) purge_crates_scheme \<Rightarrow> bytes \<Rightarrow> purge_payload \<Rightarrow> error + bytes" where
  "signed_cert C sk payload =
     (case json_purge C payload of
        Inl e \<Rightarrow> Inl (json_err e)
      | Inr s \<Rightarrow>
          map_sum json_err id (json_cert C
            \<lparr>pc_format = ''respawn-purge/v1'', pc_pubkey = hex_encode C (ed_public C sk),
             pc_payload = s, pc_sig = hex_encode C (ed_sign C sk s)\<rparr>))"

definition write_cert :: "path \<Rightarrow> 64 word \<Rightarrow> string \<Rightarrow> error + bytes \<Rightarrow> path io" where
  "write_cert root ts purge_id cert =
     (let pdir = fabric_dir root @ [PURGE_DIR];
          cert_path = pdir @ [''purge-'' @ dec (unat ts) @ ''-'' @ take 8 purge_id @ ''.json''] in
      andThen (p_create_dir_all pdir) (\<lambda>_.
      andThen (lift cert) (\<lambda>d.
      andThen (tmp_path pdir ''purge'') (\<lambda>tmp.
      andThen (p_write tmp d) (\<lambda>_.
      andThen (p_rename tmp cert_path) (\<lambda>_.
      ok cert_path))))))"

text \<open>The part of a run that the signing key is needed for.\<close>

definition certify ::
    "('z) purge_crates_scheme \<Rightarrow> path \<Rightarrow> string \<Rightarrow> hash \<Rightarrow> purge_scan \<Rightarrow> 64 word \<times> 64 word \<Rightarrow> 64 word
       \<Rightarrow> (path \<times> string option) key_io" where
  "certify C root rel content s counts ts =
     andThen (key_get C root) (\<lambda>(sk, _, note).
     andThen (on_disk (audit_tip C root)) (\<lambda>(len, tip).
     andThen (on_disk (fabric_id C root)) (\<lambda>i.
     let payload = \<lparr>pp_kind = ''respawn-purge'', pp_version = 1, pp_fabric_id = i, pp_path = rel,
           pp_content = hash_hex C content, pp_chunks_removed = fst counts,
           pp_chunks_retained_shared = snd counts, pp_manifests_touched = ps_touched s,
           pp_audit_len = len, pp_audit_tip = tip, pp_ts = ts\<rparr> in
     andThen (lift (map_sum json_err id (json_purge C payload))) (\<lambda>_.
     andThen (on_disk (write_cert root ts (purge_id_of C rel content) (signed_cert C sk payload))) (\<lambda>p.
     ok (p, note))))))"

definition purge_erase ::
    "('z) snap_crates_scheme \<Rightarrow> path \<Rightarrow> path \<Rightarrow> string \<Rightarrow> hash \<Rightarrow> purge_scan
       \<Rightarrow> ((64 word \<times> 64 word) \<times> 64 word \<times> bool) io" where
  "purge_erase C store_root live rel content s =
     andThen (foldIO (purge_chunk C store_root (ps_elsewhere s)) (0, 0) (ps_chunks s)) (\<lambda>counts.
     andThen now_secs (\<lambda>ts.
     andThen (record_tombstone C store_root
       \<lparr>t_path = rel, t_content = hash_hex C content,
        t_purge_id = take 16 (purge_id_of C rel content), t_ts = ts\<rparr>) (\<lambda>_.
     andThen (remove_live live) (\<lambda>gone.
     ok (counts, ts, gone)))))"

text \<open>Everything before the first change: the content and the scan.\<close>

definition purge_plan ::
    "('z) snap_crates_scheme \<Rightarrow> path \<Rightarrow> path \<Rightarrow> string \<Rightarrow> (hash \<times> purge_scan) io" where
  "purge_plan C store_root live rel =
     andThen (live_content C live) (\<lambda>lc.
     andThen (list_snapshots C store_root) (\<lambda>snaps.
     let s = scan_history rel lc (map snd snaps) in
     case ps_content s of
       None \<Rightarrow> fail (Corrupt (''nothing to purge: '' @ rel @ '' not in worktree or history''))
     | Some content \<Rightarrow>
         andThen (is_purged C store_root rel content) (\<lambda>dead.
         if dead then fail (Corrupt (rel @ '' is already purged'')) else ok (content, s))))"

definition purge_run ::
    "('z) purge_crates_scheme \<Rightarrow> path \<Rightarrow> path \<Rightarrow> string \<Rightarrow> purge_report key_io" where
  "purge_run C store_root root rel0 =
     andThen (lift (sanitize_rel rel0)) (\<lambda>comps.
     let rel = replace_char backslash [slash] rel0; live = root @ comps in
     andThen (on_disk (purge_plan C store_root live rel)) (\<lambda>(content, s).
     andThen (on_disk (purge_erase C store_root live rel content s)) (\<lambda>(counts, ts, gone).
     andThen (certify C store_root rel content s counts ts) (\<lambda>(cert_path, note).
     andThen (on_disk (audit_record C store_root ''purge''
       (rel @ '' removed='' @ dec (unat (fst counts)) @ '' shared='' @ dec (unat (snd counts))))) (\<lambda>_.
     ok \<lparr>pr_cert_path = cert_path, pr_chunks_removed = fst counts, pr_chunks_retained_shared = snd counts,
         pr_manifests_touched = ps_touched s, pr_live_removed = gone, pr_note = note\<rparr>)))))"

section \<open>Checking a certificate\<close>

definition checked_cert ::
    "('z) purge_crates_scheme \<Rightarrow> string option \<Rightarrow> bytes \<Rightarrow> error + purge_payload" where
  "checked_cert C pin d =
     (case read_cert C d of
        Inl e \<Rightarrow> Inl (json_err e)
      | Inr cert \<Rightarrow>
          if pc_format cert \<noteq> ''respawn-purge/v1'' then Inl (Corrupt ''unknown purge cert format'')
          else case read_purge C (pc_payload cert) of
            Inl e \<Rightarrow> Inl (json_err e)
          | Inr p \<Rightarrow>
              if pp_kind p \<noteq> ''respawn-purge'' then Inl (Corrupt ''payload kind mismatch'')
              else if pin \<noteq> None \<and> pin \<noteq> Some (pc_pubkey cert) then Inl (Corrupt ''purge cert signer mismatch'')
              else case hex_decode C (pc_pubkey cert) of
                None \<Rightarrow> Inl (Corrupt ''bad pubkey hex'')
              | Some pk \<Rightarrow>
                  if length pk \<noteq> 32 then Inl (Corrupt ''bad pubkey length'')
                  else if \<not> ed_key C pk then Inl (Corrupt ''bad pubkey'')
                  else case hex_decode C (pc_sig cert) of
                    None \<Rightarrow> Inl (Corrupt ''bad sig hex'')
                  | Some sg \<Rightarrow>
                      if length sg \<noteq> 64 then Inl (Corrupt ''bad sig length'')
                      else if \<not> ed_verify C pk (pc_payload cert) sg then
                        Inl (Corrupt ''purge cert signature invalid'')
                      else Inr p)"

definition verify_cert ::
    "('z) purge_crates_scheme \<Rightarrow> path \<Rightarrow> path \<Rightarrow> string option \<Rightarrow> string io" where
  "verify_cert C root cert_path pin =
     andThen (p_read cert_path) (\<lambda>d.
     andThen (lift (checked_cert C pin d)) (\<lambda>p.
     andThen (fabric_id C root) (\<lambda>i.
     if pp_fabric_id p \<noteq> i then fail (Corrupt ''purge cert belongs to another fabric'')
     else
       andThen (tombstones C root) (\<lambda>ts.
       if \<not> list_ex (\<lambda>t. t_path t = pp_path p \<and> t_content t = pp_content p) ts then
         fail (Corrupt (''no matching tombstone '' @ emdash @ '' purge was never recorded here''))
       else
         ok (''valid: '' @ pp_path p @ '' purged at '' @ dec (unat (pp_ts p)) @ '' ('' @ dec (unat (pp_chunks_removed p))
              @ '' chunks removed, '' @ dec (unat (pp_chunks_retained_shared p)) @ '' shared-retained)'')))))"

section \<open>The frame of a purge\<close>

text \<open>
  From \<open>w0\<close> to \<open>w\<close>, with the fabric and the live path both link-free: outside \<open>X\<close> and the
  temporary names no file has another content.
\<close>

definition purging :: "path \<Rightarrow> path \<Rightarrow> path set \<Rightarrow> world \<Rightarrow> world \<Rightarrow> bool" where
  "purging root live X w0 w \<longleftrightarrow> keeper root w \<and> sound live w \<and> same_env w0 w
     \<and> (\<forall>p. p \<notin> X \<longrightarrow> \<not> is_tmp p \<longrightarrow> file_data (entries w p) = file_data (entries w0 p))"

lemma purging_refl: "keeper root w \<Longrightarrow> sound live w \<Longrightarrow> purging root live X w w"
  by (simp add: purging_def)

lemma purging_mono: "purging root live X w0 w \<Longrightarrow> X \<subseteq> Y \<Longrightarrow> purging root live Y w0 w"
  by (auto simp: purging_def)

lemma purging_trans: "purging root live X w0 w1 \<Longrightarrow> purging root live X w1 w2 \<Longrightarrow> purging root live X w0 w2"
  by (auto simp: purging_def intro: same_env_trans)

lemma purging_keeper: "purging root live X w0 w \<Longrightarrow> keeper root w"
  by (simp add: purging_def)

lemma purging_step:
  assumes "purging root live X w0 w" "sound (fabric_dir root) w'" "evolves (fabric_dir root) Y w w'" "Y \<subseteq> X"
  shows "purging root live X w0 w'"
proof -
  have "sound live w'" using sound_elsewhere [OF _ assms(2,3)] assms(1) by (simp add: purging_def)
  moreover have "keeper root w'" using keeper_evolves [OF _ assms(2,3)] assms(1) by (simp add: purging_def)
  moreover have "file_data (entries w' p) = file_data (entries w p)" if "p \<notin> X" "\<not> is_tmp p" for p
    using evolves_data [OF assms(3)] that assms(4) by blast
  moreover have "same_env w0 w'"
    using assms(1) same_env_trans [OF _ evolves_env [OF assms(3)]] by (simp add: purging_def)
  ultimately show ?thesis using assms(1) by (simp add: purging_def)
qed

lemma purging_keepsI:
  assumes "\<And>w r w'. sound (fabric_dir root) w \<Longrightarrow> ''..'' \<notin> set root \<Longrightarrow> m w = (r, w') \<Longrightarrow>
      sound (fabric_dir root) w' \<and> (\<exists>Y \<subseteq> X. evolves (fabric_dir root) Y w w')"
  shows "keeps (purging root live X w0) m"
proof (rule keepsI)
  fix w r w'
  assume p: "purging root live X w0 w" and run: "m w = (r, w')"
  note k = keeperD [OF purging_keeper [OF p]]
  from assms [OF k(1,3) run] obtain Y where "Y \<subseteq> X" "evolves (fabric_dir root) Y w w'" "sound (fabric_dir root) w'" by blast
  with purging_step [OF p] show "purging root live X w0 w'" by blast
qed

lemma inert_purging [simp]: "inert (purging root live X w0)"
  unfolding inert_def
proof (intro allI impI conjI)
  fix w w'
  assume p: "purging root live X w0 w"
  show "quiet w" using keeperD(2) [OF purging_keeper [OF p]] by (rule calm_quiet)
  assume e: "same_env w w'" "wfs w' = wfs w"
  have "sound (fabric_dir root) w'" by (rule sound_same [OF keeperD(1) [OF purging_keeper [OF p]] e])
  then show "purging root live X w0 w'" using purging_step [OF p _ evolves_same [OF e, of _ "{}"]] by simp
qed

lemma evolves_tmp: "evolves F {p} w w' \<Longrightarrow> is_tmp p \<Longrightarrow> evolves F {} w w'"
  unfolding evolves_def node_evolves_def by auto

lemma p_rename_any:
  assumes "sound F w" "inside F p" "inside F q" "p \<noteq> q" "p_rename p q w = (r, w')"
  shows "sound F w' \<and> evolves F {p, q} w w'"
proof -
  note s = sound_facts [OF assms(1)]
  note rs = syscall_result [OF assms(5) [unfolded p_rename_def] s(1)]
  show ?thesis
  proof (cases r)
    case (Inl e)
    with rs fs_rename_clean [OF s(2) s(3) [OF assms(2)] s(3) [OF assms(3)]]
    have "same_env w w'" "wfs w' = wfs w" by fastforce+
    with assms(1) show ?thesis by (auto intro: sound_same evolves_same)
  next
    case (Inr u)
    with rs have "fs_rename (wfs w) p q = (Inr u, wfs w')" by auto
    from fs_rename_clean [OF s(2) s(3) [OF assms(2)] s(3) [OF assms(3)] this] assms(4)
    obtain nd where nd: "entries w p = Some nd" "nd \<noteq> Dir" "entries w q \<noteq> Some Dir" by (auto simp: entries_def)
    moreover have "\<not> is_link (entries w p)" using s(3) [OF assms(2)] by (simp add: clean_path_def entries_def)
    ultimately obtain d m t where f: "entries w p = Some (File d m t)" by (cases nd) auto
    have ne: "q \<noteq> []" using nd(3) by (auto simp: entries_def)
    note c = p_rename_sound [OF assms(1-4) ne f assms(5)]
    have "entries w' = (entries w)(p := None, q := Some (File d m t))" using c(4) Inr by simp
    with c(1,2) assms(2,3) show ?thesis by (auto simp: evolves_def node_evolves_def inside_def)
  qed
qed

lemma stays_frame: "stays F w w' \<Longrightarrow> sound F w' \<and> (\<exists>Y \<subseteq> X. evolves F Y w w')"
  unfolding stays_def by blast

lemma append_line_frame:
  assumes "slot F p" "sound F w" "append_line p enc w = (r, w')"
  shows "sound F w' \<and> evolves F {p} w w'"
  using append_line_result [OF assms] evolves_mono [of F "{}" w w' "{p}"]
  by (cases r) (auto simp: stays_def grown_def)

lemma purging_append:
  assumes "p \<in> X" "slot (fabric_dir root) p"
  shows "keeps (purging root live X w0) (append_line p enc)"
  using append_line_frame [OF assms(2)] assms(1) by (intro purging_keepsI) blast

lemma purging_create_dir:
  assumes "slot (fabric_dir root) p"
  shows "keeps (purging root live X w0) (p_create_dir_all (butlast p))"
  using stays_frame [OF create_dir_stays(1) [OF assms]] by (intro purging_keepsI) blast

lemma purging_fabric_id:
  assumes "hex_ok C" "fabric_id_path root \<in> X"
  shows "keeps (purging root live X w0) (fabric_id C root)"
proof (rule keepsI)
  fix w r w'
  assume p: "purging root live X w0 w" and run: "fabric_id C root w = (r, w')"
  note f = fabric_id_result [OF purging_keeper [OF p] assms(1) run]
  show "purging root live X w0 w'" using purging_step [OF p keeperD(1) [OF f(1)] f(2)] assms(2) by simp
qed

lemma purging_key_get:
  assumes "hex_ok C" "''..'' \<notin> set root" "fabric_id_path root \<in> X" "secret_path root \<in> X"
  shows "keeps (\<lambda>(w, v). purging root live X w0 w) (key_get C root)"
proof (rule keepsI)
  fix s r s'
  assume p: "(\<lambda>(w, v). purging root live X w0 w) s" and run: "key_get C root s = (r, s')"
  obtain w v w' v' where s: "s = (w, v)" "s' = (w', v')" by fastforce
  have "held root X w w" using held_refl purging_keeper p s by auto
  with keepsD [OF held_key_get [OF assms, of w] _ run] have "held root X w w'" by (simp add: s)
  with p s purging_step [of root live X w0 w w' X] keeperD(1)
  show "(\<lambda>(w, v). purging root live X w0 w) s'" by (auto simp: held_def)
qed

lemma purging_audit_record:
  assumes "audit_path root \<in> X" "''..'' \<notin> set root"
  shows "keeps (purging root live X w0) (audit_record C root ev det)"
  unfolding audit_record_eq
  by (intro keeps_intros purging_create_dir slot_audit [OF assms(2)] inert_prims [OF inert_purging]
      purging_append [OF assms(1)])

definition cert_paths :: "path \<Rightarrow> path set" where
  "cert_paths root = {p. \<exists>x. p = fabric_dir root @ [PURGE_DIR, ''purge-'' @ x]}"

lemma cert_dir:
  assumes "''..'' \<notin> set root"
  shows "slot (fabric_dir root) (fabric_dir root @ [PURGE_DIR, ''purge-'' @ x])"
    "t \<noteq> ''..'' \<Longrightarrow> inside (fabric_dir root) (fabric_dir root @ [PURGE_DIR, t])"
  using assms by (auto simp: slot_def inside_def fabric_dir_def FABRIC_DIR_def PURGE_DIR_def is_tmp_def
      dir_place_def store_dirs_def butlast_append)

lemma purging_stage_cert:
  assumes "cert_paths root \<subseteq> X" "''..'' \<notin> set root"
  shows "keeps (purging root live X w0) (p_write (fabric_dir root @ [PURGE_DIR, ''.tmp-'' @ t]) d)"
    "keeps (purging root live X w0) (p_rename (fabric_dir root @ [PURGE_DIR, ''.tmp-'' @ t]) (fabric_dir root @ [PURGE_DIR, ''purge-'' @ x]))"
proof -
  let ?F = "fabric_dir root" and ?t = "fabric_dir root @ [PURGE_DIR, ''.tmp-'' @ t]"
    and ?c = "fabric_dir root @ [PURGE_DIR, ''purge-'' @ x]"
  have i: "inside ?F ?t" "inside ?F ?c" using cert_dir(2) [OF assms(2)] by simp_all
  have tmp: "is_tmp ?t" by (simp add: is_tmp_def)
  have cX: "?c \<in> X" using assms(1) unfolding cert_paths_def by blast
  show "keeps (purging root live X w0) (p_write ?t d)"
  proof (rule purging_keepsI)
    fix w r w'
    assume "sound ?F w" "p_write ?t d w = (r, w')"
    from p_write_sound [OF this(1) i(1) this(2)] evolves_tmp [OF _ tmp]
    show "sound ?F w' \<and> (\<exists>Y\<subseteq>X. evolves ?F Y w w')" by blast
  qed
  show "keeps (purging root live X w0) (p_rename ?t ?c)"
  proof (rule purging_keepsI)
    fix w r w'
    assume "sound ?F w" "p_rename ?t ?c w = (r, w')"
    from p_rename_any [OF this(1) i _ this(2)] have "sound ?F w'" "evolves ?F {?t, ?c} w w'" by simp_all
    moreover from this(2) tmp have "evolves ?F {?c} w w'" unfolding evolves_def node_evolves_def by auto
    ultimately show "sound ?F w' \<and> (\<exists>Y\<subseteq>X. evolves ?F Y w w')" using cX by blast
  qed
qed

lemma purging_write_cert:
  assumes "cert_paths root \<subseteq> X" "''..'' \<notin> set root"
  shows "keeps (purging root live X w0) (write_cert root ts i cert)"
proof -
  let ?F = "fabric_dir root" and ?d = "fabric_dir root @ [PURGE_DIR]" and ?I = "purging root live X w0"
  let ?x = "dec (unat ts) @ ''-'' @ take 8 i @ ''.json''"
  have dir: "keeps ?I (p_create_dir_all ?d)"
    using purging_create_dir [OF cert_dir(1) [OF assms(2), of "[]"]] by (simp add: butlast_append)
  have tp: "keeps ?I (tmp_path ?d ''purge'')"
    by (rule inert_tmp_path [OF inert_purging])
  have rest: "keeps ?I (andThen (tmp_path ?d ''purge'') (\<lambda>tmp. andThen (p_write tmp d) (\<lambda>_.
      andThen (p_rename tmp (?d @ [''purge-'' @ ?x])) (\<lambda>_. ok (?d @ [''purge-'' @ ?x])))))" for d
  proof (rule keeps_andThen_value [OF tp, where Q = "\<lambda>t. \<exists>x. t = ?d @ [''.tmp-'' @ x]"])
    show "\<exists>x. t = ?d @ [''.tmp-'' @ x]" if "tmp_path ?d ''purge'' w = (Inr t, w')" for w t w'
      using that by (auto simp: tmp_path_def tmp_name_def)
    fix t
    assume "\<exists>x. t = ?d @ [''.tmp-'' @ x]"
    then obtain x where "t = ?F @ [PURGE_DIR, ''.tmp-'' @ x]" by auto
    with purging_stage_cert [OF assms, of live w0 x] show
      "keeps ?I (andThen (p_write t d) (\<lambda>_. andThen (p_rename t (?d @ [''purge-'' @ ?x])) (\<lambda>_. ok (?d @ [''purge-'' @ ?x]))))"
      by (auto intro!: keeps_intros)
  qed
  show ?thesis
    unfolding write_cert_def Let_def by (rule keeps_andThen [OF dir keeps_andThen [OF keeps_pure(3) rest]])
qed

section \<open>What is erased\<close>

lemma purging_chunk:
  assumes "hex_ok C" "ch \<in> set elsewhere \<or> object_path C root ch \<in> X"
  shows "keeps (purging root live X w0) (purge_chunk C root elsewhere st ch)"
proof (rule keepsI)
  fix w r w'
  let ?o = "object_path C root ch"
  assume p: "purging root live X w0 w" and run: "purge_chunk C root elsewhere st ch w = (r, w')"
  have dd: "''..'' \<notin> set root" by (rule keeperD(3) [OF purging_keeper [OF p]])
  note sl = slot_facts(1) [OF slot_object(1) [OF assms(1) dd, of ch]]
  have rm: "keeps (purging root live X w0) (p_remove_file ?o)" if "?o \<in> X"
  proof (rule purging_keepsI)
    fix w r w'
    assume "sound (fabric_dir root) w" "p_remove_file ?o w = (r, w')"
    with p_remove_file_sound(1,2) [OF this(1) sl this(2)] that
    show "sound (fabric_dir root) w' \<and> (\<exists>Y\<subseteq>X. evolves (fabric_dir root) Y w w')" by blast
  qed
  have "keeps (purging root live X w0) (purge_chunk C root elsewhere st ch)"
    using assms(2) rm unfolding purge_chunk_def Let_def
    by (cases st) (auto intro!: keeps_intros inert_prims inert_purging)
  from keepsD [OF this p run] show "purging root live X w0 w'" .
qed

text \<open>A chunk that was dealt with is gone or shared, and stays so.\<close>

definition erased :: "('z) crates_scheme \<Rightarrow> path \<Rightarrow> hash list \<Rightarrow> hash list \<Rightarrow> world \<Rightarrow> bool" where
  "erased C root elsewhere chunks w \<longleftrightarrow>
     (\<forall>ch \<in> set chunks. ch \<notin> set elsewhere \<longrightarrow> file_data (entries w (object_path C root ch)) = None)"

lemma purge_chunk_erases:
  assumes "hex_ok C" "keeper root w" "purge_chunk C root elsewhere st ch w = (Inr st', w')"
  shows "erased C root elsewhere [ch] w'" "erased C root elsewhere done w \<Longrightarrow> erased C root elsewhere done w'"
proof -
  let ?o = "object_path C root ch"
  note k = keeperD [OF assms(2)]
  note sl = slot_facts(1) [OF slot_object(1) [OF assms(1) k(3), of ch]]
  have "erased C root elsewhere [ch] w' \<and> (erased C root elsewhere done w \<longrightarrow> erased C root elsewhere done w')"
  proof (cases "ch \<in> set elsewhere")
    case True
    with assms(3) show ?thesis by (cases st) (auto simp: purge_chunk_def comp_eval erased_def)
  next
    case False
    obtain b w1 where q: "p_exists ?o w = (Inr b, w1)"
      using query_sound(4) [OF k(1)] by (metis p_exists_def prod.exhaust_sel)
    note qs = query_sound [OF k(1) q [unfolded p_exists_def]]
    have b: "b \<longleftrightarrow> entries w ?o \<noteq> None"
      using qs(4) k(2) fs_exists_clean(1) [OF sound_facts(2,3) [OF k(1)], OF sl] by (auto simp: entries_def)
    have e1: "entries w1 = entries w" using qs(3) by (simp add: entries_def)
    show ?thesis
    proof (cases b)
      case True
      with False q assms(3) obtain u where "p_remove_file ?o w1 = (Inr u, w')"
        by (cases st) (auto simp: purge_chunk_def Let_def comp_eval andThen_Inr)
      note r = p_remove_file_sound(3,4) [OF qs(1) sl this]
      have "file_data (entries w' p) = None" if "file_data (entries w p) = None" for p
        using r(1) [OF refl] r(2) [of p] that e1 by (cases "p = ?o") auto
      with r(1) [OF refl] show ?thesis by (auto simp: erased_def)
    next
      case nb: False
      with False q assms(3) have "w' = w1" by (cases st) (auto simp: purge_chunk_def Let_def comp_eval)
      with nb b e1 show ?thesis by (auto simp: erased_def)
    qed
  qed
  then show "erased C root elsewhere [ch] w'" "erased C root elsewhere done w \<Longrightarrow> erased C root elsewhere done w'" by auto
qed

lemma purge_chunks_erase:
  assumes "hex_ok C" "keeper root w" "sound live w"
    and "foldIO (purge_chunk C root elsewhere) st chunks w = (Inr st', w')"
    and "\<And>ch. ch \<in> set chunks \<Longrightarrow> ch \<in> set elsewhere \<or> object_path C root ch \<in> X"
  shows "erased C root elsewhere chunks w'"
proof -
  let ?P = "\<lambda>w. purging root live X w w"
  have "triple (\<lambda>x. purging root live X w x \<and> erased C root elsewhere [] x)
      (foldIO (purge_chunk C root elsewhere) st chunks)
      (\<lambda>_ x. purging root live X w x \<and> erased C root elsewhere chunks x) (\<lambda>_ _. True)"
  proof (rule triple_foldIO [where I = "\<lambda>pre _ x. purging root live X w x \<and> erased C root elsewhere pre x"])
    fix pre x rest s
    assume ch: "chunks = pre @ x # rest"
    show "triple (\<lambda>y. purging root live X w y \<and> erased C root elsewhere pre y)
        (purge_chunk C root elsewhere s x)
        (\<lambda>_ y. purging root live X w y \<and> erased C root elsewhere (pre @ [x]) y) (\<lambda>_ _. True)"
    proof (rule tripleI)
      fix y r y'
      assume y: "purging root live X w y \<and> erased C root elsewhere pre y"
        and run: "purge_chunk C root elsewhere s x y = (Inr r, y')"
      have "purging root live X w y'"
        by (rule keepsD [OF purging_chunk [OF assms(1)] _ run]) (use assms(5) [of x] ch y in auto)
      moreover note purge_chunk_erases [OF assms(1) purging_keeper run, of live X w]
      ultimately show "purging root live X w y' \<and> erased C root elsewhere (pre @ [x]) y'"
        using y by (auto simp: erased_def)
    qed simp
  qed
  from triple_Inr [OF this _ assms(4)] purging_refl [OF assms(2,3)] show ?thesis by (auto simp: erased_def)
qed

section \<open>Reading the history\<close>

lemma inert_list_chain: "inert I \<Longrightarrow> keeps I (list_chain C root seen out cur)"
proof (induction C root seen out cur rule: list_chain.induct)
  case (2 C root seen out id0)
  have "keeps I (andThen (load C root id0) (\<lambda>m. list_chain C root (id0 # seen) (out @ [(id0, m)]) (parent_of m)))"
    if "id0 \<notin> set seen"
    by (rule keeps_andThen_value [where Q = "\<lambda>m. \<exists>w w1. load C root id0 w = (Inr m, w1)", OF inert_load [OF 2(2)]])
      (use 2 that in blast)+
  then show ?case by (simp add: keeps_pure)
qed (simp add: keeps_pure)

lemma inert_names: "inert I \<Longrightarrow> (\<And>st f. keeps I (g st f)) \<Longrightarrow> keeps I (for_manifest_names root g st)"
  unfolding for_manifest_names_def Let_def by (intro keeps_intros inert_prims | assumption)+

lemma inert_list_snapshots: "inert I \<Longrightarrow> keeps I (list_snapshots C root)"
  unfolding list_snapshots_def list_orphan_def
  by (intro keeps_intros inert_store_reads inert_list_chain inert_names inert_load | assumption)+

lemma inert_plan: "inert I \<Longrightarrow> keeps I (purge_plan C root live rel)"
  unfolding purge_plan_def live_content_def is_purged_def tombstones_def Let_def
  by (intro keeps_intros inert_prims inert_list_snapshots | assumption)+

text \<open>The chunks of the path, and those of every other path, in a list of manifests.\<close>

definition chunks_at :: "string \<Rightarrow> manifest list \<Rightarrow> hash set" where
  "chunks_at rel ms = {ch. \<exists>m \<in> set ms. \<exists>fe \<in> set (m_files m). fe_path fe = rel \<and> ch \<in> set (fe_chunks fe)}"

definition chunks_beside :: "string \<Rightarrow> manifest list \<Rightarrow> hash set" where
  "chunks_beside rel ms = {ch. \<exists>m \<in> set ms. \<exists>fe \<in> set (m_files m). fe_path fe \<noteq> rel \<and> ch \<in> set (fe_chunks fe)}"

lemma set_fold_insert: "set (fold List.insert xs ys) = set xs \<union> set ys"
  by (induction xs arbitrary: ys) auto

lemma scan_file_sets:
  "set (ps_chunks (snd (foldl (scan_file rel) (h, s) fs)))
     = set (ps_chunks s) \<union> {ch. \<exists>fe \<in> set fs. fe_path fe = rel \<and> ch \<in> set (fe_chunks fe)}
   \<and> set (ps_elsewhere (snd (foldl (scan_file rel) (h, s) fs)))
     = set (ps_elsewhere s) \<union> {ch. \<exists>fe \<in> set fs. fe_path fe \<noteq> rel \<and> ch \<in> set (fe_chunks fe)}"
proof (induction fs arbitrary: h s)
  case (Cons fe fs)
  obtain h' s' where s': "scan_file rel (h, s) fe = (h', s')" by fastforce
  then have "set (ps_chunks s') = set (ps_chunks s) \<union> (if fe_path fe = rel then set (fe_chunks fe) else {})"
    "set (ps_elsewhere s') = set (ps_elsewhere s) \<union> (if fe_path fe = rel then {} else set (fe_chunks fe))"
    by (auto simp: scan_file_def set_fold_insert split: if_splits)
  with s' Cons [of h' s'] show ?case by auto
qed auto

lemma scan_manifest_sets:
  "set (ps_chunks (scan_manifest rel s m))
     = set (ps_chunks s) \<union> {ch. \<exists>fe \<in> set (m_files m). fe_path fe = rel \<and> ch \<in> set (fe_chunks fe)}"
  "set (ps_elsewhere (scan_manifest rel s m))
     = set (ps_elsewhere s) \<union> {ch. \<exists>fe \<in> set (m_files m). fe_path fe \<noteq> rel \<and> ch \<in> set (fe_chunks fe)}"
  using scan_file_sets [of rel False s "m_files m"]
  by (cases "foldl (scan_file rel) (False, s) (m_files m)"; simp add: scan_manifest_def)+

lemma scan_history_sets:
  "set (ps_chunks (scan_history rel lc ms)) = chunks_at rel ms"
  "set (ps_elsewhere (scan_history rel lc ms)) = chunks_beside rel ms"
proof -
  have "set (ps_chunks (foldl (scan_manifest rel) s ms)) = set (ps_chunks s) \<union> chunks_at rel ms
      \<and> set (ps_elsewhere (foldl (scan_manifest rel) s ms)) = set (ps_elsewhere s) \<union> chunks_beside rel ms" for s
    by (induction ms arbitrary: s) (auto simp: scan_manifest_sets chunks_at_def chunks_beside_def)
  then show "set (ps_chunks (scan_history rel lc ms)) = chunks_at rel ms"
    "set (ps_elsewhere (scan_history rel lc ms)) = chunks_beside rel ms"
    by (simp_all add: scan_history_def)
qed

lemma scan_history_live: "ps_content (scan_history rel (Some c) ms) = Some c"
proof -
  have f: "ps_content s = Some c \<Longrightarrow> ps_content (snd (foldl (scan_file rel) (h, s) fs)) = Some c" for h s fs
  proof (induction fs arbitrary: h s)
    case (Cons fe fs)
    obtain h' s' where s': "scan_file rel (h, s) fe = (h', s')" by fastforce
    then have "ps_content s' = Some c" using Cons(2) by (auto simp: scan_file_def split: if_splits)
    with s' Cons(1) [of s' h'] show ?case by simp
  qed simp
  have m: "ps_content s = Some c \<Longrightarrow> ps_content (scan_manifest rel s m) = Some c" for s m
    using f [of s False "m_files m"] by (auto simp: scan_manifest_def split: prod.splits)
  have "ps_content s = Some c \<Longrightarrow> ps_content (foldl (scan_manifest rel) s ms) = Some c" for s
    by (induction ms arbitrary: s) (simp_all add: m)
  then show ?thesis by (simp add: scan_history_def)
qed

section \<open>One run\<close>

lemma record_tombstone_eq:
  "record_tombstone C root t = andThen (p_create_dir_all (butlast (tombstone_path root))) (\<lambda>_.
     append_line (tombstone_path root) (map_sum json_err id (json_tombstone C t)))"
  by (simp add: record_tombstone_def append_line_def Let_def)

lemma tomb_slot: "''..'' \<notin> set root \<Longrightarrow> slot (fabric_dir root) (tombstone_path root)"
  by (auto simp: tombstone_path_def TOMBSTONE_FILE_def intro!: slot_fabric_file)

lemma purging_tombstone:
  "''..'' \<notin> set root \<Longrightarrow> tombstone_path root \<in> X \<Longrightarrow> keeps (purging root live X w0) (record_tombstone C root t)"
  unfolding record_tombstone_eq by (intro keeps_intros purging_create_dir purging_append tomb_slot)

lemma record_tombstone_appends:
  assumes "keeper root w" "record_tombstone C root t w = (Inr u, w')"
  shows "\<exists>s. json_tombstone C t = Inr s
    \<and> file_data (entries w' (tombstone_path root)) = Some (data_at w (tombstone_path root) @ s @ [newline])"
proof -
  note k = keeperD [OF assms(1)]
  from assms(2) obtain w1 where c: "p_create_dir_all (butlast (tombstone_path root)) w = (Inr (), w1)"
    and a: "append_line (tombstone_path root) (map_sum json_err id (json_tombstone C t)) w1 = (Inr u, w')"
    by (auto simp: record_tombstone_eq andThen_Inr)
  note cd = create_dir_stays [OF tomb_slot [OF k(3)] k(1) c]
  have "sound (fabric_dir root) w1" using cd(1) by (simp add: stays_def)
  from append_line_result [OF tomb_slot [OF k(3)] this a] cd(2) show ?thesis
    by (cases "json_tombstone C t") (auto simp: grown_def data_at_def)
qed

lemma purging_live:
  assumes "live \<in> X" "''..'' \<notin> set live"
  shows "keeps (purging root live X w0) (remove_live live)"
proof -
  have "keeps (purging root live X w0) (p_remove_file live)"
  proof (rule keepsI)
    fix w r w'
    assume p: "purging root live X w0 w" and run: "p_remove_file live w = (r, w')"
    have sl: "sound live w" using p by (simp add: purging_def)
    note f = p_remove_file_sound [OF sl _ run] 
    have i: "inside live live" using assms(2) by (simp add: inside_def)
    have "sound (fabric_dir root) w'" by (rule sound_elsewhere [OF keeperD(1) [OF purging_keeper [OF p]] f(1,2) [OF i]])
    moreover have "calm w'" using keeperD(2) [OF purging_keeper [OF p]] evolves_calm [OF f(2) [OF i]] by simp
    moreover have "same_env w0 w'" using p same_env_trans evolves_env [OF f(2) [OF i]] unfolding purging_def by blast
    moreover have "file_data (entries w' q) = file_data (entries w0 q)" if "q \<notin> X" "\<not> is_tmp q" for q
    proof -
      have "q \<noteq> live" using that assms(1) by auto
      with f(4) [OF i] p that show ?thesis by (simp add: purging_def)
    qed
    ultimately show "purging root live X w0 w'"
      using p f(1) [OF i] by (simp add: purging_def keeper_def)
  qed
  then show ?thesis unfolding remove_live_def by (intro keeps_intros inert_prims inert_purging)
qed

lemma remove_live_gone:
  assumes "sound live w" "calm w" "''..'' \<notin> set live" "remove_live live w = (Inr b, w')"
  shows "file_data (entries w' live) = None"
proof -
  have i: "inside live live" using assms(3) by (simp add: inside_def)
  obtain c w1 where q: "p_is_file live w = (Inr c, w1)"
    using query_sound(4) [OF assms(1)] by (metis p_is_file_def prod.exhaust_sel)
  note qs = query_sound [OF assms(1) q [unfolded p_is_file_def]]
  have c: "c \<longleftrightarrow> is_file_node (entries w live)"
    using qs(4) assms(2) fs_exists_clean(3) [OF sound_facts(2,3) [OF assms(1)], OF i] by (auto simp: entries_def)
  show ?thesis
  proof (cases c)
    case True
    with q assms(4) obtain u where "p_remove_file live w1 = (Inr u, w')" by (auto simp: remove_live_def andThen_Inr comp_eval)
    from p_remove_file_sound(3) [OF qs(1) i this] show ?thesis by auto
  next
    case False
    with q assms(4) have "w' = w1" by (auto simp: remove_live_def comp_eval)
    with False c qs(3) show ?thesis by (auto simp: entries_def is_file_node_iff file_data_Some intro: option.exhaust)
  qed
qed

text \<open>What the run may write once it has begun, with the chunks \<open>dead\<close> to erase.\<close>

definition purge_files :: "('z) crates_scheme \<Rightarrow> path \<Rightarrow> path \<Rightarrow> hash set \<Rightarrow> path set" where
  "purge_files C root live dead = object_path C root ` dead
     \<union> {live, tombstone_path root, audit_path root, fabric_id_path root, secret_path root} \<union> cert_paths root"

lemma erase_result:
  assumes "hex_ok C" "purging root live X w w" "''..'' \<notin> set live"
    and "X = purge_files C root live (set (ps_chunks s) - set (ps_elsewhere s))"
    and "purge_erase C root live rel content s w = (r, w')"
  shows "purging root live X w w'"
    and "r = Inr x \<Longrightarrow> \<not> prefix (fabric_dir root) live \<Longrightarrow> erased C root (ps_elsewhere s) (ps_chunks s) w'
      \<and> file_data (entries w' live) = None
      \<and> (\<exists>t j. json_tombstone C t = Inr j \<and> t_path t = rel \<and> t_content t = hash_hex C content
          \<and> t_purge_id t = take 16 (purge_id_of C rel content)
          \<and> file_data (entries w' (tombstone_path root)) = Some (data_at w (tombstone_path root) @ j @ [newline]))"
proof -
  have k: "keeper root w" by (rule purging_keeper [OF assms(2)])
  have dd: "''..'' \<notin> set root" by (rule keeperD(3) [OF k])
  have inX: "tombstone_path root \<in> X" "live \<in> X" by (simp_all add: assms(4) purge_files_def)
  have ch: "keeps (purging root live X w) (foldIO (purge_chunk C root (ps_elsewhere s)) st (ps_chunks s))" for st
  proof (rule keeps_foldIO)
    show "keeps (purging root live X w) (purge_chunk C root (ps_elsewhere s) st ch)" if "ch \<in> set (ps_chunks s)" for st ch
      using that by (intro purging_chunk [OF assms(1)]) (auto simp: assms(4) purge_files_def)
  qed
  have "keeps (purging root live X w) (purge_erase C root live rel content s)"
    unfolding purge_erase_def
    by (intro keeps_andThen ch purging_tombstone [OF dd inX(1)] purging_live [OF inX(2) assms(3)] inert_prims
        inert_purging keeps_pure)
  from keepsD [OF this assms(2,5)] show p: "purging root live X w w'" .
  assume r: "r = Inr x" and np: "\<not> prefix (fabric_dir root) live"
  from assms(5) r obtain counts w1 ts w2 t u w3 g where
    run: "foldIO (purge_chunk C root (ps_elsewhere s)) (0, 0) (ps_chunks s) w = (Inr counts, w1)"
    "now_secs w1 = (Inr ts, w2)" "record_tombstone C root t w2 = (Inr u, w3)" "remove_live live w3 = (Inr g, w')"
    and t: "t_path t = rel" "t_content t = hash_hex C content" "t_purge_id t = take 16 (purge_id_of C rel content)"
    by (auto simp: purge_erase_def andThen_Inr comp_eval)
  have p1: "purging root live X w w1" by (rule keepsD [OF ch assms(2) run(1)])
  have er: "erased C root (ps_elsewhere s) (ps_chunks s) w1"
    by (rule purge_chunks_erase [OF assms(1) k _ run(1), of live X])
      (use assms(2) in \<open>auto simp: purging_def assms(4) purge_files_def\<close>)
  have p2: "purging root live {tombstone_path root, live} w1 w2" and e2: "entries w2 = entries w1"
  proof -
    have "keeps (purging root live {tombstone_path root, live} w1) now_secs" by (intro inert_prims inert_purging)
    from keepsD [OF this _ run(2)] p1 purging_refl show "purging root live {tombstone_path root, live} w1 w2"
      by (simp add: purging_def)
    show "entries w2 = entries w1"
      using now_secs_result [OF run(2)] keeperD(1) [OF purging_keeper [OF p1]] by (simp add: entries_def sound_quiet)
  qed
  have p3: "purging root live {tombstone_path root, live} w1 w3"
    by (rule keepsD [OF purging_tombstone [OF dd] p2 run(3)]) simp
  have p4: "purging root live {tombstone_path root, live} w1 w'"
    by (rule keepsD [OF purging_live [OF _ assms(3)] p3 run(4)]) simp
  have k3: "keeper root w3" "sound live w3" using p3 by (simp_all add: purging_def)
  have ob: "object_path C root c \<noteq> tombstone_path root" "object_path C root c \<noteq> live" "\<not> is_tmp (object_path C root c)" for c
    using np slot_facts(3) [OF slot_object(1) [OF assms(1) dd, of c]]
    by (auto simp: object_path_def tombstone_path_def Let_def)
  have "erased C root (ps_elsewhere s) (ps_chunks s) w'"
    using er p4 ob by (auto simp: erased_def purging_def)
  moreover have "file_data (entries w' live) = None"
    by (rule remove_live_gone [OF k3(2) keeperD(2) [OF k3(1)] assms(3) run(4)])
  moreover have "\<exists>j. json_tombstone C t = Inr j
      \<and> file_data (entries w' (tombstone_path root)) = Some (data_at w (tombstone_path root) @ j @ [newline])"
  proof -
    have tl: "tombstone_path root \<noteq> live" using np by (auto simp: tombstone_path_def)
    have nt: "\<not> is_tmp (tombstone_path root)" by (rule slot_facts(3) [OF tomb_slot [OF dd]])
    have "tombstone_path root \<notin> object_path C root ` A" for A using ob(1) by (metis imageE)
    have "purging root live {live} w3 w'"
      by (rule keepsD [OF purging_live [OF _ assms(3)] purging_refl [OF k3] run(4)]) simp
    then have e4: "file_data (entries w' (tombstone_path root)) = file_data (entries w3 (tombstone_path root))"
      using tl nt by (simp add: purging_def)
    have "keeps (purging root live (object_path C root ` (set (ps_chunks s) - set (ps_elsewhere s))) w)
        (foldIO (purge_chunk C root (ps_elsewhere s)) (0, 0) (ps_chunks s))"
      by (rule keeps_foldIO, rule purging_chunk [OF assms(1)]) blast
    from keepsD [OF this _ run(1)] assms(2) purging_refl [OF k]
    have "purging root live (object_path C root ` (set (ps_chunks s) - set (ps_elsewhere s))) w w1" by (simp add: purging_def)
    with nt ob(1) have "file_data (entries w1 (tombstone_path root)) = file_data (entries w (tombstone_path root))"
      by (auto simp: purging_def) (metis imageE)
    then have "data_at w2 (tombstone_path root) = data_at w (tombstone_path root)" by (simp add: data_at_def e2)
    with record_tombstone_appends [OF purging_keeper [OF p2] run(3)] e4 show ?thesis by auto
  qed
  ultimately show "erased C root (ps_elsewhere s) (ps_chunks s) w' \<and> file_data (entries w' live) = None
      \<and> (\<exists>t j. json_tombstone C t = Inr j \<and> t_path t = rel \<and> t_content t = hash_hex C content
          \<and> t_purge_id t = take 16 (purge_id_of C rel content)
          \<and> file_data (entries w' (tombstone_path root)) = Some (data_at w (tombstone_path root) @ j @ [newline]))"
    using t by blast
qed

lemma live_content_calm:
  assumes "sound live w" "calm w" "''..'' \<notin> set live" "file_data (entries w live) = Some d"
    and "live_content C live w = (Inr c, w')"
  shows "c = Some (hash_bytes C d)"
proof -
  have i: "inside live live" using assms(3) by (simp add: inside_def)
  obtain b w1 where q: "p_is_file live w = (Inr b, w1)"
    using query_sound(4) [OF assms(1)] by (metis p_is_file_def prod.exhaust_sel)
  note qs = query_sound [OF assms(1) q [unfolded p_is_file_def]]
  have "fs_is_file (wfs w) live"
    using fs_exists_clean(3) [OF sound_facts(2,3) [OF assms(1)], OF i] assms(4)
    by (auto simp: entries_def is_file_node_iff file_data_Some)
  with qs(4) assms(2) have b: "b" by auto
  have c1: "calm w1" using qs(2) [of "{}"] evolves_calm assms(2) by blast
  obtain r w2 where rd: "p_read live w1 = (r, w2)" by fastforce
  from p_read_sound(5) [OF qs(1) i rd c1] assms(4) qs(3) have "r = Inr d" by (simp add: entries_def)
  with q b rd assms(5) show ?thesis by (auto simp: live_content_def comp_eval hash_reader_eq)
qed

text \<open>What a plan that was made says.\<close>

lemma plan_result:
  assumes "purge_plan C root live rel w = (Inr (content, s), w')" "keeper root w" "sound live w" "''..'' \<notin> set live"
  shows "\<exists>snaps lc wx wy. list_snapshots C root wx = (Inr snaps, wy) \<and> wfs wx = wfs w
    \<and> s = scan_history rel lc (map snd snaps)
    \<and> (\<forall>d. file_data (entries w live) = Some d \<longrightarrow> content = hash_bytes C d)"
proof -
  from assms(1) obtain lc w1 snaps w2 where run: "live_content C live w = (Inr lc, w1)"
    "list_snapshots C root w1 = (Inr snaps, w2)" and s: "s = scan_history rel lc (map snd snaps)" "ps_content s = Some content"
    by (auto simp: purge_plan_def Let_def andThen_Inr comp_eval split: option.splits if_splits)
  have "keeps (still w) (live_content C live)"
    unfolding live_content_def by (intro keeps_intros inert_prims inert_still)
  from still_run(2) [OF this assms(2) run(1)] have "wfs w1 = wfs w" .
  moreover have "content = hash_bytes C d" if "file_data (entries w live) = Some d" for d
    using live_content_calm [OF assms(3) keeperD(2) [OF assms(2)] assms(4) that run(1)] s scan_history_live by simp
  ultimately show ?thesis using run(2) s(1) by blast
qed

text \<open>The rest of a run, after the erasure.\<close>

lemma purge_run_split:
  assumes "sanitize_rel rel = Inr comps" "replace_char backslash [slash] rel = rel"
    and "purge_plan C root (root @ comps) rel w = (Inr (content, s), w1)"
    and "purge_erase C root (root @ comps) rel content s w1 = (er, w2)"
  shows "purge_run C root root rel (w, v) =
    (case er of Inl e \<Rightarrow> (Inl e, w2, v)
     | Inr (counts, ts, gone) \<Rightarrow>
         andThen (certify C root rel content s counts ts) (\<lambda>(cert_path, msg).
         andThen (on_disk (audit_record C root ''purge''
           (rel @ '' removed='' @ dec (unat (fst counts)) @ '' shared='' @ dec (unat (snd counts))))) (\<lambda>_.
         ok \<lparr>pr_cert_path = cert_path, pr_chunks_removed = fst counts, pr_chunks_retained_shared = snd counts,
             pr_manifests_touched = ps_touched s, pr_live_removed = gone, pr_note = msg\<rparr>)) (w2, v))"
  using assms by (cases er) (auto simp: purge_run_def Let_def comp_eval on_disk_eval(1,2) split: prod.splits)

lemma tail_kept:
  assumes "hex_ok C" "sanitize_rel rel = Inr comps" "keeper root w2" "sound (root @ comps) w2"
    and "purge_plan C root (root @ comps) rel w = (Inr (content, s), w1)"
    and "purge_erase C root (root @ comps) rel content s w1 = (er, w2)"
    and "purge_run C root root rel (w, v) = (r, w', v')" "replace_char backslash [slash] rel = rel"
  shows "purging root (root @ comps) ({audit_path root, fabric_id_path root, secret_path root} \<union> cert_paths root) w2 w'
    \<or> w' = w2 \<and> (\<exists>e. r = Inl e)"
proof (cases er)
  case (Inl e)
  with purge_run_split [OF assms(2,8,5,6), of v] assms(7) show ?thesis by simp
next
  case (Inr x)
  let ?Y = "{audit_path root, fabric_id_path root, secret_path root} \<union> cert_paths root" and ?live = "root @ comps"
  have dd: "''..'' \<notin> set root" by (rule keeperD(3) [OF assms(3)])
  obtain counts ts gone where x: "x = (counts, ts, gone)" by (metis prod.exhaust)
  have at: "keeps (purging root ?live ?Y w2) (audit_tip C root)"
    unfolding audit_tip_def Let_def by (intro keeps_intros inert_prims inert_purging)
  have c: "keeps (\<lambda>(w, v). purging root ?live ?Y w2 w) (certify C root rel content s counts ts)"
    unfolding certify_def Let_def
    by (intro keeps_intros at purging_key_get [OF assms(1) dd] purging_fabric_id [OF assms(1)]
        purging_write_cert [OF _ dd]) auto
  have a: "keeps (purging root ?live ?Y w2) (audit_record C root ''purge'' det)" for det
    by (rule purging_audit_record [OF _ dd]) simp
  note run = purge_run_split [OF assms(2,8,5,6), of v, unfolded assms(7) Inr x sum.case prod.case, symmetric]
  have "(\<lambda>(w, v). purging root ?live ?Y w2 w) (w', v')"
  proof (rule keepsD [OF keeps_andThen [OF c] _ run])
    show "case (w2, v) of (w, v) \<Rightarrow> purging root ?live ?Y w2 w" using purging_refl [OF assms(3,4)] by simp
  qed (simp only: split_beta, intro keeps_intros a)
  then show ?thesis by simp
qed

lemma tail_reached:
  assumes "sanitize_rel rel = Inr comps" "purge_run C root root rel (w, v) = (r, w', v')"
    and "purge_plan C root (root @ comps) rel w = (Inr (content, s), w1)"
    and "purge_erase C root (root @ comps) rel content s w1 = (er, w2)" "r = Inr rep"
    and "replace_char backslash [slash] rel = rel"
  shows "\<exists>x. er = Inr x"
  using purge_run_split [OF assms(1,6,3,4), of v] assms(2,5) by (cases er) auto

text \<open>C31: What a purge erases and what it spares. Either it refuses and no file has changed, or, with
  the history as listed, the only files written or removed are the objects that entries of the
  path list and no entry of another path does, the live file, the tombstones, the audit log, the
  certificate and the key's files; and when it succeeds, all those objects and the live file are
  gone and a tombstone with the path and the hash of the live content ends the list.\<close>

theorem purge_exact:
  assumes "hex_ok C" "keeper root w" "sanitize_rel rel = Inr comps" "sound (root @ comps) w"
    and "\<not> prefix (fabric_dir root) (root @ comps)" "\<not> is_tmp (root @ comps)" "purge_run C root root rel (w, v) = (r, w', v')"
  shows "(\<exists>e. r = Inl e) \<and> (\<forall>p. \<not> is_tmp p \<longrightarrow> file_data (entries w' p) = file_data (entries w p))
    \<or> (\<exists>snaps wx wy dead. list_snapshots C root wx = (Inr snaps, wy) \<and> wfs wx = wfs w
        \<and> dead = chunks_at rel (map snd snaps) - chunks_beside rel (map snd snaps)
        \<and> (\<forall>p. \<not> is_tmp p \<longrightarrow> p \<notin> purge_files C root (root @ comps) dead \<longrightarrow>
              file_data (entries w' p) = file_data (entries w p))
        \<and> (\<forall>rep. r = Inr rep \<longrightarrow>
              (\<forall>ch \<in> dead. file_data (entries w' (object_path C root ch)) = None)
            \<and> file_data (entries w' (root @ comps)) = None
            \<and> (\<exists>t j. json_tombstone C t = Inr j \<and> t_path t = rel
                 \<and> (\<forall>d. file_data (entries w (root @ comps)) = Some d \<longrightarrow> t_content t = hash_hex C (hash_bytes C d))
                 \<and> file_data (entries w' (tombstone_path root)) = Some (data_at w (tombstone_path root) @ j @ [newline]))))"
proof -
  let ?live = "root @ comps"
  have dd: "''..'' \<notin> set root" "''..'' \<notin> set ?live"
    using keeperD(3) [OF assms(2)] sanitize_rel_no_dotdot [OF assms(3)] by simp_all
  have rel: "replace_char backslash [slash] rel = rel"
    using assms(3) by (intro replace_char_notin) (auto simp: sanitize_rel_def split: if_splits)
  obtain pl w1 where plan: "purge_plan C root ?live rel w = (pl, w1)" by fastforce
  note k1 = still_run [OF inert_plan [OF inert_still] assms(2) plan]
  have e1: "entries w1 = entries w" using k1(2) by (simp add: entries_def)
  show ?thesis
  proof (cases pl)
    case (Inl e)
    with assms(3,7) plan rel have "r = Inl e" "w' = w1"
      by (auto simp: purge_run_def Let_def comp_eval on_disk_eval(2))
    with e1 show ?thesis by simp
  next
    case (Inr cs)
    obtain content s where cs: "cs = (content, s)" by fastforce
    from plan_result [OF plan [unfolded Inr cs] assms(2,4) dd(2)] obtain snaps lc wx wy where
      ls: "list_snapshots C root wx = (Inr snaps, wy)" "wfs wx = wfs w" "s = scan_history rel lc (map snd snaps)"
      and ct: "\<forall>d. file_data (entries w ?live) = Some d \<longrightarrow> content = hash_bytes C d" by blast
    let ?dead = "chunks_at rel (map snd snaps) - chunks_beside rel (map snd snaps)"
    let ?X = "purge_files C root ?live ?dead" and ?l = "{audit_path root, fabric_id_path root, secret_path root} \<union> cert_paths root"
    have sets: "set (ps_chunks s) - set (ps_elsewhere s) = ?dead" by (simp add: ls(3) scan_history_sets)
    have sl: "sound ?live w1"
      using assms(4) keeperD(2) [OF k1(1)] k1(2) by (simp add: sound_def calm_quiet)
    have p1: "purging root ?live ?X w1 w1" by (rule purging_refl [OF k1(1) sl])
    obtain er w2 where erase: "purge_erase C root ?live rel content s w1 = (er, w2)" by fastforce
    have "?X = purge_files C root ?live (set (ps_chunks s) - set (ps_elsewhere s))" by (simp add: sets)
    note E = erase_result [OF assms(1) p1 dd(2) this erase]
    have k2: "keeper root w2" "sound ?live w2" using E(1) by (simp_all add: purging_def)
    have same: "file_data (entries w2 p) = file_data (entries w p)" if "\<not> is_tmp p" "p \<notin> ?X" for p
      using E(1) that e1 by (simp add: purging_def)
    have last: "purging root ?live ?l w2 w' \<or> w' = w2 \<and> (\<exists>e. r = Inl e)"
      by (rule tail_kept [OF assms(1,3) k2 plan [unfolded Inr cs] erase assms(7) rel])
    have fin: "file_data (entries w' p) = file_data (entries w2 p)" if "\<not> is_tmp p" "p \<notin> ?l" for p
      using last that by (auto simp: purging_def)
    have spared: "file_data (entries w' p) = file_data (entries w p)" if "\<not> is_tmp p" "p \<notin> ?X" for p
      using same [OF that] fin [OF that(1)] that(2) by (simp add: purge_files_def)
    have "(\<forall>ch \<in> ?dead. file_data (entries w' (object_path C root ch)) = None) \<and> file_data (entries w' ?live) = None
        \<and> (\<exists>t j. json_tombstone C t = Inr j \<and> t_path t = rel
             \<and> (\<forall>d. file_data (entries w ?live) = Some d \<longrightarrow> t_content t = hash_hex C (hash_bytes C d))
             \<and> file_data (entries w' (tombstone_path root)) = Some (data_at w (tombstone_path root) @ j @ [newline]))"
      if rep: "r = Inr rep" for rep
    proof -
      obtain x where er: "er = Inr x" using tail_reached [OF assms(3,7) plan [unfolded Inr cs] erase rep rel] by blast
      note F = E(2) [OF er assms(5)]
      have nl: "object_path C root ch \<notin> ?l" "\<not> is_tmp (object_path C root ch)" for ch
        using slot_facts(3) [OF slot_object(1) [OF assms(1) dd(1), of ch]]
        by (auto simp: object_path_def Let_def cert_paths_def audit_path_def fabric_id_path_def secret_path_def)
      have "?live \<notin> ?l" using assms(5) by (auto simp: cert_paths_def audit_path_def fabric_id_path_def secret_path_def)
      moreover have "tombstone_path root \<notin> ?l" "\<not> is_tmp (tombstone_path root)"
        using slot_facts(3) [OF tomb_slot [OF dd(1)]]
        by (auto simp: tombstone_path_def TOMBSTONE_FILE_def cert_paths_def audit_path_def fabric_id_path_def
            FABRIC_ID_FILE_def SECRET_FILE_def secret_path_def)
      ultimately have tl: "file_data (entries w' (tombstone_path root)) = file_data (entries w2 (tombstone_path root))"
        "file_data (entries w' ?live) = None"
        using fin [of "tombstone_path root"] fin [OF assms(6)] F by simp_all
      have "file_data (entries w' (object_path C root ch)) = None" if "ch \<in> ?dead" for ch
        using F that sets fin [OF nl(2,1)] by (auto simp: erased_def)
      with F tl ct e1 show ?thesis by (auto simp: data_at_def)
    qed
    with spared ls(1,2) show ?thesis by blast
  qed
qed

section \<open>Certificates\<close>

text \<open>A signed certificate passes the checks of its reader, under its own key and no other.\<close>

lemma signed_cert_accepted:
  assumes "ed_ok C" "hex_ok C" "purge_json_ok C" "length sk = 32" "purge_text q" "pp_kind q = ''respawn-purge''"
  shows "\<exists>d. signed_cert C sk q = Inr d
    \<and> checked_cert C None d = Inr q \<and> checked_cert C (Some (hex_encode C (ed_public C sk))) d = Inr q
    \<and> (\<forall>pin. pin \<noteq> hex_encode C (ed_public C sk) \<longrightarrow>
          checked_cert C (Some pin) d = Inl (Corrupt ''purge cert signer mismatch''))"
proof -
  obtain s where s: "json_purge C q = Inr s" "read_purge C s = Inr q" "utf8_valid s"
    using assms(3,5) by (auto simp: purge_json_ok_def)
  let ?c = "\<lparr>pc_format = ''respawn-purge/v1'', pc_pubkey = hex_encode C (ed_public C sk),
             pc_payload = s, pc_sig = hex_encode C (ed_sign C sk s)\<rparr>"
  have "utf8_valid ''respawn-purge/v1''" by (simp add: code_def)
  then have "cert_text ?c" by (simp add: cert_text_def hex_text [OF assms(2)] s(3) del: utf8_valid.simps)
  then obtain d where d: "json_cert C ?c = Inr d" "read_cert C d = Inr ?c"
    using assms(3) by (auto simp: purge_json_ok_def)
  note e = assms(1) [unfolded ed_ok_def, rule_format, OF assms(4), of s]
  have h: "hex_decode C (hex_encode C b) = Some b" for b using assms(2) by (simp add: hex_ok_def)
  have "signed_cert C sk q = Inr d" using s(1) d(1) by (simp add: signed_cert_def)
  moreover have "checked_cert C pin d = Inr q" if "pin = None \<or> pin = Some (hex_encode C (ed_public C sk))" for pin
    using that d(2) s(2) e h assms(6) by (auto simp: checked_cert_def)
  moreover have "checked_cert C (Some pin) d = Inl (Corrupt ''purge cert signer mismatch'')"
    if "pin \<noteq> hex_encode C (ed_public C sk)" for pin
    using that d(2) s(2) assms(6) by (simp add: checked_cert_def)
  ultimately show ?thesis by blast
qed

section \<open>A concrete purge\<close>

definition ref_json_purge :: "purge_payload \<Rightarrow> string + string" where
  "ref_json_purge p = Inr (ref_write [pp_kind p, half_field (pp_version p), pp_fabric_id p, pp_path p, pp_content p,
     word_field (pp_chunks_removed p), word_field (pp_chunks_retained_shared p), word_field (pp_manifests_touched p),
     word_field (pp_audit_len p), pp_audit_tip p, word_field (pp_ts p)])"

definition ref_read_purge :: "string \<Rightarrow> string + purge_payload" where
  "ref_read_purge s =
     (case ref_read s of
        Some [k, v, i, p, c, n, sh, m, l, t, ts] \<Rightarrow>
          Inr \<lparr>pp_kind = k, pp_version = field_half v, pp_fabric_id = i, pp_path = p, pp_content = c,
               pp_chunks_removed = field_word n, pp_chunks_retained_shared = field_word sh,
               pp_manifests_touched = field_word m, pp_audit_len = field_word l, pp_audit_tip = t, pp_ts = field_word ts\<rparr>
      | _ \<Rightarrow> Inl ''syntax'')"

definition ref_json_cert :: "purge_cert \<Rightarrow> string + bytes" where
  "ref_json_cert c = Inr (ref_write [pc_format c, pc_pubkey c, pc_payload c, pc_sig c])"

definition ref_read_cert :: "bytes \<Rightarrow> string + purge_cert" where
  "ref_read_cert d =
     (case ref_read d of
        Some [f, k, p, s] \<Rightarrow> Inr \<lparr>pc_format = f, pc_pubkey = k, pc_payload = p, pc_sig = s\<rparr>
      | _ \<Rightarrow> Inl ''syntax'')"

definition ref_purge_crates :: purge_crates where
  "ref_purge_crates = sign_crates.extend ref_sign_crates
     \<lparr>json_purge = ref_json_purge, read_purge = ref_read_purge, json_cert = ref_json_cert, read_cert = ref_read_cert\<rparr>"

lemma ref_purge_json_ok:
  assumes "json_purge C = ref_json_purge" "read_purge C = ref_read_purge"
    "json_cert C = ref_json_cert" "read_cert C = ref_read_cert"
  shows "purge_json_ok C"
  by (simp add: purge_json_ok_def assms ref_json_purge_def ref_read_purge_def ref_json_cert_def ref_read_cert_def
      ref_read_write ref_write_line(3))

lemma ref_purge_facts: "purge_json_ok ref_purge_crates" "hex_ok ref_purge_crates" "ed_ok ref_purge_crates"
proof -
  show "purge_json_ok ref_purge_crates"
    by (rule ref_purge_json_ok) (simp_all add: ref_purge_crates_def sign_crates.defs)
  have "hex_encode ref_purge_crates = hex_encode ref_sign_crates" "hex_decode ref_purge_crates = hex_decode ref_sign_crates"
    by (simp_all add: ref_purge_crates_def sign_crates.defs)
  then show "hex_ok ref_purge_crates" using ref_sign_facts(12) by (simp add: hex_ok_def)
  show "ed_ok ref_purge_crates"
    by (rule ref_ed_ok) (simp_all add: ref_purge_crates_def ref_sign_crates_def sign_crates.defs snap_crates.defs)
qed

definition live_world :: world where
  "live_world = vault_world [([''r'', ''a.txt''], File ''old'' 0x1A4 0)]"

lemma live_world_sound: "''..'' \<notin> set F \<Longrightarrow> sound F live_world"
  unfolding live_world_def vault_world_def by (rule plain_fs_sound) (auto simp: plain_fs_def vault_fs_def)

theorem purge_exact_witness:
  "\<exists>r w' v'. purge_run ref_purge_crates [''r''] [''r''] ''a.txt'' (live_world, no_vault) = (r, w', v')
     \<and> file_data (entries live_world [''r'', ''a.txt'']) = Some ''old''
     \<and> (\<forall>rep. r = Inr rep \<longrightarrow> file_data (entries w' [''r'', ''a.txt'']) = None)"
proof -
  obtain r w' v' where run: "purge_run ref_purge_crates [''r''] [''r''] ''a.txt'' (live_world, no_vault) = (r, w', v')"
    by (metis prod_cases3)
  have k: "keeper [''r''] live_world"
    using live_world_sound [of "fabric_dir [''r'']"]
    by (simp add: keeper_def fabric_dir_def FABRIC_DIR_def) (simp add: live_world_def vault_world_def)
  have s: "sanitize_rel ''a.txt'' = Inr [''a.txt'']" by code_simp
  have l: "sound ([''r''] @ [''a.txt'']) live_world" by (rule live_world_sound) simp
  have n: "\<not> prefix (fabric_dir [''r'']) ([''r''] @ [''a.txt''])" "\<not> is_tmp ([''r''] @ [''a.txt''])"
    by (simp_all add: fabric_dir_def FABRIC_DIR_def is_tmp_def)
  have "file_data (entries live_world [''r'', ''a.txt'']) = Some ''old''"
    by (simp add: live_world_def vault_world_def fresh_entries entry_at_def vault_fs_def)
  then show ?thesis
    using run purge_exact [OF ref_purge_facts(2) k s l n run] by auto
qed

end
