(* ===== verification/Transport.thy ===== *)
theory Transport
  imports Fabric
begin

text \<open>
  \<open>src/secure.rs\<close>: the frames of the sync protocol over a TCP connection, in the clear or
  inside a Noise channel. A connection is the bytes the other side will have sent
  (\<open>cn_in\<close>, any bytes at all) and the bytes sent to it. Shown: what one side writes the
  other side reads, over either transport; a reader takes no frame above \<open>MAX_FRAME\<close> and
  always ends.
\<close>

section \<open>Little-endian integers\<close>

fun le :: "nat \<Rightarrow> nat \<Rightarrow> bytes" where
  "le 0 n = []"
| "le (Suc k) n = char_of (n mod 256) # le k (n div 256)"

fun le_val :: "bytes \<Rightarrow> nat" where
  "le_val [] = 0"
| "le_val (b # bs) = code b + 256 * le_val bs"

lemma length_le [simp]: "length (le k n) = k"
  by (induction k arbitrary: n) simp_all

lemma code_char_of_mod [simp]: "code (char_of n) = n mod 256"
  using code_char_of [of "n mod 256"] by simp

lemma le_val_le [simp]: "le_val (le k n) = n mod 256 ^ k"
proof (induction k arbitrary: n)
  case (Suc k)
  have "n mod (256 * 256 ^ k) = 256 * (n div 256 mod 256 ^ k) + n mod 256"
    by (rule mod_mult2_eq)
  with Suc show ?case by simp
qed simp

lemma le_val_bound: "le_val b < 256 ^ length b"
proof (induction b)
  case (Cons c b)
  have "code c \<le> 255" using code_less [of c] by linarith
  with Cons show ?case by simp
qed simp

section \<open>A connection\<close>

text \<open>
  \<open>cn_end\<close> is the error a read meets after the last byte (end of file or a timeout),
  \<open>cn_room\<close> how many bytes the other side accepts before the connection breaks.
\<close>

record conn =
  cn_in :: bytes
  cn_end :: ioerr
  cn_out :: bytes
  cn_room :: nat

type_synonym 'a net = "(conn, error, 'a) comp"

definition read_exact :: "nat \<Rightarrow> bytes net" where
  "read_exact n c =
     (if length (cn_in c) < n then (Inl (Io (cn_end c)), c\<lparr>cn_in := []\<rparr>)
      else (Inr (take n (cn_in c)), c\<lparr>cn_in := drop n (cn_in c)\<rparr>))"

definition send_all :: "bytes \<Rightarrow> unit net" where
  "send_all d c =
     (if cn_room c < length d then
        (Inl (Io (OtherIo ''broken pipe'')), c\<lparr>cn_out := cn_out c @ take (cn_room c) d, cn_room := 0\<rparr>)
      else (Inr (), c\<lparr>cn_out := cn_out c @ d, cn_room := cn_room c - length d\<rparr>))"

section \<open>Constants and the Noise crate\<close>

definition PROTO_MAGIC :: bytes where "PROTO_MAGIC = ''SFAB''"
definition PROTO_VERSION :: nat where "PROTO_VERSION = 2"
definition MODE_NOISE :: nat where "MODE_NOISE = 1"
definition PLAINTEXT_MSG :: nat where "PLAINTEXT_MSG = 48 * 1024"
definition MAX_HS_MSG :: nat where "MAX_HS_MSG = 1024"
definition MAX_FRAME :: nat where "MAX_FRAME = 64 * 1024 * 1024"

text \<open>
  The crate \<open>snow\<close>: a transport state holds a key and a message counter for each
  direction. Its handshake is three functions, with the entropy as an argument; \<open>seal\<close> and
  \<open>unseal\<close> are the message encryption. \<open>blake3_derive\<close> is \<open>blake3::derive_key\<close>;
  \<open>io_text\<close> and \<open>debug_text\<close> the text of an operating system error and the escaped
  form of a string.
\<close>

record session =
  out_key :: bytes
  in_key :: bytes
  sent :: nat
  seen :: nat

record noise =
  blake3_derive :: "string \<Rightarrow> string \<Rightarrow> bytes"
  hs_hello :: "bytes \<Rightarrow> bytes \<Rightarrow> string + bytes"
  hs_answer :: "bytes \<Rightarrow> bytes \<Rightarrow> bytes \<Rightarrow> string + (bytes \<times> session)"
  hs_finish :: "bytes \<Rightarrow> bytes \<Rightarrow> bytes \<Rightarrow> string + session"
  seal :: "bytes \<Rightarrow> nat \<Rightarrow> bytes \<Rightarrow> string + bytes"
  unseal :: "bytes \<Rightarrow> nat \<Rightarrow> bytes \<Rightarrow> string + bytes"
  io_text :: "ioerr \<Rightarrow> string"
  debug_text :: "string \<Rightarrow> string"

text \<open>Documented behaviour: a sealed message opens under its key and counter, 16 bytes longer.\<close>

definition seal_ok :: "('z) noise_scheme \<Rightarrow> bool" where
  "seal_ok N \<longleftrightarrow> (\<forall>k n d. length d \<le> PLAINTEXT_MSG \<longrightarrow>
     (\<exists>x. seal N k n d = Inr x \<and> length x = length d + 16 \<and> unseal N k n x = Inr d))"

definition display :: "('z) noise_scheme \<Rightarrow> ('y) crates_scheme \<Rightarrow> error \<Rightarrow> string" where
  "display N C e =
     (case e of
        Io i \<Rightarrow> io_text N i
      | Corrupt m \<Rightarrow> ''corrupt state: '' @ m
      | MissingObject h \<Rightarrow> ''missing object '' @ hex_encode C h
      | NotInitialized \<Rightarrow> ''not a respawn worktree (run `respawn init`)''
      | BadHash m \<Rightarrow> ''bad hash: '' @ m
      | Sync m \<Rightarrow> ''sync error: '' @ m
      | UnsafePath p \<Rightarrow> ''unsafe path in manifest: '' @ debug_text N p
      | Locked m \<Rightarrow> ''fabric locked: '' @ m)"

definition derive_psk :: "('z) noise_scheme \<Rightarrow> string \<Rightarrow> bytes" where
  "derive_psk N passphrase = blake3_derive N ''respawn sync psk v1'' passphrase"

section \<open>Noise messages\<close>

definition write_msg :: "bytes \<Rightarrow> unit net" where
  "write_msg data =
     (if length data > PLAINTEXT_MSG + 64 then fail (Sync ''noise message oversized'')
      else andThen (send_all (le 4 (length data))) (\<lambda>_. send_all data))"

definition read_msg :: "nat \<Rightarrow> bytes net" where
  "read_msg cap =
     andThen (read_exact 4) (\<lambda>len_buf.
     let len = le_val len_buf in
     if len = 0 \<or> len > cap then fail (Sync ''noise message length invalid'')
     else read_exact len)"

definition noise_res :: "string \<Rightarrow> string + 'a \<Rightarrow> 'a net" where
  "noise_res what r = lift (map_sum (\<lambda>e. Sync (what @ e)) id r)"

definition hs_initiator :: "('z) noise_scheme \<Rightarrow> ('y) crates_scheme \<Rightarrow> bytes \<Rightarrow> bytes \<Rightarrow> session net" where
  "hs_initiator N C rnd psk =
     andThen (noise_res ''noise write: '' (hs_hello N psk rnd)) (\<lambda>hello.
     andThen (write_msg hello) (\<lambda>_.
     andThen (map_err (\<lambda>e. Sync (''peer ended the handshake (wrong --psk or unsecured listener?): '' @ display N C e))
       (read_msg MAX_HS_MSG)) (\<lambda>reply.
     noise_res ''noise handshake rejected: '' (hs_finish N psk rnd reply))))"

definition hs_responder :: "('z) noise_scheme \<Rightarrow> bytes \<Rightarrow> bytes \<Rightarrow> session net" where
  "hs_responder N rnd psk =
     andThen (read_msg MAX_HS_MSG) (\<lambda>first.
     andThen (noise_res ''noise handshake rejected: '' (hs_answer N psk rnd first)) (\<lambda>(reply, s).
     andThen (write_msg reply) (\<lambda>_. ok s)))"

definition secure_connect :: "('z) noise_scheme \<Rightarrow> ('y) crates_scheme \<Rightarrow> bytes \<Rightarrow> bytes \<Rightarrow> session net" where
  "secure_connect N C rnd psk =
     andThen (send_all PROTO_MAGIC) (\<lambda>_.
     andThen (send_all [char_of PROTO_VERSION, char_of MODE_NOISE]) (\<lambda>_.
     hs_initiator N C rnd psk))"

definition secure_accept :: "('z) noise_scheme \<Rightarrow> bytes \<Rightarrow> bytes \<Rightarrow> session net" where
  "secure_accept N rnd psk = hs_responder N rnd psk"

section \<open>Sealed frames\<close>

definition send_sealed :: "('z) noise_scheme \<Rightarrow> session \<Rightarrow> bytes \<Rightarrow> session net" where
  "send_sealed N s d =
     andThen (noise_res ''noise encrypt: '' (seal N (out_key s) (sent s) d)) (\<lambda>x.
     andThen (write_msg x) (\<lambda>_. ok (s\<lparr>sent := sent s + 1\<rparr>)))"

definition recv_sealed :: "('z) noise_scheme \<Rightarrow> session \<Rightarrow> (bytes \<times> session) net" where
  "recv_sealed N s =
     andThen (read_msg (PLAINTEXT_MSG + 64)) (\<lambda>x.
     andThen (noise_res ''noise decrypt: '' (unseal N (in_key s) (seen s) x)) (\<lambda>d.
     ok (d, s\<lparr>seen := seen s + 1\<rparr>)))"

function sealed_body :: "('z) noise_scheme \<Rightarrow> nat \<Rightarrow> bytes \<Rightarrow> session \<Rightarrow> (bytes \<times> session) net" where
  "sealed_body N app_len out s =
     (if length out < app_len then
        andThen (recv_sealed N s) (\<lambda>(d, s).
        if length out + length d > app_len then fail (Sync ''noise frame overflow'')
        else if length d = 0 then fail (Sync ''noise frame stalled'')
        else sealed_body N app_len (out @ d) s)
      else ok (out, s))"
  by pat_completeness auto
termination
  by (relation "measure (\<lambda>(N, app_len, out, s). app_len - length out)")
    (auto simp flip: length_greater_0_conv intro!: diff_less_mono2)

declare sealed_body.simps [simp del]

definition secure_read_frame :: "('z) noise_scheme \<Rightarrow> session \<Rightarrow> (bytes \<times> session) net" where
  "secure_read_frame N s =
     andThen (recv_sealed N s) (\<lambda>(hdr, s).
     if length hdr \<noteq> 4 then fail (Sync ''noise frame header malformed'')
     else if le_val hdr > MAX_FRAME then fail (Sync ''frame too large'')
     else sealed_body N (le_val hdr) [] s)"

text \<open>\<open>slice::chunks\<close>.\<close>

function batches :: "nat \<Rightarrow> 'a list \<Rightarrow> 'a list list" where
  "batches n xs = (if xs = [] \<or> n = 0 then [] else take n xs # batches n (drop n xs))"
  by pat_completeness auto
termination
  by (relation "measure (\<lambda>(n, xs). length xs)") auto

declare batches.simps [simp del]

definition secure_write_frame :: "('z) noise_scheme \<Rightarrow> session \<Rightarrow> bytes \<Rightarrow> session net" where
  "secure_write_frame N s payload =
     (if length payload > MAX_FRAME then fail (Sync ''frame too large'')
      else
        andThen (send_sealed N s (le 4 (length payload))) (\<lambda>s.
        foldIO (send_sealed N) s (batches PLAINTEXT_MSG payload)))"

section \<open>Plain frames\<close>

function read_grow :: "bytes \<Rightarrow> nat \<Rightarrow> bytes net" where
  "read_grow buf remaining =
     (if remaining > 0 then
        let n = min remaining (256 * 1024) in
        andThen (read_exact n) (\<lambda>d. read_grow (buf @ d) (remaining - n))
      else ok buf)"
  by pat_completeness auto
termination
  by (relation "measure snd") auto

declare read_grow.simps [simp del]

definition plain_read_frame :: "bytes net" where
  "plain_read_frame =
     andThen (read_exact 4) (\<lambda>len_buf.
     if le_val len_buf > MAX_FRAME then fail (Sync ''frame too large'')
     else read_grow [] (le_val len_buf))"

definition plain_write_frame :: "bytes \<Rightarrow> unit net" where
  "plain_write_frame payload =
     andThen (send_all (le 4 (length payload))) (\<lambda>_. send_all payload)"

section \<open>Either transport\<close>

datatype frame_io = Plain | Secure session

fun read_frame :: "('z) noise_scheme \<Rightarrow> frame_io \<Rightarrow> (bytes \<times> frame_io) net" where
  "read_frame N Plain = andThen plain_read_frame (\<lambda>d. ok (d, Plain))"
| "read_frame N (Secure s) = andThen (secure_read_frame N s) (\<lambda>(d, s). ok (d, Secure s))"

fun write_frame :: "('z) noise_scheme \<Rightarrow> frame_io \<Rightarrow> bytes \<Rightarrow> frame_io net" where
  "write_frame N Plain d = andThen (plain_write_frame d) (\<lambda>_. ok Plain)"
| "write_frame N (Secure s) d = andThen (secure_write_frame N s d) (\<lambda>s. ok (Secure s))"

section \<open>What a reader takes from the connection\<close>

text \<open>\<open>takes m bs v\<close>: from a connection that starts with \<open>bs\<close>, \<open>m\<close> reads exactly these.\<close>

definition takes :: "'a net \<Rightarrow> bytes \<Rightarrow> 'a \<Rightarrow> bool" where
  "takes m bs v \<longleftrightarrow> (\<forall>c rest. cn_in c = bs @ rest \<longrightarrow> m c = (Inr v, c\<lparr>cn_in := rest\<rparr>))"

lemma takesD: "takes m bs v \<Longrightarrow> cn_in c = bs @ rest \<Longrightarrow> m c = (Inr v, c\<lparr>cn_in := rest\<rparr>)"
  by (simp add: takes_def)

lemma takes_ok: "takes (ok v) [] v"
  by (simp add: takes_def comp_eval)

lemma takes_andThen:
  assumes "takes m as u" "takes (f u) bs v"
  shows "takes (andThen m f) (as @ bs) v"
  unfolding takes_def
proof (intro allI impI)
  fix c :: conn and rest
  assume "cn_in c = (as @ bs) @ rest"
  then have c: "cn_in c = as @ (bs @ rest)" by simp
  have "m c = (Inr u, c\<lparr>cn_in := bs @ rest\<rparr>)" by (rule takesD [OF assms(1) c])
  then show "andThen m f c = (Inr v, c\<lparr>cn_in := rest\<rparr>)"
    using takesD [OF assms(2), of "c\<lparr>cn_in := bs @ rest\<rparr>" rest] by simp
qed

lemma takes_last: "takes m as u \<Longrightarrow> f u = ok v \<Longrightarrow> takes (andThen m f) as v"
  using takes_andThen [of m as u f "[]" v] takes_ok [of v] by simp

lemma takes_read_exact: "length d = n \<Longrightarrow> takes (read_exact n) d d"
  by (auto simp: takes_def read_exact_def)

lemma takes_read_grow: "length d = n \<Longrightarrow> takes (read_grow buf n) d (buf @ d)"
proof (induction buf n arbitrary: d rule: read_grow.induct)
  case (1 buf n)
  show ?case
  proof (cases "n > 0")
    case True
    let ?k = "min n (256 * 1024)"
    have a: "takes (read_exact ?k) (take ?k d) (take ?k d)"
      by (rule takes_read_exact) (use "1.prems" in simp)
    from a have r: "read_exact ?k c = (Inr (take ?k d), c\<lparr>cn_in := drop ?k d\<rparr>)" if "cn_in c = d" for c
      using takesD [OF a, of c "drop ?k d"] that by simp
    have b: "takes (read_grow (buf @ take ?k d) (n - ?k)) (drop ?k d) ((buf @ take ?k d) @ drop ?k d)"
      by (rule "1.IH" [OF True refl r [of "\<lparr>cn_in = d, cn_end = NotFound, cn_out = [], cn_room = 0\<rparr>"]])
        (use "1.prems" in simp_all)
    have "takes (andThen (read_exact ?k) (\<lambda>x. read_grow (buf @ x) (n - ?k))) (take ?k d @ drop ?k d)
        ((buf @ take ?k d) @ drop ?k d)"
      by (rule takes_andThen [OF a]) (rule b)
    with True show ?thesis by (subst read_grow.simps) (simp add: Let_def)
  qed (use "1.prems" in \<open>simp add: read_grow.simps takes_ok\<close>)
qed

section \<open>What a writer sends\<close>

definition sends :: "conn \<Rightarrow> bytes \<Rightarrow> conn \<Rightarrow> bool" where
  "sends c bs c' \<longleftrightarrow> cn_out c' = cn_out c @ bs \<and> cn_in c' = cn_in c"

lemma sends_trans: "sends c as c1 \<Longrightarrow> sends c1 bs c2 \<Longrightarrow> sends c (as @ bs) c2"
  by (simp add: sends_def)

lemma send_all_Inr: "send_all d c = (Inr u, c') \<Longrightarrow> sends c d c'"
  by (auto simp: send_all_def sends_def split: if_splits)

lemma plain_write_Inr:
  "plain_write_frame p c = (Inr u, c') \<Longrightarrow> sends c (le 4 (length p) @ p) c'"
  unfolding plain_write_frame_def by (auto simp: andThen_Inr dest!: send_all_Inr intro: sends_trans)

lemma takes_plain:
  assumes "length p \<le> MAX_FRAME"
  shows "takes plain_read_frame (le 4 (length p) @ p) p"
proof -
  have v: "le_val (le 4 (length p)) = length p" using assms by (simp add: MAX_FRAME_def)
  have "takes (read_grow [] (length p)) p p" using takes_read_grow [of p "length p" "[]"] by simp
  then show ?thesis
    unfolding plain_read_frame_def using assms v
    by (intro takes_andThen [OF takes_read_exact]) simp_all
qed

lemma write_msg_Inr: "write_msg x c = (Inr u, c') \<Longrightarrow> sends c (le 4 (length x) @ x) c'"
  unfolding write_msg_def by (auto simp: andThen_Inr comp_eval split: if_splits dest!: send_all_Inr intro: sends_trans)

lemma takes_read_msg:
  assumes "x \<noteq> []" "length x \<le> cap" "length x < 256 ^ 4"
  shows "takes (read_msg cap) (le 4 (length x) @ x) x"
proof -
  have v: "le_val (le 4 (length x)) = length x" using assms(3) by simp
  show ?thesis
    unfolding read_msg_def using assms v
    by (intro takes_andThen [OF takes_read_exact]) (simp_all add: takes_read_exact Let_def)
qed

text \<open>Two ends of one channel: the counter of the reader is that of the writer.\<close>

fun paired :: "frame_io \<Rightarrow> frame_io \<Rightarrow> bool" where
  "paired Plain Plain \<longleftrightarrow> True"
| "paired (Secure s) (Secure r) \<longleftrightarrow> in_key r = out_key s \<and> seen r = sent s"
| "paired _ _ \<longleftrightarrow> False"

lemma send_sealed_Inr:
  assumes "seal_ok N" "length d \<le> PLAINTEXT_MSG" "send_sealed N s d c = (Inr s', c')"
  shows "s' = s\<lparr>sent := sent s + 1\<rparr>"
    and "\<exists>bs. sends c bs c' \<and> (\<forall>r. in_key r = out_key s \<longrightarrow> seen r = sent s \<longrightarrow>
          takes (recv_sealed N r) bs (d, r\<lparr>seen := seen r + 1\<rparr>))"
proof -
  from assms(1,2) obtain x where x: "seal N (out_key s) (sent s) d = Inr x" "length x = length d + 16"
    "unseal N (out_key s) (sent s) x = Inr d" unfolding seal_ok_def by metis
  with assms(3) obtain u where w: "write_msg x c = (Inr u, c')" "s' = s\<lparr>sent := sent s + 1\<rparr>"
    by (auto simp: send_sealed_def noise_res_def andThen_Inr comp_eval)
  have l: "x \<noteq> []" "length x \<le> PLAINTEXT_MSG + 64" "length x < 256 ^ 4"
    using x(2) assms(2) by (auto simp: PLAINTEXT_MSG_def)
  show "s' = s\<lparr>sent := sent s + 1\<rparr>" by (rule w(2))
  have "takes (recv_sealed N r) (le 4 (length x) @ x) (d, r\<lparr>seen := seen r + 1\<rparr>)"
    if "in_key r = out_key s" "seen r = sent s" for r
    unfolding recv_sealed_def
    by (rule takes_last [OF takes_read_msg [OF l]]) (simp add: that x(3) noise_res_def)
  with write_msg_Inr [OF w(1)] show "\<exists>bs. sends c bs c' \<and> (\<forall>r. in_key r = out_key s \<longrightarrow> seen r = sent s \<longrightarrow>
          takes (recv_sealed N r) bs (d, r\<lparr>seen := seen r + 1\<rparr>))" by blast
qed

lemma send_chunks_Inr:
  assumes "seal_ok N" "list_all (\<lambda>d. d \<noteq> [] \<and> length d \<le> PLAINTEXT_MSG) ds"
    and "foldIO (send_sealed N) s ds c = (Inr s', c')"
  shows "out_key s' = out_key s \<and> sent s' = sent s + length ds \<and> (\<exists>bs. sends c bs c'
    \<and> (\<forall>r out. in_key r = out_key s \<longrightarrow> seen r = sent s \<longrightarrow>
        takes (sealed_body N (length out + length (concat ds)) out r) bs
          (out @ concat ds, r\<lparr>seen := seen r + length ds\<rparr>)))"
  using assms(2,3)
proof (induction ds arbitrary: s c)
  case Nil
  then have e: "s' = s" "c' = c" by (simp_all add: comp_eval)
  have "takes (sealed_body N (length out) out r) [] (out, r)" for out r
    by (subst sealed_body.simps) (simp add: takes_ok)
  moreover have "sends c [] c'" using e by (simp add: sends_def)
  moreover have "r\<lparr>seen := seen r + length []\<rparr> = r" for r :: session by simp
  ultimately have "sends c [] c' \<and> (\<forall>r out. in_key r = out_key s \<longrightarrow> seen r = sent s \<longrightarrow>
      takes (sealed_body N (length out + length (concat [])) out r) [] (out @ concat [], r\<lparr>seen := seen r + length []\<rparr>))"
    by (simp only: append_Nil2 concat.simps list.size add_0_right) blast
  then have "\<exists>bs. sends c bs c' \<and> (\<forall>r out. in_key r = out_key s \<longrightarrow> seen r = sent s \<longrightarrow>
      takes (sealed_body N (length out + length (concat [])) out r) bs (out @ concat [], r\<lparr>seen := seen r + length []\<rparr>))" ..
  with e show ?case by simp
next
  case (Cons d ds)
  have d: "d \<noteq> []" "length d \<le> PLAINTEXT_MSG" using Cons.prems(1) by auto
  from Cons.prems(2) obtain s1 c1 where one: "send_sealed N s d c = (Inr s1, c1)"
    and rest: "foldIO (send_sealed N) s1 ds c1 = (Inr s', c')" by (auto simp: andThen_Inr)
  from send_sealed_Inr [OF assms(1) d(2) one] obtain as where s1: "s1 = s\<lparr>sent := sent s + 1\<rparr>"
    and as: "sends c as c1" "\<And>r. in_key r = out_key s \<Longrightarrow> seen r = sent s \<Longrightarrow>
          takes (recv_sealed N r) as (d, r\<lparr>seen := seen r + 1\<rparr>)" by blast
  from Cons.IH [OF _ rest] Cons.prems(1) obtain bs where
    s': "out_key s' = out_key s1" "sent s' = sent s1 + length ds" and bs: "sends c1 bs c'"
      "\<And>r out. in_key r = out_key s1 \<Longrightarrow> seen r = sent s1 \<Longrightarrow>
        takes (sealed_body N (length out + length (concat ds)) out r) bs
          (out @ concat ds, r\<lparr>seen := seen r + length ds\<rparr>)" by auto
  have "takes (sealed_body N (length out + length (concat (d # ds))) out r) (as @ bs)
      (out @ concat (d # ds), r\<lparr>seen := seen r + length (d # ds)\<rparr>)"
    if r: "in_key r = out_key s" "seen r = sent s" for r out
  proof -
    let ?r = "r\<lparr>seen := seen r + 1\<rparr>"
    have "takes (sealed_body N (length (out @ d) + length (concat ds)) (out @ d) ?r) bs
        ((out @ d) @ concat ds, ?r\<lparr>seen := seen ?r + length ds\<rparr>)"
      by (rule bs(2)) (simp_all add: r s1)
    then show ?thesis
      using d(1) by (subst sealed_body.simps)
        (auto intro!: takes_andThen [OF as(2) [OF r]] simp: add.assoc)
  qed
  with sends_trans [OF as(1) bs(1)] s' s1 show ?case by auto
qed

lemma batches_facts:
  assumes "n > 0"
  shows "concat (batches n xs) = xs" "list_all (\<lambda>d. d \<noteq> [] \<and> length d \<le> n) (batches n xs)"
proof -
  have "concat (batches n xs) = xs \<and> list_all (\<lambda>d. d \<noteq> [] \<and> length d \<le> n) (batches n xs)"
    using assms
  proof (induction n xs rule: batches.induct)
    case (1 n xs)
    then show ?case by (subst (1 2) batches.simps) auto
  qed
  then show "concat (batches n xs) = xs" "list_all (\<lambda>d. d \<noteq> [] \<and> length d \<le> n) (batches n xs)" by auto
qed

lemma secure_write_Inr:
  assumes "seal_ok N" "secure_write_frame N s p c = (Inr s', c')"
  shows "\<exists>bs. sends c bs c' \<and> (\<forall>r. in_key r = out_key s \<longrightarrow> seen r = sent s \<longrightarrow>
      (\<exists>r'. in_key r' = out_key s' \<and> seen r' = sent s' \<and> takes (secure_read_frame N r) bs (p, r')))"
proof -
  have p: "length p \<le> MAX_FRAME"
    using assms(2) by (auto simp: secure_write_frame_def comp_eval split: if_splits)
  with assms(2) obtain s1 c1 where hdr: "send_sealed N s (le 4 (length p)) c = (Inr s1, c1)"
    and body: "foldIO (send_sealed N) s1 (batches PLAINTEXT_MSG p) c1 = (Inr s', c')"
    by (auto simp: secure_write_frame_def andThen_Inr)
  have pos: "PLAINTEXT_MSG > 0" and l4: "length (le 4 (length p)) \<le> PLAINTEXT_MSG"
    by (simp_all add: PLAINTEXT_MSG_def)
  note b = batches_facts [OF pos, of p]
  from send_sealed_Inr [OF assms(1) l4 hdr] obtain as where s1: "s1 = s\<lparr>sent := sent s + 1\<rparr>"
    and as: "sends c as c1" "\<And>r. in_key r = out_key s \<Longrightarrow> seen r = sent s \<Longrightarrow>
          takes (recv_sealed N r) as (le 4 (length p), r\<lparr>seen := seen r + 1\<rparr>)" by blast
  from send_chunks_Inr [OF assms(1) b(2) body] obtain bs where
    s': "out_key s' = out_key s1" "sent s' = sent s1 + length (batches PLAINTEXT_MSG p)"
    and bs: "sends c1 bs c'" "\<And>r out. in_key r = out_key s1 \<Longrightarrow> seen r = sent s1 \<Longrightarrow>
        takes (sealed_body N (length out + length p) out r) bs
          (out @ p, r\<lparr>seen := seen r + length (batches PLAINTEXT_MSG p)\<rparr>)" by (auto simp: b(1))
  have v: "le_val (le 4 (length p)) = length p" using p by (simp add: MAX_FRAME_def)
  have "\<exists>r'. in_key r' = out_key s' \<and> seen r' = sent s' \<and> takes (secure_read_frame N r) (as @ bs) (p, r')"
    if r: "in_key r = out_key s" "seen r = sent s" for r
  proof (intro exI conjI)
    let ?r = "r\<lparr>seen := seen r + 1\<rparr>"
    let ?r' = "?r\<lparr>seen := seen ?r + length (batches PLAINTEXT_MSG p)\<rparr>"
    show "in_key ?r' = out_key s'" "seen ?r' = sent s'" using r s' s1 by simp_all
    have "takes (sealed_body N (length p) [] ?r) bs (p, ?r')"
      using bs(2) [of ?r "[]"] r s1 by simp
    with p v show "takes (secure_read_frame N r) (as @ bs) (p, ?r')"
      unfolding secure_read_frame_def by (intro takes_andThen [OF as(2) [OF r]]) simp
  qed
  with sends_trans [OF as(1) bs(1)] show ?thesis by blast
qed

section \<open>A reader ends, within bounds\<close>

definition eats :: "conn \<Rightarrow> nat \<Rightarrow> conn \<Rightarrow> bool" where
  "eats c n c' \<longleftrightarrow> cn_out c' = cn_out c \<and> (\<exists>used. cn_in c = used @ cn_in c' \<and> n \<le> length used)"

lemma eats_trans: "eats c n c1 \<Longrightarrow> eats c1 m c2 \<Longrightarrow> eats c (n + m) c2"
  unfolding eats_def by (metis add_mono append_assoc length_append)

lemma eats_less: "eats c n c1 \<Longrightarrow> m \<le> n \<Longrightarrow> eats c m c1"
  unfolding eats_def by (meson le_trans)

lemma read_exact_Inr: "read_exact n c = (Inr d, c') \<Longrightarrow> length d = n \<and> eats c n c'"
  by (auto simp: read_exact_def eats_def split: if_splits intro!: exI [of _ "take n (cn_in c)"])

lemma read_msg_Inr: "read_msg cap c = (Inr d, c') \<Longrightarrow> d \<noteq> [] \<and> eats c 4 c'"
  unfolding read_msg_def
  by (auto simp: andThen_Inr Let_def comp_eval split: if_splits dest!: read_exact_Inr
      intro: eats_less [OF eats_trans])

lemma recv_sealed_Inr: "recv_sealed N s c = (Inr (d, s'), c') \<Longrightarrow> eats c 4 c'"
  unfolding recv_sealed_def by (auto simp: andThen_Inr comp_eval noise_res_def dest!: read_msg_Inr)

lemma sealed_body_Inr:
  "sealed_body N n out s c = (Inr (d, s'), c') \<Longrightarrow> length out \<le> n \<Longrightarrow> length d = n \<and> eats c 0 c'"
proof (induction N n out s arbitrary: c rule: sealed_body.induct)
  case (1 N n out s)
  show ?case
  proof (cases "length out < n")
    case True
    with "1.prems"(1) obtain x s1 c1 where r: "recv_sealed N s c = (Inr (x, s1), c1)"
      and k: "length out + length x \<le> n" "length x \<noteq> 0"
      and run: "sealed_body N n (out @ x) s1 c1 = (Inr (d, s'), c')"
      by (subst (asm) sealed_body.simps) (auto simp: andThen_Inr comp_eval split: if_splits)
    have "length d = n \<and> eats c1 0 c'"
      by (rule "1.IH" [OF True r refl _ k(2) run]) (use k in simp_all)
    with recv_sealed_Inr [OF r] show ?thesis by (auto dest: eats_trans intro: eats_less)
  next
    case False
    with "1.prems" show ?thesis
      by (subst (asm) sealed_body.simps) (auto simp: comp_eval eats_def)
  qed
qed

lemma read_grow_Inr:
  "read_grow buf n c = (Inr d, c') \<Longrightarrow> length d = length buf + n \<and> eats c n c'"
proof (induction buf n arbitrary: c rule: read_grow.induct)
  case (1 buf n)
  show ?case
  proof (cases "n > 0")
    case True
    let ?k = "min n (256 * 1024)"
    from True "1.prems" obtain x c1 where r: "read_exact ?k c = (Inr x, c1)"
      and run: "read_grow (buf @ x) (n - ?k) c1 = (Inr d, c')"
      by (subst (asm) read_grow.simps) (auto simp: andThen_Inr Let_def)
    note x = read_exact_Inr [OF r] and ih = "1.IH" [OF True refl r run]
    have "eats c (?k + (n - ?k)) c'" by (rule eats_trans) (use x ih in blast)+
    with x ih show ?thesis by simp
  next
    case False
    with "1.prems" show ?thesis by (subst (asm) read_grow.simps) (auto simp: comp_eval eats_def)
  qed
qed

lemma read_frame_Inr:
  assumes "read_frame N io c = (Inr (d, io'), c')"
  shows "length d \<le> MAX_FRAME \<and> eats c 4 c'"
proof (cases io)
  case Plain
  with assms obtain b c1 where "read_exact 4 c = (Inr b, c1)" "le_val b \<le> MAX_FRAME"
    "read_grow [] (le_val b) c1 = (Inr d, c')"
    by (auto simp: plain_read_frame_def andThen_Inr comp_eval split: if_splits)
  then show ?thesis
    by (auto dest!: read_exact_Inr read_grow_Inr intro: eats_less [OF eats_trans])
next
  case (Secure s)
  with assms obtain b s1 c1 s2 where r: "recv_sealed N s c = (Inr (b, s1), c1)" "le_val b \<le> MAX_FRAME"
    "sealed_body N (le_val b) [] s1 c1 = (Inr (d, s2), c')"
    by (auto simp: secure_read_frame_def andThen_Inr comp_eval split: if_splits)
  note b = sealed_body_Inr [OF r(3)]
  have "eats c (4 + 0) c'" by (rule eats_trans [OF recv_sealed_Inr [OF r(1)]]) (use b in simp)
  with b r(2) show ?thesis by simp
qed

section \<open>Properties\<close>

text \<open>A toy channel that pads a message: it satisfies the hypothesis on the crate.\<close>

definition ref_noise :: noise where
  "ref_noise = \<lparr>blake3_derive = (\<lambda>c p. c @ p), hs_hello = (\<lambda>psk r. Inr r), hs_answer = (\<lambda>psk r m. Inl ''no peer''),
     hs_finish = (\<lambda>psk r m. Inl ''no peer''), seal = (\<lambda>k n d. Inr (replicate 16 CHR ''p'' @ d)),
     unseal = (\<lambda>k n x. Inr (drop 16 x)), io_text = (\<lambda>_. ''i/o error''), debug_text = id\<rparr>"

lemma ref_seal_ok: "seal_ok ref_noise"
  by (simp add: seal_ok_def ref_noise_def)

definition ref_session :: session where
  "ref_session = \<lparr>out_key = ''k'', in_key = ''k'', sent = 0, seen = 0\<rparr>"

definition idle_conn :: "bytes \<Rightarrow> conn" where
  "idle_conn d = \<lparr>cn_in = d, cn_end = UnexpectedEof, cn_out = [], cn_room = 1000\<rparr>"

text \<open>C23: What one end writes as a frame the other end reads as that frame, byte for byte, over the
  plain and over the sealed transport, and it consumes exactly the bytes written, so the two
  ends stay in step for the next frame.\<close>

theorem frame_round_trip:
  assumes "seal_ok N" "length p \<le> MAX_FRAME" "paired io io'" "write_frame N io p c = (Inr io2, c')"
  shows "\<exists>bs io2'. cn_out c' = cn_out c @ bs \<and> paired io2 io2'
    \<and> (\<forall>d rest. cn_in d = bs @ rest \<longrightarrow> read_frame N io' d = (Inr (p, io2'), d\<lparr>cn_in := rest\<rparr>))"
proof (cases io)
  case Plain
  then have io': "io' = Plain" using assms(3) by (cases io') simp_all
  from Plain assms(4) obtain u where w: "plain_write_frame p c = (Inr u, c')" "io2 = Plain"
    by (auto simp: andThen_Inr comp_eval)
  have "takes (read_frame N io') (le 4 (length p) @ p) (p, Plain)"
    unfolding io' read_frame.simps by (rule takes_last [OF takes_plain [OF assms(2)]]) simp
  with plain_write_Inr [OF w(1)] w(2) show ?thesis
    unfolding takes_def sends_def by (metis paired.simps(1))
next
  case (Secure s)
  then obtain r where io': "io' = Secure r" "in_key r = out_key s" "seen r = sent s"
    using assms(3) by (cases io') simp_all
  from Secure assms(4) obtain s2 where w: "secure_write_frame N s p c = (Inr s2, c')" "io2 = Secure s2"
    by (auto simp: andThen_Inr comp_eval)
  from secure_write_Inr [OF assms(1) w(1)] io' obtain bs r' where
    bs: "sends c bs c'" "in_key r' = out_key s2" "seen r' = sent s2" "takes (secure_read_frame N r) bs (p, r')"
    by blast
  have "takes (read_frame N io') bs (p, Secure r')"
    unfolding io' read_frame.simps by (rule takes_last [OF bs(4)]) simp
  with bs w(2) show ?thesis
    unfolding takes_def sends_def by (metis paired.simps(2))
qed

theorem frame_round_trip_witness:
  "\<exists>io2 c'. write_frame ref_noise (Secure ref_session) ''hi'' (idle_conn []) = (Inr io2, c')
     \<and> (\<exists>io2'. fst (read_frame ref_noise (Secure ref_session) (idle_conn (cn_out c'))) = Inr (''hi'', io2'))"
proof -
  have "\<exists>io2 c'. write_frame ref_noise (Secure ref_session) ''hi'' (idle_conn []) = (Inr io2, c')"
    by (simp add: secure_write_frame_def batches.simps send_sealed_def noise_res_def ref_noise_def ref_session_def
        write_msg_def send_all_def idle_conn_def MAX_FRAME_def PLAINTEXT_MSG_def andThen_def comp_eval)
  then obtain io2 c' where w: "write_frame ref_noise (Secure ref_session) ''hi'' (idle_conn []) = (Inr io2, c')" by blast
  have l: "length ''hi'' \<le> MAX_FRAME" "paired (Secure ref_session) (Secure ref_session)"
    by (simp_all add: MAX_FRAME_def ref_session_def)
  have "cn_in (idle_conn d) = d @ []" "cn_out (idle_conn d) = []" for d by (simp_all add: idle_conn_def)
  with frame_round_trip [OF ref_seal_ok l w] w show ?thesis by (metis append_Nil fst_conv)
qed

text \<open>C24: Whatever bytes the other side sends, and whatever the crate makes of them, a frame that is
  read has at most \<open>MAX_FRAME\<close> bytes, sends nothing, and takes at least four bytes off the
  connection, so that reading frames in a loop ends.\<close>

theorem read_frame_bounded:
  assumes "read_frame N io c = (Inr (d, io'), c')"
  shows "length d \<le> MAX_FRAME \<and> length (cn_in c') + 4 \<le> length (cn_in c)
    \<and> suffix (cn_in c') (cn_in c) \<and> cn_out c' = cn_out c"
  using read_frame_Inr [OF assms] by (auto simp: eats_def suffix_def)

theorem read_frame_bounded_witness:
  "\<exists>c'. read_frame ref_noise Plain (idle_conn (le 4 2 @ ''hi!'')) = (Inr (''hi'', Plain), c')
     \<and> length ''hi'' \<le> MAX_FRAME \<and> suffix (cn_in c') (le 4 2 @ ''hi!'')"
proof -
  have c: "cn_in (idle_conn (le 4 2 @ ''hi!'')) = (le 4 2 @ ''hi'') @ ''!''" by (simp add: idle_conn_def)
  have "takes plain_read_frame (le 4 2 @ ''hi'') ''hi''"
    using takes_plain [of "''hi''"] by (simp add: MAX_FRAME_def numeral_2_eq_2)
  from takesD [OF this c] have "read_frame ref_noise Plain (idle_conn (le 4 2 @ ''hi!''))
      = (Inr (''hi'', Plain), idle_conn (le 4 2 @ ''hi!'')\<lparr>cn_in := ''!''\<rparr>)"
    by (simp only: read_frame.simps andThen_eval comp_eval)
  with read_frame_bounded [OF this] show ?thesis by (simp add: idle_conn_def)
qed

text \<open>The first four bytes of a plain client that stays within the frame bound are never the
  selector of the secured protocol, so sniffing them cannot mistake one client for the other.\<close>

theorem selector_unambiguous:
  assumes "length p \<le> MAX_FRAME" "plain_write_frame p c = (Inr u, c')" "cn_out c = []"
  shows "take 4 (cn_out c') \<noteq> PROTO_MAGIC"
proof
  assume m: "take 4 (cn_out c') = PROTO_MAGIC"
  from plain_write_Inr [OF assms(2)] assms(3) have "take 4 (cn_out c') = le 4 (length p)"
    by (simp add: sends_def)
  then have "le_val PROTO_MAGIC = length p mod 256 ^ 4" unfolding m using le_val_le by metis
  moreover have "MAX_FRAME < le_val PROTO_MAGIC" by (simp add: PROTO_MAGIC_def MAX_FRAME_def code_def)
  moreover have "length p mod 256 ^ 4 \<le> length p" by (rule mod_less_eq_dividend)
  ultimately show False using assms(1) by linarith
qed

theorem selector_unambiguous_witness:
  "\<exists>c'. plain_write_frame ''hi'' (idle_conn []) = (Inr (), c') \<and> take 4 (cn_out c') \<noteq> PROTO_MAGIC"
proof -
  have w: "plain_write_frame ''hi'' (idle_conn [])
      = (Inr (), (idle_conn [])\<lparr>cn_out := le 4 2 @ ''hi'', cn_room := 994\<rparr>)"
    by (simp add: plain_write_frame_def send_all_def idle_conn_def numeral_2_eq_2)
  from selector_unambiguous [OF _ w] w show ?thesis by (auto simp: MAX_FRAME_def idle_conn_def)
qed

end
