(* ===== verification/Sync.thy ===== *)
theory Sync
  imports Manifest Store_Frame Transport
begin

text \<open>
  \<open>src/sync.rs\<close>: the server's answer to a request, its connection loop, discovery, and the
  pull of a remote history. The other side is any sequence of bytes on the connection, so
  every statement about a pull is one about a hostile peer. Shown: the server changes no
  file and hands out no object that does not hash to its name; a pull changes nothing outside
  \<open>.respawn\<close>, not HEAD either, and loses nothing stored; what it stores carries its hash; a
  server with a key answers nobody without it.
\<close>

section \<open>Constants\<close>

definition BEACON_MAGIC :: bytes where "BEACON_MAGIC = ''SFAB1''"
definition OP_GET_HEAD :: nat where "OP_GET_HEAD = 1"
definition OP_GET_MANIFEST :: nat where "OP_GET_MANIFEST = 2"
definition OP_HAVE :: nat where "OP_HAVE = 3"
definition OP_GET_OBJECT :: nat where "OP_GET_OBJECT = 4"
definition MAX_MANIFESTS_PER_PULL :: nat where "MAX_MANIFESTS_PER_PULL = 100000"
definition MAX_OBJECTS_PER_PULL :: nat where "MAX_OBJECTS_PER_PULL = 8000000"
definition HAVE_BATCH :: nat where "HAVE_BATCH = 500000"
definition MAX_CONNECTIONS :: nat where "MAX_CONNECTIONS = 64"

section \<open>Files and a connection together\<close>

type_synonym 'a sync_io = "(world \<times> conn, error, 'a) comp"

definition disk :: "'a io \<Rightarrow> 'a sync_io" where
  "disk m = (\<lambda>(w, c). case m w of (r, w') \<Rightarrow> (r, w', c))"

definition wire :: "'a net \<Rightarrow> 'a sync_io" where
  "wire m = (\<lambda>(w, c). case m c of (r, c') \<Rightarrow> (r, w, c'))"

section \<open>The server's answers\<close>

definition read_u64 :: "bytes \<Rightarrow> error + 64 word" where
  "read_u64 frame =
     (if length frame < 8 then Inl (Sync ''short frame'') else Inr (of_nat (le_val (take 8 frame))))"

definition frame_payload :: "bytes \<Rightarrow> error + bytes" where
  "frame_payload frame =
     (case read_u64 frame of
        Inl e \<Rightarrow> Inl e
      | Inr n \<Rightarrow>
          (let len = unat n in
           if len = 0 then Inr []
           else if len > length frame - 8 then Inl (Sync ''truncated frame payload'')
           else Inr (take len (drop 8 frame))))"

definition with_len :: "bytes \<Rightarrow> bytes" where
  "with_len data = le 8 (length data) @ data"

definition have_bits :: "('z) crates_scheme \<Rightarrow> path \<Rightarrow> bytes \<Rightarrow> nat \<Rightarrow> bytes io" where
  "have_bits C root frame n =
     foldIO (\<lambda>out i.
       andThen (has_object C root (take 32 (drop (5 + i * 32) frame))) (\<lambda>b.
       ok (out @ [if b then CHR 0x01 else CHR 0x00]))) [] [0..<n]"

definition respond_frame :: "('z) crates_scheme \<Rightarrow> path \<Rightarrow> bytes \<Rightarrow> bytes io" where
  "respond_frame C root frame =
     (if frame = [] then fail (Sync ''unknown opcode'')
      else if code (hd frame) = OP_GET_HEAD then
        andThen (store_head C root) (\<lambda>head.
        ok (case head of Some h \<Rightarrow> CHR 0x01 # h | None \<Rightarrow> [CHR 0x00]))
      else if code (hd frame) = OP_GET_MANIFEST \<and> length frame = 33 then
        (let h = tl frame in
         andThen (has_manifest C root h) (\<lambda>has.
         andThen (if has then get_manifest_bytes C root h else ok []) (\<lambda>data.
         ok (with_len data))))
      else if code (hd frame) = OP_HAVE \<and> length frame \<ge> 5 then
        (let n = le_val (take 4 (drop 1 frame)) in
         if length frame \<noteq> 5 + n * 32 then fail (Sync ''malformed HAVE'')
         else have_bits C root frame n)
      else if code (hd frame) = OP_GET_OBJECT \<and> length frame = 33 then
        andThen (attempt (get_object C root (tl frame))) (\<lambda>r.
        ok (with_len (case r of Inr d \<Rightarrow> d | Inl _ \<Rightarrow> [])))
      else fail (Sync ''unknown opcode''))"

definition respond ::
    "('y) noise_scheme \<Rightarrow> ('z) crates_scheme \<Rightarrow> path \<Rightarrow> frame_io \<Rightarrow> bytes \<Rightarrow> frame_io sync_io" where
  "respond N C root io frame =
     andThen (disk (respond_frame C root frame)) (\<lambda>out. wire (write_frame N io out))"

section \<open>A connection to the server\<close>

text \<open>The loop ends: a frame takes at least four bytes and an answer reads none.\<close>

lemma wire_iff: "wire m (w, c) = (r, w', c') \<longleftrightarrow> m c = (r, c') \<and> w' = w"
  by (auto simp: wire_def split: prod.splits)

lemma disk_iff: "disk m (w, c) = (r, w', c') \<longleftrightarrow> m w = (r, w') \<and> c' = c"
  by (auto simp: disk_def split: prod.splits)

lemma keeps_send_all: "keeps (\<lambda>c. cn_in c = i) (send_all d)"
  by (simp add: keeps_def send_all_def)

lemma write_reads_nothing: "write_frame N io d c = (r, c') \<Longrightarrow> cn_in c' = cn_in c"
proof -
  note intros = keeps_intros keeps_send_all
  have send: "keeps (\<lambda>k. cn_in k = cn_in c) (send_sealed N s x)" for s x
    unfolding send_sealed_def noise_res_def write_msg_def by (intro intros)
  have "keeps (\<lambda>k. cn_in k = cn_in c) (write_frame N io d)"
    by (cases io) (auto simp: plain_write_frame_def secure_write_frame_def intro!: intros send)
  then show "write_frame N io d c = (r, c') \<Longrightarrow> cn_in c' = cn_in c" by (rule keepsD) simp_all
qed

lemma respond_reads_nothing: "respond N C root io d (w, c) = (r, w', c') \<Longrightarrow> cn_in c' = cn_in c"
  unfolding respond_def andThen_def
  by (auto simp: disk_iff wire_iff split: prod.splits sum.splits dest: write_reads_nothing)

lemma serve_progress:
  assumes "wire (read_frame N io) st = (Inr (frame, io1), st1)" "respond N C root io1 frame st1 = (r, st2)"
  shows "length (cn_in (snd st2)) < length (cn_in (snd st))"
proof -
  obtain w c where st: "st = (w, c)" by fastforce
  obtain w1 c1 where st1: "st1 = (w1, c1)" by fastforce
  obtain w2 c2 where st2: "st2 = (w2, c2)" by fastforce
  have "read_frame N io c = (Inr (frame, io1), c1)" using assms(1) st st1 by (simp add: wire_iff)
  then have "eats c 4 c1" using read_frame_Inr by blast
  then have "length (cn_in c1) + 4 \<le> length (cn_in c)" by (auto simp: eats_def)
  moreover have "cn_in c2 = cn_in c1" using assms(2) st1 st2 respond_reads_nothing by blast
  ultimately show ?thesis using st st2 by simp
qed

function serve_loop ::
    "('y) noise_scheme \<Rightarrow> ('z) crates_scheme \<Rightarrow> path \<Rightarrow> frame_io \<Rightarrow> unit sync_io" where
  "serve_loop N C root io st =
     (case wire (read_frame N io) st of
        (Inl e, st) \<Rightarrow> (Inr (), st)
      | (Inr (frame, io), st) \<Rightarrow>
          (if frame = [] then (Inr (), st)
           else case respond N C root io frame st of
             (Inl e, st) \<Rightarrow> (Inr (), st)
           | (Inr io, st) \<Rightarrow> serve_loop N C root io st))"
  by pat_completeness auto
termination
  by (relation "measure (\<lambda>(N, C, root, io, st). length (cn_in (snd st)))") (auto dest: serve_progress [OF sym sym])

declare serve_loop.simps [simp del]

definition respond_first ::
    "('y) noise_scheme \<Rightarrow> ('z) crates_scheme \<Rightarrow> path \<Rightarrow> bytes \<Rightarrow> frame_io sync_io" where
  "respond_first N C root magic =
     (let len = le_val magic in
      if len = 0 \<or> len > 64 * 1024 * 1024 then fail (Sync ''first frame length invalid'')
      else
        andThen (wire (read_exact len)) (\<lambda>first.
        respond N C root Plain first))"

text \<open>\<open>rnd\<close> is the entropy of the handshake.\<close>

definition serve_conn ::
    "('y) noise_scheme \<Rightarrow> ('z) crates_scheme \<Rightarrow> path \<Rightarrow> bytes \<Rightarrow> bytes option \<Rightarrow> unit sync_io" where
  "serve_conn N C root rnd psk =
     andThen (wire (read_exact 4)) (\<lambda>magic.
     andThen
       (if magic = PROTO_MAGIC then
          andThen (wire (read_exact 2)) (\<lambda>vm.
          if code (vm ! 0) \<noteq> PROTO_VERSION \<or> code (vm ! 1) \<noteq> MODE_NOISE then
            fail (Sync ''unsupported protocol selector'')
          else
            case psk of
              None \<Rightarrow> fail (Sync ''secured connection to an unsecured listener'')
            | Some key \<Rightarrow> andThen (wire (secure_accept N rnd key)) (\<lambda>s. ok (Secure s)))
        else if psk \<noteq> None then fail (Sync ''plaintext connection to a --psk listener'')
        else respond_first N C root magic) (\<lambda>io.
     serve_loop N C root io))"

section \<open>The listener\<close>

text \<open>
  The accept loop and its connection threads: \<open>ls_count\<close> is the atomic counter,
  \<open>ls_live\<close> the number of threads that serve a connection.
\<close>

record listener =
  ls_count :: nat
  ls_live :: nat

inductive listen_step :: "listener \<Rightarrow> listener \<Rightarrow> bool" where
  refused: "listen_step s s"
| over_capacity: "ls_count s \<ge> MAX_CONNECTIONS \<Longrightarrow> listen_step s s"
| spawned: "ls_count s < MAX_CONNECTIONS \<Longrightarrow>
    listen_step s (s\<lparr>ls_count := ls_count s + 1, ls_live := ls_live s + 1\<rparr>)"
| finished: "ls_live s > 0 \<Longrightarrow> listen_step s (s\<lparr>ls_count := ls_count s - 1, ls_live := ls_live s - 1\<rparr>)"

section \<open>Discovery\<close>

definition beacon :: "16 word \<Rightarrow> bool \<Rightarrow> bytes" where
  "beacon port secured = BEACON_MAGIC @ le 2 (unat port) @ [if secured then CHR 0x01 else CHR 0x00]"

record discovered_peer =
  dp_addr :: string
  dp_secured :: bool

text \<open>
  One datagram of at most 16 bytes from the address \<open>ip\<close>. Peers are equal when their
  addresses are, so a set keeps the first of each.
\<close>

definition discover_step :: "discovered_peer list \<Rightarrow> bytes \<times> string \<Rightarrow> discovered_peer list" where
  "discover_step found dgram =
     (let (buf, ip) = dgram; n = length buf in
      if (n = 7 \<or> n = 8) \<and> take 5 buf = BEACON_MAGIC then
        let port = le_val [buf ! 5, buf ! 6];
            secured = (n = 8 \<and> odd (code (buf ! 7)));
            p = \<lparr>dp_addr = ip @ '':'' @ dec port, dp_secured = secured\<rparr>
        in if dp_addr p \<in> dp_addr ` set found then found else p # found
      else found)"

definition discover :: "(bytes \<times> string) list \<Rightarrow> discovered_peer list" where
  "discover dgrams = foldl discover_step [] (map (\<lambda>(d, ip). (take 16 d, ip)) dgrams)"

section \<open>Pulling\<close>

record pull_report =
  pr_remote_head :: "hash option"
  pr_manifests :: "64 word"
  pr_objects :: "64 word"
  pr_skipped :: "64 word"

definition no_pull :: pull_report where
  "no_pull = \<lparr>pr_remote_head = None, pr_manifests = 0, pr_objects = 0, pr_skipped = 0\<rparr>"

definition exchange :: "('y) noise_scheme \<Rightarrow> frame_io \<Rightarrow> bytes \<Rightarrow> (bytes \<times> frame_io) sync_io" where
  "exchange N io req =
     andThen (wire (write_frame N io req)) (\<lambda>io. wire (read_frame N io))"

function pull_manifests ::
    "('y) noise_scheme \<Rightarrow> ('z) snap_crates_scheme \<Rightarrow> path \<Rightarrow> frame_io \<Rightarrow> hash list \<Rightarrow> hash list
       \<Rightarrow> pull_report \<Rightarrow> hash \<Rightarrow> (frame_io \<times> hash list \<times> pull_report) sync_io" where
  "pull_manifests N C root io visited needed rep cur =
     andThen (disk (has_manifest C root cur)) (\<lambda>has.
     if has then ok (io, needed, rep)
     else if cur \<in> set visited then fail (Sync ''manifest chain cycle'')
     else if length (cur # visited) > MAX_MANIFESTS_PER_PULL then fail (Sync ''manifest chain too long'')
     else
       andThen (exchange N io (char_of OP_GET_MANIFEST # cur)) (\<lambda>(resp, io).
       andThen (lift (frame_payload resp)) (\<lambda>data.
       if data = [] then fail (Sync (''remote missing manifest '' @ short C cur))
       else
         andThen (disk (put_manifest_as C root cur data)) (\<lambda>_.
         andThen (lift (deserialize C data)) (\<lambda>m.
         andThen (lift (validate m)) (\<lambda>_.
         let needed = needed @ concat (map fe_chunks (m_files m));
             rep = rep\<lparr>pr_manifests := pr_manifests rep + 1\<rparr> in
         if length needed > MAX_OBJECTS_PER_PULL then fail (Sync ''pull exceeds object cap'')
         else case m_parent m of
           Some p \<Rightarrow> pull_manifests N C root io (cur # visited) needed rep p
         | None \<Rightarrow> ok (io, needed, rep)))))))"
  by pat_completeness auto
termination
  by (relation "measure (\<lambda>(N, C, root, io, visited, needed, rep, cur). Suc MAX_MANIFESTS_PER_PULL - length visited)")
    auto

declare pull_manifests.simps [simp del]

definition pull_object ::
    "('y) noise_scheme \<Rightarrow> ('z) snap_crates_scheme \<Rightarrow> path \<Rightarrow> frame_io \<times> pull_report \<Rightarrow> hash \<times> char
       \<Rightarrow> (frame_io \<times> pull_report) sync_io" where
  "pull_object N C root st hb =
     (let (io, rep) = st; (h, have) = hb in
      andThen (if code have = 1 then andThen (disk (has_object C root h)) (\<lambda>b. ok (\<not> b)) else ok False) (\<lambda>fetch.
      if fetch then
        andThen (exchange N io (char_of OP_GET_OBJECT # h)) (\<lambda>(resp, io).
        andThen (lift (frame_payload resp)) (\<lambda>data.
        if data = [] then fail (Sync (''remote missing object '' @ short C h))
        else
          andThen (disk (put_object_as C root h data)) (\<lambda>_.
          ok (io, rep\<lparr>pr_objects := pr_objects rep + 1\<rparr>))))
      else ok (io, rep\<lparr>pr_skipped := pr_skipped rep + 1\<rparr>)))"

definition pull_batch ::
    "('y) noise_scheme \<Rightarrow> ('z) snap_crates_scheme \<Rightarrow> path \<Rightarrow> frame_io \<times> pull_report \<Rightarrow> hash list
       \<Rightarrow> (frame_io \<times> pull_report) sync_io" where
  "pull_batch N C root st batch =
     (let (io, rep) = st in
      andThen (exchange N io (char_of OP_HAVE # le 4 (length batch) @ concat batch)) (\<lambda>(have, io).
      if length have \<noteq> length batch then fail (Sync ''HAVE response truncated'')
      else foldIO (pull_object N C root) (io, rep) (zip batch have)))"

text \<open>A character outside ASCII becomes one underscore whatever its length in bytes.\<close>

definition sanitize :: "string \<Rightarrow> string" where
  "sanitize addr =
     map (\<lambda>c. if is_alnum c \<or> c = CHR ''.'' \<or> c = CHR ''-'' then c else CHR ''_'')
       (filter (\<lambda>c. \<not> utf8_cont c) addr)"

text \<open>\<open>dial\<close> is the result of \<open>TcpStream::connect\<close>: an error, or a connection.\<close>

definition open_io ::
    "('y) noise_scheme \<Rightarrow> ('z) snap_crates_scheme \<Rightarrow> string \<Rightarrow> ioerr option \<Rightarrow> bytes \<Rightarrow> string option
       \<Rightarrow> frame_io sync_io" where
  "open_io N C addr dial rnd psk =
     (case dial of
        Some e \<Rightarrow> fail (Sync (''connect '' @ addr @ '': '' @ io_text N e))
      | None \<Rightarrow>
          (case psk of
             Some p \<Rightarrow> andThen (wire (secure_connect N C rnd (derive_psk N p))) (\<lambda>s. ok (Secure s))
           | None \<Rightarrow> ok Plain))"

text \<open>After the walk: the missing objects and the file that records the remote head.\<close>

definition pull_objects ::
    "('y) noise_scheme \<Rightarrow> ('z) snap_crates_scheme \<Rightarrow> path \<Rightarrow> string \<Rightarrow> hash
       \<Rightarrow> frame_io \<times> hash list \<times> pull_report \<Rightarrow> pull_report sync_io" where
  "pull_objects N C root addr remote_head st =
     (let (io, needed, rep) = st; remotes = fabric_dir root @ [''remotes''] in
      andThen (foldIO (pull_batch N C root) (io, rep) (batches HAVE_BATCH (remdups_adj (sort needed)))) (\<lambda>(io, rep).
      andThen (disk (p_create_dir_all remotes)) (\<lambda>_.
      andThen (disk (p_write (remotes @ [sanitize addr]) (hash_hex C remote_head))) (\<lambda>_.
      ok rep))))"

definition pull_known ::
    "('y) noise_scheme \<Rightarrow> ('z) snap_crates_scheme \<Rightarrow> path \<Rightarrow> string \<Rightarrow> bytes \<Rightarrow> frame_io \<Rightarrow> pull_report sync_io" where
  "pull_known N C root addr resp io =
     (if length resp \<noteq> 33 \<or> code (resp ! 0) \<noteq> 1 then
       (if resp \<noteq> [] \<and> code (hd resp) = 0 then ok no_pull
        else fail (Sync ''malformed HEAD response''))
      else
        (let remote_head = tl resp; rep = no_pull\<lparr>pr_remote_head := Some remote_head\<rparr> in
         andThen (pull_manifests N C root io [] [] rep remote_head) (\<lambda>st.
         pull_objects N C root addr remote_head st)))"

definition pull ::
    "('y) noise_scheme \<Rightarrow> ('z) snap_crates_scheme \<Rightarrow> path \<Rightarrow> string \<Rightarrow> ioerr option \<Rightarrow> bytes
       \<Rightarrow> string option \<Rightarrow> pull_report sync_io" where
  "pull N C root addr dial rnd psk =
     andThen (open_io N C addr dial rnd psk) (\<lambda>io.
     andThen (exchange N io [char_of OP_GET_HEAD]) (\<lambda>(resp, io).
     pull_known N C root addr resp io))"

definition ensure_init :: "path \<Rightarrow> path io" where
  "ensure_init root =
     andThen (attempt (store_open root)) (\<lambda>r.
     case r of
       Inr s \<Rightarrow> ok s
     | Inl e \<Rightarrow> if e = NotInitialized then store_init root else fail e)"

section \<open>Length-prefixed payloads\<close>

lemma frame_payload_with_len [simp]: "length d < 2 ^ 64 \<Longrightarrow> frame_payload (with_len d) = Inr d"
  by (auto simp: frame_payload_def read_u64_def with_len_def Let_def unat_of_nat)

section \<open>A hostile peer\<close>

text \<open>A pull writes through the store, to \<open>remotes/\<close>, and nothing else.\<close>

lemma keeps_disk [keeps_intros]: "keeps I m \<Longrightarrow> keeps (\<lambda>st. I (fst st)) (disk m)"
  by (fastforce simp: keeps_def disk_def split: prod.splits)

lemma keeps_wire [keeps_intros]: "keeps (\<lambda>st. I (fst st)) (wire m)"
  by (auto simp: keeps_def wire_def split: prod.splits)

definition pull_inv :: "'z sel \<Rightarrow> path set \<Rightarrow> world \<Rightarrow> world \<Rightarrow> bool" where
  "pull_inv c X w0 w \<longleftrightarrow> store_kept c X w0 w \<and> (manifests_ok c w0 \<longrightarrow> manifests_ok c w)"

lemma framed_pull [simp]:
  assumes "apart c X"
  shows "framed c X (pull_inv c X w0)"
  unfolding framed_def
proof (intro conjI allI impI)
  show "apart c X" by (rule assms)
  fix w
  show "pull_inv c X w0 w \<Longrightarrow> sound (home c) w" by (auto simp: pull_inv_def dest: store_kept_sound)
  fix Y w'
  assume i: "pull_inv c X w0 w" and Y: "Y \<subseteq> X" "evolves (home c) Y w w'" "sound (home c) w'"
  have "\<And>h. manifest_at c h \<notin> Y" using Y(1) assms by (auto simp: apart_def blobs_iff)
  from manifests_frame [OF _ Y(2,3) this] store_kept_frame [OF _ Y(2,3,1) assms] i
  show "pull_inv c X w0 w'" by (auto simp: pull_inv_def)
qed

lemma manifests_ok_put_object:
  assumes "manifests_ok c w" "put_object (fst c) (snd c) d w = (r, w')"
  shows "manifests_ok c w'"
proof -
  note b = manifests_ok_base [OF assms(1)] and bf = store_base_facts [OF manifests_ok_base [OF assms(1)]]
  note res = put_blob_result [OF bf(1) bf(3) assms(2) [unfolded put_object_blob, folded object_at_def]]
  have s: "sound (home c) w'" "evolves (home c) {object_at c (hash_bytes (fst c) d)} w w'"
    using res evolves_mono [of "home c" "{}" w w'] by (auto simp: stays_def split: sum.splits)
  have "\<And>h. manifest_at c h \<notin> {object_at c (hash_bytes (fst c) d)}"
    by (metis object_manifest_at singletonD)
  from manifests_frame [OF assms(1) s(2,1) this] show ?thesis ..
qed

lemma keeps_pull_puts:
  "keeps (pull_inv c X w0) (put_object_as (fst c) (snd c) h d)"
  "keeps (pull_inv c X w0) (put_manifest_as (fst c) (snd c) h d)"
proof -
  have "keeps (pull_inv c X w0) (put_object (fst c) (snd c) d)"
    by (rule keepsI) (auto simp: pull_inv_def intro: store_kept_put_object manifests_ok_put_object)
  moreover have "keeps (pull_inv c X w0) (put_manifest (fst c) (snd c) d)"
    using man.put_inv [of c _ d] by (intro keepsI) (auto simp: pull_inv_def any_size_def intro: store_kept_put_manifest)
  ultimately show "keeps (pull_inv c X w0) (put_object_as (fst c) (snd c) h d)"
    "keeps (pull_inv c X w0) (put_manifest_as (fst c) (snd c) h d)"
    unfolding put_object_as_def put_manifest_as_def by (auto intro!: keeps_intros)
qed

lemma keeps_exchange: "keeps (\<lambda>st. I (fst st)) (exchange N io req)"
  unfolding exchange_def by (intro keeps_intros)

lemma keeps_pull_manifests:
  assumes "framed c X (pull_inv c X w0)"
  shows "keeps (\<lambda>st. pull_inv c X w0 (fst st)) (pull_manifests N (fst c) (snd c) io visited needed rep cur)"
proof (induction "Suc MAX_MANIFESTS_PER_PULL - length visited" arbitrary: io visited needed rep cur rule: less_induct)
  case less
  note step = keeps_intros keeps_exchange keeps_pull_puts framed_store_reads [OF assms]
  show ?case
    by (subst pull_manifests.simps, unfold Let_def) (intro step less.hyps, auto)
qed

lemma keeps_pull_object:
  assumes "framed c X (pull_inv c X w0)"
  shows "keeps (\<lambda>st. pull_inv c X w0 (fst st)) (pull_object N (fst c) (snd c) st hb)"
  unfolding pull_object_def Let_def
  by (intro keeps_intros keeps_exchange keeps_pull_puts framed_store_reads [OF assms])

lemma keeps_pull_batch:
  assumes "framed c X (pull_inv c X w0)"
  shows "keeps (\<lambda>st. pull_inv c X w0 (fst st)) (pull_batch N (fst c) (snd c) st batch)"
  unfolding pull_batch_def Let_def
  by (intro keeps_intros keeps_exchange keeps_pull_object [OF assms])

definition remote_file :: "'z sel \<Rightarrow> string \<Rightarrow> path" where
  "remote_file c addr = fabric_dir (snd c) @ [''remotes'', sanitize addr]"

lemma sanitize_chars: "d \<in> set (sanitize addr) \<Longrightarrow> is_alnum d \<or> d = CHR ''.'' \<or> d = CHR ''-'' \<or> d = CHR ''_''"
  by (auto simp: sanitize_def)

lemma sanitize_plain:
  assumes "CHR '':'' \<in> set addr"
  shows "plain_name (sanitize addr)" "CHR ''_'' \<in> set (sanitize addr)"
proof -
  have "CHR ''_'' = (\<lambda>c. if is_alnum c \<or> c = CHR ''.'' \<or> c = CHR ''-'' then c else CHR ''_'') (CHR '':'')"
    by (simp add: is_alnum_def digit_def is_upper_def code_def)
  moreover have "CHR '':'' \<in> set (filter (\<lambda>c. \<not> utf8_cont c) addr)"
    using assms by (simp add: utf8_cont_def code_def)
  ultimately show u: "CHR ''_'' \<in> set (sanitize addr)" unfolding sanitize_def set_map by blast
  have "CHR 0x00 \<notin> set (sanitize addr)" "slash \<notin> set (sanitize addr)"
    using sanitize_chars [of "CHR 0x00" addr] sanitize_chars [of slash addr]
    by (auto simp: is_alnum_def digit_def is_upper_def code_def)
  with u show "plain_name (sanitize addr)" by (auto simp: plain_name_def)
qed

text \<open>What \<open>connect\<close> accepts has a port after a colon; and it is no name of a temporary file.\<close>

definition addr_ok :: "string \<Rightarrow> bool" where
  "addr_ok addr \<longleftrightarrow> CHR '':'' \<in> set addr \<and> take 5 (sanitize addr) \<noteq> ''.tmp-''"

lemma remotes_dir:
  assumes "''..'' \<notin> set (snd c)"
  shows "inside (home c) (fabric_dir (snd c) @ [''remotes''])" "dir_place (home c) (fabric_dir (snd c) @ [''remotes''])"
  using assms by (simp_all add: inside_def dir_place_def store_dirs_def home_def fabric_dir_def FABRIC_DIR_def)

lemma remote_apart:
  assumes "addr_ok addr" "''..'' \<notin> set (snd c)"
  shows "apart c {remote_file c addr}"
proof (rule apart_short)
  fix p
  assume p: "p \<in> {remote_file c addr}"
  have "plain_name (sanitize addr)" using sanitize_plain assms(1) by (simp add: addr_ok_def)
  with p assms remotes_dir [OF assms(2)] show "slot (home c) p \<and> length p \<noteq> length (home c) + 3"
    by (auto simp: remote_file_def slot_def inside_def home_def is_tmp_def addr_ok_def plain_name_def butlast_append)
qed

lemma keeps_pull:
  assumes "addr_ok addr" "''..'' \<notin> set (snd c)"
  shows "keeps (\<lambda>st. pull_inv c {remote_file c addr} w0 (fst st)) (pull N (fst c) (snd c) addr dial rnd psk)"
proof -
  have fr: "framed c {remote_file c addr} (pull_inv c {remote_file c addr} w0)"
    by (rule framed_pull [OF remote_apart [OF assms]])
  have wr: "keeps (pull_inv c {remote_file c addr} w0) (p_write (fabric_dir (snd c) @ [''remotes'', sanitize addr]) d)" for d
    by (rule framed_write [OF fr]) (simp add: remote_file_def)
  show ?thesis
    unfolding pull_def pull_known_def pull_objects_def open_io_def Let_def append_assoc append.simps
    by (intro keeps_intros keeps_exchange keeps_pull_manifests [OF fr] keeps_pull_batch [OF fr]
        framed_create_dir [OF fr remotes_dir [OF assms(2)]] wr)
qed

section \<open>A successful pull in a calm world\<close>

definition frozen :: "'z sel \<Rightarrow> (hash \<Rightarrow> bytes option) \<Rightarrow> world \<Rightarrow> bool" where
  "frozen c M w \<longleftrightarrow> manifests_ok c w \<and> manifests c w = M"

lemma framed_frozen [simp]: "apart c X \<Longrightarrow> framed c X (frozen c M)"
  unfolding framed_def frozen_def
  by (auto dest: manifests_ok_base simp: store_base_def)
    (metis (no_types, lifting) apart_def blobs_iff manifests_frame subsetD)+

lemma exchange_world: "exchange N io req (w, k) = (r, w', k') \<Longrightarrow> w' = w"
  unfolding exchange_def andThen_def by (auto simp: wire_iff split: prod.splits sum.splits)

lemma has_manifest_calm:
  assumes "store_base c w" "calm w" "has_manifest (fst c) (snd c) h w = (r, w')"
  shows "r = Inr (entries w (manifest_at c h) \<noteq> None)" "same_env w w'" "wfs w' = wfs w"
proof -
  note bf = store_base_facts [OF assms(1)]
  have q: "query (\<lambda>fs. fs_exists fs (manifest_at c h)) w = (r, w')"
    using assms(3) by (simp add: has_manifest_def p_exists_def manifest_at_def)
  note qs = query_sound [OF bf(3) q]
  show "same_env w w'" using qs(2) [of "{}"] by (simp add: evolves_def)
  show "wfs w' = wfs w" by (rule qs(3))
  have "fs_exists (wfs w) (manifest_at c h) \<longleftrightarrow> entries w (manifest_at c h) \<noteq> None"
    using fs_exists_clean sound_facts(2,3) [OF bf(3)] slot_facts(1) [OF bf(2)] by (simp add: entries_def)
  with qs(4) assms(2) show "r = Inr (entries w (manifest_at c h) \<noteq> None)" by auto
qed

lemma put_manifest_as_new:
  assumes "manifests_ok c w" "entries w (manifest_at c h) = None"
    and "put_manifest_as (fst c) (snd c) h d w = (Inr u, w')"
  shows "manifests_ok c w'" "manifests c w' = (manifests c w)(h \<mapsto> d)" "same_env w w'"
proof -
  from assms(3) have h: "hash_bytes (fst c) d = h" and p: "put_manifest (fst c) (snd c) d w = (Inr h, w')"
    using manifests_put [OF assms(1), of d]
    by (auto simp: put_manifest_as_def andThen_Inr comp_eval split: if_splits)
  note b = manifests_ok_base [OF assms(1)] and bf = store_base_facts [OF manifests_ok_base [OF assms(1)]]
  from manifests_put [OF assms(1) p] obtain d' where
    ok: "manifests_ok c w'" "manifests c w' = (manifests c w)(h \<mapsto> d')" by blast
  from put_blob_result [OF bf(2) bf(3) p [unfolded put_manifest_blob, folded manifest_at_def]] assms(2) h
  have "file_data (entries w' (manifest_at c h)) = Some d" and ev: "evolves (home c) {manifest_at c h} w w'" by auto
  then have "manifests c w' h = Some d" by (simp add: manifests_def)
  with ok show "manifests_ok c w'" "manifests c w' = (manifests c w)(h \<mapsto> d)" by auto
  show "same_env w w'" by (rule evolves_env [OF ev])
qed

text \<open>Every manifest that is new since \<open>M0\<close> is valid and its parent is there, or is \<open>cur\<close>.\<close>

definition closed_upto ::
    "('z) snap_crates_scheme \<Rightarrow> (hash \<Rightarrow> bytes option) \<Rightarrow> (hash \<Rightarrow> bytes option) \<Rightarrow> hash set \<Rightarrow> bool" where
  "closed_upto C M0 M open \<longleftrightarrow> (\<forall>h d. M0 h = None \<longrightarrow> M h = Some d \<longrightarrow>
     (\<exists>m. deserialize C d = Inr m \<and> validate m = Inr ()
        \<and> (\<forall>p. m_parent m = Some p \<longrightarrow> p \<in> open \<or> M p \<noteq> None)))"

lemma closed_upto_insert:
  assumes "closed_upto C M0 M {cur}" "deserialize C d = Inr m" "validate m = Inr ()"
  shows "closed_upto C M0 (M(cur \<mapsto> d)) (case m_parent m of None \<Rightarrow> {} | Some p \<Rightarrow> {p})"
  unfolding closed_upto_def
proof (intro allI impI)
  let ?open = "case m_parent m of None \<Rightarrow> {} | Some p \<Rightarrow> {p}"
  fix h v
  assume h: "M0 h = None" "(M(cur \<mapsto> d)) h = Some v"
  show "\<exists>m. deserialize C v = Inr m \<and> validate m = Inr ()
      \<and> (\<forall>p. m_parent m = Some p \<longrightarrow> p \<in> ?open \<or> (M(cur \<mapsto> d)) p \<noteq> None)"
  proof (cases "h = cur")
    case True
    with h have "v = d" by simp
    moreover have "\<forall>p. m_parent m = Some p \<longrightarrow> p \<in> ?open" by auto
    ultimately show ?thesis using assms(2,3) by blast
  next
    case False
    with h(2) have "M h = Some v" by simp
    with h(1) assms(1) obtain m' where "deserialize C v = Inr m'" "validate m' = Inr ()"
      "\<forall>p. m_parent m' = Some p \<longrightarrow> p \<in> {cur} \<or> M p \<noteq> None" unfolding closed_upto_def by blast
    then show ?thesis by (intro exI [of _ m']) auto
  qed
qed

lemma pull_manifests_closed:
  assumes "manifests_ok c w" "calm w" "closed_upto (fst c) M0 (manifests c w) {cur}"
    and "pull_manifests N (fst c) (snd c) io visited needed rep cur (w, k) = (Inr x, w', k')"
  shows "manifests_ok c w' \<and> calm w' \<and> closed_upto (fst c) M0 (manifests c w') {} \<and> manifests c w' cur \<noteq> None
    \<and> (\<forall>h. manifests c w h \<noteq> None \<longrightarrow> manifests c w' h \<noteq> None)"
  using assms
proof (induction "Suc MAX_MANIFESTS_PER_PULL - length visited" arbitrary: io visited needed rep cur w k rule: less_induct)
  case less
  note b = manifests_ok_base [OF less.prems(1)]
  obtain has w1 where h: "has_manifest (fst c) (snd c) cur w = (Inr has, w1)"
    using has_manifest_calm(1) [OF b less.prems(2)] by (metis prod.exhaust)
  note hs = has_manifest_calm [OF b less.prems(2) h]
  have w1: "manifests_ok c w1" "manifests c w1 = manifests c w" "entries w1 = entries w" "calm w1"
    using hs less.prems(1,2) sound_same [OF store_base_facts(3) [OF b] hs(2,3)]
    by (auto simp: manifests_ok_def manifests_def store_base_def entries_def same_env_calm)
  have d: "disk (has_manifest (fst c) (snd c) cur) (w, k) = (Inr has, w1, k)" using h by (simp add: disk_iff)
  show ?case
  proof (cases has)
    case True
    then have "manifests c w cur \<noteq> None"
      using hs(1) less.prems(1) by (auto simp: manifests_ok_def)
    moreover from this less.prems(3) have "closed_upto (fst c) M0 (manifests c w) {}"
      unfolding closed_upto_def by (metis empty_iff singletonD)
    moreover have "w' = w1" using less.prems(4) True
      by (subst (asm) pull_manifests.simps) (simp add: d comp_eval)
    ultimately show ?thesis using w1 by simp
  next
    case False
    then have none: "entries w1 (manifest_at c cur) = None" using hs(1) w1(3) by simp
    from less.prems(4) False have len: "length (cur # visited) \<le> MAX_MANIFESTS_PER_PULL"
      by (subst (asm) pull_manifests.simps) (auto simp: d comp_eval split: if_splits)
    from less.prems(4) False len obtain resp io1 k1 data w2 m where
      ex: "exchange N io (char_of OP_GET_MANIFEST # cur) (w1, k) = (Inr (resp, io1), w1, k1)"
      and put: "put_manifest_as (fst c) (snd c) cur data w1 = (Inr (), w2)"
      and m: "deserialize (fst c) data = Inr m" "validate m = Inr ()"
      and rest: "(case m_parent m of
           Some p \<Rightarrow> pull_manifests N (fst c) (snd c) io1 (cur # visited) (needed @ concat (map fe_chunks (m_files m)))
             (rep\<lparr>pr_manifests := pr_manifests rep + 1\<rparr>) p
         | None \<Rightarrow> ok (io1, needed @ concat (map fe_chunks (m_files m)), rep\<lparr>pr_manifests := pr_manifests rep + 1\<rparr>)) (w2, k1)
         = (Inr x, w', k')"
      by (subst (asm) pull_manifests.simps)
        (auto simp: d comp_eval andThen_Inr disk_iff Let_def split: if_splits dest: exchange_world)
    note pm = put_manifest_as_new [OF w1(1) none put]
    have calm2: "calm w2" using pm(3) w1(4) by (simp add: same_env_calm)
    note cl = closed_upto_insert [OF less.prems(3) m]
    show ?thesis
    proof (cases "m_parent m")
      case None
      with rest pm calm2 cl w1(2) show ?thesis by (simp add: comp_eval)
    next
      case (Some p)
      with rest have run: "pull_manifests N (fst c) (snd c) io1 (cur # visited) (needed @ concat (map fe_chunks (m_files m)))
             (rep\<lparr>pr_manifests := pr_manifests rep + 1\<rparr>) p (w2, k1) = (Inr x, w', k')" by simp
      have "closed_upto (fst c) M0 (manifests c w2) {p}" using cl Some pm(2) w1(2) by simp
      from less.hyps [OF _ pm(1) calm2 this run] len have
        fin: "manifests_ok c w'" "calm w'" "closed_upto (fst c) M0 (manifests c w') {}"
          "\<And>h. manifests c w2 h \<noteq> None \<Longrightarrow> manifests c w' h \<noteq> None" by auto
      moreover have "manifests c w2 h \<noteq> None" if "h = cur \<or> manifests c w h \<noteq> None" for h
        using that pm(2) w1(2) by auto
      ultimately show ?thesis by blast
    qed
  qed
qed

lemma keeps_frozen_put:
  "keeps (frozen c M) (put_object_as (fst c) (snd c) h d)"
proof -
  have "keeps (frozen c M) (put_object (fst c) (snd c) d)"
  proof (rule keepsI)
    fix w r w'
    assume "frozen c M w" and run: "put_object (fst c) (snd c) d w = (r, w')"
    then have m: "manifests_ok c w" "manifests c w = M" by (simp_all add: frozen_def)
    note b = manifests_ok_base [OF m(1)] and bf = store_base_facts [OF manifests_ok_base [OF m(1)]]
    note res = put_blob_result [OF bf(1) bf(3) run [unfolded put_object_blob, folded object_at_def]]
    have s: "sound (home c) w'" "evolves (home c) {object_at c (hash_bytes (fst c) d)} w w'"
      using res evolves_mono [of "home c" "{}" w w'] by (auto simp: stays_def split: sum.splits)
    have "\<And>h. manifest_at c h \<notin> {object_at c (hash_bytes (fst c) d)}"
      by (metis object_manifest_at singletonD)
    from manifests_frame [OF m(1) s(2,1) this] m(2) show "frozen c M w'" by (simp add: frozen_def)
  qed
  then show ?thesis unfolding put_object_as_def by (auto intro!: keeps_intros)
qed

lemma keeps_frozen_batch:
  assumes "framed c X (frozen c M)"
  shows "keeps (\<lambda>st. frozen c M (fst st)) (pull_batch N (fst c) (snd c) st batch)"
proof -
  have "keeps (\<lambda>st. frozen c M (fst st)) (pull_object N (fst c) (snd c) st hb)" for st hb
    unfolding pull_object_def Let_def
    by (intro keeps_intros keeps_exchange keeps_frozen_put framed_store_reads [OF assms])
  then show ?thesis
    unfolding pull_batch_def Let_def by (intro keeps_intros keeps_exchange)
qed

text \<open>The head the peer named stays in the report.\<close>

lemma pull_manifests_head:
  "yields (pull_manifests N C root io visited needed rep cur) (\<lambda>x. pr_remote_head (snd (snd x)) = pr_remote_head rep)"
proof (induction "Suc MAX_MANIFESTS_PER_PULL - length visited" arbitrary: io visited needed rep cur rule: less_induct)
  case less
  have ih: "yields (pull_manifests N C root io' (cur # visited) n (rep\<lparr>pr_manifests := i\<rparr>) p)
      (\<lambda>x. pr_remote_head (snd (snd x)) = pr_remote_head rep)"
    if "\<not> length (cur # visited) > MAX_MANIFESTS_PER_PULL" for io' n i p
    using less [of "cur # visited" io' n "rep\<lparr>pr_manifests := i\<rparr>" p] that by simp
  show ?case
    by (subst pull_manifests.simps, unfold Let_def) (intro yields_intros ih, simp_all)
qed

lemma pull_batch_head:
  assumes "pr_remote_head (snd st) = h"
  shows "yields (pull_batch N C root st batch) (\<lambda>x. pr_remote_head (snd x) = h)"
proof -
  have "yields (pull_object N C root st hb) (\<lambda>x. pr_remote_head (snd x) = h)"
    if "pr_remote_head (snd st) = h" for st hb
    using that unfolding pull_object_def Let_def by (intro yields_intros) auto
  with assms show ?thesis
    unfolding pull_batch_def Let_def by (intro yields_intros yields_foldIO) auto
qed

lemma open_io_world: "open_io N C addr dial rnd psk (w, k) = (r, w', k') \<Longrightarrow> w' = w"
  by (auto simp: open_io_def andThen_def comp_eval wire_iff split: option.splits prod.splits sum.splits)

section \<open>A store with one manifest, and a peer that has it too\<close>

definition known_id :: hash where
  "known_id = ref_blake3 ''m''"

definition known :: world where
  "known = fresh_world (demo_fs @
     [([''.respawn'', ''manifests'', take 2 (ref_hex_encode known_id)], Dir),
      ([''.respawn'', ''manifests'', take 2 (ref_hex_encode known_id), drop 2 (ref_hex_encode known_id)],
        File ''m'' 0x1A4 0)])"

definition peer_conn :: conn where
  "peer_conn = idle_conn (le 4 33 @ CHR 0x01 # known_id)"

lemma known_entries: "entries known p = (if p = [] then Some Dir else map_of (demo_fs @
     [([''.respawn'', ''manifests'', take 2 (ref_hex_encode known_id)], Dir),
      ([''.respawn'', ''manifests'', take 2 (ref_hex_encode known_id), drop 2 (ref_hex_encode known_id)],
        File ''m'' 0x1A4 0)]) p)"
  by (simp add: known_def fresh_entries entry_at_def)

lemma known_sound: "sound [''.respawn''] known"
  unfolding known_def by (rule plain_fs_sound) (simp_all add: plain_fs_def demo_fs_def)

lemma known_base: "store_base snap_sel known"
  using known_sound ref_snap_facts(1) by (simp add: store_base_def home_def fabric_dir_def FABRIC_DIR_def)

lemma known_manifest_at:
  "manifest_at snap_sel h = [''.respawn'', ''manifests'', take 2 (ref_hex_encode h), drop 2 (ref_hex_encode h)]"
  by (simp add: manifest_at_def manifest_path_def fabric_dir_def FABRIC_DIR_def Let_def ref_snap_facts)

lemma known_manifest: "manifests snap_sel known known_id = Some ''m''"
  by (simp add: manifests_def known_manifest_at known_entries demo_fs_def)

lemma known_manifests_ok: "manifests_ok snap_sel known"
  unfolding manifests_ok_def
proof (intro conjI allI impI)
  show "store_base snap_sel known" by (rule known_base)
  fix h
  assume "entries known (manifest_at snap_sel h) \<noteq> None"
  then have "manifest_at snap_sel h = manifest_at snap_sel known_id"
    by (auto simp: known_manifest_at known_entries demo_fs_def split: if_splits)
  with store_base_facts(5) [OF known_base] have "h = known_id" by blast
  with known_manifest show "\<exists>d. manifests snap_sel known h = Some d \<and> hash_bytes (fst snap_sel) d = h"
    by (simp add: ref_snap_facts known_id_def)
qed

section \<open>The first message of a handshake\<close>

lemma le_of_val: "le (length b) (le_val b) = b"
  by (induction b) (simp_all add: code_def)

lemma read_exact_bytes: "read_exact n c = (Inr b, c') \<Longrightarrow> length b = n \<and> cn_in c = b @ cn_in c'"
  by (auto simp: read_exact_def split: if_splits)

lemma read_msg_bytes:
  assumes "read_msg cap c = (Inr d, c')"
  shows "cn_in c = le 4 (length d) @ d @ cn_in c'"
proof -
  from assms obtain b c1 where b: "read_exact 4 c = (Inr b, c1)" and d: "read_exact (le_val b) c1 = (Inr d, c')"
    by (auto simp: read_msg_def andThen_Inr comp_eval Let_def split: if_splits)
  from read_exact_bytes [OF b] read_exact_bytes [OF d]
  have "length b = 4" "length d = le_val b" "cn_in c = b @ d @ cn_in c'" by auto
  with le_of_val [of b] show ?thesis by simp
qed

lemma read_msg_out: "keeps (\<lambda>c. cn_out c = i) (read_msg cap)"
proof -
  have "keeps (\<lambda>c. cn_out c = i) (read_exact n)" for n by (simp add: keeps_def read_exact_def)
  then show ?thesis unfolding read_msg_def Let_def by (intro keeps_intros)
qed

section \<open>Properties\<close>

text \<open>C19: Whatever bytes a peer sends, over either transport, and wherever the pull stops, the
  worktree and HEAD are untouched, every object and every genuine manifest of the store is
  still there (or a hash collision is at hand), and the manifests stored all carry their hash.\<close>

theorem pull_hostile_peer:
  assumes "store_base c w" "addr_ok addr"
    and "pull N (fst c) (snd c) addr dial rnd psk (w, k) = (r, w', k')"
  shows "(\<forall>p. \<not> prefix (home c) p \<longrightarrow> \<not> prefix p (home c) \<longrightarrow> entries w' p = entries w p)
    \<and> file_data (entries w' (head_path (snd c))) = file_data (entries w (head_path (snd c)))
    \<and> (\<forall>h d. objects c w h = Some d \<longrightarrow> objects c w' h = Some d \<or> collides (fst c) d)
    \<and> (\<forall>h d. manifests c w h = Some d \<longrightarrow> hash_bytes (fst c) d = h \<longrightarrow>
          manifests c w' h = Some d \<or> collides (fst c) d)
    \<and> (manifests_ok c w \<longrightarrow> manifests_ok c w')"
proof -
  let ?X = "{remote_file c addr}"
  have d: "''..'' \<notin> set (snd c)" using assms(1) by (simp add: store_base_def)
  have "pull_inv c ?X w w" using assms(1) by (simp add: pull_inv_def store_kept_refl)
  with keepsD [OF keeps_pull [OF assms(2) d] _ assms(3)] have i: "pull_inv c ?X w w'" by simp
  then have k: "store_kept c ?X w w'" by (simp add: pull_inv_def)
  have "head_path (snd c) \<notin> ?X" "\<not> is_tmp (head_path (snd c))" "head_path (snd c) \<notin> blobs c"
    using blob_length [of "head_path (snd c)" c]
    by (auto simp: remote_file_def head_path_def is_tmp_def home_def)
  with store_kept_data [OF k] store_kept_outside [OF k] k i show ?thesis
    by (simp add: pull_inv_def store_kept_def)
qed

text \<open>C22: The server's answer to any frame changes no file, and the answer to a request for an object
  carries, in any world, either nothing or bytes that hash to the requested name.\<close>

theorem respond_frame_verified:
  assumes "quiet w" "respond_frame C root frame w = (r, w')"
  shows "wfs w' = wfs w
    \<and> (\<forall>out. r = Inr out \<longrightarrow> code (hd frame) = OP_GET_OBJECT \<longrightarrow>
        (\<exists>d. frame_payload out = Inr d \<and> (d = [] \<or> hash_bytes C d = tl frame)))"
proof
  have "keeps (still w) (respond_frame C root frame)"
    unfolding respond_frame_def have_bits_def Let_def
    by (intro keeps_intros inert_store_reads inert_still)
  from keepsD [OF this _ assms(2)] assms(1) show "wfs w' = wfs w" by (simp add: still_def)
  show "\<forall>out. r = Inr out \<longrightarrow> code (hd frame) = OP_GET_OBJECT \<longrightarrow>
        (\<exists>d. frame_payload out = Inr d \<and> (d = [] \<or> hash_bytes C d = tl frame))"
  proof (intro allI impI)
    fix out
    assume r: "r = Inr out" and op: "code (hd frame) = OP_GET_OBJECT"
    with assms(2) obtain q w1 where g: "get_object C root (tl frame) w = (q, w1)"
      and out: "out = with_len (case q of Inr d \<Rightarrow> d | Inl _ \<Rightarrow> [])"
      by (auto simp: respond_frame_def OP_GET_HEAD_def OP_GET_MANIFEST_def OP_HAVE_def OP_GET_OBJECT_def
          andThen_Inr comp_eval split: if_splits)
    show "\<exists>d. frame_payload out = Inr d \<and> (d = [] \<or> hash_bytes C d = tl frame)"
    proof (cases q)
      case (Inl e)
      with out show ?thesis by simp
    next
      case (Inr d)
      with g have v: "hash_bytes C d = tl frame" "length d \<le> MAX_OBJECT_SIZE"
        using get_object_verified by (fastforce simp: object_fits_def)+
      then have "length d < 2 ^ 64" by (simp add: MAX_OBJECT_SIZE_def CDC_MAX_def)
      with v out Inr show ?thesis by simp
    qed
  qed
qed

text \<open>C20: A pull that succeeds in a calm world leaves a complete history: the head the peer named is
  in the store, and every manifest that is new is valid and has its parent in the store.\<close>

theorem pull_history_complete:
  assumes "manifests_ok c w" "calm w" "addr_ok addr"
    and "pull N (fst c) (snd c) addr dial rnd psk (w, k) = (Inr rep, w', k')" "pr_remote_head rep = Some rh"
  shows "manifests c w' rh \<noteq> None
    \<and> (\<forall>h d. manifests c w h = None \<longrightarrow> manifests c w' h = Some d \<longrightarrow>
        (\<exists>m. deserialize (fst c) d = Inr m \<and> validate m = Inr ()
          \<and> (\<forall>p. m_parent m = Some p \<longrightarrow> manifests c w' p \<noteq> None)))"
proof -
  let ?X = "{remote_file c addr}"
  note b = manifests_ok_base [OF assms(1)]
  have d: "''..'' \<notin> set (snd c)" using b by (simp add: store_base_def)
  have fr: "framed c ?X (frozen c M)" for M by (rule framed_frozen [OF remote_apart [OF assms(3) d]])
  from assms(4) obtain io w0 k1 where o: "open_io N (fst c) addr dial rnd psk (w, k) = (Inr io, w0, k1)"
    and more: "andThen (exchange N io [char_of OP_GET_HEAD]) (\<lambda>(resp, io).
        pull_known N (fst c) (snd c) addr resp io) (w0, k1) = (Inr rep, w', k')"
    unfolding pull_def by (auto simp: andThen_Inr)
  have w0: "w0 = w" by (rule open_io_world [OF o])
  from more w0 obtain resp io1 w1 k2 where e: "exchange N io [char_of OP_GET_HEAD] (w, k1) = (Inr (resp, io1), w1, k2)"
    and known1: "pull_known N (fst c) (snd c) addr resp io1 (w1, k2) = (Inr rep, w', k')"
    by (auto simp: andThen_Inr)
  have known: "pull_known N (fst c) (snd c) addr resp io1 (w, k2) = (Inr rep, w', k')"
    using known1 exchange_world [OF e] by simp
  let ?rh = "tl resp"
  let ?rest = "\<lambda>x. pull_objects N (fst c) (snd c) addr ?rh x"
  from known assms(5) obtain x w3 k3 where
    man: "pull_manifests N (fst c) (snd c) io1 [] [] (no_pull\<lparr>pr_remote_head := Some ?rh\<rparr>) ?rh (w, k2) = (Inr x, w3, k3)"
    and rest: "?rest x (w3, k3) = (Inr rep, w', k')"
    by (auto simp: pull_known_def comp_eval no_pull_def Let_def split: if_splits elim!: andThen_InrE)
  have "closed_upto (fst c) (manifests c w) (manifests c w) {?rh}" by (simp add: closed_upto_def)
  note cl = pull_manifests_closed [OF assms(1,2) this man]
  have wr: "keeps (frozen c M) (p_write (fabric_dir (snd c) @ [''remotes'', sanitize addr]) v)" for M v
    by (rule framed_write [OF fr]) (simp add: remote_file_def)
  have "keeps (\<lambda>st. frozen c (manifests c w3) (fst st)) (?rest x)"
    unfolding pull_objects_def Let_def append_assoc append.simps
    by (intro keeps_intros keeps_frozen_batch [OF fr] framed_create_dir [OF fr remotes_dir [OF d]] wr)
  from keepsD [OF this _ rest] cl have m: "manifests c w' = manifests c w3" by (simp add: frozen_def)
  obtain io3 needed rep3 where x: "x = (io3, needed, rep3)" by (cases x)
  have h3: "pr_remote_head rep3 = Some ?rh" using yieldsD [OF pull_manifests_head man] x by simp
  have "yields (foldIO (pull_batch N (fst c) (snd c)) (io3, rep3) (batches HAVE_BATCH (remdups_adj (sort needed))))
      (\<lambda>y. pr_remote_head (snd y) = Some ?rh)"
    by (rule yields_foldIO) (simp_all add: h3 pull_batch_head)
  then have "yields (?rest x) (\<lambda>r. pr_remote_head r = Some ?rh)"
    unfolding x pull_objects_def Let_def prod.case
    by (rule yields_andThen_value) (auto intro!: yields_intros)
  from yieldsD [OF this rest] assms(5) have "rh = ?rh" by simp
  with cl m show ?thesis by (auto simp: closed_upto_def)
qed

lemma known_pull:
  obtains rep w' k' where "pull ref_noise (fst snap_sel) (snd snap_sel) ''a:1'' None [] None (known, peer_conn) = (Inr rep, w', k')"
    "pr_remote_head rep = Some known_id"
proof -
  have l: "length known_id = 32" by (simp add: known_id_def ref_blake3_def)
  obtain c1 where w: "plain_write_frame [char_of OP_GET_HEAD] peer_conn = (Inr (), c1)"
    and c1: "cn_in c1 = le 4 33 @ CHR 0x01 # known_id"
    by (simp add: plain_write_frame_def send_all_def peer_conn_def idle_conn_def)
  let ?resp = "CHR 0x01 # known_id"
  have r: "plain_read_frame c1 = (Inr ?resp, c1\<lparr>cn_in := []\<rparr>)"
    using takesD [OF takes_plain [of ?resp], of c1 "[]"] c1 l by (simp add: MAX_FRAME_def)
  have ex: "exchange ref_noise Plain [char_of OP_GET_HEAD] (known, peer_conn) = (Inr (?resp, Plain), known, c1\<lparr>cn_in := []\<rparr>)"
    by (simp add: exchange_def wire_def andThen_def comp_eval w r)
  have cm: "calm known" by (simp add: known_def)
  obtain hr w1 where h: "has_manifest (fst snap_sel) (snd snap_sel) known_id known = (hr, w1)" by fastforce
  note hs = has_manifest_calm [OF known_base cm h]
  have "entries known (manifest_at snap_sel known_id) \<noteq> None"
    using known_manifest by (auto simp: manifests_def file_data_Some)
  with hs(1) have "hr = Inr True" by simp
  with h have man: "pull_manifests ref_noise (fst snap_sel) (snd snap_sel) Plain [] [] rep known_id (known, k)
      = (Inr (Plain, [], rep), w1, k)" for rep k
    by (subst pull_manifests.simps) (simp add: disk_def andThen_def comp_eval)
  have w1: "calm w1" "sound [''.respawn''] w1" "entries w1 = entries known"
    using hs(2,3) cm known_sound by (auto simp: same_env_calm entries_def intro: sound_same)
  let ?dir = "[''.respawn'', ''remotes'']" and ?p = "[''.respawn'', ''remotes'', ''a_1'']"
  obtain r2 w2 where d: "p_create_dir_all ?dir w1 = (r2, w2)" by fastforce
  have ins: "inside [''.respawn''] ?dir" "inside [''.respawn''] ?p" by (simp_all add: inside_def)
  note ds = p_create_dir_all_sound [OF w1(2) ins(1) d]
  have dirs: "entries w1 q = None \<or> entries w1 q = Some Dir" if "prefix q ?dir" for q
    using that by (auto simp: w1(3) known_entries demo_fs_def prefix_Cons)
  have r2: "r2 = Inr ()" by (rule ds(5) [OF w1(1) dirs])
  have e2: "entries w2 ?dir = Some Dir" using ds(4) [OF r2, of ?dir] by simp
  have "entries w1 ?p = None" by (simp add: w1(3) known_entries demo_fs_def)
  with ds(6) [of ?p] have e3: "entries w2 ?p \<noteq> Some Dir" by (auto simp: prefix_Cons)
  have "calm w2" using evolves_calm [OF ds(2)] w1(1) by (simp add: dir_place_def store_dirs_def)
  from p_write_calm [OF ds(1) ins(2) this _ _ e3] e2 obtain w3 where
    wr: "p_write ?p (hash_hex (fst snap_sel) known_id) w2 = (Inr (), w3)" by auto
  have "sanitize ''a:1'' = ''a_1''"
    by (simp add: sanitize_def is_alnum_def digit_def is_upper_def utf8_cont_def code_def)
  with man d r2 wr have "pull_known ref_noise (fst snap_sel) (snd snap_sel) ''a:1'' ?resp Plain (known, c1\<lparr>cn_in := []\<rparr>)
      = (Inr (no_pull\<lparr>pr_remote_head := Some known_id\<rparr>), w3, c1\<lparr>cn_in := []\<rparr>)"
    using l by (simp add: pull_known_def pull_objects_def Let_def comp_eval andThen_def disk_def batches.simps
        fabric_dir_def FABRIC_DIR_def code_def)
  with ex have "pull ref_noise (fst snap_sel) (snd snap_sel) ''a:1'' None [] None (known, peer_conn)
      = (Inr (no_pull\<lparr>pr_remote_head := Some known_id\<rparr>), w3, c1\<lparr>cn_in := []\<rparr>)"
    by (simp add: pull_def open_io_def)
  then show thesis by (rule that) simp
qed

theorem pull_history_complete_witness:
  "\<exists>rep w' k'. pull ref_noise ref_snap_crates [] ''a:1'' None [] None (known, peer_conn) = (Inr rep, w', k')
     \<and> manifests snap_sel w' known_id \<noteq> None"
proof -
  obtain rep w' k' where p: "pull ref_noise (fst snap_sel) (snd snap_sel) ''a:1'' None [] None (known, peer_conn) = (Inr rep, w', k')"
    "pr_remote_head rep = Some known_id" by (rule known_pull)
  have "addr_ok ''a:1''" "calm known"
    by (simp_all add: addr_ok_def sanitize_def is_alnum_def digit_def is_upper_def utf8_cont_def code_def known_def)
  with pull_history_complete [OF known_manifests_ok _ _ p] p show ?thesis by auto
qed

theorem pull_hostile_peer_witness:
  "\<exists>r w' k'. pull ref_noise ref_snap_crates [] ''a:1'' None [] (Some ''pw'') (known, idle_conn ''junk'') = (r, w', k')
     \<and> file_data (entries w' (head_path [])) = file_data (entries known (head_path [])) \<and> manifests_ok snap_sel w'"
proof -
  obtain r w' k' where p: "pull ref_noise (fst snap_sel) (snd snap_sel) ''a:1'' None [] (Some ''pw'') (known, idle_conn ''junk'')
      = (r, w', k')" by (metis prod.collapse)
  have "addr_ok ''a:1''"
    by (simp add: addr_ok_def sanitize_def is_alnum_def digit_def is_upper_def utf8_cont_def code_def)
  from pull_hostile_peer [OF known_base this p] p known_manifests_ok show ?thesis by auto
qed

theorem respond_frame_verified_witness:
  "\<exists>r w'. respond_frame ref_snap_crates [] (CHR 0x04 # replicate 32 CHR ''x'') known = (r, w') \<and> wfs w' = wfs known"
proof -
  obtain r w' where p: "respond_frame ref_snap_crates [] (CHR 0x04 # replicate 32 CHR ''x'') known = (r, w')" by fastforce
  have "quiet known" by (simp add: known_def)
  from respond_frame_verified [OF this p] p show ?thesis by blast
qed

text \<open>The name under which a peer's head is recorded is one plain path component whatever the
  address, so that nothing in an address can leave the directory of remotes.\<close>

theorem sanitize_confined:
  assumes "CHR '':'' \<in> set addr"
  shows "plain_name (sanitize addr) \<and> (\<forall>d \<in> set (sanitize addr). is_alnum d \<or> d \<in> set ''.-_'')"
  using sanitize_plain(1) [OF assms] sanitize_chars [of _ addr] by auto

theorem sanitize_confined_witness:
  "plain_name (sanitize ''../../x:1'') \<and> sanitize ''../../x:1'' = ''.._.._x_1''"
  using sanitize_confined [of "''../../x:1''"]
  by (simp add: sanitize_def is_alnum_def digit_def is_upper_def utf8_cont_def code_def)

text \<open>A beacon is understood: the datagram a listener broadcasts is discovered as its address with
  the port and the transport it announced.\<close>

theorem beacon_discovered:
  "discover [(beacon port secured, ip)] = [\<lparr>dp_addr = ip @ '':'' @ dec (unat port), dp_secured = secured\<rparr>]"
proof -
  have l: "le 2 (unat port) = [char_of (unat port mod 256), char_of (unat port div 256 mod 256)]"
    by (simp add: numeral_2_eq_2)
  have "unat port < 256 ^ 2" using unsigned_less [of port] by simp
  then have "le_val (le 2 (unat port)) = unat port" by simp
  then have v: "le_val [char_of (unat port mod 256), char_of (unat port div 256 mod 256)] = unat port"
    unfolding l .
  have "beacon port secured = ''SFAB1'' @ [char_of (unat port mod 256), char_of (unat port div 256 mod 256),
      if secured then CHR 0x01 else CHR 0x00]" unfolding beacon_def BEACON_MAGIC_def l by simp
  with v show ?thesis
    by (simp add: discover_def discover_step_def BEACON_MAGIC_def Let_def code_def del: le_val.simps)
qed

text \<open>C21: With a key the listener sends nothing, and reads no file, before a client's handshake has been
  accepted under that key: a plain client, or one with another key, gets no byte.\<close>

theorem secured_listener_silent:
  assumes "serve_conn N C root rnd (Some key) (w, k) = (r, w', k')" "cn_out k' \<noteq> cn_out k \<or> w' \<noteq> w"
  shows "\<exists>first reply s rest. hs_answer N key rnd first = Inr (reply, s)
     \<and> cn_in k = PROTO_MAGIC @ [CHR 0x02, CHR 0x01] @ le 4 (length first) @ first @ rest"
proof -
  obtain m k1 where m: "read_exact 4 k = (m, k1)" by fastforce
  have o1: "cn_out k1 = cn_out k" using m by (auto simp: read_exact_def split: if_splits)
  have "m \<noteq> Inl e" for e
    using assms m o1 by (auto simp: serve_conn_def wire_def andThen_def)
  then obtain magic where magic: "m = Inr magic" by (cases m) auto
  have mg: "magic = PROTO_MAGIC"
    using assms m o1 magic by (auto simp: serve_conn_def wire_def andThen_def comp_eval split: if_splits)
  obtain v k2 where v: "read_exact 2 k1 = (v, k2)" by fastforce
  have o2: "cn_out k2 = cn_out k" using v o1 by (auto simp: read_exact_def split: if_splits)
  have "v \<noteq> Inl e" for e
    using assms m magic mg v o2 by (auto simp: serve_conn_def wire_def andThen_def)
  then obtain vm where vm: "v = Inr vm" by (cases v) auto
  have vc: "code (vm ! 0) = PROTO_VERSION" "code (vm ! 1) = MODE_NOISE"
    using assms m magic mg v vm o2 by (auto simp: serve_conn_def wire_def andThen_def comp_eval split: if_splits)
  obtain f k3 where f: "read_msg MAX_HS_MSG k2 = (f, k3)" by fastforce
  have o3: "cn_out k3 = cn_out k" using keepsD [OF read_msg_out [of "cn_out k"] o2 f] .
  have "f \<noteq> Inl e" for e
    using assms m magic mg v vm vc f o3
    by (auto simp: serve_conn_def wire_def andThen_def secure_accept_def hs_responder_def)
  then obtain first where first: "f = Inr first" by (cases f) auto
  have "hs_answer N key rnd first \<noteq> Inl e" for e
    using assms m magic mg v vm vc f first o3
    by (auto simp: serve_conn_def wire_def andThen_def comp_eval secure_accept_def hs_responder_def noise_res_def)
  then obtain reply s where ans: "hs_answer N key rnd first = Inr (reply, s)"
    by (cases "hs_answer N key rnd first") auto
  have "cn_in k = magic @ vm @ le 4 (length first) @ first @ cn_in k3" "length vm = 2"
    using read_msg_bytes [OF f [unfolded first]] read_exact_bytes [OF m [unfolded magic]]
      read_exact_bytes [OF v [unfolded vm]] by auto
  moreover from this(2) obtain a b where "vm = [a, b]" by (auto simp: length_Suc_conv numeral_2_eq_2)
  with vc have "vm = [CHR 0x02, CHR 0x01]"
    by (auto simp: PROTO_VERSION_def MODE_NOISE_def code_def simp flip: code_inject)
  ultimately show ?thesis using ans mg by auto
qed

text \<open>A crate whose responder accepts exactly a first message that repeats the key.\<close>

definition key_noise :: noise where
  "key_noise = ref_noise\<lparr>hs_answer := (\<lambda>psk r m. if m = psk then Inr (''ok'', ref_session) else Inl ''bad key'')\<rparr>"

lemma takes_wire: "takes m bs v \<Longrightarrow> cn_in c = bs @ rest \<Longrightarrow> wire m (w, c) = (Inr v, w, c\<lparr>cn_in := rest\<rparr>)"
  by (simp add: wire_def takesD)

theorem secured_listener_silent_witness:
  "\<exists>k r w' k'. serve_conn key_noise ref_snap_crates [] [] (Some ''pw'') (known, k) = (r, w', k')
     \<and> cn_out k = [] \<and> cn_out k' = le 4 2
     \<and> (\<exists>first reply s. hs_answer key_noise ''pw'' [] first = Inr (reply, s))"
proof -
  let ?k = "(idle_conn (''SFAB'' @ [CHR 0x02, CHR 0x01] @ le 4 2 @ ''pw''))\<lparr>cn_room := 4\<rparr>"
  have in0: "cn_in ?k = ''SFAB'' @ [CHR 0x02, CHR 0x01] @ le 4 2 @ ''pw''" by (simp add: idle_conn_def)
  note a = takes_wire [OF takes_read_exact [of "''SFAB''" 4] in0, of known]
  let ?k1 = "?k\<lparr>cn_in := [CHR 0x02, CHR 0x01] @ le 4 2 @ ''pw''\<rparr>"
  have in1: "cn_in ?k1 = [CHR 0x02, CHR 0x01] @ le 4 2 @ ''pw''" by simp
  note b = takes_wire [OF takes_read_exact [of "[CHR 0x02, CHR 0x01]" 2] in1, of known]
  let ?k2 = "?k\<lparr>cn_in := le 4 2 @ ''pw''\<rparr>"
  have in2: "cn_in ?k2 = (le 4 2 @ ''pw'') @ []" by simp
  have "takes (read_msg MAX_HS_MSG) (le 4 (length ''pw'') @ ''pw'') ''pw''"
    by (rule takes_read_msg) (simp_all add: MAX_HS_MSG_def)
  then have "takes (read_msg MAX_HS_MSG) (le 4 2 @ ''pw'') ''pw''" by (simp add: numeral_2_eq_2)
  from takesD [OF this in2] have c: "read_msg MAX_HS_MSG ?k2 = (Inr ''pw'', ?k\<lparr>cn_in := []\<rparr>)" by simp
  have "write_msg ''ok'' (?k\<lparr>cn_in := []\<rparr>) = (Inl (Io (OtherIo ''broken pipe'')), ?k\<lparr>cn_in := [], cn_out := le 4 2, cn_room := 0\<rparr>)"
    by (simp add: write_msg_def PLAINTEXT_MSG_def send_all_def idle_conn_def andThen_def numeral_2_eq_2)
  with c have d: "secure_accept key_noise [] ''pw'' ?k2
      = (Inl (Io (OtherIo ''broken pipe'')), ?k\<lparr>cn_in := [], cn_out := le 4 2, cn_room := 0\<rparr>)"
    by (simp add: secure_accept_def hs_responder_def noise_res_def key_noise_def)
  have d': "wire (secure_accept key_noise [] ''pw'') (known, ?k2)
      = (Inl (Io (OtherIo ''broken pipe'')), known, ?k\<lparr>cn_in := [], cn_out := le 4 2, cn_room := 0\<rparr>)"
    using d by (simp add: wire_def)
  have p: "serve_conn key_noise ref_snap_crates [] [] (Some ''pw'') (known, ?k)
      = (Inl (Io (OtherIo ''broken pipe'')), known, ?k\<lparr>cn_in := [], cn_out := le 4 2, cn_room := 0\<rparr>)"
    using a b d' by (simp add: serve_conn_def PROTO_MAGIC_def PROTO_VERSION_def MODE_NOISE_def code_def)
  have o: "cn_out ?k = []" by (simp add: idle_conn_def)
  have "le 4 2 \<noteq> []" by (metis length_le list.size(3) numeral_neq_zero)
  with o have "cn_out (?k\<lparr>cn_in := [], cn_out := le 4 2, cn_room := 0\<rparr>) \<noteq> cn_out ?k \<or> known \<noteq> known" by simp
  from secured_listener_silent [OF p this]
  have "\<exists>first reply s. hs_answer key_noise ''pw'' [] first = Inr (reply, s)" by blast
  moreover have "cn_out (?k\<lparr>cn_in := [], cn_out := le 4 2, cn_room := 0\<rparr>) = le 4 2" by simp
  ultimately show ?thesis using p o by blast
qed

end
