(* ===== verification/Fleet.thy ===== *)
theory Fleet
  imports Purge Sync
begin

text \<open>
  \<open>src/fleet.rs\<close>: signed orders that tell every peer of a fabric which snapshot to return to.
  Shown: an order that is not signed by the pinned key, or is for another fabric, or is older than
  the last one applied, changes nothing; and what is recorded after an order has been carried out
  makes every older order stale.
\<close>

section \<open>The documents\<close>

record order_payload =
  op_kind :: string
  op_fabric_id :: string
  op_target :: string
  op_ts :: "64 word"
  op_nonce :: string

record fleet_order =
  fo_format :: string
  fo_pubkey :: string
  fo_payload :: string
  fo_sig :: string

record fleet_crates = purge_crates +
  json_order :: "order_payload \<Rightarrow> string + string"
  read_order :: "string \<Rightarrow> string + order_payload"
  json_order_doc :: "fleet_order \<Rightarrow> string + bytes"
  read_order_doc :: "bytes \<Rightarrow> string + fleet_order"

definition FLEET_KEY_FILE :: string where "FLEET_KEY_FILE = ''fleet.pub''"
definition FLEET_SEEN_FILE :: string where "FLEET_SEEN_FILE = ''fleet_seen''"

definition fleet_key_path :: "path \<Rightarrow> path" where
  "fleet_key_path root = fabric_dir root @ [FLEET_KEY_FILE]"

definition fleet_seen_path :: "path \<Rightarrow> path" where
  "fleet_seen_path root = fabric_dir root @ [FLEET_SEEN_FILE]"

section \<open>Pinning the key\<close>

definition fleet_trust :: "('z) audit_crates_scheme \<Rightarrow> path \<Rightarrow> string \<Rightarrow> unit io" where
  "fleet_trust C root key =
     (if length key \<noteq> 64 \<or> hex_decode C key = None then fail (Corrupt ''fleet pubkey must be 64 hex chars'')
      else
        let path = fleet_key_path root in
        andThen (p_exists path) (\<lambda>ex.
        if ex then
          andThen (p_read_to_string path) (\<lambda>cur.
          if trim cur = key then ok ()
          else fail (Corrupt (''fleet key already pinned '' @ emdash @ '' remove .respawn/fleet.pub to re-pin'')))
        else
          andThen (p_create_dir_all (butlast path)) (\<lambda>_.
          andThen (p_write path (key @ [newline])) (\<lambda>_.
          audit_record C root ''fleet-trust'' key))))"

section \<open>Minting an order\<close>

definition order_nonce :: "('z) crates_scheme \<Rightarrow> nat \<Rightarrow> nat \<Rightarrow> string" where
  "order_nonce C ts pid = take 16 (hash_hex C (hash_bytes C (dec ts @ '':'' @ dec pid)))"

definition signed_order :: "('z) fleet_crates_scheme \<Rightarrow> bytes \<Rightarrow> order_payload \<Rightarrow> error + bytes" where
  "signed_order C sk payload =
     (case json_order C payload of
        Inl e \<Rightarrow> Inl (json_err e)
      | Inr s \<Rightarrow>
          map_sum json_err id (json_order_doc C
            \<lparr>fo_format = ''respawn-fleet-order/v1'', fo_pubkey = hex_encode C (ed_public C sk),
             fo_payload = s, fo_sig = hex_encode C (ed_sign C sk s)\<rparr>))"

text \<open>The payload is serialized before the directory of \<open>out\<close> is made, the document after.\<close>

definition write_order :: "path \<Rightarrow> error + bytes \<Rightarrow> unit io" where
  "write_order out doc =
     (let dir = butlast out in
      andThen (p_create_dir_all dir) (\<lambda>_.
      andThen (tmp_path dir ''fleet-order'') (\<lambda>tmp.
      andThen (lift doc) (\<lambda>d.
      andThen (p_write tmp d) (\<lambda>_.
      p_rename tmp out)))))"

definition fleet_order_mint :: "('z) fleet_crates_scheme \<Rightarrow> path \<Rightarrow> string \<Rightarrow> path \<Rightarrow> path key_io" where
  "fleet_order_mint C root target out =
     andThen (on_disk (resolve_ref C root target)) (\<lambda>i.
     andThen (on_disk (has_manifest C root i)) (\<lambda>known.
     if \<not> known then fail (Corrupt ''target snapshot not in store'')
     else
       andThen (key_get C root) (\<lambda>(sk, _, note).
       andThen (on_disk now_secs) (\<lambda>ts.
       andThen (on_disk (gets wpid)) (\<lambda>pid.
       andThen (on_disk (fabric_id C root)) (\<lambda>fab.
       let payload = \<lparr>op_kind = ''respawn-fleet-order'', op_fabric_id = fab, op_target = hash_hex C i,
             op_ts = ts, op_nonce = order_nonce C (unat ts) pid\<rparr> in
       andThen (lift (map_sum json_err id (json_order C payload))) (\<lambda>_.
       andThen (on_disk (write_order out (signed_order C sk payload))) (\<lambda>_.
       ok out))))))))"

section \<open>Checking an order\<close>

definition order_claims :: "('z) fleet_crates_scheme \<Rightarrow> bytes \<Rightarrow> error + (fleet_order \<times> order_payload)" where
  "order_claims C d =
     (case read_order_doc C d of
        Inl e \<Rightarrow> Inl (json_err e)
      | Inr order \<Rightarrow>
          if fo_format order \<noteq> ''respawn-fleet-order/v1'' then Inl (Corrupt ''unknown fleet order format'')
          else case read_order C (fo_payload order) of
            Inl e \<Rightarrow> Inl (json_err e)
          | Inr payload \<Rightarrow>
              if op_kind payload \<noteq> ''respawn-fleet-order'' then Inl (Corrupt ''payload kind mismatch'')
              else Inr (order, payload))"

definition order_signed :: "('z) fleet_crates_scheme \<Rightarrow> string \<Rightarrow> fleet_order \<Rightarrow> error + unit" where
  "order_signed C pinned order =
     (if fo_pubkey order \<noteq> pinned then Inl (Corrupt ''fleet order signer is not the pinned fleet key'')
      else case hex_decode C (fo_pubkey order) of
        None \<Rightarrow> Inl (Corrupt ''bad pubkey hex'')
      | Some pk \<Rightarrow>
          if length pk \<noteq> 32 then Inl (Corrupt ''bad pubkey length'')
          else if \<not> ed_key C pk then Inl (Corrupt ''bad pubkey'')
          else case hex_decode C (fo_sig order) of
            None \<Rightarrow> Inl (Corrupt ''bad sig hex'')
          | Some sg \<Rightarrow>
              if length sg \<noteq> 64 then Inl (Corrupt ''bad sig length'')
              else if \<not> ed_verify C pk (fo_payload order) sg then Inl (Corrupt ''fleet order signature invalid'')
              else Inr ())"

text \<open>\<open>str::parse::<u64>\<close>.\<close>

definition parse_u64 :: "string \<Rightarrow> 64 word option" where
  "parse_u64 s =
     (let ds = (case s of c # d # cs \<Rightarrow> if c = CHR ''+'' then d # cs else s | _ \<Rightarrow> s) in
      if ds = [] \<or> \<not> list_all digit ds then None
      else
        let n = foldl (\<lambda>n c. 10 * n + (code c - 48)) 0 ds in
        if n < 2 ^ 64 then Some (of_nat n) else None)"

definition seen_value :: "error + string \<Rightarrow> 64 word" where
  "seen_value r =
     (case r of
        Inl _ \<Rightarrow> 0
      | Inr s \<Rightarrow> (case parse_u64 (trim s) of None \<Rightarrow> 0 | Some n \<Rightarrow> n))"

definition pinned_key :: "path \<Rightarrow> string io" where
  "pinned_key root =
     andThen (attempt (p_read_to_string (fleet_key_path root))) (\<lambda>r.
     case r of
       Inr s \<Rightarrow> ok (trim s)
     | Inl _ \<Rightarrow> fail (Corrupt (''no pinned fleet key '' @ emdash @ '' `respawn fleet trust <pubkey>` first'')))"

definition fleet_gate ::
    "('z) fleet_crates_scheme \<Rightarrow> path \<Rightarrow> path \<Rightarrow> (order_payload \<times> 64 word \<times> hash) io" where
  "fleet_gate C root order_path =
     andThen (p_read order_path) (\<lambda>d.
     andThen (lift (order_claims C d)) (\<lambda>(order, payload).
     andThen (pinned_key root) (\<lambda>pinned.
     andThen (lift (order_signed C pinned order)) (\<lambda>_.
     andThen (fabric_id C root) (\<lambda>i.
     if op_fabric_id payload \<noteq> i then fail (Corrupt ''fleet order targets a different fabric'')
     else
       andThen (attempt (p_read_to_string (fleet_seen_path root))) (\<lambda>r.
       let last_seen = seen_value r in
       if op_ts payload < last_seen then
         fail (Corrupt (''stale fleet order (ts '' @ dec (unat (op_ts payload)) @ '' < last applied ''
           @ dec (unat last_seen) @ '') '' @ emdash @ '' replay refused''))
       else
         andThen (lift (parse_hash C (op_target payload))) (\<lambda>target.
         ok (payload, last_seen, target))))))))"

section \<open>Applying an order\<close>

definition fleet_fetch ::
    "('y) noise_scheme \<Rightarrow> ('z) snap_crates_scheme \<Rightarrow> path \<Rightarrow> hash \<Rightarrow> string option \<Rightarrow> ioerr option \<Rightarrow> bytes
       \<Rightarrow> string option \<Rightarrow> unit sync_io" where
  "fleet_fetch N C root target peer dial rnd psk =
     andThen (disk (has_manifest C root target)) (\<lambda>known.
     if known then ok ()
     else case peer of
       Some addr \<Rightarrow> andThen (pull N C root addr dial rnd psk) (\<lambda>_. ok ())
     | None \<Rightarrow> fail (Corrupt (''target snapshot not in store '' @ emdash @ '' pass --from <peer> to pull it'')))"

definition fleet_finish ::
    "('z) audit_crates_scheme \<Rightarrow> path \<Rightarrow> order_payload \<Rightarrow> 64 word \<Rightarrow> hash \<Rightarrow> hash io" where
  "fleet_finish C root payload last_seen target =
     andThen (set_head C root (Some target)) (\<lambda>_.
     andThen (p_write (fleet_seen_path root) (dec (unat (max (op_ts payload) last_seen)) @ [newline])) (\<lambda>_.
     andThen (audit_record C root ''fleet-revert'' (''order '' @ op_nonce payload @ '' -> '' @ short C target)) (\<lambda>_.
     ok target)))"

definition fleet_land ::
    "('z) snap_crates_scheme \<Rightarrow> path \<Rightarrow> path \<Rightarrow> order_payload \<Rightarrow> 64 word \<Rightarrow> hash \<Rightarrow> bool \<Rightarrow> hash io" where
  "fleet_land C store_root root payload last_seen target force =
     andThen (load C store_root target) (\<lambda>m.
     andThen (check_then_apply C store_root root m False force) (\<lambda>(_, applied).
     case applied of
       None \<Rightarrow> fail (Corrupt ''fleet revert refused: un-snapshotted changes (retry with --force)'')
     | Some _ \<Rightarrow> fleet_finish C store_root payload last_seen target))"

definition fleet_apply ::
    "('y) noise_scheme \<Rightarrow> ('z) fleet_crates_scheme \<Rightarrow> path \<Rightarrow> path \<Rightarrow> path \<Rightarrow> string option \<Rightarrow> ioerr option
       \<Rightarrow> bytes \<Rightarrow> string option \<Rightarrow> bool \<Rightarrow> hash sync_io" where
  "fleet_apply N C store_root root order_path peer dial rnd psk force =
     andThen (disk (fleet_gate C store_root order_path)) (\<lambda>(payload, last_seen, target).
     andThen (fleet_fetch N C store_root target peer dial rnd psk) (\<lambda>_.
     disk (fleet_land C store_root root payload last_seen target force)))"

section \<open>Stamps\<close>

lemma parse_dec_digits:
  "foldl (\<lambda>n c. 10 * n + (code c - 48)) 0 (dec n) = n"
proof (induction n rule: dec.induct)
  case (1 n)
  show ?case
  proof (cases "n < 10")
    case True
    then show ?thesis by (simp add: dec.simps [of n] code_char_of)
  next
    case False
    have "48 + n mod 10 < 256" by presburger
    with False 1 show ?thesis by (simp add: dec.simps [of n] code_char_of)
  qed
qed

lemma parse_u64_dec [simp]: "parse_u64 (dec (unat w)) = Some w"
proof -
  have d: "list_all digit (dec (unat w))" by (simp add: list_all_iff dec_digits)
  have "\<not> digit (CHR ''+'')" by (simp add: digit_def code_def)
  with d have "(case dec (unat w) of c # d # cs \<Rightarrow> if c = CHR ''+'' then d # cs else dec (unat w) | _ \<Rightarrow> dec (unat w))
      = dec (unat w)"
    by (auto split: list.splits)
  moreover have "unat w < 2 ^ 64" using unsigned_less [of w] by simp
  ultimately show ?thesis using d by (simp add: parse_u64_def Let_def parse_dec_digits)
qed

lemma dec_graphic: "\<forall>c \<in> set (dec n). graphic c"
proof
  show "graphic c" if "c \<in> set (dec n)" for c using dec_digits [OF that] by (simp add: digit_def graphic_def)
qed

lemma seen_value_line [simp]: "seen_value (Inr (dec (unat w) @ [newline])) = w"
  by (simp add: seen_value_def trim_line dec_graphic)

section \<open>What the gate admits\<close>

text \<open>The document \<open>order\<close> in the bytes \<open>d\<close> carries a valid signature of the order \<open>q\<close>.\<close>

definition order_attested :: "('z) fleet_crates_scheme \<Rightarrow> bytes \<Rightarrow> fleet_order \<Rightarrow> order_payload \<Rightarrow> bool" where
  "order_attested C d order q \<longleftrightarrow> read_order_doc C d = Inr order \<and> read_order C (fo_payload order) = Inr q
     \<and> (\<exists>pk sg. hex_decode C (fo_pubkey order) = Some pk \<and> length pk = 32 \<and> ed_key C pk
          \<and> hex_decode C (fo_sig order) = Some sg \<and> length sg = 64 \<and> ed_verify C pk (fo_payload order) sg)
     \<and> fo_format order = ''respawn-fleet-order/v1'' \<and> op_kind q = ''respawn-fleet-order''"

lemma order_claims_iff: "order_claims C d = Inr (f, q) \<longleftrightarrow>
    read_order_doc C d = Inr f \<and> read_order C (fo_payload f) = Inr q
      \<and> fo_format f = ''respawn-fleet-order/v1'' \<and> op_kind q = ''respawn-fleet-order''"
proof (cases "read_order_doc C d")
  case (Inl e)
  then show ?thesis by (simp add: order_claims_def)
next
  case (Inr g)
  show ?thesis
    by (cases "read_order C (fo_payload g)") (use Inr in \<open>auto simp: order_claims_def\<close>)
qed

lemma order_signed_iff: "order_signed C k f = Inr () \<longleftrightarrow> fo_pubkey f = k
    \<and> (\<exists>pk sg. hex_decode C (fo_pubkey f) = Some pk \<and> length pk = 32 \<and> ed_key C pk
          \<and> hex_decode C (fo_sig f) = Some sg \<and> length sg = 64 \<and> ed_verify C pk (fo_payload f) sg)"
proof (cases "hex_decode C (fo_pubkey f)")
  case None
  then show ?thesis by (auto simp: order_signed_def)
next
  case (Some pk)
  then show ?thesis by (cases "hex_decode C (fo_sig f)") (auto simp: order_signed_def split: if_splits)
qed

text \<open>The key that is pinned, and the time of the last order carried out (0: none).\<close>

definition pinned :: "path \<Rightarrow> world \<Rightarrow> string \<Rightarrow> bool" where
  "pinned root w k \<longleftrightarrow>
     (\<exists>d. file_data (entries w (fleet_key_path root)) = Some d \<and> utf8_valid d \<and> trim d = k)"

definition last_stamp :: "path \<Rightarrow> world \<Rightarrow> 64 word" where
  "last_stamp root w =
     (case file_data (entries w (fleet_seen_path root)) of
        None \<Rightarrow> 0
      | Some d \<Rightarrow> if utf8_valid d then seen_value (Inr d) else 0)"

lemma fleet_slots:
  assumes "''..'' \<notin> set root"
  shows "slot (fabric_dir root) (fleet_key_path root)" "slot (fabric_dir root) (fleet_seen_path root)"
  using assms by (auto simp: fleet_key_path_def fleet_seen_path_def FLEET_KEY_FILE_def FLEET_SEEN_FILE_def
      intro!: slot_fabric_file)

lemma fleet_paths_distinct:
  "fleet_key_path root \<noteq> fabric_id_path root" "fleet_seen_path root \<noteq> fabric_id_path root"
  "fleet_seen_path root \<noteq> head_path root" "fleet_seen_path root \<noteq> audit_path root" "head_path root \<noteq> audit_path root"
  by (simp_all add: fleet_key_path_def fleet_seen_path_def FLEET_KEY_FILE_def FLEET_SEEN_FILE_def
      fabric_id_path_def FABRIC_ID_FILE_def head_path_def audit_path_def)

lemma pinned_key_result:
  assumes "keeper root w" "pinned_key root w = (r, w')"
  shows "still w w'" "r = Inr k \<Longrightarrow> pinned root w k"
proof -
  note k = keeperD [OF assms(1)]
  obtain q w1 where q: "p_read_to_string (fleet_key_path root) w = (q, w1)" by fastforce
  note p = p_read_to_string_sound [OF k(1) slot_facts(1) [OF fleet_slots(1) [OF k(3)]] q]
  have run: "r = (case q of Inr s \<Rightarrow> Inr (trim s) | Inl _ \<Rightarrow>
      Inl (Corrupt (''no pinned fleet key '' @ emdash @ '' `respawn fleet trust <pubkey>` first'')))" "w' = w1"
    using assms(2) q by (cases q; auto simp: pinned_key_def attempt_def comp_eval)+
  show "still w w'" using p(2,3) k(2) run by (auto simp: still_def evolves_def calm_quiet)
  show "pinned root w k" if "r = Inr k"
    using that run(1) p(4) by (cases q) (auto simp: pinned_def)
qed

lemma last_stamp_read:
  assumes "keeper root w" "p_read_to_string (fleet_seen_path root) w = (q, w')"
  shows "seen_value q = last_stamp root w" "still w w'"
proof -
  note k = keeperD [OF assms(1)]
  note p = p_read_to_string_sound [OF k(1) slot_facts(1) [OF fleet_slots(2) [OF k(3)]] assms(2)]
  show "still w w'" using p(2,3) k(2) by (auto simp: still_def evolves_def calm_quiet)
  show "seen_value q = last_stamp root w"
  proof (cases "\<exists>d. file_data (entries w (fleet_seen_path root)) = Some d \<and> utf8_valid d")
    case True
    with p(5) [OF k(2)] show ?thesis by (auto simp: last_stamp_def)
  next
    case False
    with p(4) have "\<exists>e. q = Inl e" by (cases q) auto
    with False show ?thesis by (auto simp: last_stamp_def seen_value_def split: option.split)
  qed
qed

text \<open>What must be true of the order file and of the fabric before an order is carried out.\<close>

definition admitted :: "('z) fleet_crates_scheme \<Rightarrow> path \<Rightarrow> path \<Rightarrow> world \<Rightarrow> order_payload \<Rightarrow> hash \<Rightarrow> bool" where
  "admitted C root order_path w q t \<longleftrightarrow>
     (\<exists>d order. fs_read True (wfs w) order_path = Inr d \<and> order_attested C d order q \<and> pinned root w (fo_pubkey order))
     \<and> (\<forall>i. identified root i w \<longrightarrow> op_fabric_id q = i)
     \<and> last_stamp root w \<le> op_ts q \<and> parse_hash C (op_target q) = Inr t"

lemma held_fleet_gate:
  assumes "hex_ok C" "fabric_id_path root \<in> X"
  shows "keeps (held root X w0) (fleet_gate C root p)"
  unfolding fleet_gate_def pinned_key_def Let_def
  by (intro keeps_intros held_fabric_id [OF assms] inert_prims inert_held | simp)+

lemma fleet_gate_admits:
  assumes "hex_ok C" "keeper root w" "fleet_gate C root p w = (Inr (q, l0, t), w')"
  shows "admitted C root p w q t" "l0 = last_stamp root w"
proof -
  from assms(3) obtain d w1 order k w2 i w3 x w4 where run: "p_read p w = (Inr d, w1)"
    "order_claims C d = Inr (order, q)" "pinned_key root w1 = (Inr k, w2)" "order_signed C k order = Inr ()"
    "fabric_id C root w2 = (Inr i, w3)" "op_fabric_id q = i" "p_read_to_string (fleet_seen_path root) w3 = (x, w4)"
    "l0 = seen_value x" "\<not> op_ts q < l0" "parse_hash C (op_target q) = Inr t"
    by (auto simp: fleet_gate_def Let_def andThen_Inr comp_eval attempt_def split: if_splits prod.splits)
  note rs = syscall_read_sound [OF keeperD(1) [OF assms(2)] run(1) [unfolded p_read_def]]
  have s1: "still w w1" using rs(2,3) keeperD(2) [OF assms(2)] by (auto simp: still_def evolves_def calm_quiet)
  note k1 = still_keeper [OF assms(2) s1]
  note pk = pinned_key_result [OF k1 run(3)]
  note k2 = still_keeper [OF k1 pk(1)]
  have e: "entries w2 = entries w" using s1 pk(1) by (simp add: still_def entries_def)
  note f = fabric_id_result [OF k2 assms(1) run(5)]
  have same: "i = j" if "identified root j w" for j
  proof -
    from that e have "identified root j w2" by (simp add: identified_def)
    from fabric_id_known [OF k2 this, of C] run(5) show ?thesis by auto
  qed
  have "file_data (entries w3 (fleet_seen_path root)) = file_data (entries w2 (fleet_seen_path root))"
    by (rule evolves_data [OF f(2)])
      (use fleet_paths_distinct(2) slot_facts(3) [OF fleet_slots(2) [OF keeperD(3) [OF assms(2)]]] in auto)
  then have l: "l0 = last_stamp root w"
    using last_stamp_read(1) [OF f(1) run(7)] run(8) e by (simp add: last_stamp_def)
  then show "l0 = last_stamp root w" .
  have "pinned root w k" using pk(2) [OF refl] s1 by (simp add: pinned_def still_def entries_def)
  moreover have "order_attested C d order q" "fo_pubkey order = k"
    using run(2,4) by (auto simp: order_attested_def order_claims_iff order_signed_iff)
  ultimately show "admitted C root p w q t"
    using rs(4) [OF refl] same l run(6,9,10) unfolding admitted_def by (auto simp: not_less)
qed

lemma fleet_land_run:
  assumes "fleet_land C root wt q l0 t force w = (Inr t', w')"
  shows "\<exists>w1. fleet_finish C root q l0 t w1 = (Inr t', w')"
proof -
  from assms show ?thesis
    unfolding fleet_land_def by (auto simp: andThen_Inr fail_def split: option.splits)
qed

lemma fleet_finish_target: "fleet_finish C root q l0 t w = (Inr t', w') \<Longrightarrow> t' = t"
  by (auto simp: fleet_finish_def andThen_Inr comp_eval)

lemma disk_Inr: "disk m (w, c) = (Inr x, s) \<longleftrightarrow> (\<exists>w'. m w = (Inr x, w') \<and> s = (w', c))"
  by (auto simp: disk_def split: prod.splits)

lemma fleet_apply_run:
  assumes "fleet_apply N C root wt p peer dial rnd psk force (w, c) = (Inr t', w', c')"
    and "fleet_gate C root p w = (Inr (q, l0, t), w1)"
  shows "\<exists>w2. fleet_finish C root q l0 t w2 = (Inr t', w')"
proof -
  from assms obtain w3 where "fleet_land C root wt q l0 t force w3 = (Inr t', w')"
    by (auto simp: fleet_apply_def andThen_Inr disk_Inr)
  from fleet_land_run [OF this] show ?thesis .
qed

text \<open>C34: Only an admitted order is carried out. Whatever lies at the path of the order, whichever
  peer answers and whatever snapshot it names, either the order is refused and nothing in the file
  system has changed except that the fabric may have received its identity, or the file carries an
  order with a valid signature of the pinned key, for this fabric, not older than the last one that
  was carried out, and the result names the snapshot that order names.\<close>

theorem fleet_apply_gated:
  assumes "hex_ok C" "keeper root w" "fleet_apply N C root wt p peer dial rnd psk force (w, c) = (r, w', c')"
  shows "(\<exists>e. r = Inl e) \<and> c' = c \<and> (\<forall>q. \<not> is_tmp q \<longrightarrow> q \<noteq> fabric_id_path root \<longrightarrow>
        file_data (entries w' q) = file_data (entries w q))
    \<or> (\<exists>q t. admitted C root p w q t \<and> (\<forall>t'. r = Inr t' \<longrightarrow> t' = t))"
proof -
  obtain g w1 where g: "fleet_gate C root p w = (g, w1)" by fastforce
  have h: "held root {fabric_id_path root} w w1"
    by (rule keepsD [OF held_fleet_gate [OF assms(1)] held_refl [OF assms(2)] g]) simp
  show ?thesis
  proof (cases g)
    case (Inl e)
    with assms(3) g have "r = Inl e" "w' = w1" "c' = c" by (auto simp: fleet_apply_def comp_eval disk_def)
    with h evolves_data [of "fabric_dir root" "{fabric_id_path root}" w w1] show ?thesis by (auto simp: held_def)
  next
    case (Inr x)
    obtain q l0 t where x: "x = (q, l0, t)" by (metis prod_cases3)
    note a = fleet_gate_admits [OF assms(1,2) g [unfolded Inr x]]
    have "t' = t" if "r = Inr t'" for t'
      using fleet_apply_run [OF _ g [unfolded Inr x]] assms(3) that fleet_finish_target by blast
    with a show ?thesis by blast
  qed
qed

text \<open>What is recorded once an order has been carried out.\<close>

lemma held_audit_record:
  assumes "audit_path root \<in> X" "''..'' \<notin> set root"
  shows "keeps (held root X w0) (audit_record C root ev det)"
proof -
  note sl = slot_audit [OF assms(2)]
  have "keeps (held root X w0) (p_create_dir_all (butlast (audit_path root)))"
    using create_dir_stays(1) [OF sl keeperD(1)] evolves_mono unfolding stays_def by (intro held_keepsI) blast
  moreover have "keeps (held root X w0) (append_line (audit_path root) enc)" for enc
    using append_line_frame [OF sl keeperD(1)] evolves_mono [of _ "{audit_path root}"] assms(1) by (intro held_keepsI) blast
  ultimately show ?thesis
    unfolding audit_record_eq by (intro keeps_intros inert_prims inert_held)
qed

lemma fleet_finish_result:
  assumes "hex_ok C" "keeper root w" "fleet_finish C root q (last_stamp root w) t w = (Inr t', w')"
  shows "keeper root w' \<and> file_data (entries w' (head_path root)) = Some (hash_hex C t)
    \<and> last_stamp root w' = max (op_ts q) (last_stamp root w)"
proof -
  let ?F = "fabric_dir root" and ?h = "head_path root" and ?s = "fleet_seen_path root"
  let ?d = "dec (unat (max (op_ts q) (last_stamp root w))) @ [newline]"
  have dd: "''..'' \<notin> set root" by (rule keeperD(3) [OF assms(2)])
  note sl = slot_head [OF dd] fleet_slots(2) [OF dd]
  from assms(3) obtain u w1 u2 w2 u3 where run: "set_head C root (Some t) w = (Inr u, w1)"
    "p_write ?s ?d w1 = (Inr u2, w2)"
    "audit_record C root ''fleet-revert'' (''order '' @ op_nonce q @ '' -> '' @ short C t) w2 = (Inr u3, w')"
    by (auto simp: fleet_finish_def andThen_Inr comp_eval)
  from atomic_write_result [OF keeperD(1) [OF assms(2)] sl(1) run(1) [unfolded set_head_def]]
  have 1: "sound ?F w1" "evolves ?F {?h} w w1" "file_data (entries w1 ?h) = Some (hash_hex C t)" by auto
  from p_write_sound [OF 1(1) slot_facts(1) [OF sl(2)] run(2)]
  have 2: "sound ?F w2" "evolves ?F {?s} w1 w2" "file_data (entries w2 ?s) = Some ?d" by auto
  have k2: "keeper root w2" by (rule keeper_evolves [OF keeper_evolves [OF assms(2) 1(1,2)] 2(1,2)])
  have h: "held root {audit_path root} w2 w'"
    by (rule keepsD [OF held_audit_record [OF _ dd] held_refl [OF k2] run(3)]) simp
  have nt: "\<not> is_tmp ?h" "\<not> is_tmp ?s" by (rule slot_facts(3) [OF sl(1)] slot_facts(3) [OF sl(2)])+
  have hd: "file_data (entries w' ?h) = Some (hash_hex C t)"
    using evolves_data [of ?F "{?s}" w1 w2 ?h] evolves_data [of ?F "{audit_path root}" w2 w' ?h] 1(3) 2(2) h
      nt(1) fleet_paths_distinct(3) [of root, symmetric] fleet_paths_distinct(5) [of root] by (simp add: held_def)
  have "file_data (entries w' ?s) = Some ?d"
    using evolves_data [of ?F "{audit_path root}" w2 w' ?s] 2(3) h nt(2) fleet_paths_distinct(4) by (simp add: held_def)
  moreover have "utf8_valid ?d"
    by (rule ascii_utf8_valid) (use dec_graphic in \<open>auto simp: ascii_def graphic_def code_def\<close>)
  ultimately have st: "last_stamp root w' = max (op_ts q) (last_stamp root w)" by (simp add: last_stamp_def)
  then show ?thesis using hd h by (simp add: held_def)
qed

lemma fleet_finish_total:
  assumes "hex_ok C" "audit_json_ok C" "keeper root w" "audit_log C root w es" "room (head_path root) w"
    and "entries w (fleet_seen_path root) \<noteq> Some Dir" "utf8_valid (op_nonce q)"
  shows "\<exists>w'. fleet_finish C root q l0 t w = (Inr t, w')"
proof -
  let ?F = "fabric_dir root" and ?h = "head_path root" and ?s = "fleet_seen_path root" and ?a = "audit_path root"
  have dd: "''..'' \<notin> set root" by (rule keeperD(3) [OF assms(3)])
  note sl = slot_head [OF dd] fleet_slots(2) [OF dd]
  obtain w1 where 1: "set_head C root (Some t) w = (Inr (), w1)" "sound ?F w1" "evolves ?F {?h} w w1"
    using write_as_total [OF keeperD(1,2) [OF assms(3)] sl(1) assms(5), where m = "0x1A4" and tg = "last ?h" and d = "hash_hex C t"]
    by (auto simp: set_head_def atomic_write_as)
  have k1: "keeper root w1" by (rule keeper_evolves [OF assms(3) 1(2,3)])
  have b: "butlast ?h = ?F" "butlast ?s = ?F" "?s \<noteq> []" by (simp_all add: head_path_def fleet_seen_path_def)
  have dirs: "entries w1 ?F = Some Dir" "entries w1 ?s \<noteq> Some Dir"
  proof -
    have "entries w ?F = Some Dir" using assms(5) b(1) by (simp add: room_def)
    with evolves_node [OF 1(3), of ?F] show "entries w1 ?F = Some Dir"
      by (auto simp: node_evolves_def is_tmp_def fabric_dir_def FABRIC_DIR_def head_path_def)
    show "entries w1 ?s \<noteq> Some Dir"
      using evolves_node [OF 1(3), of ?s] assms(6) slot_facts(3) [OF sl(2)] fleet_paths_distinct(3) [of root]
      by (auto simp: node_evolves_def dir_place_def store_dirs_def fleet_seen_path_def FLEET_SEEN_FILE_def)
  qed
  obtain w2 where 2: "p_write ?s (dec (unat (max (op_ts q) l0)) @ [newline]) w1 = (Inr (), w2)"
    using p_write_calm [OF keeperD(1) [OF k1] slot_facts(1) [OF sl(2)] keeperD(2) [OF k1] b(3) _ dirs(2)] dirs(1) b(2)
    by auto
  from p_write_sound [OF keeperD(1) [OF k1] slot_facts(1) [OF sl(2)] 2]
  have s2: "sound ?F w2" "evolves ?F {?s} w1 w2" by auto
  have "audit_log C root w1 es"
    by (rule audit_log_kept [OF assms(4) 1(2,3)]) (use fleet_paths_distinct(5) [of root] in auto)
  then have al: "audit_log C root w2 es"
    by (rule audit_log_kept [OF _ s2]) (use fleet_paths_distinct(4) [of root] in auto)
  have d2: "entries w2 ?F = Some Dir"
    using evolves_node [OF s2(2), of ?F] dirs(1)
    by (auto simp: node_evolves_def is_tmp_def fabric_dir_def FABRIC_DIR_def fleet_seen_path_def)
  have u: "utf8_valid ''fleet-revert''" by (simp add: code_def)
  have "ascii (short C t)" using assms(1) by (auto simp: short_def hex_ok_def intro!: lower_hex_ascii)
  then have v: "utf8_valid (''order '' @ op_nonce q @ '' -> '' @ short C t)"
    by (intro utf8_valid_append assms(7) ascii_utf8_valid) (simp_all add: ascii_def code_def)
  obtain w3 where "audit_record C root ''fleet-revert'' (''order '' @ op_nonce q @ '' -> '' @ short C t) w2 = (Inr (), w3)"
    using audit_record_total [OF al keeperD(2) [OF keeper_evolves [OF k1 s2]] assms(2,1) u v d2] by blast
  with 1(1) 2 show ?thesis by (simp add: fleet_finish_def comp_eval)
qed

text \<open>C35: What an order leaves behind. Once the worktree has been reverted, in a fabric whose files can
  be written, the rest of an order is carried out without error: HEAD is the snapshot the order names and the recorded time is the later of
  the order's and the one recorded before, so that from then on no older order is admitted, whatever
  file carries it.\<close>

theorem fleet_finish_records:
  assumes "hex_ok C" "audit_json_ok C" "keeper root w" "audit_log C root w es" "room (head_path root) w"
    and "entries w (fleet_seen_path root) \<noteq> Some Dir" "utf8_valid (op_nonce q)"
  shows "\<exists>w'. fleet_finish C root q (last_stamp root w) t w = (Inr t, w') \<and> keeper root w' \<and> file_data (entries w' (head_path root)) = Some (hash_hex C t)
    \<and> last_stamp root w' = max (op_ts q) (last_stamp root w)
    \<and> (\<forall>p q2 t2. admitted C root p w' q2 t2 \<longrightarrow> op_ts q \<le> op_ts q2)"
proof -
  obtain w' where run: "fleet_finish C root q (last_stamp root w) t w = (Inr t, w')"
    using fleet_finish_total [OF assms] by blast
  note f = fleet_finish_result [OF assms(1,3) run]
  have "op_ts q \<le> op_ts q2" if "admitted C root p w' q2 t2" for p q2 t2
  proof -
    from that have "last_stamp root w' \<le> op_ts q2" by (simp add: admitted_def)
    with f show ?thesis by simp
  qed
  with run f show ?thesis by blast
qed

section \<open>A concrete fabric\<close>

definition ref_json_order :: "order_payload \<Rightarrow> string + string" where
  "ref_json_order p = Inr (ref_write [op_kind p, op_fabric_id p, op_target p, word_field (op_ts p), op_nonce p])"

definition ref_read_order :: "string \<Rightarrow> string + order_payload" where
  "ref_read_order s =
     (case ref_read s of
        Some [k, i, t, ts, n] \<Rightarrow>
          Inr \<lparr>op_kind = k, op_fabric_id = i, op_target = t, op_ts = field_word ts, op_nonce = n\<rparr>
      | _ \<Rightarrow> Inl ''syntax'')"

definition ref_json_order_doc :: "fleet_order \<Rightarrow> string + bytes" where
  "ref_json_order_doc f = Inr (ref_write [fo_format f, fo_pubkey f, fo_payload f, fo_sig f])"

definition ref_read_order_doc :: "bytes \<Rightarrow> string + fleet_order" where
  "ref_read_order_doc d =
     (case ref_read d of
        Some [f, k, p, s] \<Rightarrow> Inr \<lparr>fo_format = f, fo_pubkey = k, fo_payload = p, fo_sig = s\<rparr>
      | _ \<Rightarrow> Inl ''syntax'')"

definition ref_fleet_crates :: fleet_crates where
  "ref_fleet_crates = purge_crates.extend ref_purge_crates
     \<lparr>json_order = ref_json_order, read_order = ref_read_order,
      json_order_doc = ref_json_order_doc, read_order_doc = ref_read_order_doc\<rparr>"

lemma ref_fleet_facts: "hex_ok ref_fleet_crates" "audit_json_ok ref_fleet_crates"
proof -
  have "hex_encode ref_fleet_crates = hex_encode ref_purge_crates" "hex_decode ref_fleet_crates = hex_decode ref_purge_crates"
    by (simp_all add: ref_fleet_crates_def purge_crates.defs)
  then show "hex_ok ref_fleet_crates" using ref_purge_facts(2) by (simp add: hex_ok_def)
  show "audit_json_ok ref_fleet_crates"
    by (rule ref_audit_ok)
      (simp_all add: ref_fleet_crates_def ref_purge_crates_def ref_sign_crates_def ref_snap_crates_def ref_audit_crates_def
        purge_crates.defs sign_crates.defs snap_crates.defs audit_crates.defs crates.defs)
qed

lemma demo_unpinned: "\<not> pinned [] demo k"
  by (simp add: pinned_def demo_entries demo_fs_def fleet_key_path_def FLEET_KEY_FILE_def fabric_dir_def FABRIC_DIR_def)

definition far_order :: order_payload where
  "far_order = \<lparr>op_kind = ''respawn-fleet-order'', op_fabric_id = ''f1'', op_target = ''00'', op_ts = 9, op_nonce = ''n''\<rparr>"

text \<open>A fabric with no pinned key refuses every order.\<close>

theorem fleet_apply_gated_witness:
  "\<exists>e w' c'. fleet_apply ref_noise ref_fleet_crates [] [] [''o''] None None [] None True (demo, idle_conn []) = (Inl e, w', c')
     \<and> c' = idle_conn [] \<and> file_data (entries w' [''.respawn'', ''HEAD'']) = Some []"
proof -
  obtain r w' c' where run: "fleet_apply ref_noise ref_fleet_crates [] [] [''o''] None None [] None True (demo, idle_conn []) = (r, w', c')"
    by (metis prod_cases3)
  from fleet_apply_gated [OF ref_fleet_facts(1) demo_keeper run] demo_unpinned
  have "(\<exists>e. r = Inl e) \<and> c' = idle_conn []" "\<forall>q. \<not> is_tmp q \<longrightarrow> q \<noteq> fabric_id_path [] \<longrightarrow>
      file_data (entries w' q) = file_data (entries demo q)"
    by (auto simp: admitted_def)
  moreover have "\<not> is_tmp [''.respawn'', ''HEAD'']" "[''.respawn'', ''HEAD''] \<noteq> fabric_id_path []"
    by (simp_all add: is_tmp_def fabric_id_path_def FABRIC_ID_FILE_def)
  ultimately show ?thesis using run by (auto simp: demo_entries demo_fs_def)
qed

theorem fleet_finish_records_witness:
  "\<exists>w'. fleet_finish ref_fleet_crates [] far_order (last_stamp [] demo) [] demo = (Inr [], w') \<and> last_stamp [] w' = 9"
proof -
  have l: "audit_log ref_fleet_crates [] demo []"
    using demo_sound by (simp add: audit_log_def demo_entries demo_fs_def audit_path_def fabric_dir_def FABRIC_DIR_def)
  have r: "room (head_path []) demo"
    by (auto simp: room_def demo_entries demo_fs_def head_path_def fabric_dir_def FABRIC_DIR_def prefix_Cons)
  have s: "entries demo (fleet_seen_path []) = None"
    by (simp add: demo_entries demo_fs_def fleet_seen_path_def FLEET_SEEN_FILE_def fabric_dir_def FABRIC_DIR_def)
  have u: "utf8_valid (op_nonce far_order)" by (simp add: far_order_def code_def)
  have "last_stamp [] demo = 0" using s by (simp add: last_stamp_def)
  with fleet_finish_records [OF ref_fleet_facts(1,2) demo_keeper l r _ u, of "[]"] s show ?thesis
    by (auto simp: far_order_def)
qed

end
