(* ===== verification/Resolve.thy ===== *)
theory Resolve
  imports Snapshot Store_Frame
begin

text \<open>
  What \<open>resolve\<close> of \<open>src/snapshot.rs\<close> makes of a reference: a hash of 32 bytes that the reference
  spells, in full or by a prefix, or HEAD.
\<close>

section \<open>Hashes read from text\<close>

text \<open>The hash is well-formed and its text form starts with the given digits.\<close>

definition spelled :: "('z) crates_scheme \<Rightarrow> string \<Rightarrow> hash \<Rightarrow> bool" where
  "spelled C s h \<longleftrightarrow> length h = 32 \<and> take (length s) (hash_hex C h) = map lower_char s"

lemma parse_hash_spelled:
  assumes "hex_ok C" "parse_hash C s = Inr h"
  shows "length h = 32" "hash_hex C h = map lower_char s"
  using assms by (auto simp: parse_hash_def hash_hex_def hex_ok_def split: option.splits if_splits)

lemma parse_head_length: "parse_head C s = Inr (Some p) \<Longrightarrow> length p = 32"
  by (auto simp: parse_head_def parse_hash_def Let_def split: if_splits option.splits)

lemma head_yields: "yields (store_head C root) (\<lambda>h. \<forall>k. h = Some k \<longrightarrow> length k = 32)"
  unfolding store_head_def
  by (intro yields_andThen yields_sum yields_cases yields_ok yields_fail yields_lift) (auto dest: parse_head_length)

lemma for_names_yield:
  assumes "P s" "\<And>s name. P s \<Longrightarrow> yields (f s name) P"
  shows "yields (for_manifest_names root f s) P"
proof -
  have i: "yields (foldIO (\<lambda>s name. f s (fan @ name)) s names) P" if "P s" for fan names s
    by (rule yields_foldIO) (auto intro: that assms(2))
  show ?thesis
    unfolding for_manifest_names_def Let_def
    by (intro yields_andThen yields_cases yields_ok yields_foldIO [where P = P] assms(1))
      (auto intro!: yields_intros i assms(2))
qed

lemma resolve_hit_yields:
  assumes "hex_ok C" "list_all (spelled C pre) hits" "map lower_char pre = pre"
  shows "yields (resolve_hit C pre hits full) (list_all (spelled C pre))"
  unfolding yields_def
proof (intro allI impI)
  fix w x w'
  assume run: "resolve_hit C pre hits full w = (Inr x, w')"
  show "list_all (spelled C pre) x"
  proof (cases "take (length pre) full = pre \<and> is_hash_name full")
    case True
    with run obtain h where h: "parse_hash C full = Inr h" "x = hits @ [h]"
      by (auto simp: resolve_hit_def andThen_Inr comp_eval)
    from parse_hash_name [OF assms(1) _ h(1)] True assms(2,3) h(2) show ?thesis by (simp add: spelled_def)
  next
    case False
    with run assms(2) show ?thesis by (auto simp: resolve_hit_def comp_eval)
  qed
qed

lemma lower_char_idem [simp]: "lower_char (lower_char c) = lower_char c"
  by (auto simp: lower_char_def is_upper_def code_def)

section \<open>Properties\<close>

text \<open>C18: A reference resolves to a hash it spells: whatever the store holds, a result of \<open>resolve\<close> has 32
  bytes, and unless the reference was \<open>head\<close> its hexadecimal form begins with the digits of the
  reference in lower case; a prefix shorter than four digits resolves to nothing.\<close>

theorem resolve_ref_spelled:
  assumes "hex_ok C" "resolve_ref C root reference w = (Inr h, w')"
  shows "length h = 32 \<and> (reference \<noteq> ''head'' \<longrightarrow> reference \<noteq> ''HEAD'' \<longrightarrow>
    take (length reference) (hash_hex C h) = map lower_char reference \<and> 4 \<le> length reference)"
proof (cases "reference = ''head'' \<or> reference = ''HEAD''")
  case True
  with assms(2) obtain w1 where "store_head C root w = (Inr (Some h), w1)"
    by (auto simp: resolve_ref_def andThen_Inr comp_eval split: option.splits)
  from yieldsD [OF head_yields this] True show ?thesis by auto
next
  case nh: False
  show ?thesis
  proof (cases "length reference = 64")
    case True
    with nh assms(2) have p: "parse_hash C reference = Inr h" by (auto simp: resolve_ref_def)
    from parse_hash_spelled [OF assms(1) p] True show ?thesis by simp
  next
    case False
    let ?pre = "map lower_char reference"
    have n: "\<not> length reference < 4" using nh False assms(2) by (auto simp: resolve_ref_def Let_def comp_eval)
    obtain hits w1 where run: "for_manifest_names root (resolve_hit C ?pre) [] w = (Inr hits, w1)" and hits: "hits = [h]"
      using nh False assms(2) unfolding resolve_ref_def Let_def
      by (auto simp: comp_eval split: if_split_asm list.split_asm elim!: andThen_InrE)
    have "yields (for_manifest_names root (resolve_hit C ?pre) []) (list_all (spelled C ?pre))"
      by (rule for_names_yield) (auto intro: resolve_hit_yields [OF assms(1)])
    from yieldsD [OF this run] n show ?thesis by (simp add: hits spelled_def)
  qed
qed

theorem resolve_ref_spelled_witness:
  "\<exists>h. resolve_ref ref_snap_crates [] (hash_hex ref_snap_crates (hash_bytes ref_snap_crates ''v'')) demo = (Inr h, demo)
     \<and> length h = 32 \<and> h = hash_bytes ref_snap_crates ''v''"
proof -
  let ?C = ref_snap_crates and ?h = "hash_bytes ref_snap_crates ''v''"
  have ok: "hex_ok ?C" "length ?h = 32" using ref_snap_facts(1) by (simp_all add: crates_ok_def)
  have l: "length (hash_hex ?C ?h) = 64" using hash_hex_facts(1) [OF ok(1)] ok(2) by simp
  then have "hash_hex ?C ?h \<noteq> ''head''" "hash_hex ?C ?h \<noteq> ''HEAD''" by auto
  then have run: "resolve_ref ?C [] (hash_hex ?C ?h) demo = (Inr ?h, demo)"
    using l parse_hash_hex [OF ok] by (simp add: resolve_ref_def)
  from resolve_ref_spelled [OF ok(1) run] run show ?thesis by blast
qed

end
