(* ===== verification/Undo.thy ===== *)
theory Undo
  imports Guarded_Run Fleet Resolve
begin

text \<open>
  \<open>src/guard.rs\<close> end to end: the snapshot taken before the command is the one loaded after it,
  so that reverting to it gives back the worktree as it was. Also how a run ends that never
  started its command, and the lock.
\<close>

section \<open>The manifest a snapshot stores\<close>

text \<open>Until the manifest is written, none is.\<close>

definition same_manifests :: "'z sel \<Rightarrow> world \<Rightarrow> world \<Rightarrow> bool" where
  "same_manifests c w0 w \<longleftrightarrow> store_base c w \<and> manifests c w = manifests c w0"

lemma framed_same_manifests [simp]: "framed c {} (same_manifests c w0)"
proof -
  have "same_manifests c w0 w'"
    if "same_manifests c w0 w" "evolves (home c) {} w w'" "sound (home c) w'" for w w'
  proof -
    have b: "store_base c w" using that(1) by (simp add: same_manifests_def)
    have "manifests c w' = manifests c w"
      using blobs_frame(2) [OF b that(2)] by (simp add: manifests_def fun_eq_iff)
    with that b show ?thesis by (simp add: same_manifests_def store_base_def)
  qed
  moreover have "sound (home c) w" if "same_manifests c w0 w" for w
    using that by (simp add: same_manifests_def store_base_def)
  ultimately show ?thesis unfolding framed_def subset_empty by (intro conjI allI impI) (blast intro: apart_none)+
qed

lemma same_manifests_put_object: "keeps (same_manifests c w0) (put_object (fst c) (snd c) d)"
proof (rule keepsI)
  fix w r w'
  assume i: "same_manifests c w0 w" and run: "put_object (fst c) (snd c) d w = (r, w')"
  have b: "store_base c w" using i by (simp add: same_manifests_def)
  note bf = store_base_facts [OF b]
  let ?k = "hash_bytes (fst c) d"
  have s: "sound (home c) w'" "evolves (home c) {object_at c ?k} w w'"
    using put_blob_result [OF bf(1) bf(3) run [unfolded put_object_blob, folded object_at_def]]
      evolves_mono [of "home c" "{}" w w'] by (auto simp: stays_def split: sum.splits)
  have "entries w' (manifest_at c h) = entries w (manifest_at c h)" for h
    by (intro evolves_blob [OF s(2) bf(2) blob_not_dir_place(2)]) (metis object_manifest_at singletonD)
  with i b s(1) show "same_manifests c w0 w'"
    by (simp add: same_manifests_def store_base_def manifests_def fun_eq_iff)
qed

text \<open>Composing a manifest keeps what reads and stored objects keep.\<close>

lemma composing_keeps:
  assumes "inert I" "\<And>d. keeps I (put_object C root d)"
  shows "keeps I (composing C root msg actor)"
proof -
  note reads = inert_prims [OF assms(1)] inert_store_reads [OF assms(1)] inert_tombstones [OF assms(1)]
  have put: "keeps I ((case s of (fed, chunks, n) \<Rightarrow> \<lambda>data. andThen (put_object C root data) (k fed chunks n data)) x)"
    if "\<And>fed chunks n data h. keeps I (k fed chunks n data h)" for s x k
    by (cases s) (simp, intro keeps_intros assms(2) that)
  have c: "keeps I (chunk_file C root p)" for p
    unfolding chunk_file_def by (intro keeps_intros reads put)
  have l: "keeps I (capture_loop n C root p u s)" for n p u s
    by (induction n) (simp; intro keeps_intros reads c | assumption)+
  have e: "keeps I (snap_entry C root root pats tombs st item)" for pats tombs st item
    by (cases st; cases item) (auto simp: snap_entry_def chunk_file_stable_def Let_def
      intro!: keeps_intros reads l split: prod.splits)
  show ?thesis
    unfolding composing_def ignore_patterns_def Let_def by (intro keeps_intros reads inert_walk [OF assms(1)] e)
qed

lemmas composing_same_manifests = composing_keeps [OF framed_inert [OF framed_same_manifests] same_manifests_put_object]

text \<open>A new manifest is stored as it was serialized.\<close>

lemma committing_stores:
  assumes "same_manifests c w0 w" "manifests_ok c w" "manifests c w0 id0 = None" "committing (fst c) (snd c) b w = (Inr id0, w')"
  shows "manifests c w' id0 = Some b"
proof -
  have base: "store_base c w" using assms(1) by (simp add: same_manifests_def)
  note bf = store_base_facts [OF base]
  have dd: "''..'' \<notin> set (snd c)" using base by (simp add: store_base_def)
  from assms(4) obtain w1 u where put: "put_manifest (fst c) (snd c) b w = (Inr id0, w1)"
    and set: "set_head (fst c) (snd c) (Some id0) w1 = (Inr u, w')"
    by (auto simp: committing_def andThen_Inr comp_eval)
  have p: "id0 = hash_bytes (fst c) b" "sound (home c) w1"
      "entries w (manifest_at c id0) \<noteq> None \<and> entries w1 = entries w \<or> file_data (entries w1 (manifest_at c id0)) = Some b"
    using put_blob_result [OF bf(2) bf(3) put [unfolded put_manifest_blob, folded manifest_at_def]] by auto
  have "manifests c w1 id0 \<noteq> None"
    using manifests_put [OF assms(2) put] by auto
  moreover have "manifests c w id0 = None" using assms(1,3) by (simp add: same_manifests_def)
  ultimately have stored: "file_data (entries w1 (manifest_at c id0)) = Some b"
    using p(3) by (auto simp: manifests_def)
  have sh: "sound (fabric_dir (snd c)) w1" using p(2) by (simp add: home_def)
  have "evolves (home c) {head_path (snd c)} w1 w'"
    using atomic_write_result [OF sh slot_head [OF dd] set [unfolded set_head_def]] by (simp add: home_def)
  moreover have "store_base c w1" using base p(2) by (simp add: store_base_def)
  ultimately have "entries w' (manifest_at c id0) = entries w1 (manifest_at c id0)"
    using blobs_frame(2) [of c w1 "{head_path (snd c)}" w'] head_apart(1) [of c] by simp
  with stored show ?thesis by (simp add: manifests_def)
qed

lemma load_stored:
  assumes "store_base c w" "manifest_json_ok (fst c)" "typed m" "serialize (fst c) m = Inr b" "manifests c w h = Some b"
    and "load (fst c) (snd c) h w = (Inr m', w')"
  shows "m' = m"
proof -
  obtain d w1 where "get_manifest_bytes (fst c) (snd c) h w = (Inr d, w1)" "deserialize (fst c) d = Inr m'"
    using assms(6) by (auto simp: load_def andThen_Inr comp_eval)
  moreover from this(1) assms(5) have "d = b" using get_manifest_result(2) [OF assms(1)] by fastforce
  ultimately show ?thesis
    using assms(2-4) by (auto simp: manifest_json_ok_def serialize_def deserialize_def split: if_splits)
qed

section \<open>What a snapshot writes down\<close>

text \<open>The names below the root print as the paths they are.\<close>

definition plain_tree :: "path \<Rightarrow> world \<Rightarrow> bool" where
  "plain_tree root w \<longleftrightarrow> (\<forall>rel. entries w (root @ rel) \<noteq> None \<longrightarrow> rel \<noteq> [] \<longrightarrow> \<not> excluded rel \<longrightarrow>
     sanitize_rel (rel_string rel) = Inr rel \<and> utf8_valid (rel_string rel))"

lemma entry_of_facts:
  "fe_path (entry_of C rel d mo t) = rel_string rel" "fe_content (entry_of C rel d mo t) = hash_bytes C d"
  "fe_chunks (entry_of C rel d mo t) = chunks_of C d"
  by (simp_all add: entry_of_def split: prod.split)

lemma wanted_file_place:
  assumes "wanted_file c w pats ts rel d mo t" "entries w (snd c) = Some Dir"
  shows "entries w (snd c @ rel) = Some (File d mo t)" "rel \<noteq> []" "\<not> excluded rel"
  using assms by (auto simp: wanted_file_def)

lemma composed_typed:
  fixes c :: "('z) snap_crates_scheme \<times> path"
  assumes "composed c w msg actor m b" "crates_ok (fst c)" "entries w (snd c) = Some Dir" "plain_tree (snd c) w" "calm w"
    and "file_data (entries w (head_path (snd c))) = Some s" "utf8_valid s" "utf8_valid msg"
    and "\<And>a. actor = Some a \<Longrightarrow> utf8_valid a"
  shows "typed m"
proof -
  from assms(1,5-7) obtain pats tombs where tk: "taken c w msg actor pats tombs m" and
    par: "parse_head (fst c) s = Inr (m_parent m)" by (auto simp: composed_def)
  have "entry_typed fe" if fe: "fe \<in> set (m_files m)" for fe
  proof -
    from tk fe obtain rel d mo t where f: "wanted_file c w pats tombs rel d mo t" "fe = entry_of (fst c) rel d mo t"
      by (auto simp: taken_def)
    have "utf8_valid (rel_string rel)"
      using wanted_file_place [OF f(1) assms(3)] assms(4) by (auto simp: plain_tree_def)
    then show ?thesis
      using assms(2) by (simp add: entry_typed_def f(2) entry_of_facts chunks_of_def crates_ok_def list_all_iff)
  qed
  with tk par assms(8,9) show ?thesis
    by (auto simp: typed_def taken_def list_all_iff dest: parse_head_length split: option.splits)
qed

section \<open>After the command\<close>

text \<open>Reads leave a keeper's world as it is.\<close>

lemma still_keeper_run:
  assumes "keeper root w" "m w = (r, w')" "\<And>I. inert I \<Longrightarrow> keeps I m"
  shows "keeper root w'" "entries w' = entries w"
proof -
  have "still w w" using keeperD(1) [OF assms(1)] by (simp add: still_def sound_quiet)
  from keepsD [OF assms(3) [OF inert_still] this assms(2)] have s: "same_env w w'" "wfs w' = wfs w" by (simp_all add: still_def)
  show "keeper root w'" using keeper_evolves [OF assms(1)] sound_same [OF keeperD(1) [OF assms(1)] s] evolves_same [OF s, of _ "{}"] by blast
  show "entries w' = entries w" using s(2) by (simp add: entries_def)
qed

text \<open>The last steps write below \<open>.respawn\<close> only.\<close>

lemma guard_end:
  assumes "keeper root w" "andThen (set_head C root (Some h)) (\<lambda>_. audit_record C root ev det) w = (Inr u, w')"
    and "\<not> excluded rel" "entries w root = Some Dir"
  shows "entries w' (root @ rel) = entries w (root @ rel)"
proof -
  let ?F = "fabric_dir root" and ?X = "{head_path root, audit_path root}"
  have dd: "''..'' \<notin> set root" by (rule keeperD(3) [OF assms(1)])
  from assms(2) obtain v w1 where run: "set_head C root (Some h) w = (Inr v, w1)" "audit_record C root ev det w1 = (Inr u, w')"
    by (auto simp: andThen_Inr)
  have 1: "sound ?F w1" "evolves ?F {head_path root} w w1"
    using atomic_write_result [OF keeperD(1) [OF assms(1)] slot_head [OF dd] run(1) [unfolded set_head_def]] by simp_all
  have "held root {audit_path root} w1 w'"
    by (rule keepsD [OF held_audit_record [OF _ dd] held_refl [OF keeper_evolves [OF assms(1) 1]] run(2)]) simp
  then have "evolves ?F {audit_path root} w1 w'" by (simp add: held_def)
  then have ev: "evolves ?F ?X w w'"
    using evolves_trans [OF evolves_mono [OF 1(2)] evolves_mono] by blast
  show ?thesis
  proof (cases "rel = []")
    case True
    with evolves_node [OF ev, of root] assms(4) show ?thesis by (auto simp: node_evolves_def inside_def fabric_dir_def prefix_def)
  next
    case False
    then have "\<not> prefix ?F (root @ rel)" "\<not> prefix (root @ rel) ?F"
      using excluded_outside [OF assms(3) False, of "(C, root)"] by (simp_all add: home_def)
    with evolves_outside [OF ev] show ?thesis by blast
  qed
qed

section \<open>The whole run\<close>

text \<open>
  A command that leaves \<open>.respawn\<close> alone and the worktree a worktree: what it is free to do is
  create, change and remove whatever else it likes.
\<close>

definition keeps_fabric :: "spawner \<Rightarrow> string list \<Rightarrow> path \<Rightarrow> bool" where
  "keeps_fabric sp argv root \<longleftrightarrow> (\<forall>w r w'. sp argv root w = (r, w') \<longrightarrow> sound (fabric_dir root) w \<longrightarrow> no_dotdot root w \<longrightarrow>
     same_env w w' \<and> sound (fabric_dir root) w' \<and> no_dotdot root w' \<and> entries w' root = entries w root
     \<and> (\<forall>p. prefix (fabric_dir root) p \<longrightarrow> entries w' p = entries w p))"

text \<open>The worktree has the wanted files of \<open>w0\<close>, by content, and no other file or link that counts.\<close>

definition given_back :: "'z sel \<Rightarrow> world \<Rightarrow> string list \<Rightarrow> tombstone list \<Rightarrow> world \<Rightarrow> bool" where
  "given_back c w0 pats ts w \<longleftrightarrow>
     (\<forall>rel d mo t. wanted_file c w0 pats ts rel d mo t \<longrightarrow>
        (\<exists>d' mo' t'. entries w (snd c @ rel) = Some (File d' mo' t') \<and> blake3 (fst c) d' = blake3 (fst c) d))
     \<and> (\<forall>rel nd. entries w (snd c @ rel) = Some nd \<longrightarrow> nd \<noteq> Dir \<longrightarrow> \<not> excluded rel \<longrightarrow>
        (\<exists>rel0 d mo t. wanted_file c w0 pats ts rel0 d mo t \<and> rel_string rel = rel_string rel0))"

text \<open>A revert to a manifest taken from \<open>w0\<close>.\<close>

lemma revert_gives_back:
  fixes c :: "('z) snap_crates_scheme \<times> path"
  assumes "taken c w0 msg actor pats ts m" "entries w0 (snd c) = Some Dir" "plain_tree (snd c) w0"
    and "walk_ok (fst c)" "keeper (snd c) w" "no_dotdot (snd c) w" "entries w (snd c) = Some Dir"
    and "revert_apply (fst c) (snd c) (snd c) m False w = (Inr rep, w')"
  shows "given_back c w0 pats ts w'" "keeper (snd c) w'" "entries w' (snd c) = Some Dir"
proof -
  let ?fes = "m_files m" and ?root = "snd c"
  have hon: "honest w" using keeperD(2) [OF assms(5)] by (simp add: honest_def calm_def)
  note run = revert_apply_run [OF assms(4) keeperD(1) [OF assms(5)] hon assms(6,7,8)]
  have files: "fe \<in> set ?fes \<longleftrightarrow> (\<exists>rel d mo t. wanted_file c w0 pats ts rel d mo t \<and> fe = entry_of (fst c) rel d mo t)" for fe
    using assms(1) by (simp add: taken_def)
  have plain: "sanitize_rel (rel_string rel) = Inr rel \<and> \<not> excluded rel" if "wanted_file c w0 pats ts rel d mo t" for rel d mo t
    using wanted_file_place [OF that assms(2)] assms(3) by (auto simp: plain_tree_def)
  have "plain_paths ?root ?fes"
    unfolding plain_paths_def
  proof (intro ballI allI impI)
    fix fe comps
    assume "fe \<in> set ?fes" "sanitize_rel (fe_path fe) = Inr comps"
    then obtain rel d mo t where f: "wanted_file c w0 pats ts rel d mo t" "fe = entry_of (fst c) rel d mo t" "comps = rel"
      using files plain by (auto simp: entry_of_facts)
    have "\<not> tmp_area ?root (?root @ rel)"
      using plain [OF f(1)] by (cases rel) (auto simp: tmp_area_def fabric_dir_def excluded_def)
    with f show "rel_string comps = fe_path fe \<and> \<not> tmp_area ?root (?root @ comps)" by (simp add: entry_of_facts)
  qed
  from run(2) [OF refl this] have has: "has_files (fst c) ?root ?fes w'"
    and rest: "\<And>rel nd. entries w' (?root @ rel) = Some nd \<Longrightarrow> nd \<noteq> Dir \<Longrightarrow> \<not> unwanted ?root ?fes (?root @ rel)" by auto
  have "\<exists>d' mo' t'. entries w' (?root @ rel) = Some (File d' mo' t') \<and> blake3 (fst c) d' = blake3 (fst c) d"
    if f: "wanted_file c w0 pats ts rel d mo t" for rel d mo t
  proof -
    have "entry_of (fst c) rel d mo t \<in> set ?fes" using files f by blast
    then have "rel_string rel \<in> fe_path ` set ?fes" by (metis entry_of_facts(1) image_eqI)
    then obtain fe where fe: "by_path ?fes (rel_string rel) = Some fe" using by_path_dom by blast
    then have "fe \<in> set ?fes" "fe_path fe = rel_string rel" using by_path_Some by blast+
    then obtain rel1 d1 mo1 t1 where g: "wanted_file c w0 pats ts rel1 d1 mo1 t1" "fe = entry_of (fst c) rel1 d1 mo1 t1"
      using files by blast
    have "rel1 = rel" using plain [OF f] plain [OF g(1)] \<open>fe_path fe = rel_string rel\<close> g(2) by (simp add: entry_of_facts)
    then have "d1 = d" using f g(1) by (simp add: wanted_file_def)
    with has fe g(2) plain [OF f] show ?thesis
      by (fastforce simp: has_files_def entry_of_facts hash_bytes_def)
  qed
  moreover have "\<exists>rel0 d mo t. wanted_file c w0 pats ts rel0 d mo t \<and> rel_string rel = rel_string rel0"
    if "entries w' (?root @ rel) = Some nd" "nd \<noteq> Dir" "\<not> excluded rel" for rel nd
  proof -
    have "rel_string rel \<in> fe_path ` set ?fes"
      using rest [OF that(1,2)] that(3) by (auto simp: unwanted_def revert_excluded_def excluded_def)
    then obtain fe where fe: "fe \<in> set ?fes" "fe_path fe = rel_string rel" by auto
    then obtain rel0 d mo t where "wanted_file c w0 pats ts rel0 d mo t" "fe = entry_of (fst c) rel0 d mo t"
      using files by blast
    with fe(2) show ?thesis using entry_of_facts(1) by metis
  qed
  ultimately show "given_back c w0 pats ts w'" unfolding given_back_def by blast
  note R = revertingD [OF run(1)]
  have "calm w'" using run(1) keeperD(2) [OF assms(5)] same_env_calm unfolding reverting_def by blast
  with R(1,7) keeperD(3) [OF assms(5)] show "keeper ?root w'" "entries w' ?root = Some Dir" by (simp_all add: keeper_def)
qed

lemma given_back_same:
  assumes "given_back c w0 pats ts w" "\<And>rel. \<not> excluded rel \<Longrightarrow> entries w' (snd c @ rel) = entries w (snd c @ rel)"
    and "entries w0 (snd c) = Some Dir"
  shows "given_back c w0 pats ts w'"
proof -
  have "\<not> excluded rel" if "wanted_file c w0 pats ts rel d mo t" for rel d mo t
    using wanted_file_place [OF that assms(3)] by simp
  then show ?thesis using assms(1,2) unfolding given_back_def by metis
qed

text \<open>From the end of the command.\<close>

lemma guard_after_gives_back:
  fixes c :: "('z) snap_crates_scheme \<times> path"
  assumes "composed c w0 msg actor m b" "taken c w0 msg actor pats ts m" "entries w0 (snd c) = Some Dir" "plain_tree (snd c) w0"
    and "walk_ok (fst c)" "manifest_json_ok (fst c)" "crates_ok (fst c)" "typed m"
    and "keeper (snd c) w" "no_dotdot (snd c) w" "entries w (snd c) = Some Dir" "manifests c w id0 = Some b"
    and "guard_after (fst c) (snd c) (snd c) cmd policy full id0 st w = (Inr rep, w')" "gr_reverted rep"
  shows "given_back c w0 pats ts w'"
proof -
  let ?C = "fst c" and ?root = "snd c"
  from assms(13) obtain m' w1 report w2 rv w3 u x where
    ld: "load ?C ?root id0 w = (Inr m', w1)" and dt: "detect ?C ?root m' full w1 = (Inr report, w2)" and
    gr: "guard_revert ?C ?root ?root id0 m' (should_revert policy (\<not> exit_success st)) w2 = (Inr rv, w3)" and
    au: "audit_record ?C ?root ''guard'' x w3 = (Inr u, w')" and rv: "gr_reverted rep = rv"
    by (auto simp: guard_after_def andThen_Inr comp_eval Let_def status_parts_def)
  have base: "store_base c w" using assms(7,9) by (simp add: store_base_def keeper_def home_def)
  have m': "m' = m"
    using load_stored [OF base assms(6,8) _ assms(12) ld] assms(1) by (simp add: composed_def)
  note 1 = still_keeper_run [OF assms(9) ld inert_load]
  note 2 = still_keeper_run [OF 1(1) dt inert_detect]
  have e2: "entries w2 = entries w" using 1(2) 2(2) by simp
  from gr rv assms(14) m' obtain rr w4 v where ra: "revert_apply ?C ?root ?root m False w2 = (Inr rr, w4)"
    and sh: "set_head ?C ?root (Some id0) w4 = (Inr v, w3)"
    by (auto simp: guard_revert_def andThen_Inr comp_eval split: if_splits)
  have nd2: "no_dotdot ?root w2" "entries w2 ?root = Some Dir" using assms(10,11) by (simp_all add: no_dotdot_def e2)
  note r = revert_gives_back [OF assms(2-5) 2(1) nd2 ra]
  have last: "andThen (set_head ?C ?root (Some id0)) (\<lambda>_. audit_record ?C ?root ''guard'' x) w4 = (Inr u, w')"
    using sh au by simp
  show ?thesis
    by (rule given_back_same [OF r(1) guard_end [OF r(2) last _ r(3)] assms(3)])
qed

text \<open>What the lock and the reads before the snapshot change is not seen by it.\<close>

definition alike :: "world \<Rightarrow> world \<Rightarrow> bool" where
  "alike w w' \<longleftrightarrow> wfs w' = wfs w \<and> wfault w' = wfault w \<and> winterf w' = winterf w \<and> wenv w' = wenv w"

lemma alike_facts:
  assumes "alike w w'"
  shows "entries w' = entries w" "objects_ok c w' \<longleftrightarrow> objects_ok c w" "manifests_ok c w' \<longleftrightarrow> manifests_ok c w"
    "manifests c w' = manifests c w" "patterns_at root w' = patterns_at root w" "calm w' \<longleftrightarrow> calm w"
    "no_dotdot root w' \<longleftrightarrow> no_dotdot root w" "plain_tree root w' \<longleftrightarrow> plain_tree root w"
    "wanted_file c w' = wanted_file c w" "keeper root w' \<longleftrightarrow> keeper root w"
proof -
  have w: "wfs w' = wfs w" "wfault w' = wfault w" "winterf w' = winterf w" using assms by (simp_all add: alike_def)
  show e: "entries w' = entries w" by (simp add: entries_def w)
  show m: "manifests c w' = manifests c w" by (simp add: manifests_def fun_eq_iff e)
  have q: "quiet w' = quiet w" by (simp add: quiet_def w)
  show cm: "calm w' = calm w" by (simp add: calm_def q w)
  have s: "sound F w' = sound F w" for F by (simp add: sound_def q w)
  have b: "store_base c w' = store_base c w" by (simp add: store_base_def s)
  have o: "objects c w' = objects c w" by (simp add: objects_def fun_eq_iff e)
  show "objects_ok c w' = objects_ok c w" by (simp add: objects_ok_def b e o)
  show "manifests_ok c w' = manifests_ok c w" by (simp add: manifests_ok_def b e m)
  show "patterns_at root w' = patterns_at root w" by (simp add: patterns_at_def w)
  show "no_dotdot root w' = no_dotdot root w" by (simp add: no_dotdot_def e)
  show "plain_tree root w' = plain_tree root w" by (simp add: plain_tree_def e)
  show "wanted_file c w' = wanted_file c w" by (simp add: wanted_file_def e fun_eq_iff)
  show "keeper root w' = keeper root w" by (simp add: keeper_def s cm)
qed

lemma purged_list_alike: "alike w w' \<Longrightarrow> purged_list c w' ts \<longleftrightarrow> purged_list c w ts"
  by (simp add: purged_list_def alike_facts(1))

lemma evolves_no_dotdot: "no_dotdot root w \<Longrightarrow> evolves F X w w' \<Longrightarrow> no_dotdot root w'"
  unfolding no_dotdot_def
proof (intro allI impI)
  fix rel
  assume a: "\<forall>rel. entries w (root @ rel) \<noteq> None \<longrightarrow> ''..'' \<notin> set rel" "evolves F X w w'" "entries w' (root @ rel) \<noteq> None"
  from evolves_node [OF a(2), of "root @ rel"] a(1,3) show "''..'' \<notin> set rel"
    by (auto simp: node_evolves_def inside_def)
qed

lemma composing_stored:
  fixes c :: "('z) snap_crates_scheme \<times> path"
  assumes "cdc_ok (fst c)" "walk_ok (fst c)" "tombstone_json_ok (fst c)" "objects_ok c w" "manifests_ok c w"
    and "entries w (snd c) = Some Dir" "no_dotdot (snd c) w" "calm w"
    and "create_from_actor (fst c) (snd c) (snd c) msg actor w = (Inr id0, w')" "manifests c w id0 = None"
  obtains m b where "composed c w msg actor m b" "manifests c w' id0 = Some b" "keeper (snd c) w'" "no_dotdot (snd c) w'"
    "entries w' (snd c) = Some Dir"
proof -
  from assms(9) obtain m b w1 where co: "composing (fst c) (snd c) msg actor w = (Inr (m, b), w1)"
    and cm: "committing (fst c) (snd c) b w1 = (Inr id0, w')"
    by (auto simp: create_halves andThen_Inr)
  from triple_Inr [OF composing_triple [OF assms(1-7)] refl co]
  have c: "store_has c {} w (chunk_set m) w1" "composed c w msg actor m b" by simp_all
  have "same_manifests c w w" using manifests_ok_base [OF assms(5)] by (simp add: same_manifests_def)
  from keepsD [OF composing_same_manifests this co] have sm: "same_manifests c w w1" .
  have "manifests_ok c w1" using store_has_inv [OF c(1)] by (simp add: store_inv_def)
  from committing_stores [OF sm this assms(10) cm] have stored: "manifests c w' id0 = Some b" .
  have inv: "store_inv c {head_path (snd c)} w w'"
    using triple_Inr [OF committing_triple [OF c(2)] c(1) cm] by (simp add: snapshot_done_def)
  note kept = store_inv_kept [OF inv]
  have ev: "evolves (home c) ({head_path (snd c)} \<union> blobs c) w w'" using kept by (simp add: store_kept_def)
  have "''..'' \<notin> set (snd c)" using manifests_ok_base [OF assms(5)] by (simp add: store_base_def)
  then have "keeper (snd c) w'"
    using store_kept_sound [OF kept] store_kept_calm [OF kept] assms(8) by (simp add: keeper_def home_def)
  moreover have "entries w' (snd c) = Some Dir"
    using evolves_node [OF ev, of "snd c"] assms(6) by (auto simp: node_evolves_def inside_def home_def fabric_dir_def)
  ultimately show ?thesis using that [OF c(2) stored] evolves_no_dotdot [OF assms(7) ev] by blast
qed

text \<open>A worktree ready for a guarded run.\<close>

definition guard_ready :: "('z) snap_crates_scheme \<times> path \<Rightarrow> world \<Rightarrow> tombstone list \<Rightarrow> bool" where
  "guard_ready c w ts \<longleftrightarrow> objects_ok c w \<and> manifests_ok c w \<and> purged_list c w ts \<and> calm w
     \<and> entries w (snd c) = Some Dir \<and> no_dotdot (snd c) w \<and> plain_tree (snd c) w
     \<and> (\<exists>s. file_data (entries w (head_path (snd c))) = Some s \<and> utf8_valid s)
     \<and> (\<forall>a. wenv w ''RESPAWN_ACTOR'' = Some a \<longrightarrow> utf8_valid a)"

lemma guard_ready_alike: "alike w w' \<Longrightarrow> guard_ready c w' ts \<longleftrightarrow> guard_ready c w ts"
  by (simp add: guard_ready_def alike_facts purged_list_alike) (simp add: alike_def)

lemma env_actor_run: "env_actor w = (r, w') \<Longrightarrow> w' = w \<and> (\<exists>x. r = Inr x \<and> (\<forall>a. x = Some a \<longrightarrow> wenv w ''RESPAWN_ACTOR'' = Some a))"
  by (auto simp: env_actor_def comp_eval split: option.splits if_splits)

lemma utf8_guard: "utf8_valid s \<Longrightarrow> utf8_valid (''guard: '' @ s)"
  by (rule utf8_valid_append) (simp_all add: code_def)

lemma guard_body_gives_back:
  fixes c :: "('z) snap_crates_scheme \<times> path"
  assumes "cdc_ok (fst c)" "walk_ok (fst c)" "tombstone_json_ok (fst c)" "manifest_json_ok (fst c)"
    and "guard_ready c w ts" "utf8_valid (join_with '' '' argv)" "keeps_fabric sp argv (snd c)"
    and "guard_body (fst c) sp (snd c) (snd c) argv policy full w = (Inr rep, w')" "gr_reverted rep"
    and "manifests c w (gr_snapshot rep) = None"
  shows "given_back c w (patterns_at (snd c) w) ts w'"
proof -
  let ?C = "fst c" and ?root = "snd c" and ?msg = "''guard: '' @ join_with '' '' argv"
  from assms(8) obtain prev w1 id0 w2 y w3 st where hd: "store_head ?C ?root w = (Inr prev, w1)"
    and cr: "create ?C ?root ?root ?msg w1 = (Inr id0, w2)" and spn: "spawned sp argv ?root w2 = (Inr y, w3)"
    and af: "case y of Inl e \<Rightarrow> andThen (set_head ?C ?root prev) (\<lambda>_. fail (Io e)) w3 = (Inr rep, w')
      | Inr st \<Rightarrow> guard_after ?C ?root ?root (join_with '' '' argv) policy full id0 st w3 = (Inr rep, w')"
    unfolding guard_body_def Let_def
  proof (elim andThen_InrE, goal_cases)
    case (1 prev w1 id0 w2 y w3)
    from 1(5) have "case y of Inl e \<Rightarrow> andThen (set_head ?C ?root prev) (\<lambda>_. fail (Io e)) w3 = (Inr rep, w')
      | Inr st \<Rightarrow> guard_after ?C ?root ?root (join_with '' '' argv) policy full id0 st w3 = (Inr rep, w')" by (cases y) simp_all
    with 1(1-4) show ?case by blast
  qed
  from af obtain st where y: "y = Inr st"
    and af: "guard_after ?C ?root ?root (join_with '' '' argv) policy full id0 st w3 = (Inr rep, w')"
    by (auto simp: andThen_Inr comp_eval split: sum.splits)
  have id0: "gr_snapshot rep = id0"
    using af by (auto simp: guard_after_def andThen_Inr comp_eval Let_def status_parts_def)
  have ca: "crates_ok ?C" "calm w"
    using assms(5) manifests_ok_base [of c w] by (auto simp: guard_ready_def store_base_def)
  have "still w w" using ca(2) by (simp add: still_def calm_quiet)
  from keepsD [OF inert_store_reads(5) [OF inert_still] this hd] have al: "alike w w1"
    by (simp add: still_def alike_def same_env_def)
  note al1 = alike_facts(4,9) [OF al, where c = c] alike_facts(5) [OF al, where root = ?root]
  have g1: "guard_ready c w1 ts" by (rule guard_ready_alike [OF al, THEN iffD2, OF assms(5)])
  then have r: "objects_ok c w1" "manifests_ok c w1" "purged_list c w1 ts" "calm w1" "entries w1 ?root = Some Dir"
    "no_dotdot ?root w1" "plain_tree ?root w1" by (simp_all add: guard_ready_def)
  from cr obtain actor wa where ea: "env_actor w1 = (Inr actor, wa)"
    and cr: "create_from_actor ?C ?root ?root ?msg actor wa = (Inr id0, w2)"
    unfolding create_def create_from_def by (elim andThen_InrE)
  from env_actor_run [OF ea] have wa: "wa = w1" and ax: "\<And>a. actor = Some a \<Longrightarrow> wenv w1 ''RESPAWN_ACTOR'' = Some a" by auto
  have actor: "utf8_valid a" if "actor = Some a" for a
    using g1 ax [OF that] by (simp add: guard_ready_def)
  note cr = cr [unfolded wa]
  have fresh: "manifests c w1 id0 = None" using assms(10) al1(1) id0 by simp
  obtain m b where co: "composed c w1 ?msg actor m b" "manifests c w2 id0 = Some b" "keeper ?root w2" "no_dotdot ?root w2"
    "entries w2 ?root = Some Dir"
    by (rule composing_stored [OF assms(1-3) r(1,2,5,6,4) cr fresh])
  obtain s where s: "file_data (entries w1 (head_path ?root)) = Some s" "utf8_valid s"
    using g1 by (auto simp: guard_ready_def)
  have ty: "typed m"
    using composed_typed [OF co(1) ca(1) r(5,7,4) s] utf8_guard [OF assms(6)] actor by simp
  have tk: "taken c w1 ?msg actor (patterns_at ?root w1) ts m"
    using co(1) r(3,4) unfolding composed_def by auto
  have "sp argv ?root w2 = (y, w3)" using spn by (auto simp: spawned_def split: prod.splits)
  then have k: "same_env w2 w3" "sound (fabric_dir ?root) w3" "no_dotdot ?root w3" "entries w3 ?root = Some Dir"
      "\<And>p. prefix (fabric_dir ?root) p \<Longrightarrow> entries w3 p = entries w2 p"
    using assms(7) keeperD(1) [OF co(3)] co(4,5) unfolding keeps_fabric_def by auto
  have kp: "keeper ?root w3" using k(1,2) co(3) same_env_calm [OF k(1)] by (simp add: keeper_def)
  have base: "store_base c w2" using ca(1) co(3) by (simp add: store_base_def keeper_def home_def)
  have "prefix (fabric_dir ?root) (manifest_at c id0)"
    using slot_facts(1) [OF store_base_facts(2) [OF base]] inside_prefix by (auto simp: home_def)
  then have "manifests c w3 id0 = Some b" using co(2) k(5) by (simp add: manifests_def)
  from guard_after_gives_back [OF co(1) tk r(5,7) assms(2,4) ca(1) ty kp k(3,4) this af assms(9)]
  show ?thesis using al1(2,3) by (simp add: given_back_def)
qed

text \<open>Taking the lock when its file is there.\<close>

lemma try_lock_alike:
  assumes "try_lock root w = (r, w')" "sound (fabric_dir root) w" "''..'' \<notin> set root"
    and "entries w (fabric_dir root @ [''lock'']) \<noteq> None"
  shows "alike w w'"
proof -
  let ?p = "fabric_dir root @ [''lock'']"
  obtain q w1 where q: "p_open_append ?p w = (q, w1)" by fastforce
  have w': "w' = w1 \<or> w' = w1\<lparr>wlock := True\<rparr>"
    using q assms(1) by (cases q) (auto simp: try_lock_def andThen_def split: if_splits)
  have "inside (fabric_dir root) ?p" using assms(3) by (simp add: inside_def fabric_dir_def FABRIC_DIR_def)
  from p_open_append_sound [OF assms(2) this q] assms(4) have "same_env w w1" "wfs w1 = wfs w" by (auto split: sum.splits)
  with w' show ?thesis by (auto simp: alike_def same_env_def)
qed

section \<open>Setting HEAD back\<close>

text \<open>No temporary file stands directly in \<open>.respawn\<close>.\<close>

definition no_stage :: "path \<Rightarrow> world \<Rightarrow> bool" where
  "no_stage root w \<longleftrightarrow> (\<forall>t. is_tmp (fabric_dir root @ [t]) \<longrightarrow> entries w (fabric_dir root @ [t]) = None)"

lemma sound_deeper: "sound F w \<Longrightarrow> prefix F G \<Longrightarrow> ''..'' \<notin> set G \<Longrightarrow> sound G w"
  unfolding sound_def link_free_def by (meson prefix_order.trans prefix_same_cases)

text \<open>An atomic write that succeeds leaves the names beside its target alone, and its own is free.\<close>

lemma write_as_beside:
  assumes "sound F w" "slot F p" "write_as m tg p d w = (Inr u, w')" "butlast q = butlast p" "q \<noteq> []" "q \<noteq> p"
    and "entries w q = None"
  shows "entries w' q = None"
proof -
  let ?dir = "butlast p" and ?tmp = "butlast p @ [tmp_name w tg]"
  note s = slot_facts(1,2) [OF assms(2)] slot_facts(5,6) [OF assms(2), of tg w, unfolded stage_def] slot_facts(4) [OF assms(2)]
  from assms(3) obtain w1 tmp w2 f w3 w4 w5 v where
    1: "p_create_dir_all ?dir w = (Inr v, w1)" and 2: "tmp_path ?dir tg w1 = (Inr tmp, w2)" and
    3: "p_create_new m tmp w2 = (Inr f, w3)" and 4: "p_write_all f d w3 = (Inr (), w4)" and
    5: "p_sync_all f w4 = (Inr (), w5)" and 6: "p_rename tmp p w5 = (Inr (), w')"
    by (auto simp: write_as_def andThen_Inr Let_def)
  note c1 = p_create_dir_all_sound [OF assms(1) s(2) 1]
  have "\<not> prefix q ?dir"
    using assms(4,5) prefix_length_le [of q ?dir] by (cases q rule: rev_cases) auto
  then have e1: "entries w1 q = None" using c1(6) [of q] assms(7) by auto
  have "wtmp w1 = wtmp w" using 1 by (auto simp: p_create_dir_all_def dest: syscall_wtmp)
  moreover have "wpid w1 = wpid w"
    using c1(2) [OF slot_facts(11) [OF assms(2)], of "{}"] by (simp add: evolves_def same_env_def)
  ultimately have t: "tmp = ?tmp" "wfs w2 = wfs w1" "same_env w1 w2"
    using 2 by (auto simp: tmp_path_def tmp_name_def same_env_def)
  have s2: "sound F w2" by (rule sound_same [OF c1(1) t(3,2)])
  note c3 = p_create_new_sound [OF s2 s(3) 3 [unfolded t(1)]]
  obtain tt where f: "f = ?tmp" "wfs w3 = put_node ?tmp (File [] m tt) (wfs w2)" using c3(4) [OF refl] by auto
  have e3: "entries w3 ?tmp = Some (File [] m tt)" "q \<noteq> ?tmp \<Longrightarrow> entries w3 q = None"
    using f(2) e1 t(2) assms(5) by (simp_all add: entries_def entry_at_put)
  have ne: "?tmp \<noteq> []" by simp
  note c4 = p_write_all_sound [OF c3(1) s(3) 4 [unfolded f(1)] e3(1) ne]
  obtain k t4 where w4: "wfs w4 = put_node ?tmp (File ([] @ take k d) m t4) (wfs w3)" using c4(3) by blast
  have e4: "entries w4 ?tmp = Some (File (take k d) m t4)" "q \<noteq> ?tmp \<Longrightarrow> entries w4 q = None"
    using w4 e3(2) assms(5) by (simp_all add: entries_def entry_at_put)
  note c5 = syscall_result [OF 5 [unfolded p_sync_all_def] sound_quiet [OF c4(1)]]
  have w5: "wfs w5 = wfs w4" "same_env w4 w5" using c5 by auto
  have e5: "entries w5 ?tmp = Some (File (take k d) m t4)" "q \<noteq> ?tmp \<Longrightarrow> entries w5 q = None"
    using e4 w5(1) by (simp_all add: entries_def)
  note c6 = p_rename_sound(4) [OF sound_same [OF c4(1) w5(2,1)] s(3,1,4,5) e5(1) 6 [unfolded t(1)] refl]
  show ?thesis using c6 e5(2) assms(6) by (cases "q = ?tmp") auto
qed

definition clear_store :: "'z sel \<Rightarrow> world \<Rightarrow> bool" where
  "clear_store c w \<longleftrightarrow> store_base c w \<and> no_stage (snd c) w"

lemma inert_clear_store: "inert (clear_store c)"
  unfolding inert_def clear_store_def store_base_def no_stage_def
  by (auto simp: entries_def dest: sound_quiet intro: sound_same)

lemma put_blob_clear:
  assumes "clear_store c w" "put_blob (fabric_dir (snd c) @ [x, y, z]) h enc w = (r, w')"
    and "slot (fabric_dir (snd c)) (fabric_dir (snd c) @ [x, y, z])" "take 5 x \<noteq> ''.tmp-''"
  shows "clear_store c w'"
proof -
  let ?F = "fabric_dir (snd c)" let ?G = "?F @ [x, y]"
  have b: "sound ?F w" "store_base c w" "no_stage (snd c) w" using assms(1) by (simp_all add: clear_store_def store_base_def home_def)
  have sl: "slot ?G (?G @ [z])"
    using assms(3) by (auto simp: slot_def inside_def dir_place_def butlast_append is_tmp_def)
  have "''..'' \<notin> set ?G" using assms(3) by (auto simp: slot_def inside_def butlast_append)
  then have g: "sound ?G w" using sound_deeper [OF b(1), of ?G] by simp
  have "sound ?F w'"
    using put_blob_result [OF assms(3) b(1) assms(2)] by (auto simp: stays_def split: sum.splits)
  moreover have "evolves ?G {?G @ [z]} w w'"
    using put_blob_result [OF sl g, of h enc r w'] assms(2) evolves_mono [of ?G "{}" w w'] by (auto simp: stays_def split: sum.splits)
  then have "entries w' (?F @ [t]) = entries w (?F @ [t])" if "is_tmp (?F @ [t])" for t
    using evolves_node [of ?G "{?G @ [z]}" w w' "?F @ [t]"] that assms(4)
    by (auto simp: node_evolves_def inside_def dir_place_def is_tmp_def)
  ultimately show ?thesis using b(2,3) by (simp add: clear_store_def store_base_def home_def no_stage_def)
qed


lemma put_clear:
  fixes c :: "'z sel"
  assumes "hex_ok (fst c)" "clear_store c w"
  shows "put_object (fst c) (snd c) d w = (r, w') \<Longrightarrow> clear_store c w'"
    and "put_manifest (fst c) (snd c) d w = (q, w') \<Longrightarrow> clear_store c w'"
proof -
  have dd: "''..'' \<notin> set (snd c)" using assms(2) by (simp add: clear_store_def store_base_def)
  note sl = slot_object [OF assms(1) dd, of "hash_bytes (fst c) d"]
  show "put_object (fst c) (snd c) d w = (r, w') \<Longrightarrow> clear_store c w'"
    using put_blob_clear [OF assms(2)] sl(1) unfolding put_object_blob by (simp add: object_path_def Let_def)
  show "put_manifest (fst c) (snd c) d w = (q, w') \<Longrightarrow> clear_store c w'"
    using put_blob_clear [OF assms(2)] sl(2) unfolding put_manifest_blob by (simp add: manifest_path_def Let_def)
qed

lemma set_head_clear:
  fixes c :: "'z sel"
  assumes "clear_store c w" "set_head (fst c) (snd c) h w = (Inr u, w')"
  shows "clear_store c w'"
proof -
  let ?H = "head_path (snd c)"
  have b: "sound (fabric_dir (snd c)) w" "''..'' \<notin> set (snd c)" "no_stage (snd c) w" and i: "store_base c w"
    using assms(1) by (simp_all add: clear_store_def store_base_def home_def)
  note run = assms(2) [unfolded set_head_def atomic_write_as]
  have "sound (fabric_dir (snd c)) w'"
    using write_as_result [OF b(1) slot_head [OF b(2)] run] by simp
  moreover have "entries w' (fabric_dir (snd c) @ [t]) = None" if "is_tmp (fabric_dir (snd c) @ [t])" for t
  proof (rule write_as_beside [OF b(1) slot_head [OF b(2)] run])
    show "fabric_dir (snd c) @ [t] \<noteq> ?H" using that by (auto simp: head_path_def is_tmp_def)
  qed (use b(3) that in \<open>auto simp: no_stage_def head_path_def\<close>)
  ultimately show ?thesis using i by (simp add: clear_store_def store_base_def home_def no_stage_def)
qed

lemma create_clear:
  fixes c :: "('z) snap_crates_scheme \<times> path"
  assumes "hex_ok (fst c)" "clear_store c w" "create_from_actor (fst c) (snd c) (snd c) msg a w = (Inr k, w')"
  shows "clear_store c w'"
proof -
  have comp: "keeps (clear_store c) (composing (fst c) (snd c) msg a)"
    by (rule composing_keeps [OF inert_clear_store]) (rule keepsI, erule (1) put_clear(1) [OF assms(1)])
  from assms(3) obtain m b w1 w2 v where "composing (fst c) (snd c) msg a w = (Inr (m, b), w1)"
    "put_manifest (fst c) (snd c) b w1 = (Inr k, w2)" "set_head (fst c) (snd c) (Some k) w2 = (Inr v, w')"
    by (auto simp: create_halves committing_def andThen_Inr comp_eval)
  with keepsD [OF comp assms(2)] put_clear(2) [OF assms(1)] set_head_clear show ?thesis by blast
qed

text \<open>In a calm world with HEAD there, it can be set.\<close>

lemma set_head_succeeds:
  fixes c :: "'z sel"
  assumes "clear_store c w" "calm w" "file_data (entries w (head_path (snd c))) = Some s"
    and "set_head (fst c) (snd c) h w = (z, w')"
  shows "z = Inr ()"
proof (cases z)
  case (Inl x)
  let ?F = "fabric_dir (snd c)" and ?H = "head_path (snd c)"
  have b: "sound ?F w" "''..'' \<notin> set (snd c)" "no_stage (snd c) w"
    using assms(1) by (simp_all add: clear_store_def store_base_def home_def)
  have H: "butlast ?H = ?F" by (simp add: head_path_def)
  have "entries w q = Some Dir" if "prefix q ?F" for q
  proof -
    from that obtain zs where "?H = q @ zs @ [''HEAD'']" by (auto simp: head_path_def elim: prefixE)
    moreover have "entries w ?H \<noteq> None" using assms(3) by (cases "entries w ?H") simp_all
    ultimately show ?thesis
      using wf_fs_ancestor [OF sound_facts(2) [OF b(1)], of q "zs @ [''HEAD'']"] by (simp add: entries_def)
  qed
  then have "writable ?H w" using assms(2,3) b(3) H by (auto simp: writable_as_def no_stage_def)
  with atomic_write_result [OF b(1) slot_head [OF b(2)] assms(4) [unfolded set_head_def]] Inl show ?thesis by simp
qed simp

section \<open>Properties\<close>

text \<open>The lock is free again exactly if it was free.\<close>

lemma with_lock_lock:
  assumes "with_lock root m w = (r, w')"
  shows "\<not> wlock w' \<or> (\<exists>e. r = Inl e \<and> try_lock root w = (Inl e, w'))"
  using assms by (auto simp: with_lock_def unlock_def split: prod.splits sum.splits)

lemma audit_apart: "audit_path (snd c) \<notin> blobs c" "\<not> is_tmp (audit_path (snd c))" "audit_path (snd c) \<noteq> head_path (snd c)" for c :: "'z sel"
  using blob_length [of "audit_path (snd c)" c]
  by (auto simp: audit_path_def head_path_def home_def is_tmp_def)

text \<open>A run whose command does not start, once the lock is held.\<close>

definition head_kept :: "('z) snap_crates_scheme \<times> path \<Rightarrow> hash option \<Rightarrow> world \<Rightarrow> bool" where
  "head_kept c h w \<longleftrightarrow> (\<exists>s. file_data (entries w (head_path (snd c))) = Some s \<and> parse_head (fst c) s = Inr h)"

lemma store_head_honest:
  assumes "sound (fabric_dir root) w" "''..'' \<notin> set root" "honest w"
    and "file_data (entries w (head_path root)) = Some s" "utf8_valid s" "store_head C root w = (Inr prev, w')"
  shows "parse_head C s = Inr prev"
proof -
  let ?p = "head_path root"
  obtain y w1 where q: "p_read_to_string ?p w = (y, w1)" by fastforce
  note p = slot_facts(1) [OF slot_head [OF assms(2)]]
  have "fs_read True (wfs w) ?p = Inr s"
    using fs_read_clean [OF sound_facts(2) [OF assms(1)] sound_facts(3) [OF assms(1) p]] assms(4) by (simp add: entries_def)
  then have "y \<noteq> Inl (Io NotFound)"
    using syscall_honest [OF q [unfolded p_read_to_string_def] sound_quiet [OF assms(1)] assms(3)] assms(5) by auto
  with assms(6) q obtain d where "y = Inr d" "parse_head C d = Inr prev"
    by (cases y) (auto simp: store_head_def andThen_Inr comp_eval split: if_splits)
  with p_read_to_string_sound(4) [OF assms(1) p q] assms(4) show ?thesis by auto
qed

lemma never_ran_body:
  fixes c :: "('z) snap_crates_scheme \<times> path"
  assumes "cdc_ok (fst c)" "walk_ok (fst c)" "tombstone_json_ok (fst c)" "objects_ok c w" "manifests_ok c w"
    and "entries w (snd c) = Some Dir" "no_dotdot (snd c) w"
    and "file_data (entries w (head_path (snd c))) = Some s" "utf8_valid s" "parse_head (fst c) s = Inr h"
    and "honest w" "\<And>x. sp argv (snd c) x = (Inl e, x)" "guard_body (fst c) sp (snd c) (snd c) argv policy full w = (r, w')"
  shows "\<exists>err. r = Inl err" "store_inv c {head_path (snd c)} w w'"
    and "head_kept c h w' \<or> \<not> (calm w \<and> no_stage (snd c) w)
      \<and> (\<exists>k. file_data (entries w' (head_path (snd c))) = Some (hash_hex (fst c) k) \<and> manifests c w' k \<noteq> None)"
proof -
  let ?C = "fst c" and ?root = "snd c" and ?H = "head_path (snd c)"
  let ?Q = "head_kept c h w' \<or> \<not> (calm w \<and> no_stage ?root w)
    \<and> (\<exists>k. file_data (entries w' ?H) = Some (hash_hex ?C k) \<and> manifests c w' k \<noteq> None)"
  have b: "store_base c w" by (rule objects_ok_base [OF assms(4)])
  then have dd: "''..'' \<notin> set ?root" and s0: "sound (fabric_dir ?root) w" and hex: "hex_ok ?C"
    by (simp_all add: store_base_def home_def crates_ok_def)
  have ap: "apart c {?H}" by (rule head_slot_apart [OF dd])
  note inv0 = store_inv_refl [OF assms(4,5)]
  have same: "store_inv c {?H} w x" if "store_inv c {} w x" for x
    using that by (auto simp: store_inv_def store_kept_def intro: evolves_mono)
  have early: "store_inv c {?H} w x \<and> head_kept c h x" if "store_inv c {} w x" for x
    using same [OF that] store_kept_data [OF store_inv_kept [OF that] _ head_apart] assms(8,10) by (simp add: head_kept_def)
  obtain q w1 where hd: "store_head ?C ?root w = (q, w1)" by fastforce
  have i1: "store_inv c {} w w1"
    by (rule keepsD [OF framed_store_reads(5) [OF framed_inv [OF apart_none]] inv0 hd])
  have fs1: "wfs w1 = wfs w \<and> same_env w w1"
    using keepsD [OF inert_store_reads(5) [OF inert_still] _ hd, of w] sound_quiet [OF s0] by (simp add: still_def)
  have f1: "objects_ok c w1" "manifests_ok c w1" "entries w1 ?root = Some Dir" "no_dotdot ?root w1" "honest w1"
    "file_data (entries w1 ?H) = Some s"
    using i1 fs1 assms(6,7,8,11) honest_env [of w w1] by (simp_all add: store_inv_def entries_def no_dotdot_def)
  have "(\<exists>err. r = Inl err) \<and> store_inv c {?H} w w' \<and> ?Q"
  proof (cases q)
    case (Inl x)
    then have "r = Inl x" "w' = w1" using assms(13) hd by (simp_all add: guard_body_def Let_def)
    then show ?thesis using early [OF i1] by blast
  next
    case (Inr prev)
    have prev: "prev = h" using store_head_honest [OF s0 dd assms(11,8,9) hd [unfolded Inr]] assms(10) by simp
    obtain a where en: "env_actor w1 = (Inr a, w1)" using env_actor_run [of w1] by (metis prod.exhaust)
    obtain y w2 where cr: "create_from_actor ?C ?root ?root (''guard: '' @ join_with '' '' argv) a w1 = (y, w2)" by fastforce
    note tri = create_triple [OF assms(1-3) f1(1-4)]
    have o1: "objects c w1 = objects c w" "manifests c w1 = manifests c w"
      using fs1 by (simp_all add: objects_def manifests_def entries_def fun_eq_iff)
    have trans: "store_inv c X w x" if "store_inv c X w1 x" for X x
      using that evolves_trans [OF evolves_same [of w w1 "home c"]] fs1 unfolding store_inv_def store_kept_def o1 by blast
    show ?thesis
    proof (cases y)
      case (Inl x)
      then have "r = Inl x" "w' = w2" using assms(13) hd Inr en cr by (simp_all add: guard_body_def Let_def create_def create_from_def)
      moreover have "store_inv c {} w w2" using triple_Inl [OF tri refl] cr Inl store_has_inv trans by blast
      ultimately show ?thesis using early by blast
    next
      case y: (Inr k)
      have dn: "snapshot_done c w1 (''guard: '' @ join_with '' '' argv) a k w2" using triple_Inr [OF tri refl] cr y by blast
      then have i2: "store_inv c {?H} w w2" and k: "file_data (entries w2 ?H) = Some (hash_hex ?C k)" "manifests c w2 k \<noteq> None"
        using trans by (simp_all add: snapshot_done_def)
      obtain z w3 where sh: "set_head ?C ?root prev w2 = (z, w3)" by fastforce
      have r: "w' = w3" "\<exists>err. r = Inl err"
        using assms(13) hd Inr en cr y sh assms(12)
        by (auto simp: guard_body_def Let_def create_def create_from_def spawned_def comp_eval andThen_def split: sum.splits)
      have s2: "sound (fabric_dir ?root) w2" using store_kept_sound [OF store_inv_kept [OF i2]] by (simp add: home_def)
      note aw = atomic_write_result [OF s2 slot_head [OF dd] sh [unfolded set_head_def], folded home_def]
      show ?thesis
      proof (cases z)
        case (Inl x)
        with aw have st: "sound (home c) w3" "evolves (home c) {} w2 w3" by (simp_all add: stays_def home_def)
        have i3: "store_inv c {?H} w w3" by (rule store_inv_frame [OF i2 st(2,1) _ ap]) simp
        have "manifests c w3 = manifests c w2"
          using blobs_frame(2) [OF _ st(2)] i2 by (simp add: store_inv_def store_kept_def manifests_def fun_eq_iff)
        moreover have "file_data (entries w3 ?H) = file_data (entries w2 ?H)"
          by (rule evolves_data [OF st(2) _ head_apart(2)]) simp
        moreover have "\<not> (calm w \<and> no_stage ?root w)"
        proof
          assume a: "calm w \<and> no_stage ?root w"
          then have "clear_store c w1"
            using b fs1 sound_same [OF s0, of w1] by (simp add: clear_store_def store_base_def home_def no_stage_def entries_def)
          note cl = create_clear [OF hex this cr [unfolded y]]
          have "calm w2" using a store_inv_kept [OF i2] evolves_calm unfolding store_kept_def by blast
          from set_head_succeeds [OF cl this k(1) sh] Inl show False by simp
        qed
        ultimately show ?thesis using r i3 k by auto
      next
        case (Inr u)
        with aw have st: "sound (home c) w3" "evolves (home c) {?H} w2 w3"
          "file_data (entries w3 ?H) = Some (case prev of Some k \<Rightarrow> hash_hex ?C k | None \<Rightarrow> [])" by (simp_all add: home_def)
        have i3: "store_inv c {?H} w w3" by (rule store_inv_frame [OF i2 st(2,1) _ ap]) simp
        have "head_kept c h w3"
          using st(3) prev parse_head_empty parse_head_hex [OF hex parse_head_length] assms(10)
          by (cases h) (auto simp: head_kept_def)
        then show ?thesis using r i3 by blast
      qed
    qed
  qed
  then show "\<exists>err. r = Inl err" "store_inv c {head_path (snd c)} w w'" ?Q by blast+
qed

text \<open>C7: Snapshot, command, revert: the worktree is back. In a worktree at rest whose names read back
  as they print, with a command that leaves \<open>.respawn\<close> alone and is free to do anything else to the
  files, whenever \<open>guard\<close> reports that it has reverted (under a new snapshot id) every regular
  file that was there before the command, unless excluded, ignored or purged, is there with content
  of the same hash, and no other file or link is left outside the excluded names. The lock is free
  again.\<close>

theorem guard_undoes:
  fixes c :: "('z) snap_crates_scheme \<times> path"
  assumes "cdc_ok (fst c)" "walk_ok (fst c)" "tombstone_json_ok (fst c)" "manifest_json_ok (fst c)"
    and "guard_ready c w ts" "entries w (fabric_dir (snd c) @ [''lock'']) \<noteq> None"
    and "utf8_valid (join_with '' '' argv)" "keeps_fabric sp argv (snd c)"
    and "guard_run (fst c) sp (snd c) (snd c) argv policy full w = (Inr rep, w')" "gr_reverted rep"
    and "manifests c w (gr_snapshot rep) = None"
  shows "(\<forall>rel d mo t. wanted_file c w (patterns_at (snd c) w) ts rel d mo t \<longrightarrow>
        (\<exists>d' mo' t'. entries w' (snd c @ rel) = Some (File d' mo' t') \<and> blake3 (fst c) d' = blake3 (fst c) d))
     \<and> (\<forall>rel nd. entries w' (snd c @ rel) = Some nd \<longrightarrow> nd \<noteq> Dir \<longrightarrow> \<not> excluded rel \<longrightarrow>
        (\<exists>rel0 d mo t. wanted_file c w (patterns_at (snd c) w) ts rel0 d mo t \<and> rel_string rel = rel_string rel0))
     \<and> \<not> wlock w'"
proof -
  let ?C = "fst c" and ?root = "snd c"
  from assms(9) obtain w1 w2 where lk: "try_lock ?root w = (Inr (), w1)"
    and body: "guard_body ?C sp ?root ?root argv policy full w1 = (Inr rep, w2)" and w': "w' = unlock w2"
    by (auto simp: guard_run_def with_lock_def comp_eval split: if_splits prod.splits sum.splits)
  have "store_base c w" using assms(5) by (auto simp: guard_ready_def dest: manifests_ok_base)
  then have al: "alike w w1"
    using try_lock_alike [OF lk _ _ assms(6)] by (simp add: store_base_def home_def)
  note a = alike_facts(4,9) [OF al, where c = c] alike_facts(5) [OF al, where root = ?root]
  have "given_back c w1 (patterns_at ?root w1) ts w2"
    by (rule guard_body_gives_back [OF assms(1-4) guard_ready_alike [OF al, THEN iffD2, OF assms(5)] assms(7,8) body assms(10)])
      (simp add: a(1) assms(11))
  moreover have "entries w' = entries w2" by (simp add: w' unlock_def entries_def)
  ultimately show ?thesis
    by (simp add: given_back_def a(2,3)) (simp add: w' unlock_def)
qed

lemma unruly_keeps: "keeps_fabric unruly argv []"
  unfolding keeps_fabric_def
proof (intro allI impI)
  fix w r w'
  assume run: "unruly argv [] w = (r, w')" and s: "sound (fabric_dir []) w" and d: "no_dotdot [] w"
  let ?f1 = "overwrite [''b''] ''new'' (wfs w)" and ?F = "fabric_dir []"
  have w': "w' = w\<lparr>wfs := overwrite [''a''] ''gone'' ?f1\<rparr>" using run by (simp add: unruly_def)
  have f: "\<not> prefix ?F [x]" "\<not> prefix [x] ?F" if "x \<noteq> ''.respawn''" for x
    using that by (simp_all add: fabric_dir_def FABRIC_DIR_def)
  have 0: "wf_fs (wfs w)" "link_free ?F (wfs w)" using s by (simp_all add: sound_def)
  have 1: "wf_fs ?f1" "link_free ?F ?f1" by (rule overwrite_sound [OF 0 f]; simp)+
  have 2: "wf_fs (wfs w')" "link_free ?F (wfs w')" unfolding w' using overwrite_sound [OF 1 f, of "''a''" "''gone''"] by simp_all
  have e: "entries w' p = entries w p" if "p \<noteq> [''a'']" "p \<noteq> [''b'']" for p
    using that by (simp add: w' entries_def overwrite_def entry_at_put)
  have "no_dotdot [] w'"
    unfolding no_dotdot_def
  proof (intro allI impI)
    fix rel assume n: "entries w' ([] @ rel) \<noteq> None"
    show "''..'' \<notin> set rel"
      using d n e [of rel] by (cases "rel = [''a''] \<or> rel = [''b'']") (auto simp: no_dotdot_def)
  qed
  moreover have "entries w' p = entries w p" if "prefix ?F p" for p
    by (rule e) (use that f in auto)
  moreover have "quiet w'" "same_env w w'" using s by (simp_all add: w' sound_def quiet_def)
  ultimately show "same_env w w' \<and> sound ?F w' \<and> no_dotdot [] w' \<and> entries w' [] = entries w []
     \<and> (\<forall>p. prefix ?F p \<longrightarrow> entries w' p = entries w p)"
    using 2 e by (simp add: sound_def)
qed

lemma start_ready: "guard_ready snap_sel bench_start []"
proof -
  have "entries bench_start [] = Some Dir" "file_data (entries bench_start (head_path [])) = Some []"
    unfolding start_entries by (simp_all add: start_fs_def head_path_def fabric_dir_def FABRIC_DIR_def)
  moreover have "plain_tree [] bench_start"
    unfolding plain_tree_def
  proof (intro allI impI)
    fix rel assume r: "entries bench_start ([] @ rel) \<noteq> None" "rel \<noteq> []" "\<not> excluded rel"
    then have "rel = [''a'']"
      unfolding start_entries by (auto simp: start_fs_def excluded_def FABRIC_DIR_def split: if_splits)
    then show "sanitize_rel (rel_string rel) = Inr rel \<and> utf8_valid (rel_string rel)"
      by (simp add: rel_string_def replace_char_def sanitize_a code_def)
  qed
  ultimately show ?thesis using start_facts by (auto simp: guard_ready_def bench_def)
qed

theorem guard_undoes_witness:
  "\<exists>rep w'. guard_run ref_snap_crates unruly [] [] [''c''] Always True bench_start = (Inr rep, w')
     \<and> (\<exists>d m t. entries w' [''a''] = Some (File d m t) \<and> blake3 ref_snap_crates d = blake3 ref_snap_crates ''hello'')
     \<and> \<not> is_file_node (entries w' [''b'']) \<and> \<not> wlock w'"
proof -
  obtain rep w' where run: "guard_run ref_snap_crates unruly [] [] [''c''] Always True bench_start = (Inr rep, w')"
    and rep: "gr_reverted rep" using guarded_run by blast
  have c: "fst snap_sel = ref_snap_crates" "snd snap_sel = []" by simp_all
  have lock: "entries bench_start (fabric_dir [] @ [''lock'']) \<noteq> None"
    unfolding start_entries by (simp add: start_fs_def fabric_dir_def FABRIC_DIR_def)
  have "utf8_valid (join_with '' '' [''c''])" by (simp add: code_def)
  note * = guard_undoes [of snap_sel, unfolded c, OF ref_snap_facts(4,5,3,2) start_ready lock this unruly_keeps run rep start_facts(7)]
  have pats: "patterns_at [] bench_start = []"
    by (simp add: patterns_at_def bench_def start_fs_def fs_read_def fs_stat_def lookup_path_def max_symlinks_def entry_at_def parse_patterns_def)
  have a: "wanted_file snap_sel bench_start [] [] [''a''] ''hello'' 0x1A4 5"
    unfolding wanted_file_def start_entries by (simp add: start_fs_def excluded_def FABRIC_DIR_def ignored_def)
  have only: "rel = [''a'']" if "wanted_file snap_sel bench_start [] [] rel d m t" for rel d m t
    using that unfolding wanted_file_def start_entries by (auto simp: start_fs_def excluded_def FABRIC_DIR_def split: if_splits)
  have undone: "wanted_file snap_sel bench_start [] [] rel d mo t \<longrightarrow>
      (\<exists>d' mo' t'. entries w' ([] @ rel) = Some (File d' mo' t') \<and> blake3 ref_snap_crates d' = blake3 ref_snap_crates d)"
    and gone: "entries w' ([] @ rel) = Some nd \<longrightarrow> nd \<noteq> Dir \<longrightarrow> \<not> excluded rel \<longrightarrow>
      (\<exists>rel0 d mo t. wanted_file snap_sel bench_start [] [] rel0 d mo t \<and> rel_string rel = rel_string rel0)" for rel d mo t nd
    using * unfolding pats by blast+
  have "\<not> is_file_node (entries w' [''b''])"
  proof
    assume "is_file_node (entries w' [''b''])"
    then obtain d m t where b: "entries w' [''b''] = Some (File d m t)" by (auto simp: is_file_node_iff)
    have "\<not> excluded [''b'']" by (simp add: excluded_def FABRIC_DIR_def)
    with gone [of "[''b'']" "File d m t"] b only have "rel_string [''b''] = rel_string [''a'']" by auto
    then show False by (simp add: rel_string_def replace_char_def)
  qed
  moreover have "\<exists>d m t. entries w' [''a''] = Some (File d m t) \<and> blake3 ref_snap_crates d = blake3 ref_snap_crates ''hello''"
    using undone [of "[''a'']" "''hello''" "0x1A4" 5] a by simp
  ultimately show ?thesis using * run by blast
qed

text \<open>C8: A command that cannot be started. Whatever goes wrong, or nothing besides, the run ends in an
  error; the lock is as before, nothing outside \<open>.respawn\<close> has changed, no object of the store is
  lost and nothing is added to the audit log. HEAD is set back to what it meant: always when nothing
  fails and no leftover temporary file stands in \<open>.respawn\<close>; else HEAD means what it meant or
  names some stored manifest (a reset that fails leaves the snapshot of the guard there).\<close>

theorem guard_never_ran:
  fixes c :: "('z) snap_crates_scheme \<times> path"
  assumes "cdc_ok (fst c)" "walk_ok (fst c)" "tombstone_json_ok (fst c)" "objects_ok c w" "manifests_ok c w"
    and "entries w (snd c) = Some Dir" "no_dotdot (snd c) w" "entries w (fabric_dir (snd c) @ [''lock'']) \<noteq> None"
    and "file_data (entries w (head_path (snd c))) = Some s" "utf8_valid s" "parse_head (fst c) s = Inr h"
    and "honest w" "\<And>x. sp argv (snd c) x = (Inl e, x)"
    and "guard_run (fst c) sp (snd c) (snd c) argv policy full w = (r, w')"
  shows "(\<exists>err. r = Inl err) \<and> (wlock w' \<longleftrightarrow> wlock w)
     \<and> (\<forall>p. \<not> prefix (home c) p \<longrightarrow> \<not> prefix p (home c) \<longrightarrow> entries w' p = entries w p)
     \<and> (\<forall>k. objects c w k \<noteq> None \<longrightarrow> objects c w' k \<noteq> None)
     \<and> file_data (entries w' (audit_path (snd c))) = file_data (entries w (audit_path (snd c)))
     \<and> ((\<exists>s'. file_data (entries w' (head_path (snd c))) = Some s' \<and> parse_head (fst c) s' = Inr h)
        \<or> \<not> (calm w \<and> (\<forall>t. is_tmp (fabric_dir (snd c) @ [t]) \<longrightarrow> entries w (fabric_dir (snd c) @ [t]) = None))
          \<and> (\<exists>k. file_data (entries w' (head_path (snd c))) = Some (hash_hex (fst c) k) \<and> manifests c w' k \<noteq> None))"
proof -
  let ?C = "fst c" and ?root = "snd c"
  have same: ?thesis if "\<exists>err. r = Inl err" "alike w w'" "wlock w' \<longleftrightarrow> wlock w"
  proof -
    have e: "entries w' = entries w" by (rule alike_facts(1) [OF that(2)])
    then have "objects c w' = objects c w" by (simp add: objects_def fun_eq_iff)
    with that(1,3) e assms(9,11) show ?thesis by auto
  qed
  show ?thesis
  proof (cases "argv = []")
    case True
    with assms(14) same show ?thesis by (auto simp: guard_run_def comp_eval alike_def)
  next
    case False
    obtain q w1 where lk: "try_lock ?root w = (q, w1)" by fastforce
    have b: "sound (fabric_dir ?root) w" "''..'' \<notin> set ?root"
      using objects_ok_base [OF assms(4)] by (simp_all add: store_base_def home_def)
    note al = try_lock_alike [OF lk b assms(8)]
    note a = alike_facts(1) [OF al] alike_facts(2,3) [OF al, where c = c] alike_facts(7) [OF al, where root = ?root]
    show ?thesis
    proof (cases q)
      case (Inl x)
      with lk False assms(14) have "r = Inl x" "w' = w1" by (auto simp: guard_run_def with_lock_def)
      with same al try_lock_step(1) [OF lk] Inl show ?thesis by auto
    next
      case (Inr u)
      obtain y w2 where body: "guard_body ?C sp ?root ?root argv policy full w1 = (y, w2)" by fastforce
      with lk Inr False assms(14) have r: "r = y" "w' = unlock w2" by (auto simp: guard_run_def with_lock_def)
      have o1: "objects c w1 = objects c w" by (simp add: objects_def fun_eq_iff a(1))
      have "honest w1" using al assms(12) by (simp add: alike_def honest_def)
      note nr = never_ran_body [OF assms(1-3) _ _ _ _ _ assms(10,11) this assms(13) body, unfolded a o1, OF assms(4-7,9)]
      note kept = store_inv_kept [OF nr(2)]
      have e: "entries w' = entries w2" by (simp add: r(2) unlock_def entries_def)
      then have o: "objects c w' = objects c w2" "manifests c w' = manifests c w2"
        by (simp_all add: objects_def manifests_def fun_eq_iff)
      have "\<not> wlock w" using try_lock_step(2) [OF lk] Inr by simp
      moreover have "\<not> wlock w'" by (simp add: r(2) unlock_def)
      moreover have "entries w' p = entries w p" if "\<not> prefix (home c) p" "\<not> prefix p (home c)" for p
        using store_kept_outside [OF kept that] by (simp add: e a(1))
      moreover have "file_data (entries w' (audit_path ?root)) = file_data (entries w (audit_path ?root))"
        using store_kept_data [OF kept _ audit_apart(1,2)] audit_apart(3) [of c] by (simp add: e a(1))
      moreover have "\<forall>k. objects c w k \<noteq> None \<longrightarrow> objects c w' k \<noteq> None"
        using nr(2) by (simp add: o store_inv_def o1)
      moreover have "calm w1 \<longleftrightarrow> calm w" using al by (simp add: alike_def calm_def quiet_def)
      ultimately show ?thesis
        using nr(1,3) by (simp add: r(1) e o head_kept_def no_stage_def a(1))
    qed
  qed
qed

definition absent :: spawner where
  "absent argv root w = (Inl NotFound, w)"

theorem guard_never_ran_witness:
  "\<exists>err w'. guard_run ref_snap_crates absent [] [] [''c''] Always True bench_start = (Inl err, w')
     \<and> \<not> wlock w' \<and> entries w' [''a''] = Some (File ''hello'' 0x1A4 5)
     \<and> (\<exists>s'. file_data (entries w' (head_path [])) = Some s' \<and> parse_head ref_snap_crates s' = Inr None)"
proof -
  obtain r w' where run: "guard_run (fst snap_sel) absent (snd snap_sel) (snd snap_sel) [''c''] Always True bench_start = (r, w')"
    by fastforce
  have e: "entries bench_start (snd snap_sel) = Some Dir" "entries bench_start (fabric_dir (snd snap_sel) @ [''lock'']) \<noteq> None"
    "file_data (entries bench_start (head_path (snd snap_sel))) = Some []" "entries bench_start [''a''] = Some (File ''hello'' 0x1A4 5)"
    unfolding start_entries by (simp_all add: start_fs_def head_path_def fabric_dir_def FABRIC_DIR_def)
  have ok: "cdc_ok (fst snap_sel)" "walk_ok (fst snap_sel)" "tombstone_json_ok (fst snap_sel)" "no_dotdot (snd snap_sel) bench_start"
    using ref_snap_facts start_facts(5) by simp_all
  have sp: "absent [''c''] (snd snap_sel) x = (Inl NotFound, x)" for x by (simp add: absent_def)
  have hon: "honest bench_start" by (simp add: honest_def bench_def)
  have u: "utf8_valid []" by simp
  note * = guard_never_ran [OF ok(1-3) start_facts(3,4) e(1) ok(4) e(2,3) u parse_head_empty hon sp run]
  have "calm bench_start" by (simp add: calm_def quiet_def bench_def)
  moreover have "\<forall>t. is_tmp (fabric_dir (snd snap_sel) @ [t]) \<longrightarrow> entries bench_start (fabric_dir (snd snap_sel) @ [t]) = None"
    unfolding start_entries by (auto simp: start_fs_def fabric_dir_def FABRIC_DIR_def is_tmp_def)
  ultimately have h: "\<exists>s'. file_data (entries w' (head_path (snd snap_sel))) = Some s' \<and> parse_head (fst snap_sel) s' = Inr None"
    using * by blast
  have "\<not> wlock bench_start" by (simp add: bench_def)
  then obtain err where "r = Inl err" "\<not> wlock w'" and
    o: "\<forall>p. \<not> prefix (home snap_sel) p \<longrightarrow> \<not> prefix p (home snap_sel) \<longrightarrow> entries w' p = entries bench_start p"
    using * by blast
  moreover have "entries w' [''a''] = entries bench_start [''a'']"
    using o by (simp add: home_def fabric_dir_def FABRIC_DIR_def)
  ultimately show ?thesis using run e(4) h by auto
qed

end
