(* ===== verification/Surgical.thy ===== *)
theory Surgical
  imports Revert
begin

text \<open>
  \<open>surgical_manifest\<close> of \<open>src/revert.rs\<close>: the manifest HEAD would have without the
  snapshots of one actor. The walk along the chain is separate from the pure computation over
  its manifests, oldest first; \<open>surgery\<close> is the state of that loop.
\<close>

section \<open>The chain\<close>

function surgical_chain ::
    "('z) snap_crates_scheme \<Rightarrow> path \<Rightarrow> nat \<Rightarrow> manifest list \<Rightarrow> hash option \<Rightarrow> manifest list io" where
  "surgical_chain C root guard mans None = ok mans"
| "surgical_chain C root guard mans (Some id0) =
     (if guard > 2000000 then fail (Corrupt ''manifest chain too long'')
      else
        andThen (load C root id0) (\<lambda>m.
        surgical_chain C root (guard + 1) (mans @ [m]) (m_parent m)))"
  by pat_completeness auto
termination
  by (relation "measure (\<lambda>(C, root, guard, mans, cur). 2000001 - guard)") auto

section \<open>The loop over the manifests\<close>

record surgery =
  sg_touched :: "string list"
  sg_pre :: "string \<Rightarrow> file_entry option option"
  sg_actor :: "string \<Rightarrow> hash list"
  sg_effective :: "string \<Rightarrow> file_entry option"
  sg_prev :: "file_entry list"

definition no_surgery :: surgery where
  "no_surgery = \<lparr>sg_touched = [], sg_pre = (\<lambda>_. None), sg_actor = (\<lambda>_. []), sg_effective = (\<lambda>_. None), sg_prev = []\<rparr>"

definition touch :: "surgery \<Rightarrow> string \<Rightarrow> surgery" where
  "touch s p = s\<lparr>sg_touched := List.insert p (sg_touched s),
     sg_pre := (case sg_pre s p of Some _ \<Rightarrow> sg_pre s | None \<Rightarrow> (sg_pre s)(p \<mapsto> by_path (sg_prev s) p))\<rparr>"

definition actor_path :: "file_entry list \<Rightarrow> surgery \<Rightarrow> string \<Rightarrow> surgery" where
  "actor_path cur s p =
     (case by_path cur p of
        None \<Rightarrow> s
      | Some fe \<Rightarrow>
          (let s = (if map_option fe_content (by_path (sg_prev s) p) \<noteq> Some (fe_content fe) then touch s p else s)
           in s\<lparr>sg_actor := (sg_actor s)(p := fe_content fe # sg_actor s p)\<rparr>))"

definition deleted_path :: "file_entry list \<Rightarrow> surgery \<Rightarrow> string \<Rightarrow> surgery" where
  "deleted_path cur s p = (if by_path cur p = None then touch s p else s)"

definition other_entry :: "surgery \<Rightarrow> file_entry \<Rightarrow> surgery" where
  "other_entry s fe =
     (if fe_content fe \<in> set (sg_actor s (fe_path fe)) then s
      else s\<lparr>sg_effective := (sg_effective s)(fe_path fe \<mapsto> fe)\<rparr>)"

definition surgical_step :: "string \<Rightarrow> surgery \<Rightarrow> manifest \<Rightarrow> surgery" where
  "surgical_step actor s m =
     (let cur = m_files m;
          s = (if m_actor m = Some actor
               then fold (\<lambda>p s. deleted_path cur s p) (paths (sg_prev s))
                      (fold (\<lambda>p s. actor_path cur s p) (paths cur) s)
               else fold (\<lambda>fe s. other_entry s fe) cur s)
      in s\<lparr>sg_prev := cur\<rparr>)"

definition surgical_resolve :: "surgery \<Rightarrow> string \<Rightarrow> file_entry option" where
  "surgical_resolve s p =
     (case sg_effective s p of
        Some e \<Rightarrow> Some e
      | None \<Rightarrow> (case sg_pre s p of Some (Some e) \<Rightarrow> Some e | _ \<Rightarrow> None))"

section \<open>The result\<close>

definition surgical_files :: "surgery \<Rightarrow> file_entry list \<Rightarrow> file_entry list" where
  "surgical_files s head_files =
     (let touched = sort (sg_touched s);
          kept = List.map_filter (\<lambda>f. if fe_path f \<in> set touched then surgical_resolve s (fe_path f) else Some f) head_files;
          back = List.map_filter (\<lambda>p. if p \<in> fe_path ` set head_files then None else surgical_resolve s p) touched
      in sort_key fe_path (kept @ back))"

definition surgical_of :: "string \<Rightarrow> manifest list \<Rightarrow> error + (manifest \<times> string list)" where
  "surgical_of actor mans =
     (if mans = [] then Inl (Corrupt ''no HEAD snapshot'')
      else
        let head_m = last mans; s = fold (\<lambda>m s. surgical_step actor s m) mans no_surgery in
        if sg_touched s = [] then
          Inl (Corrupt (''no changes by actor '' @ quoted actor @ '' in the HEAD chain''))
        else
          Inr (head_m\<lparr>m_files := surgical_files s (m_files head_m),
                      m_message := ''surgical undo of actor '' @ quoted actor\<rparr>,
               sort (sg_touched s)))"

definition surgical_manifest :: "('z) snap_crates_scheme \<Rightarrow> path \<Rightarrow> string \<Rightarrow> (manifest \<times> string list) io" where
  "surgical_manifest C root actor =
     andThen (store_head C root) (\<lambda>head.
     andThen (surgical_chain C root 0 [] head) (\<lambda>mans.
     lift (surgical_of actor (rev mans))))"

end
