(* ===== verification/Commands.thy ===== *)
theory Commands
  imports Keys
begin

text \<open>
  Running the programs of the operating system, as \<open>src/admin.rs\<close>, \<open>src/apfs.rs\<close> and
  \<open>src/schedule.rs\<close> do, and what the process knows of its host. The programs are parameters.
\<close>

section \<open>The host\<close>

text \<open>\<open>std::process::Output\<close>: the two streams as \<open>from_utf8_lossy\<close> gives them.\<close>

record proc_out =
  po_success :: bool
  po_stdout :: string
  po_stderr :: string

type_synonym runner = "string \<Rightarrow> string list \<Rightarrow> world \<Rightarrow> (ioerr + proc_out) \<times> world"

text \<open>
  The programs, the working directory, the path of the running binary, the directory for
  temporary files and the device number of a file.
\<close>

record host =
  h_run :: runner
  h_cwd :: path
  h_exe :: "ioerr + path"
  h_temp :: path
  h_dev :: "fs \<Rightarrow> path \<Rightarrow> nat"

definition proc_output :: "('h) host_scheme \<Rightarrow> string \<Rightarrow> string list \<Rightarrow> proc_out io" where
  "proc_output H cmd args w = (case h_run H cmd args w of (r, w1) \<Rightarrow> (map_sum Io id r, w1))"

text \<open>\<open>run\<close>, which \<open>apfs.rs\<close> and \<open>schedule.rs\<close> define alike.\<close>

definition run_command :: "('h) host_scheme \<Rightarrow> string \<Rightarrow> string list \<Rightarrow> string io" where
  "run_command H cmd args =
     andThen (proc_output H cmd args) (\<lambda>out.
     if \<not> po_success out then
       fail (Corrupt (cmd @ '' '' @ join_with '' '' args @ '' failed: '' @ trim (po_stderr out)))
     else ok (po_stdout out))"

text \<open>An absolute path as text, read as \<open>PathBuf::from\<close> does.\<close>

definition path_of :: "string \<Rightarrow> path" where
  "path_of s = filter (\<lambda>w. w \<noteq> [] \<and> w \<noteq> ''.'') (split_on slash s)"

section \<open>Text\<close>

text \<open>\<open>str::split_once\<close>, \<open>strip_prefix\<close>, \<open>strip_suffix\<close> and \<open>contains\<close>.\<close>

fun split_once :: "string \<Rightarrow> string \<Rightarrow> (string \<times> string) option" where
  "split_once sep [] = (if sep = [] then Some ([], []) else None)"
| "split_once sep (c # s) =
     (if take (length sep) (c # s) = sep then Some ([], drop (length sep) (c # s))
      else map_option (\<lambda>(a, b). (c # a, b)) (split_once sep s))"

definition strip_prefix :: "string \<Rightarrow> string \<Rightarrow> string option" where
  "strip_prefix pre s = (if take (length pre) s = pre then Some (drop (length pre) s) else None)"

definition strip_suffix :: "string \<Rightarrow> string \<Rightarrow> string option" where
  "strip_suffix suf s = map_option rev (strip_prefix (rev suf) (rev s))"

definition contains :: "string \<Rightarrow> string \<Rightarrow> bool" where
  "contains s t \<longleftrightarrow> split_once t s \<noteq> None"

lemma split_once_join: "split_once sep s = Some (a, b) \<Longrightarrow> s = a @ sep @ b"
proof (induction sep s arbitrary: a rule: split_once.induct)
  case (2 sep c s)
  show ?case
  proof (cases "take (length sep) (c # s) = sep")
    case True
    with 2(2) have "a = []" "b = drop (length sep) (c # s)" by auto
    with True show ?thesis by (metis append_Nil append_take_drop_id)
  next
    case False
    with 2(2) obtain a' where "split_once sep s = Some (a', b)" "a = c # a'" by auto
    with 2(1) [OF False] show ?thesis by simp
  qed
qed (auto split: if_splits)

lemma strip_prefix_Some: "strip_prefix pre s = Some t \<longleftrightarrow> s = pre @ t"
  by (auto simp: strip_prefix_def) (metis append_take_drop_id)

lemma strip_suffix_Some: "strip_suffix suf s = Some t \<longleftrightarrow> s = t @ suf"
  by (auto simp: strip_suffix_def strip_prefix_Some) (metis rev_append rev_rev_ident)

end
