(* ===== verification/Admin.thy ===== *)
theory Admin
  imports Commands
begin

text \<open>
  \<open>src/admin.rs\<close>: taking a snapshot with administrator rights, by a shell command inside an
  AppleScript literal. Both layers of quoting are followed by what reads them: the quoting
  rules of POSIX \<open>sh\<close> and the escapes of an AppleScript literal.
\<close>

section \<open>Quoting\<close>

abbreviation quote :: char where "quote \<equiv> CHR 0x27"
abbreviation dquote :: char where "dquote \<equiv> CHR 0x22"

definition sh_quote :: "string \<Rightarrow> string" where
  "sh_quote s = [quote] @ replace_char quote [quote, backslash, quote, quote] s @ [quote]"

definition as_escape :: "string \<Rightarrow> string" where
  "as_escape s = replace_char dquote [backslash, dquote] (replace_char backslash [backslash, backslash] s)"

section \<open>The script\<close>

definition run_capture :: "('h) host_scheme \<Rightarrow> string \<Rightarrow> string list \<Rightarrow> proc_out io" where
  "run_capture H cmd args = proc_output H cmd args"

definition host_uid :: "('h) host_scheme \<Rightarrow> string io" where
  "host_uid H = andThen (run_capture H ''id'' [''-u'']) (\<lambda>out. ok (trim (po_stdout out)))"

definition host_gid :: "('h) host_scheme \<Rightarrow> string io" where
  "host_gid H = andThen (run_capture H ''id'' [''-g'']) (\<lambda>out. ok (trim (po_stdout out)))"

definition admin_shell :: "string \<Rightarrow> string \<Rightarrow> path \<Rightarrow> path \<Rightarrow> path \<Rightarrow> string \<Rightarrow> string" where
  "admin_shell uid gid exe worktree fabric message =
     ''cd '' @ sh_quote (path_string worktree) @ '' && '' @ sh_quote (path_string exe) @ '' snap --apfs -m ''
       @ sh_quote message @ '' && /usr/sbin/chown -R '' @ uid @ '':'' @ gid @ '' '' @ sh_quote (path_string fabric)"

definition admin_script :: "('h) host_scheme \<Rightarrow> path \<Rightarrow> path \<Rightarrow> path \<Rightarrow> string \<Rightarrow> string io" where
  "admin_script H exe worktree fabric message =
     andThen (host_uid H) (\<lambda>uid.
     andThen (host_gid H) (\<lambda>gid.
     ok (''do shell script '' @ [dquote] @ as_escape (admin_shell uid gid exe worktree fabric message) @ [dquote]
           @ '' with administrator privileges'')))"

definition snap_as_admin_macos :: "('h) host_scheme \<Rightarrow> path \<Rightarrow> path \<Rightarrow> path \<Rightarrow> string \<Rightarrow> unit io" where
  "snap_as_admin_macos H exe worktree fabric message =
     andThen (admin_script H exe worktree fabric message) (\<lambda>script.
     andThen (run_capture H ''/usr/bin/osascript'' [''-e'', script]) (\<lambda>out.
     let stderr = po_stderr out in
     if \<not> po_success out then
       (if contains stderr ''-128'' \<or> contains stderr ''User canceled'' then
          fail (Corrupt ''admin authorization cancelled'')
        else fail (Corrupt (''privileged snapshot failed: '' @ trim stderr)))
     else ok ()))"

text \<open>The target the binary was built for decides.\<close>

definition snap_as_admin :: "('h) host_scheme \<Rightarrow> path \<Rightarrow> path \<Rightarrow> path \<Rightarrow> string \<Rightarrow> unit key_io" where
  "snap_as_admin H exe worktree fabric message =
     andThen is_macos (\<lambda>mac.
     if mac then on_disk (snap_as_admin_macos H exe worktree fabric message)
     else fail (Corrupt (''--ask-admin uses macOS administrator authorization '' @ emdash @ '' macOS-only'')))"

definition is_root :: "('h) host_scheme \<Rightarrow> bool io" where
  "is_root H = andThen (attempt (host_uid H)) (\<lambda>r. ok (case r of Inr u \<Rightarrow> u = ''0'' | Inl _ \<Rightarrow> False))"

section \<open>What the shell reads\<close>

text \<open>
  The quoting of POSIX \<open>sh\<close> (XCU 2.2): between single quotes every character stands for
  itself; outside them a backslash preserves the next one. The characters that may start an
  expansion or a control operator outside quotes are not read; a run that meets one gives
  \<open>None\<close>. \<open>&&\<close> between blanks is an operator and, as the word \<open>&&\<close> of its own, kept apart
  by the flag of \<open>sh_words\<close>.
\<close>

datatype sh_token = Word string | AndIf

definition sh_special :: "char \<Rightarrow> bool" where
  "sh_special c \<longleftrightarrow> c \<in> set ''|;<>()$`*?[]#~=%!{}'' \<or> c = newline \<or> c = CHR 0x09 \<or> c = CHR 0x00 \<or> c = dquote"

fun sh_read :: "string option \<Rightarrow> bool \<Rightarrow> string \<Rightarrow> sh_token list option" where
  "sh_read acc True [] = None"
| "sh_read acc True (c # s) =
     (if c = quote then sh_read acc False s else sh_read (Some (the acc @ [c])) True s)"
| "sh_read acc False [] = Some (case acc of Some u \<Rightarrow> [Word u] | None \<Rightarrow> [])"
| "sh_read acc False (c # s) =
     (if c = quote then sh_read (Some (case acc of Some u \<Rightarrow> u | None \<Rightarrow> [])) True s
      else if c = backslash then
        (case s of [] \<Rightarrow> None
         | d # t \<Rightarrow> if d = newline then None else sh_read (Some ((case acc of Some u \<Rightarrow> u | None \<Rightarrow> []) @ [d])) False t)
      else if c = CHR '' '' then
        map_option ((@) (case acc of Some u \<Rightarrow> [Word u] | None \<Rightarrow> [])) (sh_read None False s)
      else if c = CHR ''&'' then
        (case s of [] \<Rightarrow> None
         | d # t \<Rightarrow> if d = CHR ''&'' \<and> acc = None then map_option ((#) AndIf) (sh_read None False t) else None)
      else if sh_special c then None
      else sh_read (Some ((case acc of Some u \<Rightarrow> u | None \<Rightarrow> []) @ [c])) False s)"

definition sh_words :: "string \<Rightarrow> sh_token list option" where
  "sh_words s = sh_read None False s"

text \<open>An AppleScript literal up to its closing quote, and what follows it.\<close>

fun as_read :: "string \<Rightarrow> (string \<times> string) option" where
  "as_read [] = None"
| "as_read (c # s) =
     (if c = dquote then Some ([], s)
      else if c = backslash then
        (case s of [] \<Rightarrow> None
         | d # t \<Rightarrow>
             if d = backslash \<or> d = dquote then map_option (\<lambda>(u, rest). (d # u, rest)) (as_read t)
             else None)
      else map_option (\<lambda>(u, rest). (c # u, rest)) (as_read s))"

section \<open>Both layers, read back\<close>

definition plain_char :: "char \<Rightarrow> bool" where
  "plain_char c \<longleftrightarrow> c \<noteq> quote \<and> c \<noteq> backslash \<and> c \<noteq> CHR '' '' \<and> c \<noteq> CHR ''&'' \<and> \<not> sh_special c"

lemma sh_read_quoted:
  "sh_read (Some u) True (replace_char quote [quote, backslash, quote, quote] s @ quote # rest)
     = sh_read (Some (u @ s)) False rest"
proof (induction s arbitrary: u)
  case (Cons c s)
  have n: "quote \<noteq> backslash" "backslash \<noteq> quote" "quote \<noteq> newline" by simp_all
  have a: "sh_read (Some (u @ [c])) True (replace_char quote [quote, backslash, quote, quote] s @ quote # rest)
      = sh_read (Some (u @ c # s)) False rest" using Cons [of "u @ [c]"] by simp
  show ?case
  proof (cases "c = quote")
    case True
    with a show ?thesis by simp
  next
    case False
    with a show ?thesis by simp
  qed
qed simp

lemma sh_read_sh_quote:
  "sh_read None False (sh_quote s @ rest) = sh_read (Some s) False rest"
  using sh_read_quoted [of "[]" s rest] by (simp add: sh_quote_def)

lemma sh_read_plain:
  "list_all plain_char s \<Longrightarrow> sh_read (Some u) False (s @ rest) = sh_read (Some (u @ s)) False rest"
  by (induction s arbitrary: u) (auto simp: plain_char_def)

lemma sh_read_plain_word:
  assumes "list_all plain_char s" "s \<noteq> []"
  shows "sh_read None False (s @ rest) = sh_read (Some s) False rest"
  using assms sh_read_plain [of "tl s" "[hd s]" rest] by (cases s) (auto simp: plain_char_def)

lemma sh_read_blank: "sh_read (Some u) False (CHR '' '' # s) = map_option ((#) (Word u)) (sh_read None False s)"
proof -
  have "(@) [Word u] = (#) (Word u)" by (simp add: fun_eq_iff)
  then show ?thesis by simp
qed

lemma sh_read_and: "sh_read None False (''&& '' @ s) = map_option ((#) AndIf) (sh_read None False s)"
  by (simp add: option.map_comp comp_def option.map_ident)

text \<open>An argument survives both layers of the shell's quoting whatever it holds.\<close>

lemma sh_words_quote: "sh_words (sh_quote s) = Some [Word s]"
  using sh_read_sh_quote [of s "[]"] by (simp add: sh_words_def)

lemma as_read_escape: "as_read (as_escape s @ dquote # rest) = Some (s, rest)"
proof (induction s)
  case (Cons c s)
  have "dquote \<noteq> backslash" by simp
  with Cons show ?case by (simp add: as_escape_def)
qed (simp add: as_escape_def)

lemma digits_plain: "list_all digit s \<Longrightarrow> list_all plain_char s"
proof (rule list.pred_mono_strong)
  fix c assume "digit c"
  then show "plain_char c" by (auto simp: digit_def plain_char_def sh_special_def code_def)
qed

lemma fixed_words:
  "list_all plain_char ''cd''" "list_all plain_char ''snap''" "list_all plain_char ''--apfs''" "list_all plain_char ''-m''"
  "list_all plain_char ''/usr/sbin/chown''" "list_all plain_char ''-R''" "plain_char CHR '':''"
  by (simp_all add: plain_char_def sh_special_def)

lemma admin_shell_words:
  assumes "list_all digit uid" "uid \<noteq> []" "list_all digit gid"
  shows "sh_words (admin_shell uid gid exe worktree fabric message) = Some
    [Word ''cd'', Word (path_string worktree), AndIf,
     Word (path_string exe), Word ''snap'', Word ''--apfs'', Word ''-m'', Word message, AndIf,
     Word ''/usr/sbin/chown'', Word ''-R'', Word (uid @ '':'' @ gid), Word (path_string fabric)]"
proof -
  have own: "list_all plain_char (uid @ '':'' @ gid)" using assms(1,3) by (simp add: digits_plain fixed_words)
  have w: "sh_read None False (s @ CHR '' '' # rest) = map_option ((#) (Word s)) (sh_read None False rest)"
    if "list_all plain_char s" "s \<noteq> []" for s rest
    using sh_read_plain_word [OF that] by (simp only: sh_read_blank)
  have q: "sh_read None False (sh_quote s @ CHR '' '' # rest) = map_option ((#) (Word s)) (sh_read None False rest)" for s rest
    by (simp only: sh_read_sh_quote sh_read_blank)
  have e: "sh_read None False (sh_quote s) = Some [Word s]" for s
    using sh_words_quote [of s] by (simp add: sh_words_def)
  have split: "admin_shell uid gid exe worktree fabric message =
      ''cd'' @ CHR '' '' # sh_quote (path_string worktree) @ CHR '' '' # ''&& '' @ sh_quote (path_string exe) @ CHR '' '' # ''snap''
      @ CHR '' '' # ''--apfs'' @ CHR '' '' # ''-m'' @ CHR '' '' # sh_quote message @ CHR '' '' # ''&& '' @ ''/usr/sbin/chown''
      @ CHR '' '' # ''-R'' @ CHR '' '' # (uid @ '':'' @ gid) @ CHR '' '' # sh_quote (path_string fabric)"
    by (simp add: admin_shell_def)
  have n: "uid @ '':'' @ gid \<noteq> []" by simp
  have f: "''cd'' \<noteq> []" "''snap'' \<noteq> []" "''--apfs'' \<noteq> []" "''-m'' \<noteq> []" "''/usr/sbin/chown'' \<noteq> []" "''-R'' \<noteq> []" by simp_all
  show ?thesis
    unfolding sh_words_def split
    by (simp only: w [OF fixed_words(1) f(1)] w [OF fixed_words(2) f(2)] w [OF fixed_words(3) f(3)] w [OF fixed_words(4) f(4)]
        w [OF fixed_words(5) f(5)] w [OF fixed_words(6) f(6)] w [OF own n] q e sh_read_and option.map)
qed

lemma list_all_dec: "list_all digit (dec n)"
  unfolding list_all_iff by (intro ballI) (rule dec_digits)

text \<open>C37: The privileged script runs what was asked for and nothing else. Where \<open>id -u\<close> and \<open>id -g\<close> print
  the numbers of the user and the group, then whatever bytes the worktree's path, the fabric's
  path and the message hold, the AppleScript literal ends where the script says, and the shell
  reads from it exactly these words: change to the worktree, take the snapshot with this message,
  give the fabric back to this user and this group.\<close>

theorem admin_script_exact:
  assumes "\<And>x out y. h_run H ''id'' [''-u''] x = (Inr out, y) \<Longrightarrow> trim (po_stdout out) = dec uid"
    and "\<And>x out y. h_run H ''id'' [''-g''] x = (Inr out, y) \<Longrightarrow> trim (po_stdout out) = dec gid"
    and "admin_script H exe worktree fabric message w = (Inr script, w')"
  shows "\<exists>body shell. script = ''do shell script '' @ dquote # body
    \<and> as_read body = Some (shell, '' with administrator privileges'')
    \<and> sh_words shell = Some
       [Word ''cd'', Word (path_string worktree), AndIf,
        Word (path_string exe), Word ''snap'', Word ''--apfs'', Word ''-m'', Word message, AndIf,
        Word ''/usr/sbin/chown'', Word ''-R'', Word (dec uid @ '':'' @ dec gid), Word (path_string fabric)]"
proof -
  have ran: "\<exists>x y. h_run H ''id'' a x = (Inr out, y)" if "run_capture H ''id'' a w = (Inr out, w1)" for a w out w1
  proof -
    obtain q y where "h_run H ''id'' a w = (q, y)" by fastforce
    with that show ?thesis by (cases q) (auto simp: run_capture_def proc_output_def)
  qed
  from assms(3) obtain o1 o2 w1 where q: "run_capture H ''id'' [''-u''] w = (Inr o1, w1)" "run_capture H ''id'' [''-g''] w1 = (Inr o2, w')"
    and sc: "script = ''do shell script '' @ [dquote]
       @ as_escape (admin_shell (trim (po_stdout o1)) (trim (po_stdout o2)) exe worktree fabric message) @ [dquote]
       @ '' with administrator privileges''"
    by (auto simp: admin_script_def host_uid_def host_gid_def andThen_Inr comp_eval)
  have "trim (po_stdout o1) = dec uid" "trim (po_stdout o2) = dec gid"
    using ran [OF q(1)] ran [OF q(2)] assms(1,2) by blast+
  with sc have "script = ''do shell script '' @ dquote # (as_escape (admin_shell (dec uid) (dec gid) exe worktree fabric message)
      @ dquote # '' with administrator privileges'')"
    by simp
  moreover note words = admin_shell_words [OF list_all_dec dec_nonempty list_all_dec, where exe = exe and worktree = worktree and fabric = fabric and message = message]
  ultimately show ?thesis using as_read_escape by blast
qed

definition quiet_host :: host where
  "quiet_host = \<lparr>h_run = (\<lambda>cmd args w. (Inr \<lparr>po_success = True, po_stdout = ''501'' @ [newline], po_stderr = []\<rparr>, w)),
     h_cwd = [], h_exe = Inr [''bin'', ''respawn''], h_temp = [''tmp''], h_dev = (\<lambda>_ _. 0)\<rparr>"

lemma dec_501: "dec 501 = ''501''"
  by code_simp

lemma trim_501: "trim (''501'' @ [newline]) = dec 501"
proof -
  have "trim (''501'' @ [newline]) = ''501''" by (rule trim_line) (simp_all add: graphic_def code_def)
  then show ?thesis by (simp only: dec_501)
qed

theorem admin_script_exact_witness:
  "\<exists>script w' body shell rest. admin_script quiet_host [''bin'', ''respawn''] [[quote]] [[quote], ''.respawn''] ''$(id); rm'' (fresh_world []) = (Inr script, w')
     \<and> script = ''do shell script '' @ dquote # body \<and> as_read body = Some (shell, rest)
     \<and> (\<exists>ws. sh_words shell = Some ws \<and> Word ''$(id); rm'' \<in> set ws \<and> Word ''501:501'' \<in> set ws)"
proof -
  have run: "\<exists>script w'. admin_script quiet_host [''bin'', ''respawn''] [[quote]] [[quote], ''.respawn''] ''$(id); rm'' (fresh_world []) = (Inr script, w')"
    by (simp add: admin_script_def host_uid_def host_gid_def run_capture_def proc_output_def quiet_host_def comp_eval)
  then obtain script w' where r: "admin_script quiet_host [''bin'', ''respawn''] [[quote]] [[quote], ''.respawn''] ''$(id); rm'' (fresh_world []) = (Inr script, w')"
    by blast
  have h: "trim (po_stdout out) = dec 501" if "h_run quiet_host ''id'' a x = (Inr out, y)" for a x out y
    using that trim_501 by (auto simp: quiet_host_def)
  have "dec 501 @ '':'' @ dec 501 = ''501:501''" by (simp add: dec_501)
  with admin_script_exact [OF h h r] r show ?thesis by fastforce
qed

end
