(* ===== verification/Schedule.thy ===== *)
theory Schedule
  imports Commands Anchors
begin

text \<open>
  \<open>src/schedule.rs\<close>: the launchd agent that mints an anchor at an interval. The plan is checked
  before anything is written; the property list is a function of the plan; installing and
  removing the agent run \<open>launchctl\<close>, which is a parameter.
\<close>

section \<open>The plan\<close>

definition MIN_INTERVAL_SECS :: "64 word" where "MIN_INTERVAL_SECS = 60"

record schedule_spec =
  ss_label :: string
  ss_exe :: path
  ss_worktree :: path
  ss_anchor_dir :: string
  ss_every :: "64 word"
  ss_log :: path
  ss_plist_path :: path

definition home_dir :: "path io" where
  "home_dir = (\<lambda>w. case wenv w ''HOME'' of
      Some s \<Rightarrow> (Inr (path_of s), w)
    | None \<Rightarrow> (Inl (Corrupt (''HOME is not set '' @ emdash @ '' cannot locate LaunchAgents'')), w))"

definition launch_agents_dir :: "path io" where
  "launch_agents_dir = andThen home_dir (\<lambda>h. ok (h @ [''Library'', ''LaunchAgents'']))"

definition default_anchor_dir :: "string \<Rightarrow> path key_io" where
  "default_anchor_dir fid =
     andThen is_macos (\<lambda>mac.
     andThen (on_disk home_dir) (\<lambda>h.
     ok ((if mac then h @ [''Library'', ''Application Support'', ''respawn'', ''anchors'']
          else h @ [''.respawn-anchors'']) @ [take 12 fid])))"

definition agent_label :: "string \<Rightarrow> string" where
  "agent_label fid = ''com.respawn.anchor.'' @ take 12 fid"

text \<open>The directory is in the fabric, as far as its parent can be looked up.\<close>

definition dir_inside :: "('h) host_scheme \<Rightarrow> path \<Rightarrow> string \<Rightarrow> bool io" where
  "dir_inside H store_root anchor_dir =
     (let c = typed_path anchor_dir in
      andThen (attempt (canon (h_cwd H) (parent_or_here c))) (\<lambda>r.
      case r of
        Inl _ \<Rightarrow> ok False
      | Inr canon_parent \<Rightarrow>
          (let candidate = canon_parent @ file_name c in
           andThen (attempt (p_canonicalize (fabric_dir store_root))) (\<lambda>f.
           let fabric = (case f of Inr g \<Rightarrow> g | Inl _ \<Rightarrow> fabric_dir store_root) in
           ok (prefix fabric candidate)))))"

definition plan_exe :: "('h) host_scheme \<Rightarrow> path io" where
  "plan_exe H =
     andThen (lift (map_sum Io id (h_exe H))) (\<lambda>e.
     andThen (p_canonicalize e) (\<lambda>exe.
     andThen (p_exists exe) (\<lambda>ex.
     if \<not> ex then fail (Corrupt (''respawn binary not found at '' @ path_string exe))
     else ok exe)))"

definition plan_spec :: "string \<Rightarrow> path \<Rightarrow> path \<Rightarrow> string \<Rightarrow> 64 word \<Rightarrow> schedule_spec io" where
  "plan_spec label exe worktree anchor_dir every =
     andThen launch_agents_dir (\<lambda>agents.
     andThen home_dir (\<lambda>h.
     ok \<lparr>ss_label = label, ss_exe = exe, ss_worktree = worktree, ss_anchor_dir = anchor_dir, ss_every = every,
         ss_log = h @ [''Library'', ''Logs'', ''respawn'', ''anchor-'' @ label @ ''.log''],
         ss_plist_path = agents @ [label @ ''.plist'']\<rparr>))"

definition schedule_plan ::
    "('h) host_scheme \<Rightarrow> ('z) sign_crates_scheme \<Rightarrow> path \<Rightarrow> path \<Rightarrow> string option \<Rightarrow> 64 word \<Rightarrow> schedule_spec key_io" where
  "schedule_plan H C store_root worktree dir every =
     (if every < MIN_INTERVAL_SECS then
        fail (Corrupt (''--every must be >= '' @ dec (unat MIN_INTERVAL_SECS) @ ''s''))
      else
        andThen (map_err (\<lambda>_. Corrupt (''no anchor key '' @ emdash @ '' run `respawn anchor keygen` first''))
          (pubkey C store_root)) (\<lambda>_.
        andThen (on_disk (fabric_id C store_root)) (\<lambda>fid.
        andThen (default_anchor_dir fid) (\<lambda>dflt.
        let anchor_dir = (case dir of Some d \<Rightarrow> d | None \<Rightarrow> path_string dflt) in
        andThen (on_disk (dir_inside H store_root anchor_dir)) (\<lambda>inside.
        if inside then fail (Corrupt ''anchor dir must live outside .respawn/'')
        else
          andThen (on_disk (plan_exe H)) (\<lambda>exe.
          on_disk (plan_spec (agent_label fid) exe worktree anchor_dir every)))))))"

section \<open>The property list\<close>

definition xml_escape :: "string \<Rightarrow> string" where
  "xml_escape s =
     replace_char (CHR 0x27) ''&apos;'' (replace_char (CHR 0x22) ''&quot;''
       (replace_char (CHR ''>'') ''&gt;'' (replace_char (CHR ''<'') ''&lt;'' (replace_char (CHR ''&'') ''&amp;'' s))))"

abbreviation tab :: string where "tab \<equiv> [CHR 0x09]"
abbreviation nl :: string where "nl \<equiv> [newline]"
abbreviation dq :: string where "dq \<equiv> [CHR 0x22]"

definition plist_head :: string where
  "plist_head = ''<?xml version='' @ dq @ ''1.0'' @ dq @ '' encoding='' @ dq @ ''UTF-8'' @ dq @ ''?>'' @ nl
     @ ''<!DOCTYPE plist PUBLIC '' @ dq @ ''-//Apple//DTD PLIST 1.0//EN'' @ dq @ '' ''
     @ dq @ ''http://www.apple.com/DTDs/PropertyList-1.0.dtd'' @ dq @ ''>'' @ nl
     @ ''<plist version='' @ dq @ ''1.0'' @ dq @ ''>'' @ nl @ ''<dict>'' @ nl"

definition plist_key :: "string \<Rightarrow> string" where
  "plist_key k = tab @ ''<key>'' @ k @ ''</key>'' @ nl"

definition plist_string :: "string \<Rightarrow> string" where
  "plist_string v = tab @ ''<string>'' @ v @ ''</string>'' @ nl"

definition plist_xml :: "schedule_spec \<Rightarrow> string" where
  "plist_xml spec =
     (let label = xml_escape (ss_label spec); exe = xml_escape (path_string (ss_exe spec));
          dir = xml_escape (ss_anchor_dir spec); wt = xml_escape (path_string (ss_worktree spec));
          log = xml_escape (path_string (ss_log spec)) in
      plist_head
      @ plist_key ''Label'' @ plist_string label
      @ plist_key ''ProgramArguments'' @ tab @ ''<array>'' @ nl
      @ tab @ plist_string exe @ tab @ plist_string ''anchor'' @ tab @ plist_string ''next'' @ tab @ plist_string dir
      @ tab @ ''</array>'' @ nl
      @ plist_key ''WorkingDirectory'' @ plist_string wt
      @ plist_key ''StartInterval'' @ tab @ ''<integer>'' @ dec (unat (ss_every spec)) @ ''</integer>'' @ nl
      @ plist_key ''RunAtLoad'' @ tab @ ''<true/>'' @ nl
      @ plist_key ''StandardOutPath'' @ plist_string log
      @ plist_key ''StandardErrorPath'' @ plist_string log
      @ ''</dict>'' @ nl @ ''</plist>'' @ nl)"

section \<open>The agent\<close>

definition plist_write :: "path \<Rightarrow> bytes \<Rightarrow> unit io" where
  "plist_write path data =
     (let dir = butlast path in
      andThen (p_create_dir_all dir) (\<lambda>_.
      andThen (tmp_path dir ''plist'') (\<lambda>tmp.
      andThen (p_write tmp data) (\<lambda>_.
      p_rename tmp path))))"

definition agent_uid :: "('h) host_scheme \<Rightarrow> string io" where
  "agent_uid H = andThen (run_command H ''id'' [''-u'']) (\<lambda>s. ok (trim s))"

text \<open>\<open>bootstrap\<close>, or \<open>load\<close> where that fails; if both fail the plist is removed again.\<close>

definition launch :: "('h) host_scheme \<Rightarrow> path \<Rightarrow> string \<Rightarrow> unit io" where
  "launch H plist_path domain =
     (let plist = path_string plist_path in
      andThen (attempt (run_command H ''launchctl'' [''bootstrap'', domain, plist])) (\<lambda>r.
      case r of
        Inr _ \<Rightarrow> ok ()
      | Inl _ \<Rightarrow>
          andThen (attempt (run_command H ''launchctl'' [''load'', ''-w'', plist])) (\<lambda>l.
          case l of
            Inr _ \<Rightarrow> ok ()
          | Inl e \<Rightarrow> andThen (attempt (p_remove_file plist_path)) (\<lambda>_. fail e))))"

definition install_macos :: "('h) host_scheme \<Rightarrow> schedule_spec \<Rightarrow> unit io" where
  "install_macos H spec =
     andThen (make_dirs (h_cwd H) (typed_path (ss_anchor_dir spec))) (\<lambda>_.
     andThen (if ss_log spec \<noteq> [] then p_create_dir_all (butlast (ss_log spec)) else ok ()) (\<lambda>_.
     andThen launch_agents_dir (\<lambda>agents.
     andThen (p_create_dir_all agents) (\<lambda>_.
     andThen (plist_write (ss_plist_path spec) (plist_xml spec)) (\<lambda>_.
     andThen (agent_uid H) (\<lambda>uid.
     launch H (ss_plist_path spec) (''gui/'' @ uid)))))))"

definition schedule_install :: "('h) host_scheme \<Rightarrow> schedule_spec \<Rightarrow> unit key_io" where
  "schedule_install H spec =
     andThen is_macos (\<lambda>mac.
     if mac then on_disk (install_macos H spec)
     else fail (Corrupt (''anchor schedule uses launchd '' @ emdash
       @ '' macOS-only (use systemd timers or cron elsewhere)'')))"

definition unlaunch :: "('h) host_scheme \<Rightarrow> path \<Rightarrow> string \<Rightarrow> unit io" where
  "unlaunch H plist target =
     andThen (attempt (run_command H ''launchctl'' [''bootout'', target])) (\<lambda>r.
     case r of
       Inr _ \<Rightarrow> ok ()
     | Inl _ \<Rightarrow> andThen (attempt (run_command H ''launchctl'' [''unload'', path_string plist])) (\<lambda>_. ok ()))"

definition uninstall_macos :: "('h) host_scheme \<Rightarrow> ('z) crates_scheme \<Rightarrow> path \<Rightarrow> path io" where
  "uninstall_macos H C store_root =
     andThen (fabric_id C store_root) (\<lambda>fid.
     let label = agent_label fid in
     andThen launch_agents_dir (\<lambda>agents.
     let plist = agents @ [label @ ''.plist''] in
     andThen (p_exists plist) (\<lambda>ex.
     if \<not> ex then fail (Corrupt (''no scheduled anchor for this fabric ('' @ path_string plist @ '')''))
     else
       andThen (agent_uid H) (\<lambda>uid.
       andThen (unlaunch H plist (''gui/'' @ uid @ ''/'' @ label)) (\<lambda>_.
       andThen (p_remove_file plist) (\<lambda>_.
       ok plist))))))"

definition schedule_uninstall :: "('h) host_scheme \<Rightarrow> ('z) crates_scheme \<Rightarrow> path \<Rightarrow> path key_io" where
  "schedule_uninstall H C store_root =
     andThen is_macos (\<lambda>mac.
     if mac then on_disk (uninstall_macos H C store_root)
     else fail (Corrupt (''anchor schedule uses launchd '' @ emdash @ '' macOS-only'')))"

section \<open>What launchd reads\<close>

text \<open>Markup and character data of XML, with the five predefined entities.\<close>

datatype xml_item = Tag string | Chars string

datatype xml_state = InTag string | InText string | InEntity string string

definition entity :: "string \<Rightarrow> char option" where
  "entity e =
     (if e = ''amp'' then Some (CHR ''&'') else if e = ''lt'' then Some (CHR ''<'')
      else if e = ''gt'' then Some (CHR ''>'') else if e = ''quot'' then Some (CHR 0x22)
      else if e = ''apos'' then Some (CHR 0x27) else None)"

fun xml_read :: "xml_state \<Rightarrow> string \<Rightarrow> xml_item list option" where
  "xml_read (InText u) [] = Some (if u = [] then [] else [Chars u])"
| "xml_read (InTag u) [] = None"
| "xml_read (InEntity u e) [] = None"
| "xml_read (InText u) (c # s) =
     (if c = CHR ''<'' then map_option ((@) (if u = [] then [] else [Chars u])) (xml_read (InTag []) s)
      else if c = CHR ''&'' then xml_read (InEntity u []) s
      else xml_read (InText (u @ [c])) s)"
| "xml_read (InTag u) (c # s) =
     (if c = CHR ''>'' then map_option ((#) (Tag u)) (xml_read (InText []) s)
      else xml_read (InTag (u @ [c])) s)"
| "xml_read (InEntity u e) (c # s) =
     (if c = CHR '';'' then (case entity e of Some d \<Rightarrow> xml_read (InText (u @ [d])) s | None \<Rightarrow> None)
      else xml_read (InEntity u (e @ [c])) s)"

text \<open>
  The elements, by matching tags: a stack of the open elements, each with what stands before it,
  and the contents read so far, both in reverse. Declarations are skipped, attributes are dropped.
\<close>

datatype xml = Elem string "xml list" | Text string

fun xml_tree :: "(string \<times> xml list) list \<Rightarrow> xml list \<Rightarrow> xml_item list \<Rightarrow> xml list option" where
  "xml_tree st acc [] = (if st = [] then Some (rev acc) else None)"
| "xml_tree st acc (Chars u # r) = xml_tree st (Text u # acc) r"
| "xml_tree st acc (Tag t # r) =
     (if t = [] then None
      else if hd t = CHR ''?'' \<or> hd t = CHR ''!'' then xml_tree st acc r
      else if hd t = slash then
        (case st of
           [] \<Rightarrow> None
         | (n, up) # st' \<Rightarrow> if n = tl t then xml_tree st' (Elem n (rev acc) # up) r else None)
      else if List.last t = slash then xml_tree st (Elem (butlast t) [] # acc) r
      else xml_tree ((takeWhile (\<lambda>c. c \<noteq> CHR '' '') t, acc) # st) [] r)"

text \<open>A property list. White space between elements does not count; inside a string it does.\<close>

datatype plist = PString string | PInteger string | PTrue | PArray "plist list" | PDict "(string \<times> plist) list"

definition blank :: "string \<Rightarrow> bool" where
  "blank u \<longleftrightarrow> list_all (\<lambda>c. c = CHR '' '' \<or> c = CHR 0x09 \<or> c = newline) u"

fun plist_text :: "xml list \<Rightarrow> string option" where
  "plist_text [] = Some []"
| "plist_text [Text u] = Some u"
| "plist_text xs = None"

fun plist_value :: "xml \<Rightarrow> plist option"
  and plist_values :: "xml list \<Rightarrow> plist list option"
  and plist_pairs :: "string option \<Rightarrow> xml list \<Rightarrow> (string \<times> plist) list option" where
  "plist_value (Text u) = None"
| "plist_value (Elem n xs) =
     (if n = ''string'' then map_option PString (plist_text xs)
      else if n = ''integer'' then map_option PInteger (plist_text xs)
      else if n = ''true'' then (if xs = [] then Some PTrue else None)
      else if n = ''array'' then map_option PArray (plist_values xs)
      else if n = ''dict'' then map_option PDict (plist_pairs None xs)
      else None)"
| "plist_values [] = Some []"
| "plist_values (Text u # xs) = (if blank u then plist_values xs else None)"
| "plist_values (Elem n ys # xs) =
     (case plist_value (Elem n ys) of
        None \<Rightarrow> None
      | Some v \<Rightarrow> map_option ((#) v) (plist_values xs))"
| "plist_pairs k [] = (if k = None then Some [] else None)"
| "plist_pairs k (Text u # xs) = (if blank u then plist_pairs k xs else None)"
| "plist_pairs None (Elem n ys # xs) =
     (if n = ''key'' then (case plist_text ys of None \<Rightarrow> None | Some k \<Rightarrow> plist_pairs (Some k) xs) else None)"
| "plist_pairs (Some k) (Elem n ys # xs) =
     (case plist_value (Elem n ys) of
        None \<Rightarrow> None
      | Some v \<Rightarrow> map_option ((#) (k, v)) (plist_pairs None xs))"

definition plist_root :: "xml list \<Rightarrow> plist option" where
  "plist_root xs =
     (case filter (\<lambda>x. case x of Text u \<Rightarrow> \<not> blank u | Elem n ys \<Rightarrow> True) xs of
        [Elem n ys] \<Rightarrow>
          if n = ''plist'' then (case plist_values ys of Some [v] \<Rightarrow> Some v | _ \<Rightarrow> None) else None
      | _ \<Rightarrow> None)"

text \<open>
  A text with a control character other than the tab and the newline is not read: XML 1.0 forbids
  all but the carriage return, which its readers turn into a newline.
\<close>

definition xml_char :: "char \<Rightarrow> bool" where
  "xml_char c \<longleftrightarrow> 32 \<le> code c \<or> c = CHR 0x09 \<or> c = newline"

definition plist_read :: "string \<Rightarrow> plist option" where
  "plist_read s =
     (if list_all xml_char s then
        Option.bind (xml_read (InText []) s) (\<lambda>items. Option.bind (xml_tree [] [] items) plist_root)
      else None)"

section \<open>Reading the document\<close>

definition chars :: "string \<Rightarrow> xml_item list" where
  "chars u = (if u = [] then [] else [Chars u])"

lemma xml_escape_Nil [simp]: "xml_escape [] = []"
  by (simp add: xml_escape_def)

lemma xml_escape_Cons:
  "xml_escape (c # s) =
     (if c = CHR ''&'' then ''&amp;'' else if c = CHR ''<'' then ''&lt;'' else if c = CHR ''>'' then ''&gt;''
      else if c = CHR 0x22 then ''&quot;'' else if c = CHR 0x27 then ''&apos;'' else [c]) @ xml_escape s"
  by (simp add: xml_escape_def)

lemma xml_read_escape:
  "xml_read (InText u) (xml_escape s @ rest) = xml_read (InText (u @ s)) rest"
proof (induction s arbitrary: u)
  case (Cons c s)
  show ?case using Cons [of "u @ [c]"] by (auto simp: xml_escape_Cons entity_def)
qed simp

lemma xml_read_chars:
  "list_all (\<lambda>c. c \<noteq> CHR ''<'' \<and> c \<noteq> CHR ''&'') s \<Longrightarrow> xml_read (InText u) (s @ rest) = xml_read (InText (u @ s)) rest"
  by (induction s arbitrary: u) auto

lemma xml_read_in_tag:
  "CHR ''>'' \<notin> set t \<Longrightarrow> xml_read (InTag u) (t @ CHR ''>'' # rest) = map_option ((#) (Tag (u @ t))) (xml_read (InText []) rest)"
  by (induction t arbitrary: u) auto

lemma xml_read_tag:
  assumes "CHR ''>'' \<notin> set t"
  shows "xml_read (InText u) (CHR ''<'' # t @ CHR ''>'' # rest) = map_option (\<lambda>r. chars u @ Tag t # r) (xml_read (InText []) rest)"
  using xml_read_in_tag [OF assms, of "[]" rest] by (simp add: option.map_comp comp_def chars_def)

lemma xml_read_element:
  assumes "CHR ''>'' \<notin> set t" "CHR ''>'' \<notin> set t'" "\<And>u r. xml_read (InText u) (v @ r) = xml_read (InText (u @ d)) r"
    and "list_all (\<lambda>c. c \<noteq> CHR ''<'' \<and> c \<noteq> CHR ''&'') pre"
  shows "xml_read (InText u) (pre @ CHR ''<'' # t @ CHR ''>'' # v @ CHR ''<'' # t' @ CHR ''>'' # rest)
    = map_option (\<lambda>r. chars (u @ pre) @ Tag t # chars d @ Tag t' # r) (xml_read (InText []) rest)"
  by (simp only: xml_read_chars [OF assms(4)] xml_read_tag [OF assms(1)] xml_read_tag [OF assms(2)] assms(3)
      option.map_comp comp_def append_Nil)

lemma read_string:
  "xml_read (InText u) (plist_string (xml_escape v) @ rest)
     = map_option (\<lambda>r. chars (u @ tab) @ Tag ''string'' # chars v @ Tag ''/string'' # r) (xml_read (InText []) (nl @ rest))"
  using xml_read_element [where t = "''string''" and t' = "''/string''" and v = "xml_escape v" and d = v and pre = tab
      and rest = "nl @ rest" and u = u, OF _ _ xml_read_escape]
  by (simp add: plist_string_def)

lemma escape_word: "xml_escape ''anchor'' = ''anchor''" "xml_escape ''next'' = ''next''"
  by (simp_all add: xml_escape_Cons)

lemma read_key:
  assumes "list_all (\<lambda>c. c \<noteq> CHR ''<'' \<and> c \<noteq> CHR ''&'') k"
  shows "xml_read (InText u) (plist_key k @ rest)
     = map_option (\<lambda>r. chars (u @ tab) @ Tag ''key'' # chars k @ Tag ''/key'' # r) (xml_read (InText []) (nl @ rest))"
  using xml_read_element [where t = "''key''" and t' = "''/key''" and v = k and d = k and pre = tab
      and rest = "nl @ rest" and u = u, OF _ _ xml_read_chars [OF assms]]
  by (simp add: plist_key_def)

lemma read_single:
  assumes "CHR ''>'' \<notin> set t" "list_all (\<lambda>c. c \<noteq> CHR ''<'' \<and> c \<noteq> CHR ''&'') pre"
  shows "xml_read (InText u) (pre @ CHR ''<'' # t @ CHR ''>'' # rest) = map_option (\<lambda>r. chars (u @ pre) @ Tag t # r) (xml_read (InText []) rest)"
  by (simp only: xml_read_chars [OF assms(2)] xml_read_tag [OF assms(1)])

text \<open>The tree of what follows the characters \<open>u\<close>.\<close>

definition tree_after :: "(string \<times> xml list) list \<Rightarrow> xml list \<Rightarrow> string \<Rightarrow> string \<Rightarrow> xml list option" where
  "tree_after st acc u s = Option.bind (xml_read (InText u) s) (xml_tree st acc)"

definition texts :: "string \<Rightarrow> xml list" where
  "texts u = (if u = [] then [] else [Text u])"

lemma tree_chars [simp]: "xml_tree st acc (chars u @ r) = xml_tree st (texts u @ acc) r"
  by (simp add: chars_def texts_def)

lemma texts_facts [simp]: "plist_text (texts u) = Some u" "rev (texts u) = texts u" "texts [] = []"
  by (simp_all add: texts_def)

lemma bind_map_option: "Option.bind (map_option f x) g = Option.bind x (\<lambda>y. g (f y))"
  by (cases x) simp_all

lemma after_string:
  "tree_after st acc u (plist_string (xml_escape v) @ rest) = tree_after st (Elem ''string'' (texts v) # texts (u @ tab) @ acc) [] (nl @ rest)"
  unfolding tree_after_def read_string by (simp add: bind_map_option)

lemma after_key:
  assumes "list_all (\<lambda>c. c \<noteq> CHR ''<'' \<and> c \<noteq> CHR ''&'') k"
  shows "tree_after st acc u (plist_key k @ rest) = tree_after st (Elem ''key'' (texts k) # texts (u @ tab) @ acc) [] (nl @ rest)"
  unfolding tree_after_def read_key [OF assms] by (simp add: bind_map_option)

lemma after_tag:
  "CHR ''>'' \<notin> set t \<Longrightarrow> tree_after st acc u (CHR ''<'' # t @ CHR ''>'' # rest)
     = Option.bind (xml_read (InText []) rest) (\<lambda>r. xml_tree st (texts u @ acc) (Tag t # r))"
  unfolding tree_after_def by (subst xml_read_tag) (simp_all add: bind_map_option)

lemma after_open:
  assumes "list_all (\<lambda>c. c \<noteq> CHR ''>'' \<and> c \<noteq> slash \<and> c \<noteq> CHR ''?'' \<and> c \<noteq> CHR ''!'') t" "t \<noteq> []"
  shows "tree_after st acc u (CHR ''<'' # t @ CHR ''>'' # rest)
     = tree_after ((takeWhile (\<lambda>c. c \<noteq> CHR '' '') t, texts u @ acc) # st) [] [] rest"
proof -
  have "CHR ''>'' \<notin> set t" "hd t \<in> set t" "List.last t \<in> set t" using assms by (auto simp: list_all_iff)
  then show ?thesis using assms by (subst after_tag) (auto simp: tree_after_def list_all_iff)
qed

lemma after_close:
  "CHR ''>'' \<notin> set n \<Longrightarrow> tree_after ((n, up) # st) acc u (CHR ''<'' # (slash # n) @ CHR ''>'' # rest)
     = tree_after st (Elem n (rev (texts u @ acc)) # up) [] rest"
  by (subst after_tag) (auto simp: tree_after_def)

lemma after_empty: "tree_after st acc u (''<true/>'' @ rest) = tree_after st (Elem ''true'' [] # texts u @ acc) [] rest"
  using after_tag [of "''true/''" st acc u rest] by (simp add: tree_after_def)

lemma after_decl:
  assumes "CHR ''>'' \<notin> set t" "t \<noteq> []" "hd t = CHR ''?'' \<or> hd t = CHR ''!''"
  shows "tree_after st acc u (CHR ''<'' # t @ CHR ''>'' # rest) = tree_after st (texts u @ acc) [] rest"
  using assms by (subst after_tag) (auto simp: tree_after_def)

lemma after_chars:
  "list_all (\<lambda>c. c \<noteq> CHR ''<'' \<and> c \<noteq> CHR ''&'') s \<Longrightarrow> tree_after st acc u (s @ rest) = tree_after st acc (u @ s) rest"
  unfolding tree_after_def by (simp add: xml_read_chars)

lemma after_blank:
  "tree_after st acc u (nl @ rest) = tree_after st acc (u @ nl) rest" "tree_after st acc u (tab @ rest) = tree_after st acc (u @ tab) rest"
  by (rule after_chars, simp)+

lemma after_fixed:
  "tree_after st acc u (''<array>'' @ rest) = tree_after ((''array'', texts u @ acc) # st) [] [] rest"
  "tree_after ((''array'', up) # st) acc u (''</array>'' @ rest) = tree_after st (Elem ''array'' (rev (texts u @ acc)) # up) [] rest"
  "tree_after st acc u (''<integer>'' @ rest) = tree_after ((''integer'', texts u @ acc) # st) [] [] rest"
  "tree_after ((''integer'', up) # st) acc u (''</integer>'' @ rest) = tree_after st (Elem ''integer'' (rev (texts u @ acc)) # up) [] rest"
  "tree_after ((''dict'', up) # st) acc u (''</dict>'' @ rest) = tree_after st (Elem ''dict'' (rev (texts u @ acc)) # up) [] rest"
  "tree_after ((''plist'', up) # st) acc u (''</plist>'' @ rest) = tree_after st (Elem ''plist'' (rev (texts u @ acc)) # up) [] rest"
  using after_open [of "''array''" st acc u rest] after_open [of "''integer''" st acc u rest]
    after_close [of "''array''" up st acc u rest] after_close [of "''integer''" up st acc u rest]
    after_close [of "''dict''" up st acc u rest] after_close [of "''plist''" up st acc u rest] by simp_all

lemma after_head:
  "tree_after [] [] [] (plist_head @ rest) = tree_after [(''dict'', [Text nl]), (''plist'', [Text nl, Text nl])] [] nl rest"
proof -
  let ?x = "''?xml version='' @ dq @ ''1.0'' @ dq @ '' encoding='' @ dq @ ''UTF-8'' @ dq @ ''?''"
  let ?d = "''!DOCTYPE plist PUBLIC '' @ dq @ ''-//Apple//DTD PLIST 1.0//EN'' @ dq @ '' ''
     @ dq @ ''http://www.apple.com/DTDs/PropertyList-1.0.dtd'' @ dq"
  let ?p = "''plist version='' @ dq @ ''1.0'' @ dq"
  have h: "plist_head @ rest = CHR ''<'' # ?x @ CHR ''>'' # (nl @ (CHR ''<'' # ?d @ CHR ''>'' # (nl @ (CHR ''<'' # ?p @ CHR ''>''
      # (nl @ (CHR ''<'' # ''dict'' @ CHR ''>'' # (nl @ rest)))))))"
    by (simp add: plist_head_def)
  show ?thesis unfolding h
    by (subst after_decl, simp, simp, simp, subst after_blank(1), subst after_decl, simp, simp, simp, subst after_blank(1),
        subst after_open, simp, simp, subst after_blank(1), subst after_open, simp, simp, subst after_blank(1), simp add: texts_def)
qed

lemma after_dec: "tree_after st acc u (dec n @ rest) = tree_after st acc (u @ dec n) rest"
proof (rule after_chars)
  have "c \<noteq> CHR ''<'' \<and> c \<noteq> CHR ''&''" if "c \<in> set (dec n)" for c
    using dec_digits [OF that] by (auto simp: digit_def code_def)
  then show "list_all (\<lambda>c. c \<noteq> CHR ''<'' \<and> c \<noteq> CHR ''&'') (dec n)" by (simp add: list_all_iff)
qed

lemma plist_keys:
  "list_all (\<lambda>c. c \<noteq> CHR ''<'' \<and> c \<noteq> CHR ''&'') ''Label''" "list_all (\<lambda>c. c \<noteq> CHR ''<'' \<and> c \<noteq> CHR ''&'') ''ProgramArguments''"
  "list_all (\<lambda>c. c \<noteq> CHR ''<'' \<and> c \<noteq> CHR ''&'') ''WorkingDirectory''" "list_all (\<lambda>c. c \<noteq> CHR ''<'' \<and> c \<noteq> CHR ''&'') ''StartInterval''"
  "list_all (\<lambda>c. c \<noteq> CHR ''<'' \<and> c \<noteq> CHR ''&'') ''RunAtLoad''" "list_all (\<lambda>c. c \<noteq> CHR ''<'' \<and> c \<noteq> CHR ''&'') ''StandardOutPath''"
  "list_all (\<lambda>c. c \<noteq> CHR ''<'' \<and> c \<noteq> CHR ''&'') ''StandardErrorPath''"
  by simp_all

lemma plist_tree:
  "\<exists>t. tree_after [] [] [] (plist_xml spec) = Some t \<and> plist_root t = Some (PDict
     [(''Label'', PString (ss_label spec)),
      (''ProgramArguments'', PArray [PString (path_string (ss_exe spec)), PString ''anchor'', PString ''next'',
         PString (ss_anchor_dir spec)]),
      (''WorkingDirectory'', PString (path_string (ss_worktree spec))),
      (''StartInterval'', PInteger (dec (unat (ss_every spec)))),
      (''RunAtLoad'', PTrue),
      (''StandardOutPath'', PString (path_string (ss_log spec))),
      (''StandardErrorPath'', PString (path_string (ss_log spec)))])"
proof -
  have e: "tree_after [] acc [] nl = Some (rev (Text nl # acc))" for acc
    by (simp add: tree_after_def)
  show ?thesis
    unfolding plist_xml_def Let_def
    by (simp only: append_assoc after_head after_key [OF plist_keys(1)] after_key [OF plist_keys(2)] after_key [OF plist_keys(3)]
        after_key [OF plist_keys(4)] after_key [OF plist_keys(5)] after_key [OF plist_keys(6)] after_key [OF plist_keys(7)]
        after_string after_string [where v = "''anchor''", unfolded escape_word]
        after_string [where v = "''next''", unfolded escape_word] after_blank after_fixed after_empty after_dec e option.inject)
      (simp add: plist_root_def texts_def blank_def)
qed

lemma xml_char_escape: "list_all xml_char s \<Longrightarrow> list_all xml_char (xml_escape s)"
  by (induction s) (auto simp: xml_escape_Cons xml_char_def code_def)

lemma xml_char_dec: "list_all xml_char (dec n)"
  unfolding list_all_iff
proof
  fix c assume "c \<in> set (dec n)"
  from dec_digits [OF this] show "xml_char c" by (auto simp: digit_def xml_char_def)
qed

lemma xml_char_plist:
  assumes "list_all xml_char (ss_label spec)" "list_all xml_char (path_string (ss_exe spec))"
    "list_all xml_char (ss_anchor_dir spec)" "list_all xml_char (path_string (ss_worktree spec))"
    "list_all xml_char (path_string (ss_log spec))"
  shows "list_all xml_char (plist_xml spec)"
  using assms [THEN xml_char_escape] xml_char_dec
  by (simp add: plist_xml_def plist_head_def plist_key_def plist_string_def Let_def) (simp add: xml_char_def code_def)

text \<open>C38: The property list says what was planned. When the label and the paths hold no control
  characters, and whatever markup they hold, the document has matching tags and reads as the one
  dictionary meant: this label, the command line of \<open>respawn anchor next\<close> with this binary and
  directory, this working directory, this interval, run at load, and this log for both streams.\<close>

theorem plist_reads_back:
  assumes "list_all xml_char (ss_label spec)" "list_all xml_char (path_string (ss_exe spec))"
    and "list_all xml_char (ss_anchor_dir spec)" "list_all xml_char (path_string (ss_worktree spec))"
    and "list_all xml_char (path_string (ss_log spec))"
  shows "plist_read (plist_xml spec) = Some (PDict
     [(''Label'', PString (ss_label spec)),
      (''ProgramArguments'', PArray [PString (path_string (ss_exe spec)), PString ''anchor'', PString ''next'',
         PString (ss_anchor_dir spec)]),
      (''WorkingDirectory'', PString (path_string (ss_worktree spec))),
      (''StartInterval'', PInteger (dec (unat (ss_every spec)))),
      (''RunAtLoad'', PTrue),
      (''StandardOutPath'', PString (path_string (ss_log spec))),
      (''StandardErrorPath'', PString (path_string (ss_log spec)))])"
proof -
  from plist_tree [of spec] obtain items where "xml_read (InText []) (plist_xml spec) = Some items"
    by (auto simp: tree_after_def split: Option.bind_splits)
  with plist_tree [of spec] xml_char_plist [OF assms] show ?thesis by (auto simp: plist_read_def tree_after_def)
qed

text \<open>A worktree whose name is markup.\<close>

theorem plist_reads_back_witness:
  "\<exists>v. plist_read (plist_xml \<lparr>ss_label = ''com'', ss_exe = [''r''], ss_worktree = [''</string><true/>&lt;''], ss_anchor_dir = ''a'',
       ss_every = 60, ss_log = [''l''], ss_plist_path = []\<rparr>) = Some (PDict v)
     \<and> (''WorkingDirectory'', PString ''/</string><true/>&lt;'') \<in> set v \<and> (''StartInterval'', PInteger ''60'') \<in> set v"
proof -
  let ?s = "\<lparr>ss_label = ''com'', ss_exe = [''r''], ss_worktree = [''</string><true/>&lt;''], ss_anchor_dir = ''a'',
       ss_every = 60, ss_log = [''l''], ss_plist_path = []\<rparr> :: schedule_spec"
  have p: "path_string [x] = slash # x" for x by (simp add: path_string_def)
  have c: "list_all xml_char (ss_label ?s)" "list_all xml_char (path_string (ss_exe ?s))"
    "list_all xml_char (ss_anchor_dir ?s)" "list_all xml_char (path_string (ss_worktree ?s))"
    "list_all xml_char (path_string (ss_log ?s))"
    by (simp_all add: p xml_char_def code_def)
  have "dec 60 = ''60''" by code_simp
  with plist_reads_back [OF c] show ?thesis by (simp add: p)
qed

end
