(* ===== verification/Apfs.thy ===== *)
theory Apfs
  imports Commands Transport
begin

text \<open>
  \<open>src/apfs.rs\<close>: a point-in-time view of the worktree through a snapshot of the volume. What
  \<open>mount\<close>, \<open>tmutil\<close>, \<open>diskutil\<close> and \<open>mount_apfs\<close> do is a parameter; what the code reads from
  their output, and what it leaves behind on every way out, is modelled.
\<close>

section \<open>The mount table\<close>

definition apfs_line :: "string \<Rightarrow> (string \<times> string \<times> string) option" where
  "apfs_line l =
     (case split_once '' on '' l of
        None \<Rightarrow> None
      | Some (dev, rest) \<Rightarrow>
          (case split_once '' ('' rest of
             None \<Rightarrow> None
           | Some (mp, attrs) \<Rightarrow> if strip_prefix ''apfs'' attrs = None then None else Some (dev, mp, attrs)))"

definition p_dev :: "('h) host_scheme \<Rightarrow> path \<Rightarrow> nat io" where
  "p_dev H p = syscall (\<lambda>fs t. (map_sum id (\<lambda>_. h_dev H fs p) (fs_stat True fs p), fs))"

fun volume_search :: "('h) host_scheme \<Rightarrow> nat \<Rightarrow> string list \<Rightarrow> (string \<times> path) option io" where
  "volume_search H want [] = ok None"
| "volume_search H want (l # ls) =
     (case apfs_line l of
        None \<Rightarrow> volume_search H want ls
      | Some (dev, mp, _) \<Rightarrow>
          (let mpp = path_of (trim mp) in
           andThen (attempt (p_dev H mpp)) (\<lambda>md.
           if md = Inr want then ok (Some (dev, mpp)) else volume_search H want ls)))"

definition volume_of :: "('h) host_scheme \<Rightarrow> path \<Rightarrow> (string \<times> path) io" where
  "volume_of H p =
     andThen (p_dev H p) (\<lambda>want.
     andThen (run_command H ''/sbin/mount'' []) (\<lambda>table.
     andThen (volume_search H want (text_lines table)) (\<lambda>r.
     case r of Some v \<Rightarrow> ok v | None \<Rightarrow> fail (Corrupt (''no APFS volume backs '' @ path_string p)))))"

fun data_search :: "(string \<times> path) option \<Rightarrow> string list \<Rightarrow> (string \<times> path) option" where
  "data_search boot [] = boot"
| "data_search boot (l # ls) =
     (case apfs_line l of
        None \<Rightarrow> data_search boot ls
      | Some (dev, mp, attrs) \<Rightarrow>
          if contains attrs ''root data'' then Some (dev, path_of (trim mp))
          else if trim mp = [slash] then data_search (Some (dev, [])) ls
          else data_search boot ls)"

definition data_volume :: "('h) host_scheme \<Rightarrow> (string \<times> path) io" where
  "data_volume H =
     andThen (run_command H ''/sbin/mount'' []) (\<lambda>table.
     case data_search None (text_lines table) of
       Some v \<Rightarrow> ok v | None \<Rightarrow> fail (Corrupt ''no APFS boot volume found''))"

definition on_boot_volume_group :: "('h) host_scheme \<Rightarrow> path \<Rightarrow> bool io" where
  "on_boot_volume_group H p =
     andThen (p_dev H p) (\<lambda>want.
     andThen (p_dev H []) (\<lambda>root_dev.
     ok (root_dev = want)))"

section \<open>The name of a snapshot\<close>

text \<open>\<open>str::split_whitespace\<close>.\<close>

function words_from :: "string \<Rightarrow> string \<Rightarrow> string list" where
  "words_from acc s =
     (if s = [] then (if acc = [] then [] else [acc])
      else
        let k = lead_len whitespace s in
        if k > 0 then (if acc = [] then [] else [acc]) @ words_from [] (drop k s)
        else words_from (acc @ [hd s]) (tl s))"
  by pat_completeness auto
termination
  by (relation "measure (\<lambda>(_, s). length s)") auto

declare words_from.simps [simp del]

definition TM_PREFIX :: string where "TM_PREFIX = ''com.apple.TimeMachine.''"

definition trim_name :: "string \<Rightarrow> string" where
  "trim_name token = rev (dropWhile (\<lambda>c. \<not> is_alnum c \<and> c \<noteq> CHR ''-'' \<and> c \<noteq> CHR ''.'') (rev token))"

definition is_date_name :: "string \<Rightarrow> bool" where
  "is_date_name nm =
     (let parts = split_on (CHR ''-'') nm in
      length parts = 4 \<and> list_all (list_all digit) parts \<and> length (hd parts) = 4)"

definition token_name :: "string \<Rightarrow> string option" where
  "token_name token =
     (let nm = trim_name token in
      if strip_prefix TM_PREFIX nm \<noteq> None \<and> length nm > 22 then Some nm
      else if is_date_name nm then Some (TM_PREFIX @ nm)
      else None)"

definition snapshot_name_from_output :: "string \<Rightarrow> error + string" where
  "snapshot_name_from_output out =
     (case List.map_filter token_name (words_from [] out) of
        nm # _ \<Rightarrow> Inr nm
      | [] \<Rightarrow> Inl (Corrupt (''could not parse snapshot name from tmutil output: '' @ out)))"

definition listed_names :: "string \<Rightarrow> string list" where
  "listed_names out = List.map_filter (\<lambda>l. map_option trim (strip_prefix ''Name:'' (trim l))) (text_lines out)"

definition resolve_snapshot_name :: "('h) host_scheme \<Rightarrow> string \<Rightarrow> string \<Rightarrow> string io" where
  "resolve_snapshot_name H device candidate =
     andThen (run_command H ''diskutil'' [''apfs'', ''listSnapshots'', device]) (\<lambda>out.
     let names = listed_names out in
     case List.find (\<lambda>want. want \<in> set names) [candidate, candidate @ ''.local''] of
       Some want \<Rightarrow> ok want
     | None \<Rightarrow> fail (Corrupt (''snapshot '' @ candidate @ '' not found on '' @ device @ '' (have: ''
                  @ join_with '', '' names @ '')'')))"

section \<open>Creating and dropping\<close>

record apfs_snap =
  as_name :: string
  as_device :: string
  as_mount :: path
  as_scan_root :: path

definition delete_snapshot :: "('h) host_scheme \<Rightarrow> string \<Rightarrow> string \<Rightarrow> unit io" where
  "delete_snapshot H device nm =
     (let date = Option.bind (strip_prefix TM_PREFIX nm) (strip_suffix ''.local'') in
      andThen (case date of
          Some d \<Rightarrow> andThen (attempt (run_command H ''tmutil'' [''deletelocalsnapshots'', d])) (\<lambda>r. ok (\<not> isl r))
        | None \<Rightarrow> ok False) (\<lambda>deleted.
      if \<not> deleted then
        andThen (attempt (run_command H ''diskutil'' [''apfs'', ''deleteSnapshot'', device, ''-name'', nm])) (\<lambda>_. ok ())
      else ok ()))"

definition mount_point :: "('h) host_scheme \<Rightarrow> ('z) crates_scheme \<Rightarrow> path io" where
  "mount_point H C =
     andThen (attempt (p_random 8)) (\<lambda>r.
     andThen (gets wpid) (\<lambda>pid.
     let suffix = (case r of Inr b \<Rightarrow> hex_encode C b | Inl _ \<Rightarrow> dec pid) in
     ok (h_temp H @ [''respawn-apfs-'' @ suffix])))"

definition mount_refused :: "string \<Rightarrow> error" where
  "mount_refused msg =
     (if contains msg ''Operation not permitted'' then
        Corrupt (''the kernel refused to mount the boot volume's snapshot ''
          @ ''(macOS 26+ blocks this even for root) '' @ emdash @ '' point-in-time ''
          @ ''capture is unavailable on this volume; a plain `snap` still gets per-file quiescence'')
      else Corrupt (''APFS snapshot created but mounting needs root (run with sudo or --ask-admin): '' @ msg))"

text \<open>The frozen view is mounted, or everything made on the way is removed.\<close>

definition mount_frozen ::
    "('h) host_scheme \<Rightarrow> ('y) noise_scheme \<Rightarrow> ('z) crates_scheme \<Rightarrow> string \<Rightarrow> string \<Rightarrow> path \<Rightarrow> unit io" where
  "mount_frozen H N C device nm mnt =
     andThen (attempt (run_command H ''/sbin/mount_apfs'' [''-s'', nm, device, path_string mnt])) (\<lambda>mres.
     case mres of
       Inr _ \<Rightarrow> ok ()
     | Inl e \<Rightarrow>
         andThen (attempt (p_remove_dir mnt)) (\<lambda>_.
         andThen (delete_snapshot H device nm) (\<lambda>_.
         fail (mount_refused (display N C e)))))"

definition frozen_view :: "('h) host_scheme \<Rightarrow> path \<Rightarrow> string \<Rightarrow> string \<Rightarrow> path \<Rightarrow> path \<Rightarrow> apfs_snap io" where
  "frozen_view H root device nm mountpoint mnt =
     andThen (p_canonicalize root) (\<lambda>canon.
     let rel = (if prefix mountpoint canon then drop (length mountpoint) canon else canon);
         scan_root = mnt @ rel in
     andThen (p_is_dir scan_root) (\<lambda>there.
     if \<not> there then
       andThen (attempt (run_command H ''umount'' [path_string mnt])) (\<lambda>_.
       andThen (attempt (p_remove_dir mnt)) (\<lambda>_.
       andThen (delete_snapshot H device nm) (\<lambda>_.
       fail (Corrupt (''worktree '' @ path_string canon @ '' is not visible inside the frozen volume'')))))
     else ok \<lparr>as_name = nm, as_device = device, as_mount = mnt, as_scan_root = scan_root\<rparr>))"

definition apfs_create_macos ::
    "('h) host_scheme \<Rightarrow> ('y) noise_scheme \<Rightarrow> ('z) crates_scheme \<Rightarrow> path \<Rightarrow> apfs_snap io" where
  "apfs_create_macos H N C root =
     andThen (on_boot_volume_group H root) (\<lambda>boot.
     if \<not> boot then
       andThen (volume_of H root) (\<lambda>(_, mountpoint).
       fail (Corrupt (''--apfs snapshots the boot volume group; '' @ path_string root @ '' lives on ''
         @ path_string mountpoint)))
     else
       andThen (data_volume H) (\<lambda>(device, mountpoint).
       andThen (run_command H ''tmutil'' [''snapshot'']) (\<lambda>out.
       andThen (lift (snapshot_name_from_output out)) (\<lambda>candidate.
       andThen (resolve_snapshot_name H device candidate) (\<lambda>nm.
       andThen (mount_point H C) (\<lambda>mnt.
       andThen (p_create_dir_all mnt) (\<lambda>_.
       andThen (mount_frozen H N C device nm mnt) (\<lambda>_.
       frozen_view H root device nm mountpoint mnt))))))))"

definition apfs_create ::
    "('h) host_scheme \<Rightarrow> ('y) noise_scheme \<Rightarrow> ('z) crates_scheme \<Rightarrow> path \<Rightarrow> apfs_snap key_io" where
  "apfs_create H N C root =
     andThen is_macos (\<lambda>mac.
     if mac then on_disk (apfs_create_macos H N C root)
     else fail (Corrupt ''--apfs point-in-time snapshots are macOS-only''))"

text \<open>The \<open>Drop\<close> of an \<open>ApfsSnap\<close>, which only the macOS build ever has.\<close>

definition apfs_drop :: "('h) host_scheme \<Rightarrow> apfs_snap \<Rightarrow> unit io" where
  "apfs_drop H s =
     andThen (attempt (run_command H ''umount'' [path_string (as_mount s)])) (\<lambda>_.
     andThen (attempt (p_remove_dir (as_mount s))) (\<lambda>_.
     delete_snapshot H (as_device s) (as_name s)))"

end
