(* ===== verification/Watch.thy ===== *)
theory Watch
  imports Drift
begin

text \<open>
  \<open>src/watch.rs\<close>: which paths of a file system event are reported, and one round of the
  loop. The \<open>notify\<close> crate and the clock decide which events a round takes from the channel:
  they are the argument of the round.
\<close>

section \<open>One round\<close>

definition is_tracked :: "path \<Rightarrow> bool" where
  "is_tracked rel \<longleftrightarrow> list_all (\<lambda>c. c \<noteq> FABRIC_DIR \<and> c \<noteq> ''.git'') rel"

text \<open>What the watcher sends: the paths of an event, or an error of the \<open>notify\<close> crate.\<close>

type_synonym watch_event = "string + path list"

text \<open>\<open>Path::strip_prefix\<close>.\<close>

definition below :: "path \<Rightarrow> path \<Rightarrow> path option" where
  "below root p = (if take (length root) p = root then Some (drop (length root) p) else None)"

definition event_paths :: "path \<Rightarrow> watch_event \<Rightarrow> string list" where
  "event_paths root ev =
     (case ev of
        Inl _ \<Rightarrow> []
      | Inr ps \<Rightarrow> List.map_filter (\<lambda>p. case below root p of
            Some rel \<Rightarrow> if is_tracked rel then Some (rel_string rel) else None
          | None \<Rightarrow> None) ps)"

text \<open>
  The first event, and those that came within 250 ms; the set is emptied in sorted order, and
  \<open>on_event\<close> is called only when it is not empty.
\<close>

definition watch_round :: "path \<Rightarrow> watch_event \<Rightarrow> watch_event list \<Rightarrow> string list option" where
  "watch_round root first drained =
     (let paths = fold (\<lambda>ev acc. event_paths root ev @ acc) drained [];
          paths = event_paths root first @ paths
      in if paths \<noteq> [] then Some (sort (remdups paths)) else None)"

text \<open>
  The loop, as the calls of \<open>on_event\<close> it makes: a round with no first event is the end of the
  channel.
\<close>

fun watch_loop :: "path \<Rightarrow> (watch_event option \<times> watch_event list) list \<Rightarrow> string list list" where
  "watch_loop root [] = []"
| "watch_loop root ((None, _) # _) = []"
| "watch_loop root ((Some first, drained) # rounds) =
     (case watch_round root first drained of
        Some v \<Rightarrow> v # watch_loop root rounds
      | None \<Rightarrow> watch_loop root rounds)"

section \<open>What is reported\<close>

definition reported :: "path \<Rightarrow> watch_event \<Rightarrow> string \<Rightarrow> bool" where
  "reported root ev s \<longleftrightarrow> (\<exists>ps rel. ev = Inr ps \<and> root @ rel \<in> set ps \<and> is_tracked rel \<and> s = rel_string rel)"

lemma below_Some [simp]: "below root p = Some rel \<longleftrightarrow> p = root @ rel"
  by (auto simp: below_def) (metis append_take_drop_id)

lemma set_event_paths: "s \<in> set (event_paths root ev) \<longleftrightarrow> reported root ev s"
proof (cases ev)
  case (Inr ps)
  have f: "(case below root p of Some rel \<Rightarrow> if is_tracked rel then Some (rel_string rel) else None | None \<Rightarrow> None) = Some s
      \<longleftrightarrow> (\<exists>rel. p = root @ rel \<and> is_tracked rel \<and> s = rel_string rel)" for p
    by (cases "below root p") (auto simp flip: below_Some)
  show ?thesis using Inr by (auto simp: event_paths_def reported_def set_map_filter f)
qed (simp add: event_paths_def reported_def)

lemma set_drained:
  "set (fold (\<lambda>ev acc. event_paths root ev @ acc) evs acc) = (\<Union>ev \<in> set evs. set (event_paths root ev)) \<union> set acc"
  by (induction evs arbitrary: acc) auto

text \<open>What one round has to report: every path that one of its own events names.\<close>

definition round_report :: "path \<Rightarrow> watch_event \<Rightarrow> watch_event list \<Rightarrow> string list" where
  "round_report root first drained = sorted_list_of_set {s. \<exists>ev. (ev = first \<or> ev \<in> set drained) \<and> reported root ev s}"

lemma watch_round_report:
  "watch_round root first drained =
     (if round_report root first drained = [] then None else Some (round_report root first drained))"
proof -
  let ?ps = "event_paths root first @ fold (\<lambda>ev acc. event_paths root ev @ acc) drained []"
  have "{s. \<exists>ev. (ev = first \<or> ev \<in> set drained) \<and> reported root ev s} = set ?ps"
    by (auto simp: set_drained set_event_paths)
  then have r: "round_report root first drained = sort (remdups ?ps)"
    by (simp only: round_report_def sorted_list_of_set_sort_remdups)
  have "round_report root first drained = [] \<longleftrightarrow> ?ps = []"
    unfolding r by (metis remdups_eq_nil_iff set_empty set_sort)
  then show ?thesis using r by (simp add: watch_round_def Let_def)
qed

text \<open>C40: The watch loop reports each round what its events touch, and nothing of the fabric or of git.
  Until the watcher is gone, the calls of \<open>on_event\<close> are, round by round and in order, the sorted
  lists, without repetition, of exactly the paths below the root that the first event of that round
  or one drained after it names and that have no component \<open>.respawn\<close> or \<open>.git\<close>; a round whose list
  is empty makes no call, and nothing is carried over to the next.\<close>

theorem watch_reports:
  "watch_loop root rounds =
     filter (\<lambda>v. v \<noteq> [])
       (map (\<lambda>(first, drained). round_report root (the first) drained) (takeWhile (\<lambda>r. fst r \<noteq> None) rounds))"
  by (induction root rounds rule: watch_loop.induct) (simp_all add: watch_round_report)

text \<open>Two rounds touch different paths; the second report does not repeat the first.\<close>

theorem watch_reports_witness:
  "watch_loop [''w''] [(Some (Inr [[''w'', ''b''], [''w'', ''.git'', ''x'']]), [Inr [[''w'', ''a'']], Inl ''lost'']),
     (Some (Inr [[''w'', ''.respawn'', ''HEAD'']]), []), (Some (Inr [[''w'', ''c'']]), []), (None, [])] = [[''a'', ''b''], [''c'']]
   \<and> round_report [''w''] (Inr [[''w'', ''.respawn'', ''HEAD'']]) [] = []"
proof
  show l: "watch_loop [''w''] [(Some (Inr [[''w'', ''b''], [''w'', ''.git'', ''x'']]), [Inr [[''w'', ''a'']], Inl ''lost'']),
     (Some (Inr [[''w'', ''.respawn'', ''HEAD'']]), []), (Some (Inr [[''w'', ''c'']]), []), (None, [])] = [[''a'', ''b''], [''c'']]"
    by code_simp
  have "watch_loop [''w''] [(Some (Inr [[''w'', ''.respawn'', ''HEAD'']]), [])] = []" by code_simp
  then show "round_report [''w''] (Inr [[''w'', ''.respawn'', ''HEAD'']]) [] = []"
    unfolding watch_reports by (simp split: if_splits)
qed

end
