(* ===== verification/Calendar.thy ===== *)
theory Calendar
  imports Prelude
begin

text \<open>
  The time stamps of \<open>src/main.rs\<close>: \<open>chrono_ts\<close> and the civil date of \<open>days_to_ymd\<close>. Shown: the
  date is the one of the proleptic Gregorian calendar, defined here by counting days from
  1 January 1970.
\<close>

section \<open>The code\<close>

text \<open>Every number is a \<open>u64\<close>, whose operations wrap.\<close>

definition days_to_ymd :: "64 word \<Rightarrow> 64 word \<times> 64 word \<times> 64 word" where
  "days_to_ymd days0 =
     (let days = days0 + 719468;
          era = days div 146097;
          doe = days mod 146097;
          yoe = (doe - doe div 1460 + doe div 36524 - doe div 146096) div 365;
          y = yoe + era * 400;
          doy = doe - (365 * yoe + yoe div 4 - yoe div 100);
          mp = (5 * doy + 2) div 153;
          d = doy - (153 * mp + 2) div 5 + 1;
          m = (if mp < 10 then mp + 3 else mp - 9)
      in (if m \<le> 2 then y + 1 else y, m, d))"

definition pad_left :: "char \<Rightarrow> nat \<Rightarrow> string \<Rightarrow> string" where
  "pad_left c n s = replicate (n - length s) c @ s"

definition zeros :: "nat \<Rightarrow> nat \<Rightarrow> string" where
  "zeros k n = pad_left (CHR ''0'') k (dec n)"

definition chrono_ts :: "64 word \<Rightarrow> string" where
  "chrono_ts secs =
     (let days = secs div 86400; rest = secs mod 86400; (y, mo, d) = days_to_ymd days in
      zeros 4 (unat y) @ ''-'' @ zeros 2 (unat mo) @ ''-'' @ zeros 2 (unat d) @ '' ''
        @ zeros 2 (unat (rest div 3600)) @ '':'' @ zeros 2 (unat (rest mod 3600 div 60)) @ '':''
        @ zeros 2 (unat (rest mod 60)) @ ''Z'')"

section \<open>The calendar\<close>

definition leap :: "nat \<Rightarrow> bool" where
  "leap y \<longleftrightarrow> 4 dvd y \<and> (\<not> 100 dvd y \<or> 400 dvd y)"

definition month_days :: "nat \<Rightarrow> nat \<Rightarrow> nat" where
  "month_days y m = (if m = 2 then (if leap y then 29 else 28) else if m \<in> {4, 6, 9, 11} then 30 else 31)"

definition next_day :: "nat \<times> nat \<times> nat \<Rightarrow> nat \<times> nat \<times> nat" where
  "next_day = (\<lambda>(y, m, d).
     if d < month_days y m then (y, m, d + 1)
     else if m < 12 then (y, m + 1, 1)
     else (y + 1, 1, 1))"

fun civil :: "nat \<Rightarrow> nat \<times> nat \<times> nat" where
  "civil 0 = (1970, 1, 1)"
| "civil (Suc n) = next_day (civil n)"

section \<open>The date within a year that starts in March\<close>

text \<open>The formula of \<open>days_to_ymd\<close> in the natural numbers.\<close>

definition exact_ymd :: "nat \<Rightarrow> nat \<times> nat \<times> nat" where
  "exact_ymd n =
     (let era = (n + 719468) div 146097;
          doe = (n + 719468) mod 146097;
          yoe = (doe - doe div 1460 + doe div 36524 - doe div 146096) div 365;
          y = yoe + era * 400;
          doy = doe - (365 * yoe + yoe div 4 - yoe div 100);
          mp = (5 * doy + 2) div 153;
          d = doy - (153 * mp + 2) div 5 + 1;
          m = (if mp < 10 then mp + 3 else mp - 9)
      in (if m \<le> 2 then y + 1 else y, m, d))"

definition of_march :: "nat \<Rightarrow> nat \<Rightarrow> nat \<times> nat \<times> nat" where
  "of_march y t =
     (let mp = (5 * t + 2) div 153;
          d = t - (153 * mp + 2) div 5 + 1;
          m = (if mp < 10 then mp + 3 else mp - 9)
      in (if m \<le> 2 then y + 1 else y, m, d))"

definition month_start :: "nat \<Rightarrow> nat" where
  "month_start mp = (153 * mp + 2) div 5"

lemma div_bounds: "0 < k \<Longrightarrow> k * (n div k) \<le> n \<and> n < k * (n div k) + k" for k n :: nat
  using dividend_less_div_times [of k n] by (simp add: mult.commute add.commute)

lemma month_start_bounds: "5 * month_start mp \<le> 153 * mp + 2 \<and> 153 * mp + 2 < 5 * month_start mp + 5"
  unfolding month_start_def by (rule div_bounds) simp

lemma of_march_month:
  assumes "month_start mp \<le> t" "t < month_start (mp + 1)" "mp < 12"
  shows "of_march y t = (if mp < 10 then y else y + 1, if mp < 10 then mp + 3 else mp - 9, t - month_start mp + 1)"
proof -
  have "(5 * t + 2) div 153 = mp"
  proof (rule div_nat_eqI)
    from assms(1) month_start_bounds [of mp] show "153 * mp \<le> 5 * t + 2" by linarith
    from assms(2) month_start_bounds [of "mp + 1"] show "5 * t + 2 < 153 * Suc mp" by simp
  qed
  with assms(3) show ?thesis by (auto simp: of_march_def Let_def month_start_def)
qed

lemma month_of_day:
  assumes "t \<le> 365"
  obtains mp where "month_start mp \<le> t" "t < month_start (mp + 1)" "mp < 12"
proof
  define mp where "mp = (5 * t + 2) div 153"
  have b: "153 * mp \<le> 5 * t + 2 \<and> 5 * t + 2 < 153 * mp + 153" unfolding mp_def by (rule div_bounds) simp
  show "month_start mp \<le> t" using b month_start_bounds [of mp] by linarith
  show "t < month_start (mp + 1)" using b month_start_bounds [of "mp + 1"] by simp
  show "mp < 12" using b assms by linarith
qed

lemma less_12: "(mp :: nat) < 12 \<Longrightarrow> mp = 0 \<or> mp = 1 \<or> mp = 2 \<or> mp = 3 \<or> mp = 4 \<or> mp = 5 \<or> mp = 6 \<or> mp = 7 \<or> mp = 8
    \<or> mp = 9 \<or> mp = 10 \<or> mp = 11"
  by presburger

lemma of_march_next:
  assumes "t < 364 \<or> t = 364 \<and> leap (y + 1)"
  shows "of_march y (t + 1) = next_day (of_march y t)"
proof -
  have "t \<le> 365" using assms by auto
  then obtain mp where mp: "month_start mp \<le> t" "t < month_start (mp + 1)" "mp < 12" by (rule month_of_day)
  show ?thesis
  proof (cases "t + 1 < month_start (mp + 1)")
    case True
    have "of_march y (t + 1) = (if mp < 10 then y else y + 1, if mp < 10 then mp + 3 else mp - 9, t + 1 - month_start mp + 1)"
      using mp True by (intro of_march_month) auto
    moreover note of_march_month [OF mp, of y]
    ultimately show ?thesis using mp True assms less_12 [OF mp(3)]
      by (elim disjE) (auto simp: next_day_def month_days_def month_start_def)
  next
    case False
    then have e: "t + 1 = month_start (mp + 1)" using mp(2) by simp
    have m: "mp < 11" using mp(3) e assms less_12 [OF mp(3)] by (elim disjE) (auto simp: month_start_def)
    then have "of_march y (t + 1) = (if mp + 1 < 10 then y else y + 1, if mp + 1 < 10 then mp + 1 + 3 else mp + 1 - 9,
        t + 1 - month_start (mp + 1) + 1)"
      using e by (intro of_march_month) (auto simp: month_start_def)
    moreover note of_march_month [OF mp, of y]
    ultimately show ?thesis using e m less_12 [OF mp(3)]
      by (elim disjE) (auto simp: next_day_def month_days_def month_start_def)
  qed
qed

lemma of_march_last:
  assumes "t = (if leap (y + 1) then 365 else 364)"
  shows "next_day (of_march y t) = of_march (y + 1) 0"
  using assms by (auto simp: of_march_def next_day_def month_days_def)

section \<open>The year of a day\<close>

text \<open>A day by its era of 400 years, century, group of four years, year and day of the year.\<close>

definition placed :: "nat \<Rightarrow> nat \<Rightarrow> nat \<Rightarrow> nat \<Rightarrow> nat \<Rightarrow> nat \<Rightarrow> bool" where
  "placed n e c b a t \<longleftrightarrow> n = 146097 * e + 36524 * c + 1461 * b + 365 * a + t \<and> c \<le> 3 \<and> b \<le> 24 \<and> a \<le> 3
     \<and> t \<le> (if leap (400 * e + 100 * c + 4 * b + a + 1) then 365 else 364)"

lemma leap_next:
  assumes "c \<le> 3" "b \<le> 24" "a \<le> 3"
  shows "leap (400 * e + 100 * c + 4 * b + a + 1) \<longleftrightarrow> a = 3 \<and> (b < 24 \<or> c = 3)"
proof -
  have r: "k dvd k * q + r \<longleftrightarrow> r = k" if "0 < r" "r \<le> k" for k q r :: nat
    using that by (auto simp: dvd_add_right_iff dest: dvd_imp_le)
  have 1: "4 dvd (400 * e + 100 * c + 4 * b + a + 1) \<longleftrightarrow> a = 3"
    using r [of "a + 1" 4 "100 * e + 25 * c + b"] assms(3) by (simp add: algebra_simps)
  have 2: "100 dvd (400 * e + 100 * c + 4 * b + a + 1) \<longleftrightarrow> 4 * b + a + 1 = 100"
    using r [of "4 * b + a + 1" 100 "4 * e + c"] assms(2,3) by (simp add: algebra_simps)
  have 3: "400 dvd (400 * e + 100 * c + 4 * b + a + 1) \<longleftrightarrow> 100 * c + 4 * b + a + 1 = 400"
    using r [of "100 * c + 4 * b + a + 1" 400 e] assms by (simp add: algebra_simps)
  show ?thesis unfolding leap_def 1 2 3 using assms by auto
qed

lemma placed_steps:
  assumes "placed (n + 719468) e c b a t"
  defines "doe \<equiv> 36524 * c + 1461 * b + 365 * a + t"
  shows "(n + 719468) div 146097 = e" "(n + 719468) mod 146097 = doe" "t \<le> 365" "doe div 1460 \<le> doe" "doe div 146096 \<le> 1"
    "doe div 146096 \<le> doe div 36524"
    "(doe - doe div 1460 + doe div 36524 - doe div 146096) div 365 = 100 * c + 4 * b + a"
    "(100 * c + 4 * b + a) div 4 = 25 * c + b" "(100 * c + 4 * b + a) div 100 = c"
proof -
  note p0 = assms(1) [unfolded placed_def]
  have "leap (400 * e + 100 * c + 4 * b + a + 1) \<longleftrightarrow> a = 3 \<and> (b < 24 \<or> c = 3)"
    by (rule leap_next) (use p0 in simp_all)
  note p1 = p0 [unfolded this]
  then have p: "n + 719468 = 146097 * e + doe" "c \<le> 3" "b \<le> 24" "a \<le> 3"
      "t \<le> (if a = 3 \<and> (b < 24 \<or> c = 3) then 365 else 364)"
    unfolding doe_def by linarith+
  from p have t: "t \<le> 365" "t = 365 \<Longrightarrow> a = 3 \<and> (b < 24 \<or> c = 3)" by (auto split: if_splits)
  have small: "doe < 146097" using p(2-4) t unfolding doe_def by (cases "t = 365") auto
  with p(1) have q: "(n + 719468) div 146097 = e" "(n + 719468) mod 146097 = doe" by simp_all
  define k where "k = (if 24 * c + b + 365 * a + t < 1460 then 0 else 1 :: nat)"
  have d1: "doe div 1460 = 25 * c + b + k"
  proof (rule div_nat_eqI)
    show "1460 * (25 * c + b + k) \<le> doe" "doe < 1460 * Suc (25 * c + b + k)"
      using p(2-4) t(1) unfolding doe_def k_def by auto
  qed
  define j where "j = (if doe = 146096 then 1 else 0 :: nat)"
  have d2: "doe div 36524 = c + j"
  proof (rule div_nat_eqI)
    show "36524 * (c + j) \<le> doe" using small p(2-4) t unfolding j_def doe_def by (auto split: if_splits)
    have "1461 * b + 365 * a + t < 36524 \<or> c = 3" using p(3,4) t by (cases "t = 365") auto
    then show "doe < 36524 * Suc (c + j)" using small p(2) unfolding j_def by (auto simp: doe_def)
  qed
  have d3: "doe div 146096 = j"
    using small by (auto simp: j_def)
  have "t \<le> 364" if "k = 0" using that p(2-4) t unfolding k_def by (cases "t = 365") auto
  then have k: "k \<le> t" "t - k \<le> 364" using p(2-4) t(1) unfolding k_def by (auto split: if_splits)
  have "doe - doe div 1460 + doe div 36524 - doe div 146096 = 365 * (100 * c + 4 * b + a) + (t - k)"
    unfolding d1 d2 d3 using k(1) unfolding doe_def by simp
  then show "(doe - doe div 1460 + doe div 36524 - doe div 146096) div 365 = 100 * c + 4 * b + a"
    using k(2) by simp
  show "(n + 719468) div 146097 = e" "(n + 719468) mod 146097 = doe" "t \<le> 365" by (fact q t(1))+
  show "doe div 1460 \<le> doe" by simp
  show "doe div 146096 \<le> 1" unfolding d3 j_def by simp
  show "doe div 146096 \<le> doe div 36524" unfolding d2 d3 by simp
  show "(100 * c + 4 * b + a) div 4 = 25 * c + b" "(100 * c + 4 * b + a) div 100 = c"
    using p(2-4) by (auto intro!: div_nat_eqI)
qed

lemma placed_date:
  assumes "placed (n + 719468) e c b a t"
  shows "exact_ymd n = of_march (400 * e + 100 * c + 4 * b + a) t"
proof -
  define doe where "doe = 36524 * c + 1461 * b + 365 * a + t"
  note st = placed_steps [OF assms, folded doe_def]
  have doy: "doe - (365 * (100 * c + 4 * b + a) + (100 * c + 4 * b + a) div 4 - (100 * c + 4 * b + a) div 100) = t"
    unfolding st doe_def by simp
  have s: "100 * c + 4 * b + a + e * 400 = 400 * e + 100 * c + 4 * b + a" by simp
  show ?thesis unfolding exact_ymd_def Let_def st(1,2,7) doy s of_march_def ..
qed

lemma placed_step:
  assumes "placed n e c b a t"
  obtains e' c' b' a' t' where "placed (n + 1) e' c' b' a' t'"
    "of_march (400 * e' + 100 * c' + 4 * b' + a') t' = next_day (of_march (400 * e + 100 * c + 4 * b + a) t)"
proof -
  let ?y = "400 * e + 100 * c + 4 * b + a"
  note p = assms [unfolded placed_def] and goal = that
  have lp: "leap (?y + 1) \<longleftrightarrow> a = 3 \<and> (b < 24 \<or> c = 3)" using p by (intro leap_next) auto
  show ?thesis
  proof (cases "t = (if leap (?y + 1) then 365 else 364)")
    case False
    with p have "t < 364 \<or> t = 364 \<and> leap (?y + 1)" by (auto split: if_splits)
    from of_march_next [OF this] show ?thesis
      using p False by (intro that [of e c b a "t + 1"]) (auto simp: placed_def split: if_splits)
  next
    case True
    note last = of_march_last [OF True]
    have new: ?thesis if q: "placed (n + 1) e' c' b' a' 0" "400 * e' + 100 * c' + 4 * b' + a' = ?y + 1" for e' c' b' a'
      using q last by (intro goal [OF q(1)]) simp
    show ?thesis
    proof (cases "a < 3")
      case True
      show ?thesis by (rule new [of e c b "a + 1"]) (use p lp True \<open>t = _\<close> in \<open>auto simp: placed_def\<close>)
    next
      case a: False
      show ?thesis
      proof (cases "b < 24")
        case True
        show ?thesis by (rule new [of e c "b + 1" 0]) (use p lp a True \<open>t = _\<close> in \<open>auto simp: placed_def\<close>)
      next
        case b: False
        show ?thesis
        proof (cases "c < 3")
          case True
          show ?thesis by (rule new [of e "c + 1" 0 0]) (use p lp a b True \<open>t = _\<close> in \<open>auto simp: placed_def\<close>)
        next
          case False
          show ?thesis by (rule new [of "e + 1" 0 0 0]) (use p lp a b False \<open>t = _\<close> in \<open>auto simp: placed_def\<close>)
        qed
      qed
    qed
  qed
qed

lemma civil_placed: "\<exists>e c b a t. placed (n + 719468) e c b a t \<and> of_march (400 * e + 100 * c + 4 * b + a) t = civil n"
proof (induction n)
  case 0
  have "placed 719468 4 3 17 1 306" by (simp add: placed_def)
  moreover have "of_march (400 * 4 + 100 * 3 + 4 * 17 + 1) 306 = civil 0" by (simp add: of_march_def)
  ultimately show ?case by (metis add_0)
next
  case (Suc n)
  then obtain e c b a t where p: "placed (n + 719468) e c b a t" "of_march (400 * e + 100 * c + 4 * b + a) t = civil n" by blast
  obtain e' c' b' a' t' where "placed (n + 719468 + 1) e' c' b' a' t'"
      "of_march (400 * e' + 100 * c' + 4 * b' + a') t' = next_day (of_march (400 * e + 100 * c + 4 * b + a) t)"
    by (rule placed_step [OF p(1)])
  then have "placed (Suc n + 719468) e' c' b' a' t'"
      "of_march (400 * e' + 100 * c' + 4 * b' + a') t' = civil (Suc n)"
    using p(2) by (simp_all add: add.commute)
  then show ?case by blast
qed

lemma exact_civil: "exact_ymd n = civil n"
  using civil_placed [of n] placed_date by metis

section \<open>The machine words\<close>

lemma add64: "unat a + unat b < 2 ^ 64 \<Longrightarrow> unat (a + b) = unat a + unat b" for a b :: "64 word"
  using unat_add_lem [of a b] by simp

lemma mult64: "unat a * unat b < 2 ^ 64 \<Longrightarrow> unat (a * b) = unat a * unat b" for a b :: "64 word"
  using unat_mult_lem [of a b] by simp

lemma sub64: "unat b \<le> unat a \<Longrightarrow> unat (a - b) = unat a - unat b" for a b :: "64 word"
  using unat_sub_if' [of a b] by simp

lemma ymd_exact:
  assumes "placed (n + 719468) e c b a t" "unat days = n" "n < 2 ^ 60"
  shows "(case days_to_ymd days of (y, m, d) \<Rightarrow> (unat y, unat m, unat d)) = exact_ymd n"
proof -
  define doe where "doe = 36524 * c + 1461 * b + 365 * a + t"
  define yoe where "yoe = 100 * c + 4 * b + a"
  note st = placed_steps [OF assms(1), folded doe_def yoe_def]
  have cba: "c \<le> 3" "b \<le> 24" "a \<le> 3" using assms(1) by (simp_all add: placed_def)
  then have small: "doe < 150000" "yoe \<le> 399" using st(3) by (simp_all add: doe_def yoe_def)
  have e: "e < 2 ^ 50"
  proof -
    have "146097 * e \<le> n + 719468" using st(1) by (metis div_times_less_eq_dividend mult.commute)
    with assms(3) show ?thesis by simp
  qed
  define w era dw yw where "w = days + 719468" and "era = w div 146097" and "dw = w mod 146097"
    and "yw = (dw - dw div 1460 + dw div 36524 - dw div 146096) div 365"
  have w: "unat w = n + 719468" unfolding w_def using assms(2,3) by (subst add64) simp_all
  have era: "unat era = e" and dw: "unat dw = doe"
    unfolding era_def dw_def unat_div unat_mod w using st(1,2) by simp_all
  have d: "unat (dw div 1460) = doe div 1460" "unat (dw div 36524) = doe div 36524" "unat (dw div 146096) = doe div 146096"
    by (simp_all add: unat_div dw)
  have y1: "unat (dw - dw div 1460) = doe - doe div 1460"
    by (subst sub64) (simp_all add: d dw st(4))
  have y2: "unat (dw - dw div 1460 + dw div 36524) = doe - doe div 1460 + doe div 36524"
    using small(1) by (subst add64) (simp_all add: y1 d)
  have y3: "unat (dw - dw div 1460 + dw div 36524 - dw div 146096) = doe - doe div 1460 + doe div 36524 - doe div 146096"
    using st(6) by (subst sub64) (simp_all add: y2 d)
  have yw: "unat yw = yoe" unfolding yw_def unat_div y3 using st(7) by simp
  define y doy mp dd where "y = yw + era * 400" and "doy = dw - (365 * yw + yw div 4 - yw div 100)"
    and "mp = (5 * doy + 2) div 153" and "dd = doy - (153 * mp + 2) div 5 + 1"
  have "unat (era * 400) = e * 400" using e by (subst mult64) (simp_all add: era)
  then have y: "unat y = yoe + e * 400" "unat (y + 1) = yoe + e * 400 + 1"
    unfolding y_def using e small(2) by (subst add64; simp add: yw add64)+
  have z: "unat (365 * yw) = 365 * yoe" "unat (yw div 4) = 25 * c + b" "unat (yw div 100) = c"
    using small(2) st(8,9) by (simp_all add: mult64 yw unat_div)
  have z1: "unat (365 * yw + yw div 4) = 365 * yoe + (25 * c + b)"
    using small(2) cba by (subst add64) (simp_all add: z)
  have "unat (365 * yw + yw div 4 - yw div 100) = 365 * yoe + (25 * c + b) - c"
    by (subst sub64) (simp_all add: z z1)
  moreover have doy_nat: "doe - (365 * yoe + (25 * c + b) - c) = t" "365 * yoe + (25 * c + b) - c \<le> doe"
    by (simp_all add: doe_def yoe_def)
  ultimately have doy: "unat doy = t" unfolding doy_def by (subst sub64) (simp_all add: dw)
  have "unat (5 * doy) = 5 * t" using st(3) by (subst mult64) (simp_all add: doy)
  then have "unat (5 * doy + 2) = 5 * t + 2" using st(3) by (subst add64) simp_all
  then have mp: "unat mp = (5 * t + 2) div 153" unfolding mp_def unat_div by simp
  define k where "k = (5 * t + 2) div 153"
  have k: "153 * k \<le> 5 * t + 2" "k \<le> 11" using st(3) by (simp_all add: k_def)
  have "unat (153 * mp) = 153 * k" using k(2) by (subst mult64) (simp_all add: mp k_def)
  then have "unat (153 * mp + 2) = 153 * k + 2" using k(2) by (subst add64) simp_all
  then have md: "unat ((153 * mp + 2) div 5) = (153 * k + 2) div 5" by (simp add: unat_div)
  have le: "(153 * k + 2) div 5 \<le> t" using k(1) by linarith
  have "unat (doy - (153 * mp + 2) div 5) = t - (153 * k + 2) div 5"
    using le by (subst sub64) (simp_all add: md doy)
  then have dd: "unat dd = t - (153 * k + 2) div 5 + 1"
    unfolding dd_def using st(3) by (subst add64) simp_all
  define m where "m = (if mp < 10 then mp + 3 else mp - 9)"
  have m: "unat m = (if k < 10 then k + 3 else k - 9)"
    using k(2) mp unfolding m_def k_def [symmetric] by (simp add: word_less_nat_alt add64 sub64)
  have "days_to_ymd days = (if m \<le> 2 then y + 1 else y, m, dd)"
    by (simp only: days_to_ymd_def Let_def flip: w_def era_def dw_def yw_def y_def doy_def mp_def dd_def m_def)
  moreover have "exact_ymd n = (if unat m \<le> 2 then unat (y + 1) else unat y, unat m, unat dd)"
    unfolding exact_ymd_def Let_def st(1,2,7,8,9) doy_nat(1) y m dd k_def [symmetric] ..
  ultimately show ?thesis by (simp add: word_le_nat_alt)
qed

text \<open>C36: The date of a time stamp is the right one. For every 64-bit count of seconds, the division
  formula of \<open>days_to_ymd\<close>, computed in 64-bit words as the code computes it, yields the year, the
  month and the day that counting days from 1 January 1970 in the Gregorian calendar yields, leap
  days and centuries included.\<close>

theorem civil_date:
  fixes secs :: "64 word"
  shows "(case days_to_ymd (secs div 86400) of (y, m, d) \<Rightarrow> (unat y, unat m, unat d)) = civil (unat secs div 86400)"
proof -
  have "unat secs < 2 ^ 64" using unsigned_less [of secs] by simp
  then have "unat secs div 86400 < 2 ^ 60" by simp
  moreover obtain e c b a t where "placed (unat secs div 86400 + 719468) e c b a t" using civil_placed by blast
  ultimately show ?thesis using ymd_exact by (simp add: exact_civil unat_div)
qed

end
