(* ===== verification/Cli.thy ===== *)
theory Cli
  imports Purge Fleet Guard Surgical Admin Schedule Apfs Watch Calendar Sync
begin

text \<open>
  \<open>src/main.rs\<close>: the commands, as \<open>clap\<close> hands them over, and what each does, in order: which
  store it opens, whether it takes the lock, which operations it runs, what it prints and its
  exit code. The paths of
  \<open>anchor create\<close>, \<open>anchor next\<close> and \<open>anchor schedule\<close> are the texts typed; the other commands only hand
  theirs to the system, and have the places they name. \<open>watch\<close> runs until the channel of events
  closes; \<open>serve\<close> until it is stopped: what it serves is in \<open>Sync\<close>.
\<close>

section \<open>The commands\<close>

datatype fleet_cmd =
    Trust string
  | Order string path
  | Apply path "string option" "string option" bool

datatype anchor_cmd =
    Keygen
  | Pubkey
  | Create string
  | Next "string option"
  | Schedule "64 word" "string option" bool
  | VerifyAnchor path "string option" "path option"

datatype cmd =
    Init path
  | Snap string "string option" bool bool
  | Log nat
  | Show string
  | Status string bool
  | Diff string string
  | Revert "string option" "string option" bool bool
  | Watch
  | Verify bool
  | Serve string bool "string option"
  | Peers "64 word"
  | Pull string "string option"
  | Guard revert_policy bool "string list"
  | Anchor anchor_cmd
  | Purge "string option" "path option" "string option"
  | Fleet fleet_cmd

section \<open>The state of the process\<close>

text \<open>The world, the Keychain, the connection a pull would use, and the two streams, line by line.\<close>

record cli_state =
  cs_world :: world
  cs_vault :: vault
  cs_conn :: conn
  cs_out :: "string list"
  cs_err :: "string list"

text \<open>A slice out of range is a panic.\<close>

datatype failure = Err error | Panic

type_synonym 'a cli_io = "(cli_state, failure, 'a) comp"

text \<open>
  What surrounds a run: the host, the program \<open>guard\<close> starts, the result of connecting, the
  entropy of a handshake, the datagrams that arrive while \<open>peers\<close> listens, and for \<open>watch\<close> the
  error that keeps the watcher from starting, if any, and the rounds of events until the end of
  the channel.
\<close>

record cli_env = host +
  ce_spawn :: spawner
  ce_dial :: "ioerr option"
  ce_rnd :: bytes
  ce_datagrams :: "(bytes \<times> string) list"
  ce_watcher :: "string option"
  ce_rounds :: "(watch_event option \<times> watch_event list) list"

definition file_op :: "'a io \<Rightarrow> 'a cli_io" where
  "file_op m st = (case m (cs_world st) of (r, w) \<Rightarrow> (map_sum Err id r, st\<lparr>cs_world := w\<rparr>))"

definition key_op :: "'a key_io \<Rightarrow> 'a cli_io" where
  "key_op m st = (case m (cs_world st, cs_vault st) of (r, w, v) \<Rightarrow>
     (map_sum Err id r, st\<lparr>cs_world := w, cs_vault := v\<rparr>))"

definition net_op :: "'a sync_io \<Rightarrow> 'a cli_io" where
  "net_op m st = (case m (cs_world st, cs_conn st) of (r, w, c) \<Rightarrow>
     (map_sum Err id r, st\<lparr>cs_world := w, cs_conn := c\<rparr>))"

definition println :: "string \<Rightarrow> unit cli_io" where
  "println s st = (Inr (), st\<lparr>cs_out := cs_out st @ [s]\<rparr>)"

definition eprintln :: "string \<Rightarrow> unit cli_io" where
  "eprintln s st = (Inr (), st\<lparr>cs_err := cs_err st @ [s]\<rparr>)"

definition println_all :: "string list \<Rightarrow> unit cli_io" where
  "println_all ls = foldIO (\<lambda>_ l. println l) () ls"

definition refuse :: "error \<Rightarrow> 'a cli_io" where
  "refuse e = fail (Err e)"

definition open_store :: "('h) host_scheme \<Rightarrow> path cli_io" where
  "open_store H = file_op (andThen (find_root (h_cwd H)) store_open)"

text \<open>\<open>let _lock = store.try_lock()?;\<close> for the rest of the command.\<close>

definition locked :: "path \<Rightarrow> 'a cli_io \<Rightarrow> 'a cli_io" where
  "locked root m st =
     (case file_op (try_lock root) st of
        (Inl e, st1) \<Rightarrow> (Inl e, st1)
      | (Inr _, st1) \<Rightarrow> (case m st1 of (r, st2) \<Rightarrow> (r, st2\<lparr>cs_world := unlock (cs_world st2)\<rparr>)))"

section \<open>Text\<close>

definition count_line :: "nat \<Rightarrow> nat \<Rightarrow> nat \<Rightarrow> string" where
  "count_line a m d = dec a @ '' added, '' @ dec m @ '' modified, '' @ dec d @ '' deleted''"

definition drift_lines :: "drift_report \<Rightarrow> string list" where
  "drift_lines r =
     (if drift_clean r then [''clean '' @ emdash @ '' worktree matches snapshot'']
      else map ((@) ''  + '') (dr_added r) @ map ((@) ''  ~ '') (dr_modified r)
        @ map ((@) ''  - '') (dr_deleted r) @ map (\<lambda>p. ''  . '' @ p @ '' (metadata only)'') (dr_touched r)
        @ [count_line (length (dr_added r)) (length (dr_modified r)) (length (dr_deleted r))])"

definition print_drift :: "drift_report \<Rightarrow> unit cli_io" where
  "print_drift r = println_all (drift_lines r)"

definition is_loopback :: "string \<Rightarrow> bool" where
  "is_loopback addr =
     (case split_on (CHR '':'') addr of
        h # _ \<Rightarrow> h = ''127.0.0.1'' \<or> h = ''localhost'' \<or> h = ''::1'' \<or> h = ''[::1]''
      | [] \<Rightarrow> False)"

definition debug_seq :: "64 word option \<Rightarrow> string" where
  "debug_seq x = (case x of Some n \<Rightarrow> ''Some('' @ dec (unat n) @ '')'' | None \<Rightarrow> ''None'')"

text \<open>\<open>&h[..12]\<close>: the slice panics when it ends outside the string or inside a character.\<close>

definition slice12 :: "string \<Rightarrow> string cli_io" where
  "slice12 h = (if 12 \<le> length h \<and> utf8_valid (take 12 h) then ok (take 12 h) else fail Panic)"

definition note_line :: "string option \<Rightarrow> unit cli_io" where
  "note_line n = (case n of Some t \<Rightarrow> println (''note: '' @ t) | None \<Rightarrow> ok ())"

section \<open>Snapshots and history\<close>

definition cmd_init :: "('z) snap_crates_scheme \<Rightarrow> path \<Rightarrow> 32 word cli_io" where
  "cmd_init C dir0 =
     andThen (file_op (p_canonicalize dir0)) (\<lambda>dir.
     andThen (file_op (store_init dir)) (\<lambda>_.
     andThen (file_op (store_open dir)) (\<lambda>store.
     andThen (file_op (audit_record C store ''init'' (path_string dir))) (\<lambda>_.
     andThen (println (''initialized respawn in '' @ path_string dir)) (\<lambda>_.
     ok 0)))))"

text \<open>The frozen view is dropped however the snapshot ends.\<close>

definition snap_frozen ::
    "('h) host_scheme \<Rightarrow> ('y) noise_scheme \<Rightarrow> ('z) snap_crates_scheme \<Rightarrow> path \<Rightarrow> path \<Rightarrow> string \<Rightarrow> string option
       \<Rightarrow> hash cli_io" where
  "snap_frozen H N C store root message actor =
     andThen (key_op (apfs_create H N C root)) (\<lambda>frozen.
     andThen (attempt (file_op (create_from_actor C store (as_scan_root frozen) message actor))) (\<lambda>r.
     andThen (file_op (apfs_drop H frozen)) (\<lambda>_.
     lift r)))"

definition snap_body ::
    "('h) host_scheme \<Rightarrow> ('y) noise_scheme \<Rightarrow> ('z) snap_crates_scheme \<Rightarrow> path \<Rightarrow> path \<Rightarrow> string \<Rightarrow> string option \<Rightarrow> bool
       \<Rightarrow> 32 word cli_io" where
  "snap_body H N C store root message actor0 apfs =
     andThen (file_op (gets (\<lambda>w. wenv w ''RESPAWN_ACTOR''))) (\<lambda>var.
     let actor = (case actor0 of Some a \<Rightarrow> Some a | None \<Rightarrow> var) in
     andThen (if apfs then snap_frozen H N C store root message actor
              else file_op (create_from_actor C store root message actor)) (\<lambda>i.
     andThen (file_op (audit_record C store ''snap'' (hash_hex C i))) (\<lambda>_.
     andThen (println (''snapshot '' @ hash_hex C i)) (\<lambda>_.
     ok 0))))"

definition snap_elevated :: "('h) host_scheme \<Rightarrow> path \<Rightarrow> path \<Rightarrow> string \<Rightarrow> 32 word cli_io" where
  "snap_elevated H store root message =
     andThen (file_op (lift (map_sum Io id (h_exe H)))) (\<lambda>e.
     andThen (file_op (p_canonicalize e)) (\<lambda>exe.
     andThen (key_op (snap_as_admin H exe root (fabric_dir store) message)) (\<lambda>_.
     ok 0)))"

definition cmd_snap ::
    "('h) host_scheme \<Rightarrow> ('y) noise_scheme \<Rightarrow> ('z) snap_crates_scheme \<Rightarrow> string \<Rightarrow> string option \<Rightarrow> bool \<Rightarrow> bool
       \<Rightarrow> 32 word cli_io" where
  "cmd_snap H N C message actor apfs ask_admin =
     andThen (open_store H) (\<lambda>root.
     andThen (if ask_admin then file_op (is_root H) else ok True) (\<lambda>privileged.
     if ask_admin \<and> \<not> privileged then snap_elevated H root root message
     else locked root (snap_body H N C root root message actor apfs)))"

definition log_line :: "('z) crates_scheme \<Rightarrow> hash option \<Rightarrow> hash \<times> manifest \<Rightarrow> string" where
  "log_line C head entry =
     (case entry of (i, m) \<Rightarrow>
        short C i @ ''  '' @ chrono_ts (m_timestamp m)
          @ (if m_message m = [] then [] else ''  '' @ m_message m)
          @ ''  ('' @ dec (length (m_files m)) @ '' files)'' @ (if Some i = head then '' <-- HEAD'' else []))"

definition cmd_log :: "('h) host_scheme \<Rightarrow> ('z) snap_crates_scheme \<Rightarrow> nat \<Rightarrow> 32 word cli_io" where
  "cmd_log H C n =
     andThen (open_store H) (\<lambda>root.
     andThen (file_op (store_head C root)) (\<lambda>head.
     andThen (file_op (list_snapshots C root)) (\<lambda>snaps.
     andThen (println_all (map (log_line C head) (take n snaps))) (\<lambda>_.
     ok 0))))"

definition show_lines :: "('z) crates_scheme \<Rightarrow> hash \<Rightarrow> manifest \<Rightarrow> string list" where
  "show_lines C i m =
     [''snapshot '' @ hash_hex C i]
       @ (case m_parent m of Some p \<Rightarrow> [''parent   '' @ hash_hex C p] | None \<Rightarrow> [])
       @ [''time     '' @ chrono_ts (m_timestamp m)]
       @ (if m_message m \<noteq> [] then [''message  '' @ m_message m] else [])
       @ [''files    '' @ dec (length (m_files m))]
       @ map (\<lambda>f. ''  '' @ pad_left (CHR '' '') 10 (dec (unat (fe_size f))) @ ''  '' @ fe_path f) (m_files m)"

definition cmd_show :: "('h) host_scheme \<Rightarrow> ('z) snap_crates_scheme \<Rightarrow> string \<Rightarrow> 32 word cli_io" where
  "cmd_show H C reference =
     andThen (open_store H) (\<lambda>root.
     andThen (file_op (resolve_ref C root reference)) (\<lambda>i.
     andThen (file_op (load C root i)) (\<lambda>m.
     andThen (println_all (show_lines C i m)) (\<lambda>_.
     ok 0))))"

definition cmd_status :: "('h) host_scheme \<Rightarrow> ('z) snap_crates_scheme \<Rightarrow> string \<Rightarrow> bool \<Rightarrow> 32 word cli_io" where
  "cmd_status H C reference full =
     andThen (open_store H) (\<lambda>root.
     andThen (file_op (resolve_ref C root reference)) (\<lambda>i.
     andThen (file_op (load C root i)) (\<lambda>m.
     andThen (file_op (detect C root m full)) (\<lambda>r.
     andThen (println (''drift vs '' @ short C i @ '':'')) (\<lambda>_.
     andThen (print_drift r) (\<lambda>_.
     ok 0))))))"

definition cmd_diff :: "('h) host_scheme \<Rightarrow> ('z) snap_crates_scheme \<Rightarrow> string \<Rightarrow> string \<Rightarrow> 32 word cli_io" where
  "cmd_diff H C old_ref new_ref =
     andThen (open_store H) (\<lambda>root.
     andThen (file_op (resolve_ref C root old_ref)) (\<lambda>i.
     andThen (file_op (load C root i)) (\<lambda>a.
     andThen (file_op (resolve_ref C root new_ref)) (\<lambda>j.
     andThen (file_op (load C root j)) (\<lambda>b.
     let (added, modified, deleted) = diff_manifests b a in
     andThen (println_all (map ((@) ''  + '') added @ map ((@) ''  ~ '') modified @ map ((@) ''  - '') deleted
       @ [count_line (length added) (length modified) (length deleted)])) (\<lambda>_.
     ok 0))))))"

section \<open>Reverting\<close>

definition revert_refused :: "drift_report \<Rightarrow> 'a cli_io" where
  "revert_refused report =
     andThen (eprintln ''worktree has un-snapshotted changes:'') (\<lambda>_.
     andThen (print_drift report) (\<lambda>_.
     andThen (eprintln ''use --force to revert anyway'') (\<lambda>_.
     refuse (Corrupt ''revert refused''))))"

text \<open>One path of the actor: gone unless the manifest has it.\<close>

definition remove_actor_path :: "path \<Rightarrow> string list \<Rightarrow> nat \<Rightarrow> string \<Rightarrow> nat io" where
  "remove_actor_path root vm_paths removed p =
     (if p \<in> set vm_paths then ok removed
      else
        andThen (resolve_dest root p) (\<lambda>dest.
        andThen (attempt (p_symlink_metadata dest)) (\<lambda>r.
        case r of
          Inr Dir \<Rightarrow> ok removed
        | Inr _ \<Rightarrow> andThen (p_remove_file dest) (\<lambda>_. ok (removed + 1))
        | Inl e \<Rightarrow> if e = Io NotFound then ok removed else fail e)))"

definition revert_actor :: "('z) snap_crates_scheme \<Rightarrow> path \<Rightarrow> string \<Rightarrow> bool \<Rightarrow> 32 word cli_io" where
  "revert_actor C root actor_name force =
     andThen (file_op (surgical_manifest C root actor_name)) (\<lambda>(vm, touched).
     andThen (file_op (check_then_apply C root root vm True force)) (\<lambda>(report, applied).
     case applied of
       None \<Rightarrow> revert_refused report
     | Some r \<Rightarrow>
         andThen (file_op (foldIO (remove_actor_path root (map fe_path (m_files vm))) 0 touched)) (\<lambda>removed.
         andThen (file_op (create_from_actor C root root
             (''surgical undo of actor '' @ [quote] @ actor_name @ [quote]) None)) (\<lambda>nid.
         andThen (file_op (audit_record C root ''revert-actor''
             (actor_name @ '' '' @ dec (length touched) @ '' paths''))) (\<lambda>_.
         andThen (println (''undid '' @ dec (length touched) @ '' path(s) by '' @ [quote] @ actor_name @ [quote] @ '': ''
             @ dec (length (rr_restored r)) @ '' restored, '' @ dec removed @ '' removed (snapshot '' @ short C nid @ '')'')) (\<lambda>_.
         ok 0))))))"

definition revert_whole :: "('z) snap_crates_scheme \<Rightarrow> path \<Rightarrow> string option \<Rightarrow> bool \<Rightarrow> bool \<Rightarrow> 32 word cli_io" where
  "revert_whole C root reference keep_extra force =
     (case reference of
        None \<Rightarrow> refuse (Corrupt ''revert needs a snapshot ref or --actor'')
      | Some s \<Rightarrow>
          andThen (file_op (resolve_ref C root s)) (\<lambda>i.
          andThen (file_op (load C root i)) (\<lambda>m.
          andThen (file_op (check_then_apply C root root m keep_extra force)) (\<lambda>(report, applied).
          case applied of
            None \<Rightarrow> revert_refused report
          | Some r \<Rightarrow>
              andThen (file_op (set_head C root (Some i))) (\<lambda>_.
              andThen (file_op (audit_record C root ''revert'' (short C i @ '' restored '' @ dec (length (rr_restored r))
                  @ '' removed '' @ dec (length (rr_removed r))))) (\<lambda>_.
              andThen (println (''reverted to '' @ short C i @ '': '' @ dec (length (rr_restored r)) @ '' restored, ''
                  @ dec (length (rr_removed r)) @ '' removed, '' @ dec (length (rr_skipped_extra r)) @ '' extra kept'')) (\<lambda>_.
              ok 0)))))))"

definition cmd_revert ::
    "('h) host_scheme \<Rightarrow> ('z) snap_crates_scheme \<Rightarrow> string option \<Rightarrow> string option \<Rightarrow> bool \<Rightarrow> bool \<Rightarrow> 32 word cli_io" where
  "cmd_revert H C reference actor keep_extra force =
     andThen (open_store H) (\<lambda>root.
     locked root
       (case actor of
          Some a \<Rightarrow> revert_actor C root a force
        | None \<Rightarrow> revert_whole C root reference keep_extra force))"

section \<open>Verifying\<close>

text \<open>The counts of verified and corrupt objects, over the names of a fan-out directory.\<close>

definition verify_object :: "('z) crates_scheme \<Rightarrow> path \<Rightarrow> string \<Rightarrow> nat \<times> nat \<Rightarrow> string \<Rightarrow> (nat \<times> nat) io" where
  "verify_object C root fan counts nm =
     (let full = fan @ nm in
      if \<not> is_hash_name full then ok counts
      else
        andThen (lift (parse_hash C full)) (\<lambda>h.
        andThen (attempt (get_object C root h)) (\<lambda>r.
        ok (case r of Inr _ \<Rightarrow> (fst counts + 1, snd counts) | Inl _ \<Rightarrow> (fst counts, snd counts + 1)))))"

definition verify_fan :: "('z) crates_scheme \<Rightarrow> path \<Rightarrow> nat \<times> nat \<Rightarrow> string \<Rightarrow> (nat \<times> nat) io" where
  "verify_fan C root counts fan =
     (let dir = fabric_dir root @ [''objects'', fan] in
      andThen (p_symlink_metadata dir) (\<lambda>ft.
      if ft \<noteq> Dir then ok counts
      else
        andThen (p_read_dir dir) (\<lambda>names.
        foldIO (verify_object C root fan) counts names)))"

definition verify_objects :: "('z) crates_scheme \<Rightarrow> path \<Rightarrow> (nat \<times> nat) io" where
  "verify_objects C root =
     andThen (p_read_dir (fabric_dir root @ [''objects''])) (\<lambda>fans.
     foldIO (verify_fan C root) (0, 0) fans)"

definition verify_stored :: "('z) crates_scheme \<Rightarrow> path \<Rightarrow> unit cli_io" where
  "verify_stored C root =
     andThen (file_op (verify_objects C root)) (\<lambda>(checked, bad).
     andThen (println (''objects: '' @ dec checked @ '' verified, '' @ dec bad @ '' corrupt'')) (\<lambda>_.
     if bad > 0 then refuse (Corrupt ''object verification failed'') else ok ()))"

definition cmd_verify :: "('h) host_scheme \<Rightarrow> ('z) audit_crates_scheme \<Rightarrow> bool \<Rightarrow> 32 word cli_io" where
  "cmd_verify H C objs =
     andThen (open_store H) (\<lambda>root.
     andThen (file_op (audit_verify C root)) (\<lambda>r.
     andThen (println (if vr_valid r then ''audit chain valid ('' @ dec (unat (vr_entries r)) @ '' entries)''
         else ''audit chain BROKEN at seq '' @ debug_seq (vr_first_bad r))) (\<lambda>_.
     andThen (if objs then verify_stored C root else ok ()) (\<lambda>_.
     if \<not> vr_valid r then refuse (Corrupt ''audit chain invalid'') else ok 0))))"

section \<open>The network\<close>

text \<open>Up to the call of \<open>sync::serve\<close>, which does not return.\<close>

definition cmd_serve :: "('h) host_scheme \<Rightarrow> string \<Rightarrow> bool \<Rightarrow> string option \<Rightarrow> 32 word cli_io" where
  "cmd_serve H addr announce psk =
     andThen (open_store H) (\<lambda>root.
     andThen (if \<not> is_loopback addr \<and> psk = None then
         eprintln (''warning: plaintext serve on '' @ addr @ '' '' @ emdash @ '' anyone who can reach it ''
           @ ''can read snapshotted content (use --psk for encrypted sync)'')
       else if \<not> is_loopback addr \<and> psk \<noteq> None then
         eprintln (''serving secured on '' @ addr @ '' (Noise NNpsk0)'')
       else ok ()) (\<lambda>_.
     andThen (println (''serving on '' @ addr @ (if psk \<noteq> None then '' (secured)'' else [])
         @ (if announce then '' (announcing)'' else []))) (\<lambda>_.
     ok 0)))"

definition cmd_peers :: "('e) cli_env_scheme \<Rightarrow> 64 word \<Rightarrow> 32 word cli_io" where
  "cmd_peers E secs =
     andThen (println (''listening '' @ dec (unat secs) @ ''s for beacons'' @ [CHR 0xE2, CHR 0x80, CHR 0xA6])) (\<lambda>_.
     andThen (println_all (map (\<lambda>p. ''  '' @ dp_addr p @ (if dp_secured p then '' (secured)'' else []))
         (discover (ce_datagrams E)))) (\<lambda>_.
     ok 0))"

definition pulled :: "('z) audit_crates_scheme \<Rightarrow> path \<Rightarrow> string \<Rightarrow> pull_report \<Rightarrow> 32 word cli_io" where
  "pulled C root addr r =
     (case pr_remote_head r of
        None \<Rightarrow> andThen (println ''remote has no snapshots'') (\<lambda>_. ok 0)
      | Some h \<Rightarrow>
          andThen (file_op (audit_record C root ''pull''
            (addr @ '' head '' @ short C h @ '' objects '' @ dec (unat (pr_objects r))))) (\<lambda>_.
          andThen (println (''pulled '' @ dec (unat (pr_manifests r)) @ '' manifests, '' @ dec (unat (pr_objects r))
            @ '' objects ('' @ dec (unat (pr_skipped r)) @ '' skipped) from '' @ addr)) (\<lambda>_.
          andThen (println (''remote head: '' @ hash_hex C h)) (\<lambda>_.
          ok 0))))"

definition cmd_pull ::
    "('e) cli_env_scheme \<Rightarrow> ('y) noise_scheme \<Rightarrow> ('z) snap_crates_scheme \<Rightarrow> string \<Rightarrow> string option \<Rightarrow> 32 word cli_io" where
  "cmd_pull E N C addr psk =
     andThen (open_store E) (\<lambda>root.
     locked root
       (andThen (net_op (pull N C root addr (ce_dial E) (ce_rnd E) psk)) (pulled C root addr)))"

section \<open>Guard, purge, fleet\<close>

definition guard_lines :: "('z) crates_scheme \<Rightarrow> guard_report \<Rightarrow> string list" where
  "guard_lines C rep =
     [''guard snapshot '' @ hash_hex C (gr_snapshot rep),
      (case (gr_exit_code rep, gr_signal rep) of
         (Some c, _) \<Rightarrow> ''command exited '' @ sdec c
       | (None, Some sig) \<Rightarrow> ''command killed by signal '' @ sdec sig
       | (None, None) \<Rightarrow> ''command status unknown''),
      ''drift vs guard snapshot:'']
     @ drift_lines (gr_drift rep)
     @ (if gr_reverted rep then [''worktree restored to guard snapshot'']
        else if \<not> drift_clean (gr_drift rep) then
          [''undo with: respawn revert '' @ hash_hex C (gr_snapshot rep) @ '' --force'']
        else [])"

definition cmd_guard ::
    "('e) cli_env_scheme \<Rightarrow> ('z) snap_crates_scheme \<Rightarrow> revert_policy \<Rightarrow> bool \<Rightarrow> string list \<Rightarrow> 32 word cli_io" where
  "cmd_guard E C policy full argv =
     andThen (open_store E) (\<lambda>root.
     andThen (file_op (guard_run C (ce_spawn E) root root argv policy full)) (\<lambda>rep.
     andThen (println_all (guard_lines C rep)) (\<lambda>_.
     ok (process_exit_code rep))))"

definition purge_lines :: "string \<Rightarrow> purge_report \<Rightarrow> string list" where
  "purge_lines p r =
     [''purged '' @ p @ '': '' @ dec (unat (pr_chunks_removed r)) @ '' chunks removed, ''
        @ dec (unat (pr_chunks_retained_shared r)) @ '' shared-retained, cert '' @ path_string (pr_cert_path r)]
     @ (if pr_live_removed r then [''live file removed''] else [])
     @ (case pr_note r of Some n \<Rightarrow> [''note: '' @ n] | None \<Rightarrow> [])"

definition cmd_purge ::
    "('h) host_scheme \<Rightarrow> ('z) purge_crates_scheme \<Rightarrow> string option \<Rightarrow> path option \<Rightarrow> string option \<Rightarrow> 32 word cli_io" where
  "cmd_purge H C target cert pin =
     andThen (open_store H) (\<lambda>root.
     case cert of
       Some c \<Rightarrow> andThen (file_op (verify_cert C root c pin)) (\<lambda>out. andThen (println out) (\<lambda>_. ok 0))
     | None \<Rightarrow>
         (case target of
            None \<Rightarrow> refuse (Corrupt ''purge needs a worktree-relative path (or --verify)'')
          | Some p \<Rightarrow>
              locked root
                (andThen (key_op (purge_run C root root p)) (\<lambda>r.
                 andThen (println_all (purge_lines p r)) (\<lambda>_. ok 0)))))"

fun fleet_run ::
    "('e) cli_env_scheme \<Rightarrow> ('y) noise_scheme \<Rightarrow> ('z) fleet_crates_scheme \<Rightarrow> path \<Rightarrow> fleet_cmd \<Rightarrow> 32 word cli_io" where
  "fleet_run E N C root (Trust pubkey_hex) =
     locked root
       (andThen (file_op (fleet_trust C root pubkey_hex)) (\<lambda>_.
        andThen (println (''fleet key pinned: '' @ pubkey_hex)) (\<lambda>_. ok 0)))"
| "fleet_run E N C root (Order target out) =
     locked root
       (andThen (key_op (fleet_order_mint C root target out)) (\<lambda>p.
        andThen (file_op (audit_record C root ''fleet-order'' (path_string out))) (\<lambda>_.
        andThen (println (''fleet order written to '' @ path_string p)) (\<lambda>_. ok 0))))"
| "fleet_run E N C root (Apply order peer psk force) =
     locked root
       (andThen (net_op (fleet_apply N C root root order peer (ce_dial E) (ce_rnd E) psk force)) (\<lambda>target.
        andThen (println (''fleet revert applied: '' @ hash_hex C target)) (\<lambda>_. ok 0)))"

definition cmd_fleet ::
    "('e) cli_env_scheme \<Rightarrow> ('y) noise_scheme \<Rightarrow> ('z) fleet_crates_scheme \<Rightarrow> fleet_cmd \<Rightarrow> 32 word cli_io" where
  "cmd_fleet E N C sub = andThen (open_store E) (\<lambda>root. fleet_run E N C root sub)"

section \<open>Anchors\<close>

definition head_line :: "verify_outcome \<Rightarrow> string" where
  "head_line out =
     (if vo_anchored_head out = vo_current_head out then ''HEAD unchanged since anchor''
      else ''HEAD moved (normal '' @ emdash @ '' new snapshots): ''
        @ (case vo_anchored_head out of Some h \<Rightarrow> h | None \<Rightarrow> ''none'') @ '' -> ''
        @ (case vo_current_head out of Some h \<Rightarrow> h | None \<Rightarrow> ''none''))"

definition verify_chain :: "('z) sign_crates_scheme \<Rightarrow> path \<Rightarrow> verify_outcome \<Rightarrow> path option \<Rightarrow> unit cli_io" where
  "verify_chain C anchor out prev =
     (case (vo_prev_anchor out, prev) of
        (None, None) \<Rightarrow> println ''chain link: none (first anchor)''
      | (Some h, None) \<Rightarrow>
          andThen (slice12 h) (\<lambda>t. println (''chain link: anchors to '' @ t @ '' (pass --prev <file> to check it)''))
      | (None, Some _) \<Rightarrow> refuse (Corrupt ''--prev given but anchor has no chain link'')
      | (Some _, Some p) \<Rightarrow>
          andThen (file_op (verify_link C anchor p)) (\<lambda>_.
          println (''chain link verified against '' @ path_string p)))"

definition anchored :: "('z) audit_crates_scheme \<Rightarrow> path \<Rightarrow> string \<Rightarrow> create_outcome \<Rightarrow> unit cli_io" where
  "anchored C root p out =
     andThen (file_op (audit_record C root ''anchor'' p)) (\<lambda>_.
     andThen (println (''anchor written to '' @ p @ '' (audit entries: '' @ dec (unat (co_audit_len out)) @ '')'')) (\<lambda>_.
     note_line (co_note out)))"

fun anchor_run ::
    "('e) cli_env_scheme \<Rightarrow> ('z) sign_crates_scheme \<Rightarrow> path \<Rightarrow> anchor_cmd \<Rightarrow> 32 word cli_io" where
  "anchor_run E C root Keygen =
     locked root
       (andThen (key_op (keygen C root)) (\<lambda>(pk, note).
        andThen (file_op (audit_record C root ''anchor-keygen'' pk)) (\<lambda>_.
        andThen (println (''anchor pubkey: '' @ pk)) (\<lambda>_.
        andThen (note_line note) (\<lambda>_.
        andThen (println (''record it off-fabric '' @ emdash @ '' `anchor verify --pubkey` pins against it'')) (\<lambda>_.
        ok 0))))))"
| "anchor_run E C root Pubkey =
     andThen (key_op (pubkey C root)) (\<lambda>pk. andThen (println pk) (\<lambda>_. ok 0))"
| "anchor_run E C root (Create out_path) =
     locked root
       (andThen (key_op (anchor_create (h_cwd E) C root out_path)) (\<lambda>out.
        andThen (anchored C root out_path out) (\<lambda>_.
        andThen (println (''keep it outside .respawn/ '' @ emdash
          @ '' an anchor inside the thing it anchors proves nothing'')) (\<lambda>_.
        ok 0))))"
| "anchor_run E C root (Next dir) =
     locked root
       (andThen (case dir of
           Some d \<Rightarrow> ok d
         | None \<Rightarrow> andThen (file_op (fabric_id C root)) (\<lambda>i. andThen (key_op (default_anchor_dir i)) (\<lambda>dflt. ok (path_string dflt)))) (\<lambda>d.
        andThen (key_op (anchor_next (h_cwd E) C root d)) (\<lambda>(p, out).
        andThen (anchored C root p out) (\<lambda>_.
        ok 0))))"
| "anchor_run E C root (Schedule every dir uninstall) =
     (if uninstall then
        andThen (key_op (schedule_uninstall E C root)) (\<lambda>p.
        andThen (println (''removed scheduled anchor ('' @ path_string p @ '')'')) (\<lambda>_. ok 0))
      else
        andThen (key_op (schedule_plan E C root root dir every)) (\<lambda>spec.
        andThen (key_op (schedule_install E spec)) (\<lambda>_.
        andThen (println (''scheduled '' @ ss_label spec @ '': anchor every '' @ dec (unat (ss_every spec)) @ ''s ''
          @ [CHR 0xE2, CHR 0x86, CHR 0x92] @ '' '' @ ss_anchor_dir spec)) (\<lambda>_.
        andThen (println (''agent log: '' @ path_string (ss_log spec))) (\<lambda>_.
        ok 0)))))"
| "anchor_run E C root (VerifyAnchor anchor pin prev) =
     andThen (file_op (anchor_verify C root anchor pin)) (\<lambda>out.
     andThen (println_all [''anchor valid '' @ emdash @ '' signed by '' @ vo_signer_pubkey out,
       ''anchored audit prefix: '' @ dec (unat (vo_audit_len out)) @ '' entries intact'', head_line out]) (\<lambda>_.
     andThen (verify_chain C anchor out prev) (\<lambda>_.
     ok 0)))"

definition cmd_anchor :: "('e) cli_env_scheme \<Rightarrow> ('z) sign_crates_scheme \<Rightarrow> anchor_cmd \<Rightarrow> 32 word cli_io" where
  "cmd_anchor E C sub = andThen (open_store E) (\<lambda>root. anchor_run E C root sub)"

section \<open>The program\<close>

text \<open>\<open>watch\<close> opens the store and prints the report of each round.\<close>

definition watch_lines :: "string list \<Rightarrow> string list" where
  "watch_lines ps = map (\<lambda>p. ''  ~ '' @ p) ps @ [dec (length ps) @ '' paths changed'']"

definition cmd_watch :: "('e) cli_env_scheme \<Rightarrow> 32 word cli_io" where
  "cmd_watch E =
     andThen (open_store E) (\<lambda>root.
     andThen (println (''watching '' @ path_string root @ '' '' @ emdash @ '' ctrl-c to stop'')) (\<lambda>_.
     case ce_watcher E of
       Some e \<Rightarrow> refuse (Sync e)
     | None \<Rightarrow> andThen (println_all (concat (map watch_lines (watch_loop root (ce_rounds E))))) (\<lambda>_. ok 0)))"

fun cli_run ::
    "('e) cli_env_scheme \<Rightarrow> ('y) noise_scheme \<Rightarrow> ('z) fleet_crates_scheme \<Rightarrow> cmd \<Rightarrow> 32 word cli_io" where
  "cli_run E N C (Init dir) = cmd_init C dir"
| "cli_run E N C (Snap message actor apfs ask_admin) = cmd_snap E N C message actor apfs ask_admin"
| "cli_run E N C (Log n) = cmd_log E C n"
| "cli_run E N C (Show i) = cmd_show E C i"
| "cli_run E N C (Status i full) = cmd_status E C i full"
| "cli_run E N C (Diff old_ref new_ref) = cmd_diff E C old_ref new_ref"
| "cli_run E N C (Revert i actor keep_extra force) = cmd_revert E C i actor keep_extra force"
| "cli_run E N C Watch = cmd_watch E"
| "cli_run E N C (Verify objs) = cmd_verify E C objs"
| "cli_run E N C (Serve addr announce psk) = cmd_serve E addr announce psk"
| "cli_run E N C (Peers secs) = cmd_peers E secs"
| "cli_run E N C (Pull addr psk) = cmd_pull E N C addr psk"
| "cli_run E N C (Guard policy full argv) = cmd_guard E C policy full argv"
| "cli_run E N C (Anchor sub) = cmd_anchor E C sub"
| "cli_run E N C (Purge target cert pin) = cmd_purge E C target cert pin"
| "cli_run E N C (Fleet sub) = cmd_fleet E N C sub"

text \<open>The exit code; a panic of the main thread is 101.\<close>

definition cli_main ::
    "('e) cli_env_scheme \<Rightarrow> ('y) noise_scheme \<Rightarrow> ('z) fleet_crates_scheme \<Rightarrow> cmd \<Rightarrow> cli_state \<Rightarrow> 32 word \<times> cli_state" where
  "cli_main E N C c st =
     (case cli_run E N C c st of
        (Inr n, st1) \<Rightarrow> (n, st1)
      | (Inl (Err e), st1) \<Rightarrow> (1, st1\<lparr>cs_err := cs_err st1 @ [''error: '' @ display N C e]\<rparr>)
      | (Inl Panic, st1) \<Rightarrow> (101, st1))"

end
