(* ===== verification/Cli_Facts.thy ===== *)
theory Cli_Facts
  imports Cli
begin

text \<open>
  What a command may change, by its name: the reading commands nothing, and the writing
  commands nothing while another process holds the lock.
\<close>

section \<open>Reading commands\<close>

fun reading :: "cmd \<Rightarrow> bool" where
  "reading (Log _) = True"
| "reading (Show _) = True"
| "reading (Status _ _) = True"
| "reading (Diff _ _) = True"
| "reading Watch = True"
| "reading (Verify _) = True"
| "reading (Serve _ _ _) = True"
| "reading (Peers _) = True"
| "reading _ = False"

text \<open>The files, the Keychain and the connection are those of \<open>st0\<close>.\<close>

definition undisturbed :: "cli_state \<Rightarrow> cli_state \<Rightarrow> bool" where
  "undisturbed st0 st \<longleftrightarrow> still (cs_world st0) (cs_world st) \<and> cs_vault st = cs_vault st0 \<and> cs_conn st = cs_conn st0"

lemma undisturbed_file_op:
  assumes "keeps (still (cs_world st0)) m"
  shows "keeps (undisturbed st0) (file_op m)"
proof (rule keepsI)
  fix st r st'
  assume i: "undisturbed st0 st" and run: "file_op m st = (r, st')"
  obtain x w where m: "m (cs_world st) = (x, w)" by fastforce
  have "still (cs_world st0) w" using keepsD [OF assms _ m] i by (simp add: undisturbed_def)
  with i run m show "undisturbed st0 st'" by (auto simp: file_op_def undisturbed_def)
qed

lemma undisturbed_print [keeps_intros]:
  "keeps (undisturbed st0) (println s)" "keeps (undisturbed st0) (eprintln s)"
  by (simp_all add: keeps_def println_def eprintln_def undisturbed_def)

lemma undisturbed_refuse [keeps_intros]: "keeps (undisturbed st0) (refuse e)"
  by (simp add: refuse_def keeps_pure)

lemma undisturbed_println_all [keeps_intros]: "keeps (undisturbed st0) (println_all ls)"
  unfolding println_all_def by (intro keeps_intros)

lemma inert_audit_verify: "inert I \<Longrightarrow> keeps I (audit_verify C root)"
  unfolding audit_verify_def Let_def by (intro keeps_intros inert_prims | assumption)+

lemma inert_verify_objects: "inert I \<Longrightarrow> keeps I (verify_objects C root)"
  unfolding verify_objects_def verify_fan_def verify_object_def Let_def
  by (intro keeps_intros inert_prims inert_store_reads | assumption)+

lemma inert_find_up: "inert I \<Longrightarrow> keeps I (find_up p)"
proof (induction p rule: rev_induct)
  case Nil
  then show ?case by (subst find_up.simps) (intro keeps_intros inert_prims, simp_all add: keeps_pure)
next
  case (snoc c p)
  then show ?case by (subst find_up.simps) (intro keeps_intros inert_prims, simp_all)
qed

lemma inert_open:
  assumes "inert I"
  shows "keeps I (andThen (find_root start) store_open)"
  unfolding find_root_def store_open_def
  by (intro keeps_intros inert_prims [OF assms] inert_find_up [OF assms])

lemma inert_resolve: "inert I \<Longrightarrow> keeps I (resolve_ref C root s)"
  unfolding resolve_ref_def resolve_hit_def Let_def
  by (intro keeps_intros inert_store_reads inert_names | assumption | rule keeps_list)+

lemma undisturbed_open: "keeps (undisturbed st0) (open_store H)"
  unfolding open_store_def by (intro undisturbed_file_op inert_open) simp

lemma reading_keeps:
  assumes "reading c" "quiet (cs_world st0)"
  shows "keeps (undisturbed st0) (cli_run E N C c)"
proof -
  have i: "inert (still (cs_world st0))" by simp
  note ops = undisturbed_open undisturbed_file_op inert_resolve [OF i] inert_load [OF i] inert_detect [OF i]
    inert_list_snapshots [OF i] inert_audit_verify [OF i] inert_verify_objects [OF i] inert_store_reads(5) [OF i]
  have v: "keeps (undisturbed st0) (verify_stored C root)" for root
    unfolding verify_stored_def by (intro keeps_intros ops)+
  show ?thesis
  proof (cases c)
    case (Log n)
    then show ?thesis unfolding Log cli_run.simps cmd_log_def by (intro keeps_intros ops)+
  next
    case (Show r)
    then show ?thesis unfolding Show cli_run.simps cmd_show_def by (intro keeps_intros ops)+
  next
    case (Status r f)
    then show ?thesis unfolding Status cli_run.simps cmd_status_def print_drift_def by (intro keeps_intros ops)+
  next
    case (Diff a b)
    then show ?thesis unfolding Diff cli_run.simps cmd_diff_def Let_def by (intro keeps_intros ops)+
  next
    case Watch
    then show ?thesis unfolding Watch cli_run.simps cmd_watch_def by (intro keeps_intros ops)+
  next
    case (Verify b)
    then show ?thesis unfolding Verify cli_run.simps cmd_verify_def by (intro keeps_intros ops v)+
  next
    case (Serve a b p)
    then show ?thesis unfolding Serve cli_run.simps cmd_serve_def by (intro keeps_intros ops)+
  next
    case (Peers n)
    then show ?thesis unfolding Peers cli_run.simps cmd_peers_def by (intro keeps_intros ops)+
  qed (use assms(1) in simp_all)
qed

text \<open>C39: Looking changes nothing: \<open>log\<close>, \<open>show\<close>, \<open>status\<close>, \<open>diff\<close>, \<open>verify\<close>, \<open>watch\<close>, \<open>peers\<close> and the
  start of \<open>serve\<close>, whatever they are given, whatever they find and whichever call fails, leave
  every file, the lock and the Keychain as they were.\<close>

theorem reading_commands_read:
  assumes "reading c" "quiet (cs_world st)" "cli_main E N C c st = (n, st')"
  shows "wfs (cs_world st') = wfs (cs_world st) \<and> wlock (cs_world st') = wlock (cs_world st) \<and> cs_vault st' = cs_vault st"
proof -
  obtain r st1 where run: "cli_run E N C c st = (r, st1)" by fastforce
  have "undisturbed st st" using assms(2) by (simp add: undisturbed_def still_def)
  from keepsD [OF reading_keeps [OF assms(1,2)] this run] have "undisturbed st st1" .
  with run assms(3) show ?thesis
    by (auto simp: cli_main_def undisturbed_def still_def same_env_def split: sum.splits failure.splits)
qed

text \<open>A process in a fabric whose lock is taken.\<close>

definition demo_env :: cli_env where
  "demo_env = \<lparr>h_run = h_run quiet_host, h_cwd = [], h_exe = h_exe quiet_host, h_temp = [''tmp''], h_dev = h_dev quiet_host,
     ce_spawn = (\<lambda>argv root w. (Inr \<lparr>es_code = Some 0, es_signal = None\<rparr>, w)), ce_dial = None, ce_rnd = [], ce_datagrams = [],
     ce_watcher = None, ce_rounds = []\<rparr>"

definition busy :: cli_state where
  "busy = \<lparr>cs_world = demo\<lparr>wlock := True\<rparr>, cs_vault = \<lparr>vt_macos = False, vt_items = (\<lambda>_. None), vt_calls = 0, vt_fault = (\<lambda>_. None)\<rparr>,
     cs_conn = peer_conn, cs_out = [], cs_err = []\<rparr>"

lemma busy_facts: "quiet (cs_world busy)" "wlock (cs_world busy)"
  by (simp_all add: busy_def demo_def quiet_def fresh_world_def)

theorem reading_commands_read_witness:
  "\<exists>n st'. cli_main demo_env key_noise ref_fleet_crates (Status ''head'' True) busy = (n, st') \<and> wfs (cs_world st') = wfs demo"
proof -
  obtain n st' where run: "cli_main demo_env key_noise ref_fleet_crates (Status ''head'' True) busy = (n, st')" by fastforce
  have "reading (Status ''head'' True)" by simp
  from reading_commands_read [OF this busy_facts(1) run] have "wfs (cs_world st') = wfs demo" by (simp add: busy_def)
  with run show ?thesis by blast
qed

section \<open>Writing commands and the lock\<close>

text \<open>The commands that take the lock, before anything else but opening the store.\<close>

fun locking :: "cmd \<Rightarrow> bool" where
  "locking (Snap _ _ _ ask_admin) = (\<not> ask_admin)"
| "locking (Revert _ _ _ _) = True"
| "locking (Pull _ _) = True"
| "locking (Guard _ _ argv) = (argv \<noteq> [])"
| "locking (Purge target cert _) = (target \<noteq> None \<and> cert = None)"
| "locking (Fleet _) = True"
| "locking (Anchor Keygen) = True"
| "locking (Anchor (Create _)) = True"
| "locking (Anchor (Next _)) = True"
| "locking _ = False"

text \<open>
  Nothing that was there has changed; at the place that the lock path of one of the roots \<open>R\<close> leads
  to, an empty file may be new.
\<close>

definition lock_made :: "(path \<Rightarrow> bool) \<Rightarrow> world \<Rightarrow> world \<Rightarrow> bool" where
  "lock_made R w w' \<longleftrightarrow> same_env w w' \<and> (entries w' = entries w
     \<or> (\<exists>root q t. R root \<and> lookup_path True (wfs w) (fabric_dir root @ [''lock'']) = Inr q
          \<and> entries w q = None \<and> entries w' = (entries w)(q \<mapsto> File [] 0x1A4 t)))"

lemma lock_made_trans:
  assumes "still w w1" "lock_made R w1 w2" "\<And>root. R root \<Longrightarrow> S root"
  shows "lock_made S w w2"
proof -
  have "same_env w w1" "wfs w1 = wfs w" using assms(1) by (simp_all add: still_def)
  moreover from this(2) have "entries w1 = entries w" by (simp add: entries_def)
  ultimately show ?thesis using assms(2,3) by (auto simp: lock_made_def intro: same_env_trans)
qed

lemma open_append_new:
  "snd (fs_open_append t fs p) = fs \<or> (\<exists>q. lookup_path True fs p = Inr q \<and> entry_at fs q = None
     \<and> snd (fs_open_append t fs p) = put_node q (File [] 0x1A4 t) fs)"
  by (auto simp: fs_open_append_def split: sum.splits option.splits node.splits)

lemma try_lock_held:
  assumes "try_lock root w = (r, w')" "wlock w" "quiet w"
  shows "\<exists>e. r = Inl e" "lock_made ((=) root) w w'"
proof -
  let ?p = "fabric_dir root @ [''lock'']"
  show "\<exists>e. r = Inl e"
    using try_lock_step(2) [OF assms(1)] assms(2) by (cases r) auto
  obtain q w1 where q: "p_open_append ?p w = (q, w1)" by fastforce
  note s = syscall_result [OF q [unfolded p_open_append_def] assms(3)]
  have "w' = w1"
    using assms(1,2) q s by (cases q) (auto simp: try_lock_def same_env_def)
  moreover have "lock_made ((=) root) w w1"
  proof -
    have f: "same_env w w1" "wfs w1 = wfs w \<or> wfs w1 = snd (fs_open_append (wtime w (wtick w)) (wfs w) ?p)"
      using s by (auto split: option.splits prod.splits sum.splits)
    have put: "entry_at (put_node x nd fs) = (entry_at fs)(x \<mapsto> nd)" if "entry_at fs x = None" for x nd fs
      using that by (cases "x = []") (auto simp: fs_simps fun_eq_iff)
    show ?thesis
    proof (cases "wfs w1 = wfs w")
      case True
      with f(1) show ?thesis by (simp add: lock_made_def entries_def)
    next
      case False
      with f(2) open_append_new [of "wtime w (wtick w)" "wfs w" ?p] obtain x where
        x: "lookup_path True (wfs w) ?p = Inr x" "entry_at (wfs w) x = None"
          "wfs w1 = put_node x (File [] 0x1A4 (wtime w (wtick w))) (wfs w)" by metis
      with put [OF x(2)] have "entries w1 = (entries w)(x \<mapsto> File [] 0x1A4 (wtime w (wtick w)))" by (simp add: entries_def)
      with x(1,2) f(1) show ?thesis unfolding lock_made_def entries_def by blast
    qed
  qed
  ultimately show "lock_made ((=) root) w w'" by simp
qed

text \<open>The root found lies on the way to the working directory.\<close>

lemma find_up_prefix: "find_up cur w = (Inr p, w') \<Longrightarrow> prefix p cur"
proof (induction cur arbitrary: w rule: find_up.induct)
  case (1 cur)
  obtain q w1 where q: "p_is_dir (cur @ [FABRIC_DIR, ''objects'']) w = (q, w1)" by fastforce
  have run: "(case q of Inl e \<Rightarrow> (Inl e, w1) | Inr b \<Rightarrow> (if b then ok cur
     else if cur = [] then fail NotInitialized else find_up (butlast cur)) w1) = (Inr p, w')"
    using 1(2) q by (subst (asm) find_up.simps) (cases q; simp)
  show ?case
  proof (cases "q = Inr False \<and> cur \<noteq> []")
    case True
    with run have "find_up (butlast cur) w1 = (Inr p, w')" by simp
    with 1(1) q True have "prefix p (butlast cur)" by blast
    then show ?thesis using prefixeq_butlast prefix_order.trans by blast
  next
    case False
    with run show ?thesis by (cases q) (auto simp: comp_eval split: if_splits)
  qed
qed

definition on_the_way :: "path \<Rightarrow> world \<Rightarrow> path \<Rightarrow> bool" where
  "on_the_way cwd w root \<longleftrightarrow> (\<exists>cur. fs_canonicalize (wfs w) cwd = Inr cur \<and> prefix root cur)"

lemma open_on_the_way:
  assumes "andThen (find_root cwd) store_open w = (Inr root, w')" "quiet w"
  shows "on_the_way cwd w root"
proof -
  from assms(1) obtain cur w1 w2 where c: "p_canonicalize cwd w = (Inr cur, w1)" and u: "find_up cur w1 = (Inr root, w2)"
    by (auto simp: find_root_def store_open_def map_err_def andThen_Inr comp_eval split: if_splits prod.splits sum.splits)
  have "fs_canonicalize (wfs w) cwd = Inr cur"
    using syscall_result [OF c [unfolded p_canonicalize_def] assms(2)] by (auto split: option.splits sum.splits)
  with find_up_prefix [OF u] show ?thesis unfolding on_the_way_def by blast
qed

text \<open>A run that fails at the lock.\<close>

definition refused_at :: "(path \<Rightarrow> bool) \<Rightarrow> cli_state \<Rightarrow> (failure + 'a) \<times> cli_state \<Rightarrow> bool" where
  "refused_at R st res \<longleftrightarrow> (\<exists>e w. res = (Inl (Err e), st\<lparr>cs_world := w\<rparr>) \<and> lock_made R (cs_world st) w)"

lemma locked_refused:
  assumes "wlock (cs_world st)" "quiet (cs_world st)"
  shows "refused_at ((=) root) st (locked root m st)"
proof -
  obtain r w where t: "try_lock root (cs_world st) = (r, w)" by fastforce
  from try_lock_held [OF t assms] t show ?thesis
    by (auto simp: locked_def file_op_def refused_at_def)
qed

lemma guard_refused:
  assumes "wlock (cs_world st)" "quiet (cs_world st)" "argv \<noteq> []"
  shows "refused_at ((=) root) st (file_op (guard_run C sp root root2 argv policy full) st)"
proof -
  obtain r w where t: "try_lock root (cs_world st) = (r, w)" by fastforce
  from try_lock_held [OF t assms(1,2)] t assms(3) show ?thesis
    by (auto simp: guard_run_def with_lock_def file_op_def refused_at_def)
qed

lemma refused_andThen: "refused_at R st (m st) \<Longrightarrow> refused_at R st (andThen m f st)"
  by (auto simp: refused_at_def)

lemma refused_after_open:
  assumes "wlock (cs_world st)" "quiet (cs_world st)"
    and "\<And>root st1. wlock (cs_world st1) \<Longrightarrow> quiet (cs_world st1) \<Longrightarrow> refused_at ((=) root) st1 (f root st1)"
  shows "refused_at (on_the_way (h_cwd H) (cs_world st)) st (andThen (open_store H) f st)"
proof -
  obtain r w where o: "andThen (find_root (h_cwd H)) store_open (cs_world st) = (r, w)" by fastforce
  have s: "still (cs_world st) w"
    by (rule keepsD [OF inert_open [OF inert_still] _ o]) (simp add: still_def assms(2))
  show ?thesis
  proof (cases r)
    case (Inl e)
    then show ?thesis using o s
      by (auto simp: open_store_def file_op_def refused_at_def lock_made_def still_def entries_def)
  next
    case (Inr root)
    have env: "same_env (cs_world st) w" using s by (simp add: still_def)
    then have "wlock w" "quiet w" using assms(1,2) same_env_quiet [OF env] by (simp_all add: same_env_def)
    then have "refused_at ((=) root) (st\<lparr>cs_world := w\<rparr>) (f root (st\<lparr>cs_world := w\<rparr>))" by (intro assms(3)) simp_all
    then obtain e w2 where f: "f root (st\<lparr>cs_world := w\<rparr>) = (Inl (Err e), st\<lparr>cs_world := w2\<rparr>)" "lock_made ((=) root) w w2"
      by (auto simp: refused_at_def)
    have "open_store H st = (Inr root, st\<lparr>cs_world := w\<rparr>)"
      using o Inr by (simp add: open_store_def file_op_def)
    with f(1) have "andThen (open_store H) f st = (Inl (Err e), st\<lparr>cs_world := w2\<rparr>)" by simp
    moreover have "on_the_way (h_cwd H) (cs_world st) root" using open_on_the_way o Inr assms(2) by blast
    ultimately show ?thesis using lock_made_trans [OF s f(2)] unfolding refused_at_def by blast
  qed
qed

lemma locking_refused:
  assumes "locking c" "wlock (cs_world st)" "quiet (cs_world st)"
  shows "refused_at (on_the_way (h_cwd E) (cs_world st)) st (cli_run E N C c st)"
proof -
  have fleet: "refused_at ((=) root) st1 (fleet_run E N C root sub st1)" if "wlock (cs_world st1)" "quiet (cs_world st1)" for root sub st1
    using locked_refused [OF that] by (cases sub) simp_all
  show ?thesis
  proof (cases c)
    case (Snap m a f k)
    with assms show ?thesis
      by (auto simp: cmd_snap_def intro!: refused_after_open locked_refused)
  next
    case (Guard p f argv)
    show ?thesis unfolding Guard cli_run.simps cmd_guard_def
      by (rule refused_after_open [OF assms(2,3)], rule refused_andThen, rule guard_refused) (use assms Guard in simp_all)
  next
    case (Purge t cert p)
    with assms(1) obtain path where "t = Some path" "cert = None" by auto
    then show ?thesis unfolding Purge cli_run.simps cmd_purge_def
      by (intro refused_after_open [OF assms(2,3)]) (simp add: locked_refused)
  next
    case (Anchor sub)
    with assms show ?thesis
      by (cases sub) (auto simp: cmd_anchor_def intro!: refused_after_open locked_refused)
  next
    case (Fleet sub)
    with assms show ?thesis
      by (auto simp: cmd_fleet_def intro!: refused_after_open fleet)
  qed (use assms in \<open>auto simp: cmd_revert_def cmd_pull_def intro!: refused_after_open locked_refused\<close>)
qed

text \<open>C10: One writer at a time. While another process holds the lock of the worktree, each of \<open>snap\<close>
  (without \<open>--ask-admin\<close>), \<open>revert\<close>, \<open>pull\<close>, \<open>guard\<close> with a command, \<open>purge\<close> of a path, \<open>fleet trust\<close>, \<open>order\<close> and
  \<open>apply\<close>, and \<open>anchor keygen\<close>, \<open>create\<close> and \<open>next\<close> ends with exit code 1 and has changed nothing: every
  entry is as it was, except that one new empty file may stand where the lock path of the worktree
  found leads, if nothing was there; the lock is still held, the Keychain and the connection are
  as they were, and one line, the error, was printed. (\<open>init\<close>, \<open>snap --ask-admin\<close> and \<open>anchor pubkey\<close>,
  \<open>schedule\<close> and \<open>verify\<close> take no lock and are not covered.)\<close>

theorem locked_out:
  assumes "locking c" "wlock (cs_world st)" "quiet (cs_world st)" "cli_main E N C c st = (n, st')"
  shows "n = 1 \<and> wlock (cs_world st') \<and> cs_vault st' = cs_vault st \<and> cs_conn st' = cs_conn st \<and> cs_out st' = cs_out st
    \<and> (\<exists>msg. cs_err st' = cs_err st @ [''error: '' @ msg])
    \<and> (entries (cs_world st') = entries (cs_world st)
       \<or> (\<exists>cur root q t. fs_canonicalize (wfs (cs_world st)) (h_cwd E) = Inr cur \<and> prefix root cur
            \<and> lookup_path True (wfs (cs_world st)) (fabric_dir root @ [''lock'']) = Inr q \<and> entries (cs_world st) q = None
            \<and> entries (cs_world st') = (entries (cs_world st))(q \<mapsto> File [] 0x1A4 t)))"
proof -
  obtain e w where r: "cli_run E N C c st = (Inl (Err e), st\<lparr>cs_world := w\<rparr>)"
    "lock_made (on_the_way (h_cwd E) (cs_world st)) (cs_world st) w"
    using locking_refused [OF assms(1-3), of E N C] by (auto simp: refused_at_def)
  then have "n = 1" "st' = st\<lparr>cs_world := w, cs_err := cs_err st @ [''error: '' @ display N C e]\<rparr>"
    using assms(4) by (simp_all add: cli_main_def)
  moreover have "wlock w" using r(2) assms(2) by (simp add: lock_made_def same_env_def)
  ultimately show ?thesis using r(2) by (auto simp: lock_made_def on_the_way_def)
qed

theorem locked_out_witness:
  "\<exists>st'. cli_main demo_env key_noise ref_fleet_crates (Snap ''m'' None False False) busy = (1, st')
     \<and> file_data (entries (cs_world st') (head_path [])) = Some [] \<and> cs_out st' = []"
proof -
  obtain n st' where run: "cli_main demo_env key_noise ref_fleet_crates (Snap ''m'' None False False) busy = (n, st')" by fastforce
  have "locking (Snap ''m'' None False False)" by simp
  note r = locked_out [OF this busy_facts(2,1) run]
  have "entries (cs_world busy) = entries demo" by (simp add: busy_def entries_def fun_eq_iff)
  then have h: "entries (cs_world busy) (head_path []) = Some (File [] 0x1A4 0)"
    by (simp add: demo_entries demo_fs_def head_path_def fabric_dir_def FABRIC_DIR_def)
  with r have "entries (cs_world st') (head_path []) = Some (File [] 0x1A4 0)" by (metis fun_upd_other option.distinct(1))
  moreover have "cs_out st' = []" "n = 1" using r by (simp_all add: busy_def)
  ultimately show ?thesis using run by auto
qed

end
