(* ===== verification/Store_Spec.thy ===== *)
theory Store_Spec
  imports Store
begin

text \<open>
  The object store against what it promises: a finite map from hashes to bytes that only grows.
  A session is any sequence of the store's three calls on objects; whatever the file system does
  within one process, its replies are those of the map.
\<close>

section \<open>Sessions\<close>

datatype store_call = PutCall bytes | GetCall hash | HasCall hash

datatype store_reply = Stored hash | Got bytes | Found bool | Failed error

fun reply_of :: "store_call \<Rightarrow> ('z) crates_scheme \<Rightarrow> path \<Rightarrow> world \<Rightarrow> store_reply \<times> world" where
  "reply_of (PutCall d) C root w = (case put_object C root d w of (Inl e, w1) \<Rightarrow> (Failed e, w1) | (Inr h, w1) \<Rightarrow> (Stored h, w1))"
| "reply_of (GetCall h) C root w = (case get_object C root h w of (Inl e, w1) \<Rightarrow> (Failed e, w1) | (Inr d, w1) \<Rightarrow> (Got d, w1))"
| "reply_of (HasCall h) C root w = (case has_object C root h w of (Inl e, w1) \<Rightarrow> (Failed e, w1) | (Inr b, w1) \<Rightarrow> (Found b, w1))"

fun store_session :: "('z) crates_scheme \<Rightarrow> path \<Rightarrow> store_call list \<Rightarrow> world \<Rightarrow> store_reply list \<times> world" where
  "store_session C root [] w = ([], w)"
| "store_session C root (k # ks) w =
     (let (r, w1) = reply_of k C root w; (rs, w2) = store_session C root ks w1 in (r # rs, w2))"

section \<open>The map\<close>

text \<open>
  One call on the map \<open>m\<close>. A put that succeeds returns the hash of the bytes, which are then
  stored, unless something is under that hash already. \<open>sure\<close> says that no call can fail for a
  reason of its own: then only what is not there is not found.
\<close>

fun map_step :: "(bytes \<Rightarrow> hash) \<Rightarrow> bool \<Rightarrow> (hash \<rightharpoonup> bytes) \<Rightarrow> store_call \<Rightarrow> store_reply \<Rightarrow> (hash \<rightharpoonup> bytes) \<Rightarrow> bool" where
  "map_step H sure m (PutCall d) (Stored h) m' \<longleftrightarrow> h = H d \<and> (m h \<noteq> None \<and> m' = m \<or> m' = m(h \<mapsto> d))"
| "map_step H sure m (PutCall d) (Failed e) m' \<longleftrightarrow> m' = m"
| "map_step H sure m (GetCall h) (Got d) m' \<longleftrightarrow> m' = m \<and> m h = Some d \<and> H d = h"
| "map_step H sure m (GetCall h) (Failed e) m' \<longleftrightarrow> m' = m \<and> (sure \<longrightarrow> m h = None)"
| "map_step H sure m (HasCall h) (Found b) m' \<longleftrightarrow> m' = m \<and> (b \<longrightarrow> m h \<noteq> None) \<and> (sure \<longrightarrow> m h \<noteq> None \<longrightarrow> b)"
| "map_step H sure m _ _ m' \<longleftrightarrow> False"

fun map_session :: "(bytes \<Rightarrow> hash) \<Rightarrow> bool \<Rightarrow> (hash \<rightharpoonup> bytes) \<Rightarrow> store_call list \<Rightarrow> store_reply list \<Rightarrow> (hash \<rightharpoonup> bytes) \<Rightarrow> bool" where
  "map_session H sure m [] [] m' \<longleftrightarrow> m' = m"
| "map_session H sure m (k # ks) (r # rs) m' \<longleftrightarrow> (\<exists>m1. map_step H sure m k r m1 \<and> map_session H sure m1 ks rs m')"
| "map_session H sure m _ _ m' \<longleftrightarrow> False"

section \<open>Simulation\<close>

fun call_fits :: "store_call \<Rightarrow> bool" where
  "call_fits (PutCall d) = object_fits d"
| "call_fits _ = True"

lemma put_simulated:
  assumes "objects_ok c w" "object_fits d" "put_object (fst c) (snd c) d w = (r, w')"
  shows "objects_ok c w'" "same_env w w'" "r = Inl e \<Longrightarrow> objects c w' = objects c w"
    and "r = Inr h \<Longrightarrow> h = hash_bytes (fst c) d
      \<and> (objects c w h \<noteq> None \<and> objects c w' = objects c w \<or> objects c w' = (objects c w)(h \<mapsto> d))"
proof -
  let ?k = "hash_bytes (fst c) d"
  note b = objects_ok_base [OF assms(1)] and bf = store_base_facts [OF b]
  note res = put_blob_result [OF bf(1) bf(3) assms(3) [unfolded put_object_blob, folded object_at_def]]
  have ev: "evolves (home c) {object_at c ?k} w w'"
    using res evolves_mono [of "home c" "{}" w w'] by (auto simp: stays_def split: sum.splits)
  then show "same_env w w'" by (rule evolves_env)
  show "objects_ok c w'"
    using objects_put [OF assms(1,2)] objects_put_err [OF assms(1)] assms(3) by (cases r) blast+
  show "objects c w' = objects c w" if "r = Inl e"
    using objects_put_err [OF assms(1)] objects_frame [OF assms(1), of "{}" w'] assms(3) that by (auto simp: stays_def)
  show "h = ?k \<and> (objects c w h \<noteq> None \<and> objects c w' = objects c w \<or> objects c w' = (objects c w)(h \<mapsto> d))" if "r = Inr h"
  proof -
    from res that have h: "h = ?k" and z: "entries w (object_at c h) \<noteq> None \<and> entries w' = entries w
        \<or> (\<exists>z. zstd_encode (fst c) d = Inr z \<and> file_data (entries w' (object_at c h)) = Some z)"
      by (auto simp: map_sum_def split: sum.splits)
    have e: "objects c w' j = objects c w j" if "j \<noteq> h" for j
      using evolves_blob [OF ev bf(1) blob_not_dir_place(1), of j] that h by (simp add: bf(4) objects_def)
    from z show ?thesis
    proof
      assume a: "entries w (object_at c h) \<noteq> None \<and> entries w' = entries w"
      then have "objects c w h \<noteq> None" using assms(1) by (simp add: objects_ok_def)
      moreover have "objects c w' = objects c w" using a by (simp add: objects_def fun_eq_iff)
      ultimately show ?thesis using h by blast
    next
      assume "\<exists>z. zstd_encode (fst c) d = Inr z \<and> file_data (entries w' (object_at c h)) = Some z"
      then have "objects c w' h = Some d"
        using decode_encoded [OF bf(6)] assms(2) h by (auto simp: objects_def decodes_def object_fits_def)
      then show ?thesis using e h by (auto simp: fun_eq_iff)
    qed
  qed
qed

lemma has_simulated:
  assumes "objects_ok c w" "has_object (fst c) (snd c) h w = (r, w')"
  shows "same_env w w' \<and> wfs w' = wfs w"
    and "\<exists>b. r = Inr b \<and> (b \<longrightarrow> objects c w h \<noteq> None) \<and> (calm w \<longrightarrow> objects c w h \<noteq> None \<longrightarrow> b)"
proof -
  note b = objects_ok_base [OF assms(1)] and bf = store_base_facts [OF b]
  note q = query_sound [OF bf(3) assms(2) [unfolded has_object_def p_exists_def, folded object_at_def]]
  show "same_env w w' \<and> wfs w' = wfs w" using q(2) [of "{}"] q(3) by (simp add: evolves_def)
  have ex: "fs_exists (wfs w) (object_at c h) \<longleftrightarrow> entries w (object_at c h) \<noteq> None"
    using fs_exists_clean [OF sound_facts(2) [OF bf(3)] sound_facts(3) [OF bf(3) slot_facts(1) [OF bf(1)]]]
    by (simp add: entries_def)
  have "entries w (object_at c h) \<noteq> None \<Longrightarrow> objects c w h \<noteq> None"
    using assms(1) unfolding objects_ok_def by blast
  moreover have "entries w (object_at c h) = None \<Longrightarrow> objects c w h = None" by (simp add: objects_def decodes_def)
  ultimately have "objects c w h \<noteq> None \<longleftrightarrow> entries w (object_at c h) \<noteq> None"
    by (cases "entries w (object_at c h) = None") simp_all
  with q(4) ex show "\<exists>b. r = Inr b \<and> (b \<longrightarrow> objects c w h \<noteq> None) \<and> (calm w \<longrightarrow> objects c w h \<noteq> None \<longrightarrow> b)"
    by metis
qed

lemma objects_ok_same: "objects_ok c w \<Longrightarrow> same_env w w' \<Longrightarrow> wfs w' = wfs w \<Longrightarrow> objects_ok c w' \<and> objects c w' = objects c w"
  using objects_frame [of c w "{}" w'] evolves_same [of w w'] store_base_facts(3) [OF objects_ok_base] sound_same by blast

lemma call_simulated:
  assumes "objects_ok c w" "call_fits k" "reply_of k (fst c) (snd c) w = (r, w')"
  shows "objects_ok c w' \<and> same_env w w' \<and> map_step (hash_bytes (fst c)) (calm w) (objects c w) k r (objects c w')"
proof (cases k)
  case (PutCall d)
  obtain q w1 where p: "put_object (fst c) (snd c) d w = (q, w1)" by fastforce
  with assms put_simulated [OF assms(1) _ p] PutCall show ?thesis by (cases q) auto
next
  case (GetCall h)
  obtain q w1 where p: "get_object (fst c) (snd c) h w = (q, w1)" by fastforce
  note g = get_object_result [OF objects_ok_base [OF assms(1)] p]
  have s: "objects_ok c w1 \<and> objects c w1 = objects c w" using objects_ok_same [OF assms(1)] g(1) by blast
  show ?thesis
  proof (cases q)
    case (Inl e)
    then have "calm w \<longrightarrow> objects c w h = None" using g(3) by (cases "objects c w h") auto
    with Inl assms(3) GetCall p g(1) s show ?thesis by auto
  next
    case (Inr d)
    then have "objects c w h = Some d" using g(2) by blast
    moreover from this have "hash_bytes (fst c) d = h" using decodes_Some [of c h] by (simp add: objects_def)
    ultimately show ?thesis using Inr assms(3) GetCall p g(1) s by auto
  qed
next
  case (HasCall h)
  obtain q w1 where p: "has_object (fst c) (snd c) h w = (q, w1)" by fastforce
  note g = has_simulated [OF assms(1) p]
  have "objects_ok c w1 \<and> objects c w1 = objects c w" using objects_ok_same [OF assms(1)] g(1) by blast
  with g p assms(3) HasCall show ?thesis by auto
qed

section \<open>Properties\<close>

text \<open>C2: The object store refines a map. In any session of puts, gets and membership tests, whatever
  call fails or is interrupted, every reply is one the map from hashes to bytes gives: a put that
  succeeds returns the hash of its bytes and binds it (or finds it bound), one that fails leaves the
  map alone; a get returns exactly what is bound, and it hashes to the key; and when no system call
  fails, what is bound is always found. The store is in order afterwards.\<close>

theorem object_store_refines:
  assumes "objects_ok c w" "list_all call_fits ks" "store_session (fst c) (snd c) ks w = (rs, w')"
  shows "objects_ok c w' \<and> map_session (hash_bytes (fst c)) (calm w) (objects c w) ks rs (objects c w')"
  using assms
proof (induction ks arbitrary: w rs w')
  case (Cons k ks)
  obtain r w1 where 1: "reply_of k (fst c) (snd c) w = (r, w1)" by fastforce
  obtain rs1 w2 where 2: "store_session (fst c) (snd c) ks w1 = (rs1, w2)" by fastforce
  have s: "objects_ok c w1" "same_env w w1" "map_step (hash_bytes (fst c)) (calm w) (objects c w) k r (objects c w1)"
    using call_simulated [OF Cons.prems(1) _ 1] Cons.prems(2) by simp_all
  have "calm w1 = calm w" by (rule same_env_calm [OF s(2)])
  with Cons.IH [OF s(1) _ 2] Cons.prems(2,3) s(3) 1 2 show ?case by auto
qed simp

theorem object_store_refines_witness:
  "\<exists>rs w' h m. store_session ref_crates [] [PutCall ''hi'', GetCall (hash_bytes ref_crates ''hi'')] demo = (rs, w')
     \<and> map_session (hash_bytes ref_crates) True (objects demo_sel demo) [PutCall ''hi'', GetCall (hash_bytes ref_crates ''hi'')] rs m"
proof -
  let ?ks = "[PutCall ''hi'', GetCall (hash_bytes ref_crates ''hi'')]"
  obtain rs w' where run: "store_session (fst demo_sel) (snd demo_sel) ?ks demo = (rs, w')" by fastforce
  have "list_all call_fits ?ks" by (simp add: object_fits_def MAX_OBJECT_SIZE_def CDC_MAX_def)
  from object_store_refines [OF demo_ok(1) this run] run show ?thesis by (auto simp: demo_sel_def demo_def)
qed

end
