(* ===== verification/Certified.thy ===== *)
theory Certified
  imports Purge Guarded_Run
begin

text \<open>
  Whole runs of \<open>purge\<close> (\<open>src/purge.rs\<close>). One that ends well leaves a fabric in which \<open>verify_cert\<close>
  accepts the certificate it wrote, under the key that signed it and no other, and reports what the
  run has reported: the tombstone and the identity of the fabric are in place when the certificate
  is. One that has no key has erased all the same, and can never be certified afterwards.
\<close>

section \<open>The certificate that is written\<close>

lemma tip_lines_text:
  "audit_json_ok C \<Longrightarrow> utf8_valid (snd st) \<Longrightarrow> tip_lines C i st ls = Inr (n, tip) \<Longrightarrow> utf8_valid tip"
proof (induction C i st ls rule: tip_lines.induct)
  case (2 C i st l ls)
  show ?case
  proof (cases "trim l = []")
    case True
    with 2 show ?thesis by (auto split: if_splits)
  next
    case False
    with 2(5) obtain e where e: "utf8_valid l" "read_audit C l = Inr e" "tip_lines C (i + 1) (ae_seq e + 1, ae_hash e) ls = Inr (n, tip)"
      by (auto split: if_splits sum.splits)
    have "entry_text e" using 2(3) e(2) by (auto simp: audit_json_ok_def)
    with 2(2) [OF _ False e(2)] 2(3) e show ?thesis by (simp add: entry_text_def)
  qed
qed auto

lemma yields_audit_tip:
  assumes "audit_json_ok C"
  shows "yields (audit_tip C root) (\<lambda>(_, tip). utf8_valid tip)"
  unfolding audit_tip_def Let_def
  by (intro yields_intros yields_lift) (auto dest: tip_lines_text [OF assms, rotated])

lemma write_cert_stores:
  assumes "keeper root w" "write_cert root ts i (Inr d) w = (Inr p, w')"
  shows "p \<in> cert_paths root" "file_data (entries w' p) = Some d"
proof -
  let ?F = "fabric_dir root" let ?d = "?F @ [PURGE_DIR]"
  let ?x = "dec (unat ts) @ ''-'' @ take 8 i @ ''.json''"
  note k = keeperD [OF assms(1)]
  from assms(2) obtain w1 t w2 w3 where run: "p_create_dir_all ?d w = (Inr (), w1)" "tmp_path ?d ''purge'' w1 = (Inr t, w2)"
    "p_write t d w2 = (Inr (), w3)" "p_rename t p w3 = (Inr (), w')" and p: "p = ?F @ [PURGE_DIR, ''purge-'' @ ?x]"
    by (auto simp: write_cert_def Let_def andThen_Inr comp_eval)
  from run(2) obtain n where t: "t = ?F @ [PURGE_DIR, ''.tmp-'' @ n]" by (auto simp: tmp_path_def tmp_name_def)
  have i: "inside ?F t" "inside ?F p" "p \<noteq> []" "t \<noteq> p" "t \<noteq> []"
    using cert_dir(2) [OF k(3), of "''.tmp-'' @ n"] cert_dir(2) [OF k(3), of "''purge-'' @ ?x"] by (simp_all add: t p)
  have "sound ?F w1"
    using create_dir_stays(1) [OF cert_dir(1) [OF k(3), of ?x] k(1)] run(1) by (simp add: butlast_append stays_def)
  moreover have "same_env w1 w2" "wfs w2 = wfs w1" using run(2) by (auto simp: tmp_path_def same_env_def)
  ultimately have "sound ?F w2" by (rule sound_same)
  from p_write_sound [OF this i(1) run(3)] have w3: "sound ?F w3" "file_data (entries w3 t) = Some d" by simp_all
  then obtain m tm where "entries w3 t = Some (File d m tm)" by (auto simp: file_data_Some)
  from p_rename_sound(4) [OF w3(1) i(1,2,4,3) this run(4) refl] show "file_data (entries w' p) = Some d" by simp
  show "p \<in> cert_paths root" by (auto simp: cert_paths_def p)
qed

lemma identified_after:
  assumes "identified root i w" "purging root live X w w'" "fabric_id_path root \<notin> X"
  shows "identified root i w'"
proof -
  have "''..'' \<notin> set root" using assms(2) keeperD(3) by (auto simp: purging_def)
  note slot_facts(3) [OF key_slots(1) [OF this]]
  with assms show ?thesis by (simp add: identified_def purging_def)
qed

lemma fabric_id_apart:
  "fabric_id_path root \<notin> cert_paths root" "fabric_id_path root \<noteq> audit_path root" "tombstone_path root \<notin> cert_paths root"
  "tombstone_path root \<notin> {audit_path root, fabric_id_path root, secret_path root}" "audit_path root \<notin> cert_paths root"
  by (auto simp: cert_paths_def fabric_id_path_def audit_path_def tombstone_path_def secret_path_def FABRIC_ID_FILE_def
      TOMBSTONE_FILE_def SECRET_FILE_def)

text \<open>What \<open>certify\<close> leaves behind.\<close>

lemma certify_result:
  assumes "ed_ok C" "hex_ok C" "purge_json_ok C" "audit_json_ok C" "keeper root w" "sound live w" "utf8_valid rel"
    and "certify C root rel content s counts ts (w, v) = (Inr (p, msg), w', v')"
  shows "\<exists>sk q d. length sk = 32 \<and> purge_text q \<and> pp_kind q = ''respawn-purge'' \<and> pp_path q = rel \<and> pp_content q = hash_hex C content
    \<and> pp_chunks_removed q = fst counts \<and> pp_chunks_retained_shared q = snd counts \<and> pp_ts q = ts
    \<and> signed_cert C sk q = Inr d \<and> p \<in> cert_paths root \<and> file_data (entries w' p) = Some d \<and> identified root (pp_fabric_id q) w'"
    and "purging root live ({fabric_id_path root, secret_path root} \<union> cert_paths root) w w'"
proof -
  have dd: "''..'' \<notin> set root" by (rule keeperD(3) [OF assms(5)])
  let ?I = "purging root live {fabric_id_path root, secret_path root} w"
  from assms(8) obtain sk u nt w1 v1 len tip w2 i w3 d where
    kg: "key_get C root (w, v) = (Inr (sk, u, nt), w1, v1)" and at: "audit_tip C root w1 = (Inr (len, tip), w2)"
    and fi: "fabric_id C root w2 = (Inr i, w3)" and
    wc: "write_cert root ts (purge_id_of C rel content) (signed_cert C sk
       \<lparr>pp_kind = ''respawn-purge'', pp_version = 1, pp_fabric_id = i, pp_path = rel,
           pp_content = hash_hex C content, pp_chunks_removed = fst counts,
           pp_chunks_retained_shared = snd counts, pp_manifests_touched = ps_touched s,
           pp_audit_len = len, pp_audit_tip = tip, pp_ts = ts\<rparr>) w3 = (Inr p, w')"
    by (auto simp: certify_def Let_def andThen_Inr comp_eval on_disk_Inr split: sum.splits)
  let ?q = "\<lparr>pp_kind = ''respawn-purge'', pp_version = 1, pp_fabric_id = i, pp_path = rel,
           pp_content = hash_hex C content, pp_chunks_removed = fst counts,
           pp_chunks_retained_shared = snd counts, pp_manifests_touched = ps_touched s,
           pp_audit_len = len, pp_audit_tip = tip, pp_ts = ts\<rparr>"
  have sk: "length sk = 32" using yieldsD [OF yields_key_get kg] by simp
  have "(\<lambda>(w, v). ?I w) (w1, v1)"
    by (rule keepsD [OF purging_key_get [OF assms(2) dd] _ kg]) (use purging_refl [OF assms(5,6)] in auto)
  then have p1: "?I w1" by simp
  have "keeps ?I (audit_tip C root)"
    unfolding audit_tip_def Let_def by (intro keeps_intros inert_prims inert_purging)
  from keepsD [OF this p1 at] have p2: "?I w2" .
  have p3: "?I w3" by (rule keepsD [OF purging_fabric_id [OF assms(2)] p2 fi]) simp
  have k3: "keeper root w3" "sound live w3" using p3 by (simp_all add: purging_def)
  have i3: "identified root i w3" using fabric_id_result(3) [OF purging_keeper [OF p2] assms(2) fi] by simp
  have "utf8_valid i" using i3 by (auto simp: identified_def utf8_valid_trim)
  moreover have "utf8_valid tip" using yieldsD [OF yields_audit_tip [OF assms(4)] at] by simp
  moreover have "utf8_valid (hash_hex C content)" using hex_text [OF assms(2), of content] by (simp add: hash_hex_def)
  moreover have "utf8_valid ''respawn-purge''" by (simp add: code_def)
  ultimately have qt: "purge_text ?q" using assms(7) by (simp add: purge_text_def del: utf8_valid.simps)
  from signed_cert_accepted [OF assms(1-3) sk qt] obtain d where d: "signed_cert C sk ?q = Inr d" by auto
  note st = write_cert_stores [OF k3(1) wc [unfolded d]]
  have p4: "purging root live (cert_paths root) w3 w'"
    by (rule keepsD [OF purging_write_cert [OF subset_refl dd] purging_refl [OF k3] wc])
  from identified_after [OF i3 this fabric_id_apart(1)] sk qt d st
  show "\<exists>sk q d. length sk = 32 \<and> purge_text q \<and> pp_kind q = ''respawn-purge'' \<and> pp_path q = rel \<and> pp_content q = hash_hex C content
    \<and> pp_chunks_removed q = fst counts \<and> pp_chunks_retained_shared q = snd counts \<and> pp_ts q = ts
    \<and> signed_cert C sk q = Inr d \<and> p \<in> cert_paths root \<and> file_data (entries w' p) = Some d \<and> identified root (pp_fabric_id q) w'"
    by (intro exI [of _ sk] exI [of _ ?q] exI [of _ d]) simp
  show "purging root live ({fabric_id_path root, secret_path root} \<union> cert_paths root) w w'"
    by (rule purging_trans [OF purging_mono [OF p3] purging_mono [OF p4]]) auto
qed


section \<open>Its verification\<close>

lemma tombstones_there:
  assumes "tombstone_json_ok C" "keeper root w" "file_data (entries w (tombstone_path root)) = Some (tomb_text C ts)"
    and "list_all tombstone_text ts"
  shows "\<exists>w'. tombstones C root w = (Inr ts, w')"
proof -
  note k = keeperD [OF assms(2)]
  have utf: "utf8_valid (tomb_text C ts)"
    using assms(4) tomb_line(5) [OF assms(1)] by (induction ts) (auto intro!: utf8_valid_append simp: code_def)
  obtain r w' where q: "p_read_to_string (tombstone_path root) w = (r, w')" by fastforce
  from p_read_to_string_sound(5) [OF k(1) slot_facts(1) [OF tomb_slot [OF k(3)]] q k(2) assms(3) utf] q
    tomb_text_read [OF assms(1,4)] show ?thesis by (simp add: tombstones_def attempt_def comp_eval)
qed

definition purge_verdict :: "purge_payload \<Rightarrow> string" where
  "purge_verdict q = ''valid: '' @ pp_path q @ '' purged at '' @ dec (unat (pp_ts q)) @ '' (''
     @ dec (unat (pp_chunks_removed q)) @ '' chunks removed, '' @ dec (unat (pp_chunks_retained_shared q)) @ '' shared-retained)''"

lemma verify_cert_accepts:
  assumes "ed_ok C" "hex_ok C" "purge_json_ok C" "tombstone_json_ok C" "keeper root w" "length sk = 32" "purge_text q"
    and "pp_kind q = ''respawn-purge''" "signed_cert C sk q = Inr d" "inside (fabric_dir root) p"
    and "file_data (entries w p) = Some d" "identified root (pp_fabric_id q) w"
    and "file_data (entries w (tombstone_path root)) = Some (tomb_text C ts)" "list_all tombstone_text ts"
    and "t \<in> set ts" "t_path t = pp_path q" "t_content t = pp_content q"
  shows "fst (verify_cert C root p pin w) =
    (if pin = None \<or> pin = Some (hex_encode C (ed_public C sk)) then Inr (purge_verdict q)
     else Inl (Corrupt ''purge cert signer mismatch''))"
proof -
  note k = keeperD [OF assms(5)]
  obtain r w1 where rd: "p_read p w = (r, w1)" by fastforce
  note ps = p_read_sound [OF k(1) assms(10) rd]
  have r: "r = Inr d" using ps(5) [OF k(2) assms(11)] .
  have k1: "keeper root w1" by (rule keeper_evolves [OF assms(5) ps(1) ps(2) [of "{}"]])
  have e1: "entries w1 = entries w" using ps(3) by (simp add: entries_def)
  have "identified root (pp_fabric_id q) w1" using assms(12) by (simp add: identified_def e1)
  from fabric_id_known [OF k1 this] obtain w2 where fi: "fabric_id C root w1 = (Inr (pp_fabric_id q), w2)"
    and s2: "same_env w1 w2" "wfs w2 = wfs w1" by blast
  have k2: "keeper root w2" by (rule keeper_evolves [OF k1 sound_same [OF keeperD(1) [OF k1] s2] evolves_same [OF s2, of _ "{}"]])
  have "file_data (entries w2 (tombstone_path root)) = Some (tomb_text C ts)"
    using assms(13) e1 s2(2) by (simp add: entries_def)
  from tombstones_there [OF assms(4) k2 this assms(14)] obtain w3 where tb: "tombstones C root w2 = (Inr ts, w3)" by blast
  have "list_ex (\<lambda>t. t_path t = pp_path q \<and> t_content t = pp_content q) ts"
    using assms(15-17) by (auto simp: list_ex_iff)
  moreover have "checked_cert C pin d =
      (if pin = None \<or> pin = Some (hex_encode C (ed_public C sk)) then Inr q else Inl (Corrupt ''purge cert signer mismatch''))"
    using signed_cert_accepted [OF assms(1-3,6-8)] assms(9) by (cases pin) auto
  ultimately show ?thesis
    using rd r fi tb by (simp add: verify_cert_def comp_eval purge_verdict_def)
qed

text \<open>The tombstone of a run is text.\<close>

lemma new_tombstone_text:
  assumes "hex_ok C" "utf8_valid rel" "t_path t = rel" "t_content t = hash_hex C content"
    and "t_purge_id t = take 16 (purge_id_of C rel content)"
  shows "tombstone_text t"
proof -
  have "lower_hex (take 16 (purge_id_of C rel content))"
    unfolding purge_id_of_def using lower_hex_take_drop hash_hex_facts(2) [OF assms(1)] by blast
  then show ?thesis
    using assms(2-5) hex_text(1) [OF assms(1)] ascii_utf8_valid lower_hex_ascii
    by (simp add: tombstone_text_def hash_hex_def)
qed

text \<open>What stands when the erasure is done.\<close>

lemma after_erasure:
  assumes "hex_ok C" "keeper root w" "sanitize_rel rel = Inr comps" "sound (root @ comps) w"
    and "\<not> prefix (fabric_dir root) (root @ comps)" "utf8_valid rel"
    and "list_all tombstone_text ts" "data_at w (tombstone_path root) = tomb_text C ts"
    and "purge_plan C root (root @ comps) rel w = (Inr (content, s), w1)"
    and "purge_erase C root (root @ comps) rel content s w1 = (Inr x, w2)"
  obtains t where "keeper root w2" "sound (root @ comps) w2" "t_path t = rel" "t_content t = hash_hex C content"
    "list_all tombstone_text (ts @ [t])" "file_data (entries w2 (tombstone_path root)) = Some (tomb_text C (ts @ [t]))"
    "erased C root (ps_elsewhere s) (ps_chunks s) w2" "file_data (entries w2 (root @ comps)) = None"
proof -
  let ?live = "root @ comps"
  have dd: "''..'' \<notin> set ?live" using keeperD(3) [OF assms(2)] sanitize_rel_no_dotdot [OF assms(3)] by simp
  note k1 = still_run [OF inert_plan [OF inert_still] assms(2,9)]
  have e1: "entries w1 = entries w" using k1(2) by (simp add: entries_def)
  have sl: "sound ?live w1"
    using assms(4) keeperD(2) [OF k1(1)] k1(2) by (simp add: sound_def calm_quiet)
  note E = erase_result [OF assms(1) purging_refl [OF k1(1) sl] dd refl assms(10)]
  obtain t j where t: "json_tombstone C t = Inr j" "t_path t = rel" "t_content t = hash_hex C content"
    "t_purge_id t = take 16 (purge_id_of C rel content)"
    "file_data (entries w2 (tombstone_path root)) = Some (data_at w1 (tombstone_path root) @ j @ [newline])"
    and gone: "erased C root (ps_elsewhere s) (ps_chunks s) w2" "file_data (entries w2 ?live) = None"
    using E(2) [OF refl assms(5)] by blast
  have "list_all tombstone_text (ts @ [t])" "file_data (entries w2 (tombstone_path root)) = Some (tomb_text C (ts @ [t]))"
    using new_tombstone_text [OF assms(1,6) t(2-4)] t(1,5) assms(7,8) by (simp_all add: tomb_line_def data_at_def e1)
  with E(1) t(2,3) gone show thesis by (intro that) (simp_all add: purging_def)
qed

text \<open>A path with a tombstone cannot be purged again.\<close>

lemma purged_for_good:
  assumes "tombstone_json_ok C" "keeper root w" "sanitize_rel rel = Inr comps" "list_all tombstone_text ts" "t \<in> set ts"
    and "t_path t = rel" "file_data (entries w (tombstone_path root)) = Some (tomb_text C ts)"
  shows "fst (is_purged C root rel content w) = Inr True" "\<exists>e. fst (purge_run C root root rel (w, v)) = Inl e"
proof -
  let ?live = "root @ comps"
  have dead: "\<exists>w'. is_purged C root rel c x = (Inr True, w')" if "keeper root x" "wfs x = wfs w" for c x
  proof -
    have "file_data (entries x (tombstone_path root)) = Some (tomb_text C ts)" using assms(7) that(2) by (simp add: entries_def)
    moreover have "list_ex (matches C rel c) ts" using assms(5,6) by (auto simp: list_ex_iff matches_def)
    ultimately show ?thesis
      using tombstones_there [OF assms(1) that(1) _ assms(4)] by (fastforce simp: is_purged_def comp_eval)
  qed
  show "fst (is_purged C root rel content w) = Inr True" using dead [OF assms(2) refl, of content] by auto
  have rel: "replace_char backslash [slash] rel = rel"
    using assms(3) by (intro replace_char_notin) (auto simp: sanitize_rel_def split: if_splits)
  obtain pl y where plan: "purge_plan C root ?live rel w = (pl, y)" by fastforce
  have "\<exists>e. pl = Inl e"
  proof (rule ccontr)
    assume "\<nexists>e. pl = Inl e"
    then obtain c s' where "pl = Inr (c, s')" by (metis sum.exhaust surj_pair)
    with plan obtain lc y1 snaps y2 where run: "live_content C ?live w = (Inr lc, y1)"
      "list_snapshots C root y1 = (Inr snaps, y2)" "is_purged C root rel c y2 = (Inr False, y)"
      by (auto simp: purge_plan_def Let_def andThen_Inr comp_eval split: option.splits if_splits)
    have "keeps (still w) (live_content C ?live)"
      unfolding live_content_def by (intro keeps_intros inert_prims inert_still)
    note 1 = still_run [OF this assms(2) run(1)]
    note 2 = still_run [OF inert_list_snapshots [OF inert_still] 1(1) run(2)]
    from dead [OF 2(1), where c = c] 1(2) 2(2) run(3) show False by auto
  qed
  then show "\<exists>e. fst (purge_run C root root rel (w, v)) = Inl e"
    using assms(3) plan rel by (auto simp: purge_run_def Let_def comp_eval on_disk_eval(2))
qed

section \<open>The property\<close>

text \<open>C32: A purge that succeeds can be proved. In a calm fabric whose tombstones are well formed, for a
  live path outside \<open>.respawn\<close> and free of links, a run that reports success leaves a certificate
  at the path it reports which \<open>verify_cert\<close> accepts in the world the run leaves (format, kind,
  signature, fabric and matching tombstone), with no pin or with one key pinned, the one that signed
  it; with another key pinned it is refused. The verdict names the purged path and the numbers of
  chunks removed and retained that the run has reported.\<close>

theorem purge_certified:
  assumes "ed_ok C" "hex_ok C" "purge_json_ok C" "tombstone_json_ok C" "audit_json_ok C" "keeper root w"
    and "sanitize_rel rel = Inr comps" "sound (root @ comps) w" "\<not> prefix (fabric_dir root) (root @ comps)"
    and "\<not> is_tmp (root @ comps)" "utf8_valid rel" "list_all tombstone_text ts"
    and "data_at w (tombstone_path root) = tomb_text C ts" "purge_run C root root rel (w, v) = (Inr rep, w', v')"
  shows "\<exists>key (t :: 64 word). \<forall>pin. fst (verify_cert C root (pr_cert_path rep) pin w') =
    (if pin = None \<or> pin = Some key then
       Inr (''valid: '' @ rel @ '' purged at '' @ dec (unat t) @ '' ('' @ dec (unat (pr_chunks_removed rep))
         @ '' chunks removed, '' @ dec (unat (pr_chunks_retained_shared rep)) @ '' shared-retained)'')
     else Inl (Corrupt ''purge cert signer mismatch''))"
proof -
  let ?live = "root @ comps"
  have dd: "''..'' \<notin> set root" "''..'' \<notin> set ?live"
    using keeperD(3) [OF assms(6)] sanitize_rel_no_dotdot [OF assms(7)] by simp_all
  have rel: "replace_char backslash [slash] rel = rel"
    using assms(7) by (intro replace_char_notin) (auto simp: sanitize_rel_def split: if_splits)
  obtain pl w1 where plan: "purge_plan C root ?live rel w = (pl, w1)" by fastforce
  obtain content s where pl: "pl = Inr (content, s)"
    using assms(7,14) plan rel by (cases pl) (auto simp: purge_run_def Let_def comp_eval on_disk_eval(2))
  obtain er w2 where erase: "purge_erase C root ?live rel content s w1 = (er, w2)" by fastforce
  obtain counts tm gone where er: "er = Inr (counts, tm, gone)"
    using tail_reached [OF assms(7,14) plan [unfolded pl] erase refl rel] by (metis prod.exhaust)
  obtain t where k2: "keeper root w2" "sound ?live w2" and t: "t_path t = rel" "t_content t = hash_hex C content"
    and us: "list_all tombstone_text (ts @ [t])" "file_data (entries w2 (tombstone_path root)) = Some (tomb_text C (ts @ [t]))"
    by (rule after_erasure [OF assms(2,6-9,11-13) plan [unfolded pl] erase [unfolded er]])
  note run = purge_run_split [OF assms(7) rel plan [unfolded pl] erase, of v, unfolded assms(14) er sum.case prod.case, symmetric]
  then obtain p msg w3 v3 where
    ce: "certify C root rel content s counts tm (w2, v) = (Inr (p, msg), w3, v3)" and
    au: "audit_record C root ''purge''
       (rel @ '' removed='' @ dec (unat (fst counts)) @ '' shared='' @ dec (unat (snd counts))) w3 = (Inr (), w')" and
    rep: "pr_cert_path rep = p" "pr_chunks_removed rep = fst counts" "pr_chunks_retained_shared rep = snd counts"
    by (auto simp: andThen_Inr comp_eval on_disk_Inr)
  obtain sk q d where c: "length sk = 32" "purge_text q" "pp_kind q = ''respawn-purge''" "pp_path q = rel"
    "pp_content q = hash_hex C content" "pp_chunks_removed q = fst counts" "pp_chunks_retained_shared q = snd counts"
    "pp_ts q = tm" "signed_cert C sk q = Inr d" "p \<in> cert_paths root" "file_data (entries w3 p) = Some d"
    "identified root (pp_fabric_id q) w3"
    using certify_result(1) [OF assms(1-3,5) k2 assms(11) ce] by blast
  note p3 = certify_result(2) [OF assms(1-3,5) k2 assms(11) ce]
  have p4: "purging root ?live {audit_path root} w3 w'"
    by (rule keepsD [OF purging_audit_record [OF _ dd(1)] purging_refl au]) (use p3 in \<open>auto simp: purging_def\<close>)
  note nt = slot_facts(3) [OF tomb_slot [OF dd(1)]]
  obtain x where x: "p = fabric_dir root @ [PURGE_DIR, ''purge-'' @ x]" using c(10) by (auto simp: cert_paths_def)
  have "p \<noteq> audit_path root" using c(10) fabric_id_apart(5) by metis
  then have fin: "file_data (entries w' p) = Some d"
    using p4 c(11) slot_facts(3) [OF cert_dir(1) [OF dd(1), of x]] by (simp add: purging_def x)
  have idn: "identified root (pp_fabric_id q) w'"
    using identified_after [OF c(12) p4] fabric_id_apart(2) by simp
  have "file_data (entries w3 (tombstone_path root)) = file_data (entries w2 (tombstone_path root))"
    using p3 nt fabric_id_apart(3,4) by (simp add: purging_def)
  then have tb: "file_data (entries w' (tombstone_path root)) = Some (tomb_text C (ts @ [t]))"
    using p4 nt fabric_id_apart(4) us(2) by (simp add: purging_def)
  have i: "inside (fabric_dir root) p" using cert_dir(2) [OF dd(1), of "''purge-'' @ x"] by (simp add: x)
  note v = verify_cert_accepts [OF assms(1-4) purging_keeper [OF p4] c(1-3,9) i fin idn tb us(1), of t]
  have pv: "purge_verdict q = ''valid: '' @ rel @ '' purged at '' @ dec (unat tm) @ '' ('' @ dec (unat (pr_chunks_removed rep))
         @ '' chunks removed, '' @ dec (unat (pr_chunks_retained_shared rep)) @ '' shared-retained)''"
    by (simp add: purge_verdict_def c rep)
  have all: "\<forall>pin. fst (verify_cert C root (pr_cert_path rep) pin w') =
      (if pin = None \<or> pin = Some (hex_encode C (ed_public C sk)) then Inr (purge_verdict q)
       else Inl (Corrupt ''purge cert signer mismatch''))"
    using v t c(4,5) by (simp add: rep(1))
  show ?thesis by (intro exI [of _ "hex_encode C (ed_public C sk)"] exI [of _ tm], rule all [unfolded pv])
qed


text \<open>C33: A purge without a key erases all the same. When the content has been found and erased and the
  signing key then cannot be had, the run ends in the error of the key; by then the live file is
  gone, with every chunk of the path that is not shared, and the tombstone stands. And no later run
  can make up for the certificate: with whatever key, in the world that is left, it refuses.\<close>

theorem purge_keyless:
  assumes "hex_ok C" "tombstone_json_ok C" "keeper root w" "sanitize_rel rel = Inr comps" "sound (root @ comps) w"
    and "\<not> prefix (fabric_dir root) (root @ comps)" "\<not> is_tmp (root @ comps)" "utf8_valid rel"
    and "list_all tombstone_text ts" "data_at w (tombstone_path root) = tomb_text C ts"
    and "purge_plan C root (root @ comps) rel w = (Inr (content, s), w1)"
    and "purge_erase C root (root @ comps) rel content s w1 = (Inr x, w2)" "key_get C root (w2, v) = (Inl e, w3, v3)"
  shows "purge_run C root root rel (w, v) = (Inl e, w3, v3)
    \<and> file_data (entries w3 (root @ comps)) = None
    \<and> (\<forall>ch \<in> set (ps_chunks s) - set (ps_elsewhere s). file_data (entries w3 (object_path C root ch)) = None)
    \<and> fst (is_purged C root rel content w3) = Inr True
    \<and> (\<forall>v'. \<exists>e'. fst (purge_run C root root rel (w3, v')) = Inl e')"
proof -
  let ?live = "root @ comps"
  have dd: "''..'' \<notin> set root" "''..'' \<notin> set ?live"
    using keeperD(3) [OF assms(3)] sanitize_rel_no_dotdot [OF assms(4)] by simp_all
  have rel: "replace_char backslash [slash] rel = rel"
    using assms(4) by (intro replace_char_notin) (auto simp: sanitize_rel_def split: if_splits)
  obtain t where k2: "keeper root w2" "sound ?live w2" and t: "t_path t = rel"
    and us: "list_all tombstone_text (ts @ [t])" "file_data (entries w2 (tombstone_path root)) = Some (tomb_text C (ts @ [t]))"
    and gone: "erased C root (ps_elsewhere s) (ps_chunks s) w2" "file_data (entries w2 ?live) = None"
    by (rule after_erasure [OF assms(1,3-6,8-12)])
  let ?I = "purging root ?live {fabric_id_path root, secret_path root} w2"
  have "(\<lambda>(w, v). ?I w) (w3, v3)"
    by (rule keepsD [OF purging_key_get [OF assms(1) dd(1)] _ assms(13)]) (use purging_refl [OF k2] in auto)
  then have p3: "?I w3" by simp
  then have k3: "keeper root w3" by (rule purging_keeper)
  have kept: "file_data (entries w3 p) = file_data (entries w2 p)" if "\<not> is_tmp p" "p \<notin> {fabric_id_path root, secret_path root}" for p
    using p3 that by (simp add: purging_def)
  have live: "file_data (entries w3 ?live) = None"
  proof -
    have "?live \<notin> {fabric_id_path root, secret_path root}" using assms(6) by (auto simp: fabric_id_path_def secret_path_def)
    with kept [OF assms(7)] gone(2) show ?thesis by simp
  qed
  have obj: "file_data (entries w3 (object_path C root ch)) = None" if "ch \<in> set (ps_chunks s) - set (ps_elsewhere s)" for ch
    using kept [of "object_path C root ch"] slot_facts(3) [OF slot_object(1) [OF assms(1) dd(1), of ch]] that gone(1)
    by (auto simp: erased_def object_path_def Let_def fabric_id_path_def secret_path_def)
  have tb: "file_data (entries w3 (tombstone_path root)) = Some (tomb_text C (ts @ [t]))"
    using kept [of "tombstone_path root"] slot_facts(3) [OF tomb_slot [OF dd(1)]] us(2) fabric_id_apart(4) by simp
  have run: "purge_run C root root rel (w, v) = (Inl e, w3, v3)"
    using purge_run_split [OF assms(4) rel assms(11,12), of v] assms(13) by (cases x) (auto simp: certify_def comp_eval)
  have "t \<in> set (ts @ [t])" by simp
  from run live obj purged_for_good [OF assms(2) k3 assms(4) us(1) this t tb] show ?thesis by blast
qed

lemma ref_purge_logs: "audit_json_ok ref_purge_crates" "tombstone_json_ok ref_purge_crates"
  by (simp_all add: ref_audit_ok ref_tombstone_ok ref_purge_crates_def ref_sign_crates_def ref_snap_crates_def
      ref_audit_crates_def audit_crates.defs snap_crates.defs crates.defs sign_crates.defs)

section \<open>A purge step by step\<close>

text \<open>A file \<open>a\<close> that no snapshot holds, in a fabric with an identity, and with a signing key or without.\<close>

abbreviation "RC \<equiv> ref_purge_crates"

definition key_file :: "bool \<Rightarrow> fs" where
  "key_file b = (if b then [([''.respawn'', ''anchor.secret''], File (hex_encode RC seed) 0x180 0)] else [])"

definition purge_fs :: "bool \<Rightarrow> fs" where
  "purge_fs b = [([''.respawn''], Dir), ([''.respawn'', ''HEAD''], File [] 0x1A4 0),
     ([''.respawn'', ''fabric_id''], File ''f1'' 0x1A4 0)] @ key_file b @ [([''a''], File ''old'' 0x1A4 0)]"

definition old_hash :: hash where "old_hash = hash_bytes RC ''old''"

definition old_scan :: purge_scan where
  "old_scan = \<lparr>ps_content = Some old_hash, ps_touched = 0, ps_chunks = [], ps_elsewhere = []\<rparr>"

lemmas purge_eval = run_eval p_is_file_def p_is_dir_def fs_is_file_def p_write_def p_truncate_def fs_truncate_def
  secret_path_def SECRET_FILE_def fabric_id_path_def FABRIC_ID_FILE_def

lemma purge_planned:
  "purge_plan RC [] [''a''] ''a'' (bench (purge_fs b) 10 0 False) = (Inr (old_hash, old_scan), bench (purge_fs b) 15 0 False)"
  by (cases b) (simp_all add: key_file_def purge_plan_def live_content_def list_snapshots_def store_head_def for_manifest_names_def is_purged_def tombstones_def
      purge_eval purge_fs_def parse_head_empty hash_reader_eq scan_history_def old_hash_def [symmetric] old_scan_def)

definition old_tomb :: tombstone where
  "old_tomb = \<lparr>t_path = ''a'', t_content = hash_hex RC old_hash, t_purge_id = take 16 (purge_id_of RC ''a'' old_hash), t_ts = 0\<rparr>"

definition erased_fs :: "bool \<Rightarrow> fs" where
  "erased_fs b = [([''.respawn''], Dir), ([''.respawn'', ''HEAD''], File [] 0x1A4 0),
     ([''.respawn'', ''fabric_id''], File ''f1'' 0x1A4 0)] @ key_file b
     @ [([''.respawn'', ''purged.jsonl''], File (tomb_line RC old_tomb @ [newline]) 0x1A4 5)]"

lemma tomb_line_ref: "json_tombstone RC t = Inr (tomb_line RC t)"
  by (simp add: tomb_line_def ref_purge_crates_def ref_sign_crates_def ref_snap_crates_def
      ref_audit_crates_def audit_crates.defs snap_crates.defs crates.defs sign_crates.defs ref_json_tombstone_def)

lemma purge_erased:
  "purge_erase RC [] [''a''] ''a'' old_hash old_scan (bench (purge_fs b) 15 0 False) = (Inr ((0, 0), 0, True), bench (erased_fs b) 22 0 False)"
  by (cases b) (simp_all add: key_file_def purge_erase_def record_tombstone_def remove_live_def old_scan_def purge_eval purge_fs_def
      tomb_line_ref old_tomb_def [symmetric] erased_fs_def)


definition old_payload :: purge_payload where
  "old_payload = \<lparr>pp_kind = ''respawn-purge'', pp_version = 1, pp_fabric_id = ''f1'', pp_path = ''a'',
     pp_content = hash_hex RC old_hash, pp_chunks_removed = 0, pp_chunks_retained_shared = 0, pp_manifests_touched = 0,
     pp_audit_len = 0, pp_audit_tip = [], pp_ts = 0\<rparr>"

definition old_cert :: bytes where
  "old_cert = (case signed_cert RC seed old_payload of Inr d \<Rightarrow> d | Inl _ \<Rightarrow> [])"

lemma old_cert: "signed_cert RC seed old_payload = Inr old_cert" "\<exists>j. json_purge RC old_payload = Inr j"
proof -
  have t: "purge_text old_payload" "pp_kind old_payload = ''respawn-purge''" "length seed = 32"
    by (simp_all add: purge_text_def old_payload_def code_def seed_def hex_text(1) [OF ref_purge_facts(2)] hash_hex_def)
  show "signed_cert RC seed old_payload = Inr old_cert"
    using signed_cert_accepted [OF ref_purge_facts(3,2,1) t(3,1,2)] by (auto simp: old_cert_def)
  show "\<exists>j. json_purge RC old_payload = Inr j"
    using t(1) ref_purge_facts(1) by (auto simp: purge_json_ok_def)
qed

lemma seed_read: "hex_decode RC (trim (hex_encode RC seed)) = Some seed" "length seed = 32" "utf8_valid (hex_encode RC seed)"
  using hex_text [OF ref_purge_facts(2), of seed] ref_purge_facts(2) by (simp_all add: hex_ok_def seed_def)

lemma line_ref: "json_audit RC e = Inr (line_of RC e)"
  by (simp add: line_of_def ref_purge_crates_def ref_sign_crates_def ref_snap_crates_def ref_audit_crates_def
      audit_crates.defs snap_crates.defs crates.defs sign_crates.defs ref_json_audit_def)

lemma purge_certifies:
  "\<exists>p w'. certify RC [] ''a'' old_hash old_scan (0, 0) 0 (bench (erased_fs True) 22 0 False, no_vault) = (Inr (p, None), w', no_vault)
     \<and> (\<exists>w''. audit_record RC [] ''purge'' det w' = (Inr (), w''))"
proof -
  obtain j where j: "json_purge RC old_payload = Inr j" using old_cert(2) by blast
  let ?w = "bench (erased_fs True) 22 0 False"
  have 1: "key_get RC [] (?w, no_vault) = (Inr (seed, InFile, None), bench (erased_fs True) 23 0 False, no_vault)"
    by (simp add: key_get_def is_macos_def no_vault_def key_from_file_def read_secret_file_def on_disk_def purge_eval erased_fs_def key_file_def seed_read)
  have 2: "audit_tip RC [] (bench (erased_fs True) 23 0 False) = (Inr (0, []), bench (erased_fs True) 24 0 False)"
    by (simp add: audit_tip_def purge_eval fs_exists_def erased_fs_def key_file_def)
  have 3: "fabric_id RC [] (bench (erased_fs True) 24 0 False) = (Inr ''f1'', bench (erased_fs True) 25 0 False)"
  proof -
    have "trim ''f1'' = ''f1''" by code_simp
    then show ?thesis by (simp add: fabric_id_def purge_eval erased_fs_def key_file_def code_def)
  qed
  let ?name = "''purge-'' @ dec (unat (0 :: 64 word)) @ ''-'' @ take 8 (purge_id_of RC ''a'' old_hash) @ ''.json''"
  let ?fs = "erased_fs True @ [([''.respawn'', ''purges''], Dir), ([''.respawn'', ''purges'', ?name], File old_cert 0x1A4 5)]"
  have 4: "write_cert [] 0 (purge_id_of RC ''a'' old_hash) (Inr old_cert) (bench (erased_fs True) 25 0 False)
      = (Inr [''.respawn'', ''purges'', ?name], bench ?fs 29 1 False)"
    by (simp add: write_cert_def purge_eval PURGE_DIR_def erased_fs_def key_file_def)
  have 5: "\<exists>w''. audit_record RC [] ''purge'' det (bench ?fs 29 1 False) = (Inr (), w'')"
    by (simp add: audit_record_def purge_eval erased_fs_def key_file_def line_ref)
  have "certify RC [] ''a'' old_hash old_scan (0, 0) 0 (?w, no_vault)
      = (Inr ([''.respawn'', ''purges'', ?name], None), bench ?fs 29 1 False, no_vault)"
    unfolding certify_def
    by (simp add: comp_eval on_disk_def 1 2 3 4 old_payload_def [symmetric] j old_cert(1) old_scan_def)
  with 5 show ?thesis by blast
qed

abbreviation purge_start :: "bool \<Rightarrow> world" where "purge_start b \<equiv> bench (purge_fs b) 10 0 False"

lemma purge_runs:
  "\<exists>rep w'. purge_run RC [] [] ''a'' (purge_start True, no_vault) = (Inr rep, w', no_vault)
     \<and> pr_chunks_removed rep = 0 \<and> pr_chunks_retained_shared rep = 0"
proof -
  have r: "replace_char backslash [slash] ''a'' = ''a''" by (simp add: replace_char_def)
  have s: "sanitize_rel ''a'' = Inr [''a'']" by (rule sanitize_a)
  have e: "purge_erase RC [] ([] @ [''a'']) ''a'' old_hash old_scan (bench (purge_fs True) 15 0 False)
      = (Inr ((0, 0), 0, True), bench (erased_fs True) 22 0 False)"
    using purge_erased by simp
  have p: "purge_plan RC [] ([] @ [''a'']) ''a'' (purge_start True) = (Inr (old_hash, old_scan), bench (purge_fs True) 15 0 False)"
    using purge_planned by simp
  let ?det = "''a'' @ '' removed='' @ dec (unat (0 :: 64 word)) @ '' shared='' @ dec (unat (0 :: 64 word))"
  obtain q w1 w2 where "certify RC [] ''a'' old_hash old_scan (0, 0) 0 (bench (erased_fs True) 22 0 False, no_vault) = (Inr (q, None), w1, no_vault)"
    "audit_record RC [] ''purge'' ?det w1 = (Inr (), w2)"
    using purge_certifies by blast
  then show ?thesis
    using purge_run_split [OF s r p e, of no_vault] by (simp add: comp_eval on_disk_def)
qed

lemma purge_start_facts:
  "keeper [] (purge_start b)" "sound [''a''] (purge_start b)" "data_at (purge_start b) (tombstone_path []) = tomb_text RC []"
proof -
  have "sound F (fresh_world (purge_fs b))" if "''..'' \<notin> set F" for F
    using that by (intro plain_fs_sound) (auto simp: plain_fs_def purge_fs_def key_file_def)
  then have "sound F (purge_start b)" if "''..'' \<notin> set F" for F
    using that by (simp add: sound_def quiet_def bench_def fresh_world_def)
  then show "keeper [] (purge_start b)" "sound [''a''] (purge_start b)"
    by (simp_all add: keeper_def fabric_dir_def FABRIC_DIR_def calm_def quiet_def bench_def)
  show "data_at (purge_start b) (tombstone_path []) = tomb_text RC []"
    by (simp add: data_at_def bench_def entries_def entry_at_def purge_fs_def key_file_def place_eval)
qed

theorem purge_certified_witness:
  "\<exists>rep w' v' key (t :: 64 word). purge_run RC [] [] ''a'' (purge_start True, no_vault) = (Inr rep, w', v')
     \<and> fst (verify_cert RC [] (pr_cert_path rep) (Some key) w') =
          Inr (''valid: '' @ ''a'' @ '' purged at '' @ dec (unat t) @ '' ('' @ dec (unat (0 :: 64 word))
            @ '' chunks removed, '' @ dec (unat (0 :: 64 word)) @ '' shared-retained)'')
     \<and> fst (verify_cert RC [] (pr_cert_path rep) (Some (CHR ''x'' # key)) w') = Inl (Corrupt ''purge cert signer mismatch'')"
proof -
  obtain rep w' where run: "purge_run RC [] [] ''a'' (purge_start True, no_vault) = (Inr rep, w', no_vault)"
    and z: "pr_chunks_removed rep = 0" "pr_chunks_retained_shared rep = 0" using purge_runs by blast
  have s: "sanitize_rel ''a'' = Inr [''a'']" by (rule sanitize_a)
  have l: "sound ([] @ [''a'']) (purge_start True)" using purge_start_facts(2) by simp
  have n: "\<not> prefix (fabric_dir []) ([] @ [''a''])" "\<not> is_tmp ([] @ [''a''])"
    by (simp_all add: fabric_dir_def FABRIC_DIR_def is_tmp_def)
  have u: "utf8_valid ''a''" "list_all tombstone_text []" by (simp_all add: code_def)
  let ?msg = "\<lambda>t :: 64 word. ''valid: '' @ ''a'' @ '' purged at '' @ dec (unat t) @ '' ('' @ dec (unat (pr_chunks_removed rep))
      @ '' chunks removed, '' @ dec (unat (pr_chunks_retained_shared rep)) @ '' shared-retained)''"
  from purge_certified [OF ref_purge_facts(3,2,1) ref_purge_logs(2,1) purge_start_facts(1) s l n u purge_start_facts(3) run]
  obtain key t where all: "\<forall>pin. fst (verify_cert RC [] (pr_cert_path rep) pin w') =
        (if pin = None \<or> pin = Some key then Inr (?msg t) else Inl (Corrupt ''purge cert signer mismatch''))"
    by (elim exE)
  have "fst (verify_cert RC [] (pr_cert_path rep) (Some key) w') = Inr (?msg t)"
    using spec [OF all, of "Some key"] by (simp only: simp_thms if_True)
  moreover have "fst (verify_cert RC [] (pr_cert_path rep) (Some (CHR ''x'' # key)) w') = Inl (Corrupt ''purge cert signer mismatch'')"
    using all by simp
  ultimately show ?thesis
    using run unfolding z by blast
qed

theorem purge_keyless_witness:
  "\<exists>w'. purge_run RC [] [] ''a'' (purge_start False, no_vault) = (Inl no_anchor_key, w', no_vault)
     \<and> file_data (entries (purge_start False) [''a'']) = Some ''old'' \<and> file_data (entries w' [''a'']) = None
     \<and> (\<forall>v'. \<exists>e'. fst (purge_run RC [] [] ''a'' (w', v')) = Inl e')"
proof -
  have s: "sanitize_rel ''a'' = Inr [''a'']" by (rule sanitize_a)
  have l: "sound ([] @ [''a'']) (purge_start False)" using purge_start_facts(2) by simp
  have n: "\<not> prefix (fabric_dir []) ([] @ [''a''])" "\<not> is_tmp ([] @ [''a''])"
    by (simp_all add: fabric_dir_def FABRIC_DIR_def is_tmp_def)
  have u: "utf8_valid ''a''" "list_all tombstone_text []" by (simp_all add: code_def)
  have p: "purge_plan RC [] ([] @ [''a'']) ''a'' (purge_start False) = (Inr (old_hash, old_scan), bench (purge_fs False) 15 0 False)"
    using purge_planned by simp
  have e: "purge_erase RC [] ([] @ [''a'']) ''a'' old_hash old_scan (bench (purge_fs False) 15 0 False)
      = (Inr ((0, 0), 0, True), bench (erased_fs False) 22 0 False)"
    using purge_erased by simp
  have k: "key_get RC [] (bench (erased_fs False) 22 0 False, no_vault) = (Inl no_anchor_key, bench (erased_fs False) 23 0 False, no_vault)"
    by (simp add: key_get_def is_macos_def no_vault_def key_from_file_def read_secret_file_def on_disk_def purge_eval erased_fs_def key_file_def)
  have "file_data (entries (purge_start False) [''a'']) = Some ''old''"
    by (simp add: bench_def entries_def entry_at_def purge_fs_def key_file_def)
  then show ?thesis
    using purge_keyless [OF ref_purge_facts(2) ref_purge_logs(2) purge_start_facts(1) s l n u purge_start_facts(3) p e k] by simp
qed

end
