(* ===== verification/Anchor_Inside.thy ===== *)
theory Anchor_Inside
  imports Certified
begin

text \<open>
  Where the check of an anchor's destination (\<open>create\<close> in \<open>src/anchor.rs\<close>) is blind: a bare file name.
  Its parent is the empty path, which cannot be looked up, so the candidate stays relative and
  starts with no absolute path; the write goes to the working directory all the same.
\<close>

section \<open>A bare name\<close>







section \<open>A run from inside the fabric\<close>





end
