(* ===== verification/Spec2Isabelle.thy ===== *)
theory Spec2Isabelle
  imports Undo Cli_Facts Store_Spec Anchor_Inside
begin

text \<open>
  A verification development for \<^verbatim>\<open>respawn\<close>, a local time machine for a worktree: snapshots in a
  content-addressed store, drift and revert, a hash-chained audit log with signed anchors, purges
  with certificates, guarded commands, fleet orders and peer-to-peer sync. Each definition is the
  translation of a function or type under \<^verbatim>\<open>src/src\<close>, by the same name where HOL has no constant of
  that name; each group of lemmas says what the translated code does.

  \<^bold>\<open>The program and how its parts meet.\<close> Everything of a fabric lives in \<^verbatim>\<open>.respawn\<close> at the root of a
  worktree: \<^verbatim>\<open>objects/\<close> (chunks, by hash), \<^verbatim>\<open>manifests/\<close> (snapshots, by hash), \<^verbatim>\<open>HEAD\<close>, \<^verbatim>\<open>audit.jsonl\<close>,
  \<^verbatim>\<open>purged.jsonl\<close>, \<^verbatim>\<open>fabric_id\<close>, keys and markers, and the advisory lock. A snapshot walks the worktree,
  cuts each file into chunks, stores the chunks, then the manifest, then moves HEAD; drift compares
  the worktree with a manifest; revert writes it back; guard does both around a command. The command
  line opens the store, takes the lock for whatever writes, calls these and records the event in the
  audit log. Anchors sign the tip of the log; purge erases a path from the store and the history and
  signs a certificate; fleet and sync bring manifests and objects from other machines, trusting
  nothing a peer sends.

  \<^bold>\<open>The model of the system.\<close>
  \<^item> \<open>Prelude\<close>: bytes and strings (a Rust \<^verbatim>\<open>String\<close> is its UTF-8 bytes, a list of characters), UTF-8
    validity, trimming, splitting, decimals; the computations \<open>('w, 'e, 'a) comp\<close> (a state in, an error
    or a value and a state out, early return by \<open>andThen\<close>), triples and invariants over them.
  \<^item> \<open>Filesystem\<close>: files, directories and symbolic links at physical paths and the part of
    \<^verbatim>\<open>std::fs\<close> that is used, link resolution included (at most 40 links, the limit of Linux; beyond it
    the call fails as there).
  \<^item> \<open>Fabric\<close> (\<^verbatim>\<open>lib.rs\<close>): the errors, the constants, hashes and paths; the record \<open>world\<close> (files, clock,
    environment, lock, counter of temporary names) and the system calls on it. Each call takes one
    step, on which another process may change the files (\<open>winterf\<close>), and which may fail with any error
    (\<open>wfault\<close>), a write after any number of bytes. \<open>quiet\<close> is a world without interference, \<open>calm\<close> one
    without faults either; properties say which they need, some need neither.
  \<^item> \<open>World_Facts\<close>, \<open>Store_Frame\<close>, \<open>Tree_Reads\<close>, \<open>Tree_Writes\<close>: what each call does in a link-free
    fabric (\<open>sound\<close>), the frame of an operation (\<open>evolves\<close>: which entries may change), the part of the
    store every operation keeps, and the same for a worktree in which links may stand.
  \<^item> \<open>Content_Store\<close>: the interface of a content-addressed store, as the locales \<open>content_store\<close> (put and
    get of bytes under their key, the invariant and the frame) and \<open>verified_store\<close> (reads check the key);
    \<open>Store\<close> interprets both on its own objects and the first on its manifests, and the clients prove
    their lemmas from these facts.
  \<^item> \<open>Crate_Instances\<close>: concrete functions for every crate, at which all witnesses are evaluated.

  \<^bold>\<open>The components.\<close>
  \<^item> \<open>Store\<close>, \<open>Store_Spec\<close> (\<^verbatim>\<open>store.rs\<close>): layout, atomic writes, put and get of objects and manifests, HEAD,
    the lock, finding the root. Any session of calls behaves as a map that only grows, under every
    schedule of faults.
  \<^item> \<open>Audit_Log\<close> (\<^verbatim>\<open>audit.rs\<close>): recording, verifying and the anchored prefix. What is accepted is exactly a
    chain; what an anchor covers cannot have been altered, but for a collision of the hash.
  \<^item> \<open>Manifest\<close>, \<open>Snapshot\<close>, \<open>Capture\<close>, \<open>Resolve\<close> (\<^verbatim>\<open>snapshot.rs\<close>, \<^verbatim>\<open>cdc.rs\<close>): the manifest, its validation and
    difference, and the making of a snapshot: which files it names with which content, and that it is
    crash safe.
  \<^item> \<open>Tombstones\<close>, \<open>Purge\<close>, \<open>Certified\<close> (\<^verbatim>\<open>purge.rs\<close>): what a purge erases and spares, that the certificate
    it writes is accepted afterwards, and that without a key it erases all the same.
  \<^item> \<open>Drift\<close> (\<^verbatim>\<open>drift.rs\<close>), \<open>Revert\<close>, \<open>Revert_Facts\<close>, \<open>Surgical\<close> (\<^verbatim>\<open>revert.rs\<close>): the verdict on every path;
    confinement to the worktree whatever the manifest and the links; what a success restores.
  \<^item> \<open>Guard\<close>, \<open>Guarded_Run\<close>, \<open>Undo\<close> (\<^verbatim>\<open>guard.rs\<close>): snapshot, command and revert as one, and the run whose
    command cannot start.
  \<^item> \<open>Keys\<close> (\<^verbatim>\<open>keychain.rs\<close>, identity in \<^verbatim>\<open>anchor.rs\<close>), \<open>Anchors\<close>, \<open>Anchor_Facts\<close>, \<open>Anchor_Inside\<close> (\<^verbatim>\<open>anchor.rs\<close>): the
    secret and its mode, minting, verification both ways, and where the check of the destination fails.
  \<^item> \<open>Fleet\<close> (\<^verbatim>\<open>fleet.rs\<close>): what an order must satisfy before anything changes, and what is recorded after.
  \<^item> \<open>Transport\<close> (\<^verbatim>\<open>secure.rs\<close>), \<open>Sync\<close> (\<^verbatim>\<open>sync.rs\<close>): frames over an arbitrary stream of bytes, the handshake,
    the two ends of the protocol, the listener as a step relation, and pull from a hostile peer.
  \<^item> \<open>Commands\<close>, \<open>Admin\<close> (\<^verbatim>\<open>admin.rs\<close>), \<open>Schedule\<close> (\<^verbatim>\<open>schedule.rs\<close>), \<open>Apfs\<close> (\<^verbatim>\<open>apfs.rs\<close>), \<open>Watch\<close> (\<^verbatim>\<open>watch.rs\<close>),
    \<open>Calendar\<close>, \<open>Cli\<close>, \<open>Cli_Facts\<close> (\<^verbatim>\<open>main.rs\<close>): the shell command and the property list as a shell and a
    plist reader read them, volumes and their snapshots, reports, dates, and every command of the tool with
    its lock, output and exit code.

  \<^bold>\<open>Code that is not in the repository\<close> is a parameter. The crates are the fields of the records
  \<open>crates\<close> (blake3, hex, zstd), \<open>audit_crates\<close> and \<open>snap_crates\<close> (serde_json, fastcdc, walkdir), \<open>sign_crates\<close>
  (ed25519-dalek), \<open>purge_crates\<close> and \<open>fleet_crates\<close>, each extending the one before, and of \<open>noise\<close> (snow). What
  the code relies on are the hypotheses \<open>hex_ok\<close>, \<open>zstd_ok\<close>, \<open>blake3_ok\<close> (32 bytes, nothing about collisions: a
  statement that needs one excludes it by name), the \<open>*_json_ok\<close> (what is written is read back), \<open>cdc_ok\<close>
  (the pieces add up to the input), \<open>walk_ok\<close> (a walk lists what is there) and \<open>ed_ok\<close> (a signature verifies
  under its key). Programs of the system (\<^verbatim>\<open>id\<close>, \<^verbatim>\<open>launchctl\<close>, \<^verbatim>\<open>tmutil\<close> and so on) are the function
  \<open>h_run\<close> of a \<open>host\<close>, the guarded command is a \<open>spawner\<close> that may do anything to the world, the Keychain is the
  state \<open>vault\<close> with its failures, a peer is any sequence of bytes.

  \<^bold>\<open>Bounds and termination.\<close> Integers have their width (\<open>64 word\<close> for \<^verbatim>\<open>u64\<close> and \<^verbatim>\<open>usize\<close> counters, \<open>32 word\<close> for
  modes and exit codes) and wrap as a release build does; the calendar is computed in words and shown
  to agree with the exact one. Loops are structural or have a measure: \<open>find_up\<close> the depth of the path, the
  chain of parents the manifests not yet seen, pull its remaining budget of manifests, \<open>deepest\<close> the
  components left. Counted loops keep the code's counts, 3 retries in \<open>capture_loop\<close> (\<open>QUIESCE_RETRIES\<close>) and
  1000 names in \<open>next_from\<close>, and fail as the code does when these run out; no fuel is added.

  \<^bold>\<open>Simplifications.\<close> Names of files are UTF-8, so that \<^verbatim>\<open>to_string_lossy\<close> and \<^verbatim>\<open>display\<close> change nothing; HOME is
  absolute. One call reads a whole file; \<^verbatim>\<open>create_dir_all\<close> is one step; a walk of a directory is one
  listing, and an unreadable directory is an item of it, which \<open>walk_ok\<close> excludes. A set that is iterated is
  a list without repetition, and nothing rests on its order. The temporary names end in the process id and a
  counter; other files are distinguished from them by their prefix \<^verbatim>\<open>.tmp-\<close>, and statements that "no
  other file changes" leave these out. The paths of \<^verbatim>\<open>anchor create\<close>, \<^verbatim>\<open>next\<close> and \<^verbatim>\<open>schedule\<close> are the texts
  typed, resolved against the working directory where the code does; the other commands only pass
  theirs to the system. Output is kept by lines.

  \<^bold>\<open>Not modelled.\<close> The parsing of arguments (clap) and of events (notify, and the clock that ends a round of
  \<^verbatim>\<open>watch\<close>: the rounds are an input), sockets and threads of the accept loop (\<open>listen_step\<close> has its
  decisions), the choice of cut points inside fastcdc; benches, tests and fuzz targets, which drive the code above.
\<close>

end
